(* ===== verification/Prelude.thy ===== *)
theory Prelude
  imports Complex_Main "HOL-Library.AList"
begin

section \<open>Prelude: the JavaScript idioms every component shares\<close>

text \<open>
  This theory holds what the component theories have in common.

  \<^item> Throwing code is modelled by values of a sum type \<open>'e + 'a\<close>; \<open>bindR\<close>, \<open>foldR\<close> and
    \<open>mapR\<close> are statement sequencing, \<open>Array.prototype.reduce\<close> and \<open>Array.prototype.map\<close>
    with a body that may throw.
  \<^item> A JavaScript \<open>Map\<close> keeps its insertion order and overwrites in place, which is what
    \<open>AList.update\<close>, \<open>AList.delete\<close> and \<open>map_of\<close> do on association lists; a JavaScript
    \<open>Set\<close> is a duplicate-free list.
  \<^item> Numbers that the code treats as integers are \<open>int\<close>; where the code checks
    \<open>Number.isSafeInteger\<close> the bound is written out with \<open>MAX_SAFE_INTEGER\<close>.
  \<^item> \<open>take_first\<close> is \<open>findIndex\<close> followed by \<open>splice(index, 1)\<close>.
\<close>

named_theorems result_simps \<open>inversion rules for the result-valued combinators\<close>
named_theorems inv_intros \<open>introduction rules for component invariants\<close>

subsection \<open>Safe integers\<close>

definition MAX_SAFE_INTEGER :: int where
  "MAX_SAFE_INTEGER = 9007199254740991"

definition isSafeInteger :: "int \<Rightarrow> bool" where
  "isSafeInteger n \<longleftrightarrow> - MAX_SAFE_INTEGER \<le> n \<and> n \<le> MAX_SAFE_INTEGER"

subsection \<open>Results: values or thrown errors\<close>

fun bindR :: "'e + 'a \<Rightarrow> ('a \<Rightarrow> 'e + 'b) \<Rightarrow> 'e + 'b" where
  "bindR (Inl e) f = Inl e"
| "bindR (Inr a) f = f a"

fun foldR :: "('x \<Rightarrow> 'a \<Rightarrow> 'e + 'a) \<Rightarrow> 'x list \<Rightarrow> 'a \<Rightarrow> 'e + 'a" where
  "foldR f [] a = Inr a"
| "foldR f (x # xs) a = bindR (f x a) (foldR f xs)"

fun mapR :: "('x \<Rightarrow> 'e + 'y) \<Rightarrow> 'x list \<Rightarrow> 'e + 'y list" where
  "mapR f [] = Inr []"
| "mapR f (x # xs) = bindR (f x) (\<lambda>y. bindR (mapR f xs) (\<lambda>ys. Inr (y # ys)))"

lemma bindR_cong [fundef_cong]:
  "m = n \<Longrightarrow> (\<And>a. n = Inr a \<Longrightarrow> f a = g a) \<Longrightarrow> bindR m f = bindR n g"
  by (cases n) auto

lemma bindR_eq_Inr [result_simps]:
  "bindR m f = Inr b \<longleftrightarrow> (\<exists>a. m = Inr a \<and> f a = Inr b)"
  by (cases m) auto

lemma bindR_eq_Inl [result_simps]:
  "bindR m f = Inl e \<longleftrightarrow> m = Inl e \<or> (\<exists>a. m = Inr a \<and> f a = Inl e)"
  by (cases m) auto

lemma bindR_Inr_right [simp]: "bindR m Inr = m"
  by (cases m) auto

lemma bindR_assoc: "bindR (bindR m f) g = bindR m (\<lambda>a. bindR (f a) g)"
  by (cases m) auto

lemma foldR_append: "foldR f (xs @ ys) a = bindR (foldR f xs a) (foldR f ys)"
  by (induction xs arbitrary: a) (auto simp: bindR_assoc intro: bindR_cong)

lemma foldR_single [simp]: "foldR f [x] = f x"
  by (rule ext) (simp add: foldR.simps(1) [abs_def])

lemma foldR_snoc: "foldR f (xs @ [x]) a = bindR (foldR f xs a) (f x)"
  by (simp add: foldR_append)

lemma foldR_cong_set:
  "(\<And>x a. x \<in> set xs \<Longrightarrow> f x a = g x a) \<Longrightarrow> foldR f xs a = foldR g xs a"
  by (induction xs arbitrary: a) (auto intro: bindR_cong)

lemma mapR_length [dest]: "mapR f xs = Inr ys \<Longrightarrow> length ys = length xs"
  by (induction xs arbitrary: ys) (auto simp: result_simps)

lemma mapR_Inr_map: "(\<And>x. x \<in> set xs \<Longrightarrow> f x = Inr (g x)) \<Longrightarrow> mapR f xs = Inr (map g xs)"
  by (induction xs) auto

subsection \<open>Arrays\<close>

text \<open>\<open>xs.findIndex(p)\<close> and then \<open>xs.splice(i, 1)\<close>: the element taken and the rest.\<close>

fun take_first :: "('a \<Rightarrow> bool) \<Rightarrow> 'a list \<Rightarrow> ('a \<times> 'a list) option" where
  "take_first P [] = None"
| "take_first P (x # xs) =
     (if P x then Some (x, xs)
      else map_option (\<lambda>(y, ys). (y, x # ys)) (take_first P xs))"

lemma take_first_None: "take_first P xs = None \<longleftrightarrow> (\<forall>x \<in> set xs. \<not> P x)"
  by (induction xs) auto

lemma take_first_Some:
  "take_first P xs = Some (y, ys) \<longleftrightarrow>
     (\<exists>us vs. xs = us @ y # vs \<and> ys = us @ vs \<and> P y \<and> (\<forall>u \<in> set us. \<not> P u))"
proof (induction xs arbitrary: ys)
  case Nil
  then show ?case by simp
next
  case (Cons x xs)
  show ?case (is "_ \<longleftrightarrow> (\<exists>us vs. ?split us vs)")
  proof (cases "P x")
    case True
    have "?split us vs \<longleftrightarrow> us = [] \<and> x = y \<and> xs = ys \<and> vs = xs" for us vs
      using True by (cases us) auto
    with True show ?thesis by auto
  next
    case False
    have "?split us vs \<longleftrightarrow> (\<exists>us'. us = x # us' \<and> xs = us' @ y # vs \<and> ys = x # us' @ vs
        \<and> P y \<and> (\<forall>u \<in> set us'. \<not> P u))" for us vs
      using False by (cases us) auto
    then show ?thesis using False by (auto simp: Cons.IH)
  qed
qed

lemma find_eq_take_first: "List.find P xs = map_option fst (take_first P xs)"
  by (induction xs) (auto simp: option.map_comp comp_def split_def)

subsection \<open>ASCII lower-casing\<close>

text \<open>\<open>String.prototype.toLowerCase\<close> on the ASCII identifiers the code compares.\<close>

definition lower_char :: "char \<Rightarrow> char" where
  "lower_char c = (if of_char c \<ge> (65::nat) \<and> of_char c \<le> (90::nat) then char_of (of_char c + (32::nat)) else c)"

definition toLowerCase :: "string \<Rightarrow> string" where
  "toLowerCase = map lower_char"

lemma lower_char_idem [simp]: "lower_char (lower_char c) = lower_char c"
  by (auto simp: lower_char_def)

lemma toLowerCase_idem [simp]: "toLowerCase (toLowerCase s) = toLowerCase s"
  by (simp add: toLowerCase_def)

lemma toLowerCase_Nil [simp]: "toLowerCase s = [] \<longleftrightarrow> s = []"
  by (simp add: toLowerCase_def)

lemma alist_update_new: "k \<notin> fst ` set al \<Longrightarrow> AList.update k v al = al @ [(k, v)]"
  by (induction al) auto

subsection \<open>Decimal numbers\<close>

definition digit_value :: "char \<Rightarrow> int option" where
  "digit_value c = (let n = of_char c in if 48 \<le> n \<and> n \<le> 57 then Some (n - 48) else None)"

fun digits_value :: "string \<Rightarrow> int \<Rightarrow> int option" where
  "digits_value [] acc = Some acc"
| "digits_value (c # cs) acc = (case digit_value c of None \<Rightarrow> None | Some d \<Rightarrow> digits_value cs (10 * acc + d))"

subsection \<open>Runs of a labelled system and their invariants\<close>

text \<open>
  A stateful component is an initial-state predicate and a step relation whose steps carry
  the effects they have. \<open>run init step ls s\<close> says that \<open>s\<close> can be reached with the effects
  \<open>ls\<close>, oldest first.
\<close>

inductive run :: "('s \<Rightarrow> bool) \<Rightarrow> ('s \<Rightarrow> 'l list \<Rightarrow> 's \<Rightarrow> bool) \<Rightarrow> 'l list \<Rightarrow> 's \<Rightarrow> bool"
  for init step where
  run_init: "init s \<Longrightarrow> run init step [] s"
| run_step: "run init step ls s \<Longrightarrow> step s l t \<Longrightarrow> run init step (ls @ l) t"

text \<open>
  The contract of an invariant: it holds at the start and every step keeps it. It may
  speak of the effects so far as well as of the state.
\<close>

locale run_invariant =
  fixes init :: "'s \<Rightarrow> bool"
    and step :: "'s \<Rightarrow> 'l list \<Rightarrow> 's \<Rightarrow> bool"
    and J :: "'l list \<Rightarrow> 's \<Rightarrow> bool"
  assumes J_init: "init s \<Longrightarrow> J [] s"
    and J_step: "J ls s \<Longrightarrow> step s l t \<Longrightarrow> J (ls @ l) t"
begin

lemma holds: "run init step ls s \<Longrightarrow> J ls s"
  by (induction rule: run.induct) (auto intro: J_init J_step)

lemma holds_along:
  assumes "run init step ls s" and "step s l t"
  shows "J ls s \<and> J (ls @ l) t"
  using assms by (auto intro: holds run_step)

end

end
