(* ===== verification/ConnectionManager.thy ===== *)
theory ConnectionManager
  imports Prelude
begin

section \<open>The connection manager\<close>

text \<open>
  Model of \<open>packages/transaction/src/transport/connection/manager.ts\<close>: the state machine
  that carries a client from a live connection through a dropout and back.

  The class instance is the record \<open>conn\<close>. Every method that changes it is one function
  from the old instance to the new one, together with the list of effects it has on the
  outside world in the order the code performs them (callbacks invoked, probes and
  reconnects started, page reloads). What the browser and the clock answer is the
  argument \<open>conn_env\<close>. An awaited call is split where the code suspends: starting it is an
  effect, and its completion (\<open>runProbe_done\<close>, \<open>refresh_done\<close>, \<open>runReconnect_done\<close>) is a
  step of its own that may happen at any later time. Re-entrant calls from the
  \<open>onStateChange\<close> callback are not modelled; logging is dropped.
\<close>

subsection \<open>Data\<close>

datatype ConnectionState =
    Connected | Offline | ProbingNetwork | ValidatingSession | RefreshingCredential
  | Reconnecting | Backoff | WaitingForNetwork | AuthBlocked | SessionExpired

datatype ConnectionEvent =
    NETWORK_LOST | NETWORK_ONLINE | TAB_VISIBLE | WS_CONNECTED | WS_DISCONNECTED
  | WS_SESSION_ERROR | WS_HANDSHAKE_FAILED | PROBE_SUCCESS bool | PROBE_AUTH_BLOCKED
  | PROBE_CREDENTIAL_STALE | PROBE_FAILED | CREDENTIAL_REFRESHED | RECONNECT_SUCCESS
  | RECONNECT_FAILED | BACKOFF_ELAPSED | BOOTSTRAP_FAILED_SESSION | MANUAL_RETRY

datatype ProbeOutcome =
    Reachable | ProbeSessionExpired | CredentialStale | ProbeAuthBlocked | Unreachable

datatype ReconnectOutcome = ReconnectOk | ReconnectSessionError | ReconnectNetworkError

datatype RefreshOutcome = Refreshed | RefreshSessionError | RefreshNetworkError

record backoff_config =
  BASE_MS :: int
  MAX_MS :: int
  MAX_ATTEMPTS :: nat
  JITTER :: real

definition DEFAULT_BACKOFF :: backoff_config where
  "DEFAULT_BACKOFF = \<lparr>BASE_MS = 2000, MAX_MS = 30000, MAX_ATTEMPTS = 8, JITTER = 15 / 100\<rparr>"

definition ONLINE_DEBOUNCE_MS :: int where "ONLINE_DEBOUNCE_MS = 500"
definition WATCHDOG_INTERVAL_MS :: int where "WATCHDOG_INTERVAL_MS = 30000"
definition MAX_STUCK_CYCLES_BEFORE_RELOAD :: nat where "MAX_STUCK_CYCLES_BEFORE_RELOAD = 6"
definition MAX_CREDENTIAL_REFRESH_ATTEMPTS :: nat where "MAX_CREDENTIAL_REFRESH_ATTEMPTS = 3"

text \<open>Which of the optional callbacks the embedding store wired.\<close>

record callbacks =
  has_onRefreshCredential :: bool
  has_onStateChange :: bool

text \<open>
  The instance. \<open>callbacks\<close> is \<open>None\<close> before \<open>start\<close> and after \<open>dispose\<close>. A timer field
  holds the delay of an armed timer; \<open>debounceTimer\<close> and \<open>watchdogTimer\<close> only say whether
  one is armed, since their delays are constants.
\<close>

record conn =
  state :: ConnectionState
  offlineSince :: "int option"
  attempt :: nat
  lastProbeResult :: "ProbeOutcome option"
  cbs :: "callbacks option"
  backoffTimer :: "int option"
  debounceTimer :: bool
  watchdogTimer :: bool
  stuckCycles :: nat
  credentialRefreshAttempts :: nat
  disposed :: bool
  backoff :: backoff_config

text \<open>
  What the host answers: \<open>typeof window\<close>, \<open>navigator.onLine\<close> (\<open>None\<close> when there is no
  \<open>navigator\<close>, or one without that property, as in Node), \<open>Date.now()\<close>, \<open>Math.random()\<close>.
\<close>

record conn_env =
  has_window :: bool
  onLine :: "bool option"
  now_ms :: int
  random01 :: real

datatype conn_effect =
    OnStateChange ConnectionState ConnectionState
  | OnDisconnectWebSocket
  | OnSessionExpired
  | StartProbe
  | StartReconnect
  | StartRefresh
  | HardReload

type_synonym conn_result = "conn \<times> conn_effect list"

definition new_ConnectionManager :: "backoff_config \<Rightarrow> conn" where
  "new_ConnectionManager cfg =
     \<lparr>state = Connected, offlineSince = None, attempt = 0, lastProbeResult = None, cbs = None,
      backoffTimer = None, debounceTimer = False, watchdogTimer = False, stuckCycles = 0,
      credentialRefreshAttempts = 0, disposed = False, backoff = cfg\<rparr>"

subsection \<open>The pure transition function\<close>

definition transition :: "ConnectionState \<Rightarrow> ConnectionEvent \<Rightarrow> ConnectionState option" where
  "transition st ev = (case st of
     Connected \<Rightarrow> (case ev of
         NETWORK_LOST \<Rightarrow> Some Offline
       | WS_DISCONNECTED \<Rightarrow> Some ProbingNetwork
       | WS_SESSION_ERROR \<Rightarrow> Some SessionExpired
       | BOOTSTRAP_FAILED_SESSION \<Rightarrow> Some SessionExpired
       | WS_HANDSHAKE_FAILED \<Rightarrow> Some ProbingNetwork
       | TAB_VISIBLE \<Rightarrow> Some ProbingNetwork
       | _ \<Rightarrow> None)
   | Offline \<Rightarrow> (case ev of
         NETWORK_ONLINE \<Rightarrow> Some ProbingNetwork
       | MANUAL_RETRY \<Rightarrow> Some ProbingNetwork
       | TAB_VISIBLE \<Rightarrow> Some ProbingNetwork
       | WS_HANDSHAKE_FAILED \<Rightarrow> Some ProbingNetwork
       | CREDENTIAL_REFRESHED \<Rightarrow> Some ProbingNetwork
       | WS_SESSION_ERROR \<Rightarrow> Some SessionExpired
       | BOOTSTRAP_FAILED_SESSION \<Rightarrow> Some SessionExpired
       | _ \<Rightarrow> None)
   | ProbingNetwork \<Rightarrow> (case ev of
         PROBE_SUCCESS sessionValid \<Rightarrow> Some (if sessionValid then Reconnecting else SessionExpired)
       | PROBE_CREDENTIAL_STALE \<Rightarrow> Some RefreshingCredential
       | PROBE_AUTH_BLOCKED \<Rightarrow> Some AuthBlocked
       | PROBE_FAILED \<Rightarrow> Some WaitingForNetwork
       | NETWORK_LOST \<Rightarrow> Some Offline
       | _ \<Rightarrow> None)
   | WaitingForNetwork \<Rightarrow> (case ev of
         NETWORK_ONLINE \<Rightarrow> Some ProbingNetwork
       | TAB_VISIBLE \<Rightarrow> Some ProbingNetwork
       | MANUAL_RETRY \<Rightarrow> Some ProbingNetwork
       | BACKOFF_ELAPSED \<Rightarrow> Some ProbingNetwork
       | CREDENTIAL_REFRESHED \<Rightarrow> Some ProbingNetwork
       | NETWORK_LOST \<Rightarrow> Some Offline
       | _ \<Rightarrow> None)
   | ValidatingSession \<Rightarrow> (case ev of
         PROBE_SUCCESS sessionValid \<Rightarrow> Some (if sessionValid then Reconnecting else SessionExpired)
       | PROBE_CREDENTIAL_STALE \<Rightarrow> Some RefreshingCredential
       | PROBE_AUTH_BLOCKED \<Rightarrow> Some AuthBlocked
       | NETWORK_LOST \<Rightarrow> Some Offline
       | _ \<Rightarrow> None)
   | RefreshingCredential \<Rightarrow> (case ev of
         CREDENTIAL_REFRESHED \<Rightarrow> Some ProbingNetwork
       | BOOTSTRAP_FAILED_SESSION \<Rightarrow> Some SessionExpired
       | RECONNECT_FAILED \<Rightarrow> Some Backoff
       | PROBE_AUTH_BLOCKED \<Rightarrow> Some AuthBlocked
       | NETWORK_LOST \<Rightarrow> Some Offline
       | _ \<Rightarrow> None)
   | Reconnecting \<Rightarrow> (case ev of
         RECONNECT_SUCCESS \<Rightarrow> Some Connected
       | WS_CONNECTED \<Rightarrow> Some Connected
       | RECONNECT_FAILED \<Rightarrow> Some Backoff
       | WS_HANDSHAKE_FAILED \<Rightarrow> Some Backoff
       | BOOTSTRAP_FAILED_SESSION \<Rightarrow> Some SessionExpired
       | WS_SESSION_ERROR \<Rightarrow> Some SessionExpired
       | NETWORK_LOST \<Rightarrow> Some Offline
       | _ \<Rightarrow> None)
   | Backoff \<Rightarrow> (case ev of
         BACKOFF_ELAPSED \<Rightarrow> Some ProbingNetwork
       | MANUAL_RETRY \<Rightarrow> Some ProbingNetwork
       | WS_HANDSHAKE_FAILED \<Rightarrow> Some ProbingNetwork
       | NETWORK_ONLINE \<Rightarrow> Some ProbingNetwork
       | TAB_VISIBLE \<Rightarrow> Some ProbingNetwork
       | CREDENTIAL_REFRESHED \<Rightarrow> Some ProbingNetwork
       | NETWORK_LOST \<Rightarrow> Some Offline
       | WS_SESSION_ERROR \<Rightarrow> Some SessionExpired
       | BOOTSTRAP_FAILED_SESSION \<Rightarrow> Some SessionExpired
       | _ \<Rightarrow> None)
   | AuthBlocked \<Rightarrow> (case ev of
         MANUAL_RETRY \<Rightarrow> Some ProbingNetwork
       | TAB_VISIBLE \<Rightarrow> Some ProbingNetwork
       | NETWORK_ONLINE \<Rightarrow> Some ProbingNetwork
       | CREDENTIAL_REFRESHED \<Rightarrow> Some ProbingNetwork
       | NETWORK_LOST \<Rightarrow> Some Offline
       | WS_SESSION_ERROR \<Rightarrow> Some SessionExpired
       | BOOTSTRAP_FAILED_SESSION \<Rightarrow> Some SessionExpired
       | _ \<Rightarrow> None)
   | SessionExpired \<Rightarrow> None)"

subsection \<open>Timers and backoff\<close>

definition clearBackoffTimer :: "conn \<Rightarrow> conn" where
  "clearBackoffTimer s = s\<lparr>backoffTimer := None\<rparr>"

definition clearDebounceTimer :: "conn \<Rightarrow> conn" where
  "clearDebounceTimer s = s\<lparr>debounceTimer := False\<rparr>"

definition baseDelay :: "backoff_config \<Rightarrow> nat \<Rightarrow> int" where
  "baseDelay cfg n = min (BASE_MS cfg * 2 ^ n) (MAX_MS cfg)"

definition backoffDelay :: "backoff_config \<Rightarrow> nat \<Rightarrow> real \<Rightarrow> int" where
  "backoffDelay cfg n r =
     (let base = real_of_int (baseDelay cfg n); jitter = base * JITTER cfg * (2 * r - 1)
      in round (base + jitter))"

definition scheduleBackoff :: "conn_env \<Rightarrow> conn \<Rightarrow> conn_result" where
  "scheduleBackoff env s0 =
     (let s = clearBackoffTimer s0 in
      if MAX_ATTEMPTS (backoff s) \<le> attempt s then
        if onLine env = Some False then (s\<lparr>attempt := 0\<rparr>, [])
        else (s, if has_window env then [HardReload] else [])
      else
        (s\<lparr>attempt := Suc (attempt s),
           backoffTimer := Some (backoffDelay (backoff s) (attempt s) (random01 env))\<rparr>, []))"

subsection \<open>Sending events\<close>

definition call :: "conn \<Rightarrow> conn_effect \<Rightarrow> conn_effect list" where
  "call s fx = (if cbs s = None then [] else [fx])"

definition notify :: "conn \<Rightarrow> ConnectionState \<Rightarrow> ConnectionState \<Rightarrow> conn_effect list" where
  "notify s nxt prev = (case cbs s of
      Some cb \<Rightarrow> if has_onStateChange cb then [OnStateChange nxt prev] else []
    | None \<Rightarrow> [])"

text \<open>The field updates of \<open>send\<close> once a transition is found.\<close>

definition commit_transition :: "conn_env \<Rightarrow> ConnectionState \<Rightarrow> conn \<Rightarrow> conn" where
  "commit_transition env nxt s =
     (let prev = state s;
          s1 = s\<lparr>state := nxt\<rparr>;
          s2 = (if prev = Connected \<and> nxt \<noteq> Connected
                then s1\<lparr>offlineSince := Some (now_ms env)\<rparr> else s1)
      in if nxt = Connected then s2\<lparr>offlineSince := None, attempt := 0, stuckCycles := 0\<rparr> else s2)"

text \<open>
  Neither event that entering \<open>refreshing_credential\<close> may send at once leads back to that state.
\<close>

lemma transition_blocked_not_refreshing:
  "transition st PROBE_AUTH_BLOCKED \<noteq> Some RefreshingCredential"
  "transition st CREDENTIAL_REFRESHED \<noteq> Some RefreshingCredential"
  by (cases st; simp add: transition_def)+

text \<open>
  \<open>send\<close>, \<open>onEnterState\<close> and the part of \<open>runRefreshCredential\<close> before its \<open>await\<close> call each
  other: entering \<open>refreshing_credential\<close> may send a further event at once.
\<close>

function send :: "conn_env \<Rightarrow> conn \<Rightarrow> ConnectionEvent \<Rightarrow> conn_result"
  and onEnterState :: "conn_env \<Rightarrow> ConnectionState \<Rightarrow> ConnectionEvent \<Rightarrow> conn \<Rightarrow> conn_result"
  and runRefreshCredential :: "conn_env \<Rightarrow> conn \<Rightarrow> conn_result" where
  "send env s ev =
     (if disposed s then (s, [])
      else case transition (state s) ev of
        None \<Rightarrow> (s, [])
      | Some nxt \<Rightarrow>
          let s1 = commit_transition env nxt s;
              r = onEnterState env nxt ev s1
          in (fst r, notify s1 nxt (state s) @ snd r))"
| "onEnterState env st ev s =
     (case st of
        Connected \<Rightarrow> ((clearBackoffTimer s)\<lparr>credentialRefreshAttempts := 0\<rparr>, [])
      | Offline \<Rightarrow> (clearBackoffTimer s, call s OnDisconnectWebSocket)
      | ProbingNetwork \<Rightarrow>
          (s, (if ev = WS_DISCONNECTED then call s OnDisconnectWebSocket else []) @ [StartProbe])
      | WaitingForNetwork \<Rightarrow> scheduleBackoff env s
      | Reconnecting \<Rightarrow> (s, call s StartReconnect)
      | RefreshingCredential \<Rightarrow> runRefreshCredential env s
      | Backoff \<Rightarrow> scheduleBackoff env s
      | AuthBlocked \<Rightarrow> (clearBackoffTimer s, call s OnDisconnectWebSocket)
      | SessionExpired \<Rightarrow>
          (clearBackoffTimer s, call s OnDisconnectWebSocket @ call s OnSessionExpired)
      | ValidatingSession \<Rightarrow> (s, []))"
| "runRefreshCredential env s =
     (if MAX_CREDENTIAL_REFRESH_ATTEMPTS \<le> credentialRefreshAttempts s
      then send env (s\<lparr>credentialRefreshAttempts := 0\<rparr>) PROBE_AUTH_BLOCKED
      else let s1 = s\<lparr>credentialRefreshAttempts := Suc (credentialRefreshAttempts s)\<rparr>
           in case cbs s of
                Some cb \<Rightarrow> if has_onRefreshCredential cb then (s1, [StartRefresh])
                           else send env s1 CREDENTIAL_REFRESHED
              | None \<Rightarrow> send env s1 CREDENTIAL_REFRESHED)"
  by pat_completeness auto

termination
  by (relation "measure (\<lambda>x. case x of
        Inl (env, s, ev) \<Rightarrow> if transition (state s) ev = Some RefreshingCredential then 5 else (2::nat)
      | Inr (Inl (env, st, ev, s)) \<Rightarrow> if st = RefreshingCredential then 4 else 1
      | Inr (Inr (env, s)) \<Rightarrow> 3)")
    (auto simp: transition_blocked_not_refreshing)

declare send.simps [simp del] onEnterState.simps [simp del] runRefreshCredential.simps [simp del]

subsection \<open>Completions of the asynchronous operations\<close>

text \<open>\<open>None\<close> is a probe that threw.\<close>

definition runProbe_done :: "conn_env \<Rightarrow> conn \<Rightarrow> ProbeOutcome option \<Rightarrow> conn_result" where
  "runProbe_done env s res = (case res of
     None \<Rightarrow> send env s PROBE_FAILED
   | Some outcome \<Rightarrow>
       let s1 = s\<lparr>lastProbeResult := Some outcome\<rparr> in
       (case outcome of
          Reachable \<Rightarrow> send env s1 (PROBE_SUCCESS True)
        | ProbeSessionExpired \<Rightarrow> send env s1 (PROBE_SUCCESS False)
        | CredentialStale \<Rightarrow> send env s1 PROBE_CREDENTIAL_STALE
        | ProbeAuthBlocked \<Rightarrow> send env s1 PROBE_AUTH_BLOCKED
        | Unreachable \<Rightarrow> send env s1 PROBE_FAILED))"

text \<open>The part of \<open>runRefreshCredential\<close> after its \<open>await\<close>; \<open>None\<close> is a refresher that threw.\<close>

definition refresh_done :: "conn_env \<Rightarrow> conn \<Rightarrow> RefreshOutcome option \<Rightarrow> conn_result" where
  "refresh_done env s res = (case res of
     Some Refreshed \<Rightarrow> send env s CREDENTIAL_REFRESHED
   | Some RefreshSessionError \<Rightarrow> send env s BOOTSTRAP_FAILED_SESSION
   | Some RefreshNetworkError \<Rightarrow> send env s RECONNECT_FAILED
   | None \<Rightarrow> send env s RECONNECT_FAILED)"

definition runReconnect_done :: "conn_env \<Rightarrow> conn \<Rightarrow> ReconnectOutcome option \<Rightarrow> conn_result" where
  "runReconnect_done env s res = (case res of
     Some ReconnectOk \<Rightarrow> send env s RECONNECT_SUCCESS
   | Some ReconnectSessionError \<Rightarrow> send env s BOOTSTRAP_FAILED_SESSION
   | Some ReconnectNetworkError \<Rightarrow> send env s RECONNECT_FAILED
   | None \<Rightarrow> send env s RECONNECT_FAILED)"

definition backoffTimer_fires :: "conn_env \<Rightarrow> conn \<Rightarrow> conn_result" where
  "backoffTimer_fires env s = send env (s\<lparr>backoffTimer := None\<rparr>) BACKOFF_ELAPSED"

subsection \<open>Browser listeners and the watchdog\<close>

definition handleBrowserOnline :: "conn \<Rightarrow> conn_result" where
  "handleBrowserOnline s = ((clearDebounceTimer s)\<lparr>debounceTimer := True\<rparr>, [])"

text \<open>The debounce timer firing: it is no longer armed when its callback runs.\<close>

definition debounceTimer_fires :: "conn_env \<Rightarrow> conn \<Rightarrow> conn_result" where
  "debounceTimer_fires env s = send env (s\<lparr>debounceTimer := False\<rparr>) NETWORK_ONLINE"

definition handleBrowserOffline :: "conn_env \<Rightarrow> conn \<Rightarrow> conn_result" where
  "handleBrowserOffline env s = send env (clearDebounceTimer s) NETWORK_LOST"

definition handleVisibilityChange :: "conn_env \<Rightarrow> bool \<Rightarrow> conn \<Rightarrow> conn_result" where
  "handleVisibilityChange env visible s = (if visible then send env s TAB_VISIBLE else (s, []))"

definition isStuck :: "conn \<Rightarrow> bool" where
  "isStuck s \<longleftrightarrow> state s \<noteq> Connected \<and> state s \<noteq> SessionExpired \<and> state s \<noteq> ProbingNetwork
     \<and> state s \<noteq> RefreshingCredential \<and> state s \<noteq> Reconnecting"

text \<open>One tick of the interval that \<open>startWatchdog\<close> installs.\<close>

definition watchdog_tick :: "conn_env \<Rightarrow> conn \<Rightarrow> conn_result" where
  "watchdog_tick env s =
     (if disposed s then (s, [])
      else if isStuck s then
        let s1 = s\<lparr>stuckCycles := Suc (stuckCycles s)\<rparr>;
            browserOnline = (case onLine env of None \<Rightarrow> True | Some b \<Rightarrow> b)
        in if MAX_STUCK_CYCLES_BEFORE_RELOAD \<le> stuckCycles s1 \<and> browserOnline
           then (s1, if has_window env then [HardReload] else [])
           else send env (s1\<lparr>attempt := 0\<rparr>) MANUAL_RETRY
      else (s\<lparr>stuckCycles := 0\<rparr>, []))"

subsection \<open>Lifecycle and views\<close>

definition startWatchdog :: "conn_env \<Rightarrow> conn \<Rightarrow> conn" where
  "startWatchdog env s = (if has_window env then s\<lparr>watchdogTimer := True\<rparr> else s)"

definition start :: "conn_env \<Rightarrow> callbacks \<Rightarrow> conn \<Rightarrow> conn" where
  "start env cb s = startWatchdog env (s\<lparr>cbs := Some cb\<rparr>)"

definition dispose :: "conn \<Rightarrow> conn" where
  "dispose s = (clearDebounceTimer (clearBackoffTimer (s\<lparr>disposed := True\<rparr>)))
     \<lparr>watchdogTimer := False, cbs := None\<rparr>"

definition isConnected :: "conn \<Rightarrow> bool" where
  "isConnected s \<longleftrightarrow> state s = Connected"

definition isOffline :: "conn \<Rightarrow> bool" where
  "isOffline s \<longleftrightarrow> state s = Offline \<or> state s = WaitingForNetwork"

definition isReconnecting :: "conn \<Rightarrow> bool" where
  "isReconnecting s \<longleftrightarrow> state s = ProbingNetwork \<or> state s = ValidatingSession
     \<or> state s = RefreshingCredential \<or> state s = Reconnecting \<or> state s = Backoff"

definition isSessionExpired :: "conn \<Rightarrow> bool" where
  "isSessionExpired s \<longleftrightarrow> state s = SessionExpired"

text \<open>The label of \<open>offlineDuration\<close>, as its unit and count.\<close>

datatype duration_label = JustNow | MinutesAgo int | HoursAgo int | DaysAgo int

definition offlineDuration :: "int \<Rightarrow> conn \<Rightarrow> duration_label option" where
  "offlineDuration now s = (case offlineSince s of
     None \<Rightarrow> None
   | Some since \<Rightarrow>
       let ms = now - since; seconds = ms div 1000; minutes = seconds div 60; hours = minutes div 60
       in Some (if seconds < 60 then JustNow
                else if minutes < 60 then MinutesAgo minutes
                else if hours < 24 then HoursAgo hours
                else DaysAgo (hours div 24)))"

subsection \<open>Runs\<close>

text \<open>
  A step is one callback of the host into the manager. Timers fire only while armed, and
  the browser listeners only between \<open>start\<close> and \<open>dispose\<close>; the asynchronous completions
  may arrive in any state, also late ones from an abandoned cycle; the store and the
  socket may send any event. Each step may see different answers from the host.
\<close>

inductive conn_step :: "conn \<Rightarrow> conn_effect list \<Rightarrow> conn \<Rightarrow> bool" where
  step_start: "cbs s = None \<Longrightarrow> \<not> disposed s \<Longrightarrow> conn_step s [] (start env cb s)"
| step_send: "send env s ev = (t, fx) \<Longrightarrow> conn_step s fx t"
| step_probe: "runProbe_done env s res = (t, fx) \<Longrightarrow> conn_step s fx t"
| step_refresh: "refresh_done env s res' = (t, fx) \<Longrightarrow> conn_step s fx t"
| step_reconnect: "runReconnect_done env s res'' = (t, fx) \<Longrightarrow> conn_step s fx t"
| step_backoff: "backoffTimer s \<noteq> None \<Longrightarrow> backoffTimer_fires env s = (t, fx) \<Longrightarrow> conn_step s fx t"
| step_online: "cbs s \<noteq> None \<Longrightarrow> handleBrowserOnline s = (t, fx) \<Longrightarrow> conn_step s fx t"
| step_debounce: "debounceTimer s \<Longrightarrow> debounceTimer_fires env s = (t, fx) \<Longrightarrow> conn_step s fx t"
| step_offline: "cbs s \<noteq> None \<Longrightarrow> handleBrowserOffline env s = (t, fx) \<Longrightarrow> conn_step s fx t"
| step_visible:
    "cbs s \<noteq> None \<Longrightarrow> handleVisibilityChange env visible s = (t, fx) \<Longrightarrow> conn_step s fx t"
| step_watchdog: "watchdogTimer s \<Longrightarrow> watchdog_tick env s = (t, fx) \<Longrightarrow> conn_step s fx t"
| step_dispose: "conn_step s [] (dispose s)"

abbreviation conn_init :: "backoff_config \<Rightarrow> conn \<Rightarrow> bool" where
  "conn_init cfg s \<equiv> s = new_ConnectionManager cfg"

subsection \<open>Invariants of the instance\<close>

text \<open>
  \<open>conn_pre\<close> is what holds while a state is being entered, \<open>conn_inv\<close> what holds between
  callbacks: the counters stay within their ceilings, a live connection has no trace of
  the last outage, and the state \<open>validating_session\<close> does not occur.
\<close>

definition conn_pre :: "conn \<Rightarrow> bool" where
  "conn_pre s \<longleftrightarrow> state s \<noteq> ValidatingSession
     \<and> (state s = Connected \<longrightarrow> attempt s = 0 \<and> stuckCycles s = 0 \<and> offlineSince s = None)
     \<and> (state s \<noteq> Connected \<longrightarrow> offlineSince s \<noteq> None)
     \<and> attempt s \<le> MAX_ATTEMPTS (backoff s)
     \<and> credentialRefreshAttempts s \<le> MAX_CREDENTIAL_REFRESH_ATTEMPTS
     \<and> (disposed s \<longrightarrow> cbs s = None \<and> backoffTimer s = None \<and> \<not> debounceTimer s \<and> \<not> watchdogTimer s)"

definition conn_inv :: "conn \<Rightarrow> bool" where
  "conn_inv s \<longleftrightarrow> conn_pre s
     \<and> (state s = Connected \<longrightarrow> credentialRefreshAttempts s = 0 \<and> backoffTimer s = None)"

lemmas conn_inv_defs = conn_inv_def conn_pre_def

lemma transition_not_validating [simp]: "transition st ev \<noteq> Some ValidatingSession"
  by (cases st; cases ev; simp add: transition_def)

lemma transition_changes_state: "transition st ev = Some nxt \<Longrightarrow> nxt \<noteq> st"
  by (cases st; cases ev) (auto simp: transition_def split: if_splits)

lemma commit_transition_pre:
  assumes "conn_inv s" and "transition (state s) ev = Some nxt"
  shows "conn_pre (commit_transition env nxt s)"
  using assms transition_changes_state [OF assms(2)] transition_not_validating [of "state s" ev]
  by (auto simp: conn_inv_defs commit_transition_def Let_def)

lemma commit_transition_frame [simp]:
  "state (commit_transition env nxt s) = nxt"
  "disposed (commit_transition env nxt s) = disposed s"
  "cbs (commit_transition env nxt s) = cbs s"
  "credentialRefreshAttempts (commit_transition env nxt s) = credentialRefreshAttempts s"
  "backoff (commit_transition env nxt s) = backoff s"
  by (simp_all add: commit_transition_def Let_def)

lemma scheduleBackoff_pre:
  "conn_pre s \<Longrightarrow> \<not> disposed s \<Longrightarrow> state s \<noteq> Connected \<Longrightarrow> conn_inv (fst (scheduleBackoff env s))"
  by (auto simp: conn_inv_defs scheduleBackoff_def clearBackoffTimer_def Let_def)

lemma onEnterState_inv:
  assumes "conn_pre s" and "\<not> disposed s" and "state s = st" and "st \<noteq> RefreshingCredential"
  shows "conn_inv (fst (onEnterState env st ev s))"
  using assms scheduleBackoff_pre [of s env]
  by (cases st) (auto simp: onEnterState.simps conn_inv_defs clearBackoffTimer_def)

lemma send_disposed [simp]: "disposed s \<Longrightarrow> send env s ev = (s, [])"
  by (simp add: send.simps)

lemma send_ignored [simp]: "transition (state s) ev = None \<Longrightarrow> send env s ev = (s, [])"
  by (simp add: send.simps)

lemma send_inv_direct:
  assumes "conn_inv s" and "transition (state s) ev \<noteq> Some RefreshingCredential"
  shows "conn_inv (fst (send env s ev))"
proof (cases "transition (state s) ev")
  case None
  with assms(1) show ?thesis by (simp add: send.simps)
next
  case (Some nxt)
  with assms show ?thesis
    by (auto simp: send.simps Let_def intro!: onEnterState_inv commit_transition_pre)
qed

lemma runRefreshCredential_inv:
  assumes "conn_inv s" and "state s = RefreshingCredential"
  shows "conn_inv (fst (runRefreshCredential env s))"
proof -
  have "conn_inv (s\<lparr>credentialRefreshAttempts := n\<rparr>)" if "n \<le> MAX_CREDENTIAL_REFRESH_ATTEMPTS" for n
    using assms that by (auto simp: conn_inv_defs)
  then show ?thesis
    by (auto simp: runRefreshCredential.simps Let_def transition_blocked_not_refreshing
        intro!: send_inv_direct split: option.splits)
qed

lemma send_inv [inv_intros]:
  assumes "conn_inv s"
  shows "conn_inv (fst (send env s ev))"
proof (cases "transition (state s) ev = Some RefreshingCredential \<and> \<not> disposed s")
  case True
  then have "conn_inv (commit_transition env RefreshingCredential s)"
    using commit_transition_pre [OF assms, of ev RefreshingCredential env] by (simp add: conn_inv_def)
  with True show ?thesis
    by (auto simp: send.simps onEnterState.simps Let_def intro: runRefreshCredential_inv)
next
  case False
  with assms show ?thesis
    by (cases "disposed s") (auto simp: send_disposed intro: send_inv_direct)
qed

lemma conn_inv_updates [inv_intros]:
  "conn_inv s \<Longrightarrow> conn_inv (s\<lparr>lastProbeResult := r\<rparr>)"
  "conn_inv s \<Longrightarrow> conn_inv (s\<lparr>backoffTimer := None\<rparr>)"
  "conn_inv s \<Longrightarrow> conn_inv (s\<lparr>debounceTimer := False\<rparr>)"
  "conn_inv s \<Longrightarrow> conn_inv (s\<lparr>stuckCycles := 0\<rparr>)"
  "conn_inv s \<Longrightarrow> state s \<noteq> Connected \<Longrightarrow> conn_inv (s\<lparr>stuckCycles := n\<rparr>)"
  "conn_inv s \<Longrightarrow> conn_inv (s\<lparr>attempt := 0\<rparr>)"
  "conn_inv s \<Longrightarrow> \<not> disposed s \<Longrightarrow> conn_inv (s\<lparr>debounceTimer := True\<rparr>)"
  by (auto simp: conn_inv_defs)

lemma conn_inv_cbs: "conn_inv s \<Longrightarrow> cbs s \<noteq> None \<Longrightarrow> \<not> disposed s"
  by (auto simp: conn_inv_defs)

lemma watchdog_tick_inv: "conn_inv s \<Longrightarrow> conn_inv (fst (watchdog_tick env s))"
  by (auto simp: watchdog_tick_def Let_def isStuck_def split: option.splits intro!: inv_intros)

lemma completions_inv:
  "conn_inv s \<Longrightarrow> conn_inv (fst (runProbe_done env s res))"
  "conn_inv s \<Longrightarrow> conn_inv (fst (refresh_done env s res'))"
  "conn_inv s \<Longrightarrow> conn_inv (fst (runReconnect_done env s res''))"
  "conn_inv s \<Longrightarrow> conn_inv (fst (backoffTimer_fires env s))"
  by (auto simp: runProbe_done_def refresh_done_def runReconnect_done_def backoffTimer_fires_def Let_def
      split: option.splits ProbeOutcome.splits RefreshOutcome.splits ReconnectOutcome.splits
      intro!: inv_intros)

lemma listeners_inv:
  "conn_inv s \<Longrightarrow> cbs s \<noteq> None \<Longrightarrow> conn_inv (fst (handleBrowserOnline s))"
  "conn_inv s \<Longrightarrow> conn_inv (fst (debounceTimer_fires env s))"
  "conn_inv s \<Longrightarrow> conn_inv (fst (handleBrowserOffline env s))"
  "conn_inv s \<Longrightarrow> conn_inv (fst (handleVisibilityChange env visible s))"
  by (auto simp: handleBrowserOnline_def debounceTimer_fires_def handleBrowserOffline_def
      handleVisibilityChange_def clearDebounceTimer_def dest: conn_inv_cbs intro!: inv_intros)

lemma lifecycle_inv:
  "conn_inv s \<Longrightarrow> \<not> disposed s \<Longrightarrow> conn_inv (start env cb s)"
  "conn_inv s \<Longrightarrow> conn_inv (dispose s)"
  by (auto simp: start_def startWatchdog_def dispose_def clearDebounceTimer_def clearBackoffTimer_def
      conn_inv_defs)

lemma conn_step_inv: "conn_step s fx t \<Longrightarrow> conn_inv s \<Longrightarrow> conn_inv t"
proof (induction rule: conn_step.induct)
  case (step_send env s ev t fx)
  then show ?case using send_inv [of s env ev] by simp
next
  case (step_probe env s res t fx)
  then show ?case using completions_inv(1) [of s env res] by simp
next
  case (step_refresh env s res' t fx)
  then show ?case using completions_inv(2) [of s env res'] by simp
next
  case (step_reconnect env s res'' t fx)
  then show ?case using completions_inv(3) [of s env res''] by simp
next
  case (step_backoff s env t fx)
  then show ?case using completions_inv(4) [of s env] by simp
next
  case (step_online s t fx)
  then show ?case using listeners_inv(1) [of s] by simp
next
  case (step_debounce s env t fx)
  then show ?case using listeners_inv(2) [of s env] by simp
next
  case (step_offline s env t fx)
  then show ?case using listeners_inv(3) [of s env] by simp
next
  case (step_visible s env visible t fx)
  then show ?case using listeners_inv(4) [of s env visible] by simp
next
  case (step_watchdog s env t fx)
  then show ?case using watchdog_tick_inv [of s env] by simp
qed (simp_all add: lifecycle_inv)

lemma conn_inv_new: "conn_inv (new_ConnectionManager cfg)"
  by (simp add: conn_inv_defs new_ConnectionManager_def)

interpretation cm_inv: run_invariant "conn_init cfg" conn_step "\<lambda>fxs s. conn_inv s" for cfg
  by unfold_locales (auto simp: conn_inv_new intro: conn_step_inv)

subsection \<open>Where a send ends, and when it signs out\<close>

lemma state_send:
  assumes "\<not> disposed s" and "transition (state s) ev = Some nxt" and "nxt \<noteq> RefreshingCredential"
  shows "state (fst (send env s ev)) = nxt"
  using assms
  by (cases nxt) (auto simp: send.simps onEnterState.simps Let_def clearBackoffTimer_def scheduleBackoff_def)

lemma runRefreshCredential_no_sign_out:
  assumes "state s = RefreshingCredential"
  shows "OnSessionExpired \<notin> set (snd (runRefreshCredential env s))
    \<and> state (fst (runRefreshCredential env s)) \<noteq> SessionExpired"
  using assms
  by (auto simp: runRefreshCredential.simps send.simps transition_def onEnterState.simps Let_def
      notify_def call_def clearBackoffTimer_def split: option.splits)

lemma send_sign_out:
  "count_list (snd (send env s ev)) OnSessionExpired =
     (if \<not> disposed s \<and> transition (state s) ev = Some SessionExpired \<and> cbs s \<noteq> None then 1 else 0)"
proof (cases "disposed s \<or> transition (state s) ev = None")
  case True
  then show ?thesis by auto
next
  case False
  then obtain nxt where nxt: "\<not> disposed s" "transition (state s) ev = Some nxt" by auto
  show ?thesis
  proof (cases "nxt = RefreshingCredential")
    case True
    with nxt runRefreshCredential_no_sign_out [of "commit_transition env nxt s" env] show ?thesis
      by (simp add: send.simps [of env s ev] onEnterState.simps Let_def notify_def count_list_0_iff
          split: option.splits)
  next
    case False
    with nxt show ?thesis
      by (cases nxt) (auto simp: send.simps [of env s ev] onEnterState.simps Let_def notify_def call_def
          scheduleBackoff_def split: option.splits)
  qed
qed

text \<open>Every step is a \<open>send\<close> from a state with the same label, or leaves the label alone.\<close>

lemma conn_step_send_form:
  assumes "conn_step s fx t"
  shows "(\<exists>env s' ev. state s' = state s \<and> cbs s' = cbs s \<and> disposed s' = disposed s
            \<and> send env s' ev = (t, fx))
       \<or> state t = state s \<and> set fx \<subseteq> {HardReload}"
  using assms
proof (induction rule: conn_step.induct)
  case (step_probe env s res t fx)
  let ?s = "case res of None \<Rightarrow> s | Some r \<Rightarrow> s\<lparr>lastProbeResult := Some r\<rparr>"
  have "\<exists>ev. send env ?s ev = (t, fx)"
    using step_probe
    by (auto simp: runProbe_done_def Let_def split: option.splits ProbeOutcome.splits)
  moreover have "state ?s = state s" "cbs ?s = cbs s" "disposed ?s = disposed s"
    by (auto split: option.splits)
  ultimately show ?case by blast
next
  case (step_refresh env s res' t fx)
  then show ?case by (auto simp: refresh_done_def split: option.splits RefreshOutcome.splits)
next
  case (step_reconnect env s res'' t fx)
  then show ?case by (auto simp: runReconnect_done_def split: option.splits ReconnectOutcome.splits)
next
  case (step_backoff s env t fx)
  then show ?case
    by (intro disjI1 exI [of _ env] exI [of _ "s\<lparr>backoffTimer := None\<rparr>"] exI [of _ BACKOFF_ELAPSED])
       (simp add: backoffTimer_fires_def)
next
  case (step_debounce s env t fx)
  then show ?case
    by (intro disjI1 exI [of _ env] exI [of _ "s\<lparr>debounceTimer := False\<rparr>"] exI [of _ NETWORK_ONLINE])
       (simp add: debounceTimer_fires_def)
next
  case (step_offline s env t fx)
  then show ?case
    by (intro disjI1 exI [of _ env] exI [of _ "clearDebounceTimer s"] exI [of _ NETWORK_LOST])
       (simp add: handleBrowserOffline_def clearDebounceTimer_def)
next
  case (step_watchdog s env t fx)
  let ?s = "s\<lparr>stuckCycles := Suc (stuckCycles s), attempt := 0\<rparr>"
  have "send env ?s MANUAL_RETRY = (t, fx) \<or> state t = state s \<and> set fx \<subseteq> {HardReload}"
    using step_watchdog(2) by (auto simp: watchdog_tick_def Let_def split: if_splits)
  moreover have "state ?s = state s" "cbs ?s = cbs s" "disposed ?s = disposed s" by simp_all
  ultimately show ?case by blast
qed (auto simp: start_def startWatchdog_def dispose_def clearDebounceTimer_def clearBackoffTimer_def
    handleBrowserOnline_def handleVisibilityChange_def split: if_splits)

lemma conn_step_from_expired:
  assumes "conn_step s fx t" and "state s = SessionExpired"
  shows "state t = SessionExpired \<and> count_list fx OnSessionExpired = 0"
  using conn_step_send_form [OF assms(1)]
proof
  assume "\<exists>env s' ev. state s' = state s \<and> cbs s' = cbs s \<and> disposed s' = disposed s
            \<and> send env s' ev = (t, fx)"
  with assms(2) show ?thesis by (auto simp: transition_def)
qed (use assms(2) in \<open>auto simp: count_list_0_iff\<close>)

lemma conn_step_sign_out:
  assumes "conn_step s fx t"
  shows "count_list fx OnSessionExpired \<le> 1
    \<and> (count_list fx OnSessionExpired = 1 \<longrightarrow> state t = SessionExpired)"
  using conn_step_send_form [OF assms]
proof
  assume "\<exists>env s' ev. state s' = state s \<and> cbs s' = cbs s \<and> disposed s' = disposed s
            \<and> send env s' ev = (t, fx)"
  then obtain env s' ev where eq: "send env s' ev = (t, fx)" by blast
  then have "fx = snd (send env s' ev)" "t = fst (send env s' ev)" by simp_all
  then show ?thesis by (auto simp: send_sign_out intro: state_send)
next
  assume "state t = state s \<and> set fx \<subseteq> {HardReload}"
  then have "OnSessionExpired \<notin> set fx" by auto
  then show ?thesis by (simp add: count_list_0_iff)
qed

interpretation cm_signout: run_invariant "conn_init cfg" conn_step
  "\<lambda>fxs s. count_list fxs OnSessionExpired \<le> 1
     \<and> (count_list fxs OnSessionExpired = 1 \<longrightarrow> state s = SessionExpired)" for cfg
proof unfold_locales
  fix ls s l t
  assume J: "count_list ls OnSessionExpired \<le> 1
      \<and> (count_list ls OnSessionExpired = 1 \<longrightarrow> state s = SessionExpired)"
    and step: "conn_step s l t"
  show "count_list (ls @ l) OnSessionExpired \<le> 1
      \<and> (count_list (ls @ l) OnSessionExpired = 1 \<longrightarrow> state t = SessionExpired)"
  proof (cases "state s = SessionExpired")
    case True
    with J conn_step_from_expired [OF step] show ?thesis by simp
  next
    case False
    with J have "count_list ls OnSessionExpired = 0" by linarith
    with conn_step_sign_out [OF step] show ?thesis by simp
  qed
qed simp

subsection \<open>Concrete instances used by the witnesses\<close>

definition browser_env :: conn_env where
  "browser_env = \<lparr>has_window = True, onLine = Some True, now_ms = 1000, random01 = 1 / 2\<rparr>"

definition node_env :: conn_env where
  "node_env = \<lparr>has_window = False, onLine = None, now_ms = 1000, random01 = 1 / 2\<rparr>"

definition full_callbacks :: callbacks where
  "full_callbacks = \<lparr>has_onRefreshCredential = True, has_onStateChange = True\<rparr>"

definition live_conn :: conn where
  "live_conn = start browser_env full_callbacks (new_ConnectionManager DEFAULT_BACKOFF)"

definition expired_conn :: conn where
  "expired_conn = fst (send browser_env live_conn WS_SESSION_ERROR)"

lemmas conn_instance_defs = browser_env_def node_env_def full_callbacks_def live_conn_def
  new_ConnectionManager_def DEFAULT_BACKOFF_def start_def startWatchdog_def

lemmas conn_eval = send.simps onEnterState.simps runRefreshCredential.simps transition_def
  commit_transition_def notify_def call_def clearBackoffTimer_def scheduleBackoff_def Let_def

lemma run_live_conn: "run (conn_init DEFAULT_BACKOFF) conn_step [] live_conn"
  using run_step [OF run_init [of "conn_init DEFAULT_BACKOFF" "new_ConnectionManager DEFAULT_BACKOFF" conn_step]
      step_start [of "new_ConnectionManager DEFAULT_BACKOFF" browser_env full_callbacks]]
  by (simp add: live_conn_def new_ConnectionManager_def)

lemma run_expired_conn:
  "run (conn_init DEFAULT_BACKOFF) conn_step
     [OnStateChange SessionExpired Connected, OnDisconnectWebSocket, OnSessionExpired] expired_conn"
proof -
  have "send browser_env live_conn WS_SESSION_ERROR =
      (expired_conn, [OnStateChange SessionExpired Connected, OnDisconnectWebSocket, OnSessionExpired])"
    by (simp add: expired_conn_def conn_instance_defs conn_eval)
  from run_step [OF run_live_conn step_send [OF this]] show ?thesis by simp
qed

subsection \<open>Properties\<close>

text \<open>
  C10. Over every run of the connection manager, whatever the host does and in whatever
  order completions and timers arrive: the state \<open>validating_session\<close> is never entered, the
  backoff attempt counter never passes \<open>MAX_ATTEMPTS\<close> and the re-mint counter never passes
  its cap, a connected machine has no armed backoff timer, no outage timestamp and all
  recovery counters at zero, a disconnected one has the timestamp, and a disposed one has
  neither callbacks nor armed timers.
\<close>

theorem conn_run_invariant:
  assumes "run (conn_init cfg) conn_step fxs s"
  shows "state s \<noteq> ValidatingSession
    \<and> attempt s \<le> MAX_ATTEMPTS (backoff s)
    \<and> credentialRefreshAttempts s \<le> MAX_CREDENTIAL_REFRESH_ATTEMPTS
    \<and> (state s = Connected \<longrightarrow> attempt s = 0 \<and> stuckCycles s = 0
          \<and> credentialRefreshAttempts s = 0 \<and> backoffTimer s = None)
    \<and> (offlineSince s = None \<longleftrightarrow> state s = Connected)
    \<and> (disposed s \<longrightarrow> cbs s = None \<and> backoffTimer s = None \<and> \<not> debounceTimer s \<and> \<not> watchdogTimer s)"
  using cm_inv.holds [OF assms] by (auto simp: conn_inv_defs)

theorem conn_run_invariant_witness:
  "state expired_conn = SessionExpired \<and> attempt expired_conn \<le> 8 \<and> offlineSince expired_conn \<noteq> None"
  using conn_run_invariant [OF run_expired_conn]
  by (simp add: expired_conn_def conn_instance_defs conn_eval)

text \<open>
  The user is signed out at most once in the life of a manager, and then the machine
  is in \<open>session_expired\<close>; that state is final, whatever happens afterwards.
\<close>

theorem sign_out_at_most_once:
  assumes "run (conn_init cfg) conn_step fxs s"
  shows "count_list fxs OnSessionExpired \<le> 1
    \<and> (OnSessionExpired \<in> set fxs \<longrightarrow> state s = SessionExpired)
    \<and> (\<forall>fx t. state s = SessionExpired \<and> conn_step s fx t \<longrightarrow>
          state t = SessionExpired \<and> OnSessionExpired \<notin> set fx)"
proof -
  note J = cm_signout.holds [OF assms]
  have "state s = SessionExpired" if "OnSessionExpired \<in> set fxs"
  proof -
    from that have "count_list fxs OnSessionExpired \<noteq> 0" by (simp add: count_list_0_iff)
    with J show ?thesis by simp
  qed
  with J show ?thesis by (auto dest: conn_step_from_expired simp: count_list_0_iff)
qed

theorem sign_out_at_most_once_witness:
  "state expired_conn = SessionExpired
   \<and> count_list [OnStateChange SessionExpired Connected, OnDisconnectWebSocket, OnSessionExpired]
        OnSessionExpired \<le> 1"
  using sign_out_at_most_once [OF run_expired_conn] by simp

text \<open>
  Only evidence that the login itself is gone signs the user out. For every state and
  every host, if handling an event calls \<open>onSessionExpired\<close>, the event is a session error
  of the socket, a session error of a bootstrap or re-mint, or a probe that found the
  session invalid. Network loss, failed probes, failed reconnects, stale or rejected
  credentials and timers never do.
\<close>

theorem sign_out_needs_session_error:
  assumes "OnSessionExpired \<in> set (snd (send env s ev))"
  shows "ev = WS_SESSION_ERROR \<or> ev = BOOTSTRAP_FAILED_SESSION \<or> ev = PROBE_SUCCESS False"
proof -
  from assms have "count_list (snd (send env s ev)) OnSessionExpired \<noteq> 0"
    by (simp add: count_list_0_iff)
  then have "transition (state s) ev = Some SessionExpired"
    by (auto simp: send_sign_out split: if_splits)
  then show ?thesis
    by (cases "state s"; cases ev) (auto simp: transition_def split: if_splits)
qed

theorem sign_out_needs_session_error_witness:
  "OnSessionExpired \<in> set (snd (send browser_env live_conn WS_SESSION_ERROR))
   \<and> (WS_SESSION_ERROR = WS_SESSION_ERROR \<or> WS_SESSION_ERROR = BOOTSTRAP_FAILED_SESSION
      \<or> WS_SESSION_ERROR = PROBE_SUCCESS False)"
proof -
  have h: "OnSessionExpired \<in> set (snd (send browser_env live_conn WS_SESSION_ERROR))"
    by (simp add: conn_instance_defs conn_eval)
  from h sign_out_needs_session_error [OF h] show ?thesis by blast
qed

definition stale_round :: "conn_env \<Rightarrow> conn \<Rightarrow> conn" where
  "stale_round env s =
     fst (refresh_done env (fst (runProbe_done env s (Some CredentialStale))) (Some Refreshed))"

lemma stale_round_probing:
  assumes "\<not> disposed s" "state s = ProbingNetwork" "cbs s = Some cb" "has_onRefreshCredential cb"
    and "credentialRefreshAttempts s < MAX_CREDENTIAL_REFRESH_ATTEMPTS"
  shows "\<not> disposed (stale_round env s) \<and> state (stale_round env s) = ProbingNetwork
    \<and> cbs (stale_round env s) = Some cb
    \<and> credentialRefreshAttempts (stale_round env s) = Suc (credentialRefreshAttempts s)"
  using assms by (simp add: stale_round_def runProbe_done_def refresh_done_def conn_eval)

lemma stale_probe_blocks:
  assumes "\<not> disposed s" "state s = ProbingNetwork"
    and "credentialRefreshAttempts s = MAX_CREDENTIAL_REFRESH_ATTEMPTS"
  shows "state (fst (runProbe_done env s (Some CredentialStale))) = AuthBlocked
    \<and> credentialRefreshAttempts (fst (runProbe_done env s (Some CredentialStale))) = 0
    \<and> StartRefresh \<notin> set (snd (runProbe_done env s (Some CredentialStale)))
    \<and> OnSessionExpired \<notin> set (snd (runProbe_done env s (Some CredentialStale)))"
  using assms by (auto simp: runProbe_done_def conn_eval split: option.splits)

text \<open>
  A re-mint loop is cut. Let the server report the access key stale again after every
  successful re-mint. From any probing machine that has not yet re-minted, three rounds
  re-mint and probe again; the fourth stale answer neither re-mints nor signs out but
  parks in \<open>auth_blocked\<close>, with the counter back at zero.
\<close>

theorem stale_credential_loop_is_cut:
  assumes "\<not> disposed s" and "state s = ProbingNetwork" and "cbs s = Some cb"
    and "has_onRefreshCredential cb" and "credentialRefreshAttempts s = 0"
  shows "let s3 = (stale_round env ^^ 3) s; r = runProbe_done env s3 (Some CredentialStale) in
      state s3 = ProbingNetwork \<and> credentialRefreshAttempts s3 = 3
      \<and> state (fst r) = AuthBlocked \<and> credentialRefreshAttempts (fst r) = 0
      \<and> StartRefresh \<notin> set (snd r) \<and> OnSessionExpired \<notin> set (snd r)"
proof -
  have round: "n \<le> 3 \<Longrightarrow> \<not> disposed ((stale_round env ^^ n) s)
      \<and> state ((stale_round env ^^ n) s) = ProbingNetwork \<and> cbs ((stale_round env ^^ n) s) = Some cb
      \<and> credentialRefreshAttempts ((stale_round env ^^ n) s) = n" for n :: nat
  proof (induction n)
    case 0
    with assms show ?case by simp
  next
    case (Suc n)
    then show ?case
      using stale_round_probing [of "(stale_round env ^^ n) s" cb env] assms(4)
      by (simp add: MAX_CREDENTIAL_REFRESH_ATTEMPTS_def)
  qed
  from round [of 3] stale_probe_blocks [of "(stale_round env ^^ 3) s" env] show ?thesis
    by (simp add: Let_def MAX_CREDENTIAL_REFRESH_ATTEMPTS_def)
qed

definition probing_conn :: conn where
  "probing_conn = fst (send browser_env live_conn WS_DISCONNECTED)"

lemma probing_conn_fields:
  "\<not> disposed probing_conn" "state probing_conn = ProbingNetwork" "cbs probing_conn = Some full_callbacks"
  "credentialRefreshAttempts probing_conn = 0" "has_onRefreshCredential full_callbacks"
  by (simp_all add: probing_conn_def conn_instance_defs conn_eval)

theorem stale_credential_loop_is_cut_witness:
  "state ((stale_round browser_env ^^ 3) probing_conn) = ProbingNetwork
   \<and> state (fst (runProbe_done browser_env ((stale_round browser_env ^^ 3) probing_conn)
        (Some CredentialStale))) = AuthBlocked"
  using stale_credential_loop_is_cut [OF probing_conn_fields(1-3,5,4), of browser_env]
  by (simp add: Let_def)

text \<open>
  In a browser the watchdog leaves no reachable parked state alone. In every state that
  a run can reach and in which the watchdog sees the machine stuck, one tick either
  reloads the page or starts a probe. This covers the parked states without a timer
  (\<open>offline\<close>, \<open>auth_blocked\<close>, and \<open>waiting_for_network\<close> after the retry ceiling).
\<close>

theorem watchdog_unsticks:
  assumes "run (conn_init cfg) conn_step fxs s" and "\<not> disposed s" and "has_window env" and "isStuck s"
  shows "HardReload \<in> set (snd (watchdog_tick env s))
    \<or> state (fst (watchdog_tick env s)) = ProbingNetwork \<and> StartProbe \<in> set (snd (watchdog_tick env s))
        \<and> attempt (fst (watchdog_tick env s)) = 0"
proof -
  from cm_inv.holds [OF assms(1)] have "state s \<noteq> ValidatingSession" by (simp add: conn_inv_defs)
  with assms(2-4) show ?thesis
    by (cases "state s") (auto simp: watchdog_tick_def isStuck_def conn_eval)
qed

definition offline_conn :: conn where
  "offline_conn = fst (send browser_env live_conn NETWORK_LOST)"

theorem watchdog_unsticks_witness:
  "isStuck offline_conn \<and> (HardReload \<in> set (snd (watchdog_tick browser_env offline_conn))
    \<or> state (fst (watchdog_tick browser_env offline_conn)) = ProbingNetwork)"
proof -
  have s: "send browser_env live_conn NETWORK_LOST =
      (offline_conn, [OnStateChange Offline Connected, OnDisconnectWebSocket])"
    by (simp add: offline_conn_def conn_instance_defs conn_eval)
  have "isStuck offline_conn" "\<not> disposed offline_conn" "has_window browser_env"
    by (simp_all add: offline_conn_def isStuck_def conn_instance_defs conn_eval)
  with watchdog_unsticks [OF run_step [OF run_live_conn step_send [OF s]]] show ?thesis by blast
qed

lemma baseDelay_default_bounds:
  "2000 \<le> baseDelay DEFAULT_BACKOFF n" "baseDelay DEFAULT_BACKOFF n \<le> 30000"
  using one_le_power [of "2 :: int" n] by (simp_all add: baseDelay_def DEFAULT_BACKOFF_def)

text \<open>
  The backoff delays of the default configuration: for every attempt number and every
  value of the random source, the armed delay is within 15 percent of the doubling
  schedule capped at 30 seconds, so it always lies between 1.7 and 34.5 seconds.
\<close>

theorem backoff_delay_bounds:
  assumes "0 \<le> r" and "r \<le> 1"
  shows "round (real_of_int (baseDelay DEFAULT_BACKOFF n) * (85 / 100)) \<le> backoffDelay DEFAULT_BACKOFF n r
    \<and> backoffDelay DEFAULT_BACKOFF n r \<le> round (real_of_int (baseDelay DEFAULT_BACKOFF n) * (115 / 100))
    \<and> 1700 \<le> backoffDelay DEFAULT_BACKOFF n r \<and> backoffDelay DEFAULT_BACKOFF n r \<le> 34500"
proof -
  let ?b = "real_of_int (baseDelay DEFAULT_BACKOFF n)"
  define x where "x = ?b * (15 / 100) * (2 * r - 1)"
  let ?d = "?b + x"
  have b: "2000 \<le> ?b" "?b \<le> 30000"
    using baseDelay_default_bounds [of n] by linarith+
  have "x \<le> ?b * (15 / 100) * 1"
    unfolding x_def using assms b by (intro mult_left_mono) auto
  moreover have "?b * (15 / 100) * (- 1) \<le> x"
    unfolding x_def using assms b by (intro mult_left_mono) auto
  ultimately have d: "?b * (85 / 100) \<le> ?d" "?d \<le> ?b * (115 / 100)"
    by linarith+
  have eq: "backoffDelay DEFAULT_BACKOFF n r = round ?d"
    by (simp add: backoffDelay_def x_def Let_def) (simp add: DEFAULT_BACKOFF_def)
  have lo: "(1700 :: real) \<le> ?d" and hi: "?d \<le> (34500 :: real)"
    using b d by linarith+
  have "1700 \<le> round ?d" "round ?d \<le> 34500"
    using round_mono [OF lo] round_mono [OF hi] by simp_all
  then show ?thesis
    using round_mono [OF d(1)] round_mono [OF d(2)] eq by simp
qed

theorem backoff_delay_bounds_witness:
  "1700 \<le> backoffDelay DEFAULT_BACKOFF 0 0 \<and> backoffDelay DEFAULT_BACKOFF 0 0 \<le> 34500"
  using backoff_delay_bounds [of 0 0] by simp

text \<open>
  The watchdog also drives a machine out of \<open>auth_blocked\<close>, the state the code
  describes as not reconnecting on its own: whenever a machine parked there is seen by
  the watchdog it is probed again without any user action, and once six ticks have found
  it stuck while the browser reports itself online, the page is reloaded instead.
\<close>

theorem watchdog_reprobes_auth_blocked:
  assumes "\<not> disposed s" and "state s = AuthBlocked" and "has_window env" and "onLine env = Some True"
  shows "(stuckCycles s < 5 \<longrightarrow> state (fst (watchdog_tick env s)) = ProbingNetwork
            \<and> StartProbe \<in> set (snd (watchdog_tick env s)))
       \<and> (5 \<le> stuckCycles s \<longrightarrow> snd (watchdog_tick env s) = [HardReload])"
  using assms
  by (auto simp: watchdog_tick_def isStuck_def MAX_STUCK_CYCLES_BEFORE_RELOAD_def conn_eval)

definition blocked_conn :: conn where
  "blocked_conn = fst (runProbe_done browser_env probing_conn (Some ProbeAuthBlocked))"

lemma blocked_conn_fields:
  "\<not> disposed blocked_conn" "state blocked_conn = AuthBlocked" "stuckCycles blocked_conn = 0"
  by (simp_all add: blocked_conn_def runProbe_done_def probing_conn_def conn_instance_defs conn_eval)

theorem watchdog_reprobes_auth_blocked_witness:
  "state blocked_conn = AuthBlocked
   \<and> state (fst (watchdog_tick browser_env blocked_conn)) = ProbingNetwork"
  using watchdog_reprobes_auth_blocked [OF blocked_conn_fields(1,2), of browser_env] blocked_conn_fields
  by (simp add: browser_env_def)

text \<open>
  Outside a browser the retry ceiling is a dead end. With no \<open>window\<close>, a reconnect that
  fails once the attempt counter has reached its ceiling enters \<open>backoff\<close> with no timer
  armed and no page to reload, and since \<open>start\<close> installs no watchdog there either, no
  timer of the manager will ever move the machine again.
\<close>

theorem retry_ceiling_dead_end_without_window:
  assumes "\<not> disposed s" and "state s = Reconnecting" and "\<not> watchdogTimer s"
    and "attempt s = MAX_ATTEMPTS (backoff s)" and "\<not> has_window env" and "onLine env = None"
  shows "let r = runReconnect_done env s (Some ReconnectNetworkError) in
      state (fst r) = Backoff \<and> backoffTimer (fst r) = None \<and> \<not> watchdogTimer (fst r)
      \<and> HardReload \<notin> set (snd r) \<and> StartProbe \<notin> set (snd r) \<and> StartReconnect \<notin> set (snd r)"
  using assms by (auto simp: runReconnect_done_def conn_eval split: option.splits)

definition exhausted_conn :: conn where
  "exhausted_conn = (start node_env full_callbacks (new_ConnectionManager DEFAULT_BACKOFF))
     \<lparr>state := Reconnecting, attempt := 8\<rparr>"

theorem retry_ceiling_dead_end_without_window_witness:
  "state exhausted_conn = Reconnecting
   \<and> backoffTimer (fst (runReconnect_done node_env exhausted_conn (Some ReconnectNetworkError))) = None"
proof -
  have "\<not> disposed exhausted_conn" "state exhausted_conn = Reconnecting" "\<not> watchdogTimer exhausted_conn"
    "attempt exhausted_conn = MAX_ATTEMPTS (backoff exhausted_conn)" "\<not> has_window node_env"
    "onLine node_env = None"
    by (simp_all add: exhausted_conn_def conn_instance_defs)
  from this(2) retry_ceiling_dead_end_without_window [OF this] show ?thesis by (simp add: Let_def)
qed

end
