(* ===== verification/Operations.thy ===== *)
theory Operations
  imports Prelude
begin

section \<open>Versioned operation fields: contract and accepted history\<close>

text \<open>
  Model of \<open>packages/transaction/src/commit/operations/contract.ts\<close> and \<open>history.ts\<close>: fields
  that are edited by operations (text edits, counter increments) instead of replacement.

  A domain is the record \<open>OperationDomain\<close>, passed as the first argument as the code passes
  \<open>domain\<close>; its three functions may throw, so they return \<open>op_error + _\<close>. The Zod schemas are
  the bool-valued predicates \<open>version_ok\<close>, \<open>snapshot_ok\<close>, \<open>edit_ok\<close>, \<open>accepted_ok\<close>,
  \<open>history_ok\<close> and \<open>state_ok\<close>, and \<open>schema.parse\<close> is a check that throws \<open>ZodError\<close>.

  The locale \<open>operation_domain\<close> states what the generic code relies on in a domain: values
  and operations it produces pass its own schemas again, and a domain that declares it
  needs no history does not change operations when it transforms them.
\<close>

subsection \<open>Data\<close>

datatype stale_reason =
    HistoryIncomplete | ValueChangedOutside | BasisUnavailable | RevisionLimit | BaseChanged
  | OtherEpoch | NotRetained | HistoryExpired | NotVisibleYet
  | MissingEdits | AckDisagrees | ContextUnavailable | SnapshotDisagrees | EarlierNotAccepted

datatype invalid_reason =
    AlreadyAccepted | UnsentAcknowledged | DuplicatePendingId | ResultUnsafe
  | ExceedsBase | DeletedTextMismatch

datatype op_error =
    AbloStaleContextError stale_reason
  | AbloValidationError invalid_reason
  | ZodError
  | DecisionContended
  | PlainError string

datatype side = LeftSide | RightSide

record 'v OperationSnapshot =
  snap_epoch :: string
  snap_version :: int
  snap_value :: 'v

record 'o OperationEdit =
  edit_id :: string
  edit_epoch :: string
  edit_baseVersion :: int
  edit_operation :: 'o

record 'o AcceptedOperation =
  acc_id :: string
  acc_epoch :: string
  acc_version :: int
  acc_operation :: 'o

record ('v, 'o) OperationHistory =
  hist_base :: "'v OperationSnapshot"
  hist_edits :: "'o AcceptedOperation list"

record 'o PendingEdit =
  pend_id :: string
  pend_operation :: 'o

record ('v, 'o) OperationState =
  st_snapshot :: "'v OperationSnapshot"
  st_pending :: "'o PendingEdit list"
  st_inFlight :: "'o OperationEdit option"
  st_undo :: "'o list"
  st_redo :: "'o list"

record ('v, 'o) OperationDomain =
  requiresHistory :: bool
  value_ok :: "'v \<Rightarrow> bool"
  operation_ok :: "'o \<Rightarrow> bool"
  dom_apply :: "'v \<Rightarrow> 'o \<Rightarrow> op_error + 'v"
  dom_invert :: "'v \<Rightarrow> 'o \<Rightarrow> op_error + 'o"
  dom_transform :: "'o \<Rightarrow> 'o \<Rightarrow> side \<Rightarrow> op_error + 'o"

subsection \<open>Schemas\<close>

definition version_ok :: "int \<Rightarrow> bool" where
  "version_ok v \<longleftrightarrow> 0 \<le> v \<and> v \<le> MAX_SAFE_INTEGER"

definition id_ok :: "string \<Rightarrow> bool" where
  "id_ok s \<longleftrightarrow> 1 \<le> length s \<and> length s \<le> 255"

definition snapshot_ok :: "('v, 'o) OperationDomain \<Rightarrow> 'v OperationSnapshot \<Rightarrow> bool" where
  "snapshot_ok D s \<longleftrightarrow> id_ok (snap_epoch s) \<and> version_ok (snap_version s) \<and> value_ok D (snap_value s)"

definition edit_ok :: "('v, 'o) OperationDomain \<Rightarrow> 'o OperationEdit \<Rightarrow> bool" where
  "edit_ok D e \<longleftrightarrow> id_ok (edit_id e) \<and> id_ok (edit_epoch e) \<and> version_ok (edit_baseVersion e)
     \<and> operation_ok D (edit_operation e)"

definition accepted_ok :: "('v, 'o) OperationDomain \<Rightarrow> 'o AcceptedOperation \<Rightarrow> bool" where
  "accepted_ok D a \<longleftrightarrow> id_ok (acc_id a) \<and> id_ok (acc_epoch a) \<and> version_ok (acc_version a)
     \<and> operation_ok D (acc_operation a)"

definition history_ok :: "('v, 'o) OperationDomain \<Rightarrow> ('v, 'o) OperationHistory \<Rightarrow> bool" where
  "history_ok D h \<longleftrightarrow> snapshot_ok D (hist_base h) \<and> list_all (accepted_ok D) (hist_edits h)"

definition pending_ok :: "('v, 'o) OperationDomain \<Rightarrow> 'o PendingEdit \<Rightarrow> bool" where
  "pending_ok D p \<longleftrightarrow> id_ok (pend_id p) \<and> operation_ok D (pend_operation p)"

definition state_ok :: "('v, 'o) OperationDomain \<Rightarrow> ('v, 'o) OperationState \<Rightarrow> bool" where
  "state_ok D st \<longleftrightarrow> snapshot_ok D (st_snapshot st) \<and> list_all (pending_ok D) (st_pending st)
     \<and> (case st_inFlight st of None \<Rightarrow> True | Some e \<Rightarrow> edit_ok D e)
     \<and> list_all (operation_ok D) (st_undo st) \<and> list_all (operation_ok D) (st_redo st)"

definition parse :: "('a \<Rightarrow> bool) \<Rightarrow> 'a \<Rightarrow> op_error + 'a" where
  "parse ok x = (if ok x then Inr x else Inl ZodError)"

lemma parse_eq_Inr [simp]: "parse ok x = Inr y \<longleftrightarrow> y = x \<and> ok x"
  by (auto simp: parse_def)

lemma parse_ok [simp]: "ok x \<Longrightarrow> parse ok x = Inr x"
  by (simp add: parse_def)

subsection \<open>Folding an accepted history\<close>

fun fold_edits :: "('v, 'o) OperationDomain \<Rightarrow> string list \<Rightarrow> 'o AcceptedOperation list
    \<Rightarrow> 'v OperationSnapshot \<Rightarrow> op_error + 'v OperationSnapshot" where
  "fold_edits D ids [] snap = Inr snap"
| "fold_edits D ids (e # es) snap =
     (if acc_epoch e \<noteq> snap_epoch snap \<or> acc_version e \<noteq> snap_version snap + 1 \<or> acc_id e \<in> set ids
      then Inl (AbloStaleContextError HistoryIncomplete)
      else bindR (dom_apply D (snap_value snap) (acc_operation e))
        (\<lambda>v. fold_edits D (acc_id e # ids) es
           \<lparr>snap_epoch = acc_epoch e, snap_version = acc_version e, snap_value = v\<rparr>))"

definition foldOperationHistory :: "('v, 'o) OperationDomain \<Rightarrow> ('v, 'o) OperationHistory
    \<Rightarrow> op_error + 'v OperationSnapshot" where
  "foldOperationHistory D h =
     bindR (parse (history_ok D) h) (\<lambda>h. fold_edits D [] (hist_edits h) (hist_base h))"

subsection \<open>Reconciling one edit with the history\<close>

text \<open>The loop that carries an operation over the edits accepted since its basis.\<close>

definition transform_over :: "('v, 'o) OperationDomain \<Rightarrow> 'o AcceptedOperation list \<Rightarrow> 'o \<Rightarrow> op_error + 'o" where
  "transform_over D es op = foldR (\<lambda>a acc. dom_transform D acc (acc_operation a) RightSide) es op"

definition reconcileOperation :: "('v, 'o) OperationDomain \<Rightarrow> ('v, 'o) OperationHistory
    \<Rightarrow> 'o OperationEdit \<Rightarrow> 'v \<Rightarrow> op_error + 'o AcceptedOperation" where
  "reconcileOperation D h input authoritativeValue =
     bindR (parse (edit_ok D) input) (\<lambda>edit.
     bindR (foldOperationHistory D h) (\<lambda>head.
       if snap_value head \<noteq> authoritativeValue
       then Inl (AbloStaleContextError ValueChangedOutside)
       else if edit_epoch edit \<noteq> snap_epoch head \<or> edit_baseVersion edit < snap_version (hist_base h)
         \<or> snap_version head < edit_baseVersion edit
       then Inl (AbloStaleContextError BasisUnavailable)
       else if \<exists>a \<in> set (hist_edits h). acc_id a = edit_id edit
       then Inl (AbloValidationError AlreadyAccepted)
       else if snap_version head = MAX_SAFE_INTEGER
       then Inl (AbloStaleContextError RevisionLimit)
       else
         bindR (if requiresHistory D then
                  let n = nat (edit_baseVersion edit - snap_version (hist_base h));
                      prefix = take n (hist_edits h)
                  in bindR (foldOperationHistory D \<lparr>hist_base = hist_base h, hist_edits = prefix\<rparr>) (\<lambda>basis.
                     bindR (dom_apply D (snap_value basis) (edit_operation edit)) (\<lambda>_.
                     transform_over D (drop (length prefix) (hist_edits h)) (edit_operation edit)))
                else Inr (edit_operation edit)) (\<lambda>operation.
         bindR (dom_apply D (snap_value head) operation) (\<lambda>_.
           Inr \<lparr>acc_id = edit_id edit, acc_epoch = edit_epoch edit,
                acc_version = snap_version head + 1, acc_operation = operation\<rparr>))))"

subsection \<open>Folding: prefixes and extensions\<close>

lemma fold_edits_append:
  "fold_edits D ids (xs @ ys) s =
     bindR (fold_edits D ids xs s) (fold_edits D (rev (map acc_id xs) @ ids) ys)"
  by (induction xs arbitrary: ids s) (auto simp: bindR_assoc intro: bindR_cong)

lemma fold_edits_head:
  "fold_edits D ids es s = Inr t \<Longrightarrow>
     snap_epoch t = snap_epoch s \<and> snap_version t = snap_version s + int (length es)
     \<and> (\<forall>e \<in> set es. acc_epoch e = snap_epoch s)"
  by (induction es arbitrary: ids s) (auto simp: result_simps split: if_splits)

lemma fold_edits_ids:
  "fold_edits D ids es s = Inr t \<Longrightarrow> distinct (map acc_id es) \<and> set (map acc_id es) \<inter> set ids = {}"
  by (induction es arbitrary: ids s) (force simp: result_simps split: if_splits)+

lemma fold_edits_versions:
  "fold_edits D ids es s = Inr t \<Longrightarrow> i < length es \<Longrightarrow> acc_version (es ! i) = snap_version s + int i + 1"
proof (induction es arbitrary: ids s i)
  case Nil
  then show ?case by simp
next
  case (Cons e es)
  then show ?case
    by (cases i) (auto simp: result_simps split: if_splits)
qed

lemma fold_edits_weaken_ids:
  "fold_edits D ids es s = Inr t \<Longrightarrow> set ids' \<subseteq> set ids \<Longrightarrow> fold_edits D ids' es s = Inr t"
proof (induction es arbitrary: ids ids' s)
  case Nil
  then show ?case by simp
next
  case (Cons e es)
  then obtain v where v: "dom_apply D (snap_value s) (acc_operation e) = Inr v"
    and rest: "fold_edits D (acc_id e # ids) es
        \<lparr>snap_epoch = acc_epoch e, snap_version = acc_version e, snap_value = v\<rparr> = Inr t"
    and guard: "acc_epoch e = snap_epoch s" "acc_version e = snap_version s + 1" "acc_id e \<notin> set ids"
    by (auto simp: result_simps split: if_splits)
  from Cons.IH [OF rest, of "acc_id e # ids'"] Cons.prems(2) v guard show ?case by auto
qed

lemma foldOperationHistory_Inr:
  "foldOperationHistory D h = Inr t \<longleftrightarrow> history_ok D h \<and> fold_edits D [] (hist_edits h) (hist_base h) = Inr t"
  by (simp add: foldOperationHistory_def parse_def)

lemma fold_prefix:
  assumes "foldOperationHistory D h = Inr t"
  shows "\<exists>s. foldOperationHistory D \<lparr>hist_base = hist_base h, hist_edits = take n (hist_edits h)\<rparr> = Inr s
    \<and> snap_version s = snap_version (hist_base h) + int (length (take n (hist_edits h)))"
proof -
  from assms have ok: "history_ok D h" and f: "fold_edits D [] (hist_edits h) (hist_base h) = Inr t"
    by (simp_all add: foldOperationHistory_Inr)
  from f have "fold_edits D [] (take n (hist_edits h) @ drop n (hist_edits h)) (hist_base h) = Inr t"
    by simp
  then obtain s where s: "fold_edits D [] (take n (hist_edits h)) (hist_base h) = Inr s"
    by (auto simp only: fold_edits_append result_simps)
  from ok have "history_ok D \<lparr>hist_base = hist_base h, hist_edits = take n (hist_edits h)\<rparr>"
    by (auto simp: history_ok_def list_all_iff dest: in_set_takeD)
  with s fold_edits_head [OF s] show ?thesis by (auto simp: foldOperationHistory_Inr)
qed

lemma head_version:
  assumes "foldOperationHistory D h = Inr head"
  shows "version_ok (snap_version head) \<and> id_ok (snap_epoch head)
    \<and> snap_version head = snap_version (hist_base h) + int (length (hist_edits h))"
proof -
  from assms have ok: "history_ok D h" and f: "fold_edits D [] (hist_edits h) (hist_base h) = Inr head"
    by (simp_all add: foldOperationHistory_Inr)
  note hd = fold_edits_head [OF f]
  show ?thesis
  proof (cases "hist_edits h" rule: rev_cases)
    case Nil
    with hd ok show ?thesis by (simp add: history_ok_def snapshot_ok_def)
  next
    case (snoc es e)
    then have "acc_version e = snap_version head"
      using fold_edits_versions [OF f, of "length es"] hd by simp
    with snoc hd ok show ?thesis by (auto simp: history_ok_def snapshot_ok_def accepted_ok_def)
  qed
qed

lemma history_eta [simp]: "\<lparr>hist_base = hist_base h, hist_edits = hist_edits h\<rparr> = (h :: ('v, 'o) OperationHistory)"
  by simp

text \<open>An edit based on the head itself is accepted as it stands.\<close>

lemma reconcile_at_head:
  assumes "edit_ok D edit" and head: "foldOperationHistory D h = Inr head"
    and "edit_epoch edit = snap_epoch head" and "edit_baseVersion edit = snap_version head"
    and new: "edit_id edit \<notin> acc_id ` set (hist_edits h)" and "snap_version head < MAX_SAFE_INTEGER"
    and "dom_apply D (snap_value head) (edit_operation edit) = Inr v"
  shows "reconcileOperation D h edit (snap_value head) =
    Inr \<lparr>acc_id = edit_id edit, acc_epoch = snap_epoch head, acc_version = snap_version head + 1,
         acc_operation = edit_operation edit\<rparr>"
proof -
  have "nat (snap_version head - snap_version (hist_base h)) = length (hist_edits h)"
    "snap_version (hist_base h) \<le> snap_version head"
    using head_version [OF head] by auto
  moreover from new have "\<not> (\<exists>a \<in> set (hist_edits h). acc_id a = edit_id edit)" by force
  ultimately show ?thesis
    using assms by (simp add: reconcileOperation_def transform_over_def)
qed

subsection \<open>The domain contract\<close>

locale operation_domain =
  fixes D :: "('v, 'o) OperationDomain"
  assumes apply_ok: "value_ok D v \<Longrightarrow> operation_ok D a \<Longrightarrow> dom_apply D v a = Inr w \<Longrightarrow> value_ok D w"
    and invert_ok: "value_ok D v \<Longrightarrow> operation_ok D a \<Longrightarrow> dom_invert D v a = Inr b \<Longrightarrow> operation_ok D b"
    and transform_ok:
      "operation_ok D a \<Longrightarrow> operation_ok D b \<Longrightarrow> dom_transform D a b sd = Inr c \<Longrightarrow> operation_ok D c"
    and history_free:
      "\<not> requiresHistory D \<Longrightarrow> operation_ok D a \<Longrightarrow> operation_ok D b \<Longrightarrow> dom_transform D a b sd = Inr a"
begin

lemma transform_over_ok:
  "operation_ok D op \<Longrightarrow> list_all (accepted_ok D) es \<Longrightarrow> transform_over D es op = Inr op'
   \<Longrightarrow> operation_ok D op'"
  by (induction es arbitrary: op)
     (auto simp: transform_over_def result_simps accepted_ok_def dest: transform_ok)

lemma transform_over_history_free:
  assumes "\<not> requiresHistory D" and "operation_ok D op" and "list_all (accepted_ok D) es"
  shows "transform_over D es op = Inr op"
  using assms by (induction es) (auto simp: transform_over_def accepted_ok_def history_free)

text \<open>What an accepted edit carries, in one place.\<close>

lemma reconcile_Inr:
  assumes "reconcileOperation D h edit auth = Inr acc"
  obtains head v where "foldOperationHistory D h = Inr head" "snap_value head = auth" "edit_ok D edit"
    "acc_id acc = edit_id edit" "acc_epoch acc = snap_epoch head" "acc_version acc = snap_version head + 1"
    "snap_version head < MAX_SAFE_INTEGER" "acc_id acc \<notin> acc_id ` set (hist_edits h)"
    "edit_epoch edit = snap_epoch head"
    "snap_version (hist_base h) \<le> edit_baseVersion edit" "edit_baseVersion edit \<le> snap_version head"
    "transform_over D (drop (nat (edit_baseVersion edit - snap_version (hist_base h))) (hist_edits h))
       (edit_operation edit) = Inr (acc_operation acc)"
    "dom_apply D (snap_value head) (acc_operation acc) = Inr v" "accepted_ok D acc"
proof -
  let ?n = "nat (edit_baseVersion edit - snap_version (hist_base h))"
  from assms obtain head v op where head: "foldOperationHistory D h = Inr head"
    and c: "edit_ok D edit" "snap_value head = auth" "edit_epoch edit = snap_epoch head"
      "\<not> edit_baseVersion edit < snap_version (hist_base h)" "\<not> snap_version head < edit_baseVersion edit"
      "\<forall>a \<in> set (hist_edits h). acc_id a \<noteq> edit_id edit" "snap_version head \<noteq> MAX_SAFE_INTEGER"
    and op: "requiresHistory D \<Longrightarrow>
        transform_over D (drop (length (take ?n (hist_edits h))) (hist_edits h)) (edit_operation edit) = Inr op"
      "\<not> requiresHistory D \<Longrightarrow> op = edit_operation edit"
    and v: "dom_apply D (snap_value head) op = Inr v"
    and acc: "acc = \<lparr>acc_id = edit_id edit, acc_epoch = edit_epoch edit,
        acc_version = snap_version head + 1, acc_operation = op\<rparr>"
    by (auto simp: reconcileOperation_def result_simps Let_def split: if_splits)
  have drop_ok: "list_all (accepted_ok D) (drop ?n (hist_edits h))"
    using head by (auto simp: foldOperationHistory_Inr history_ok_def list_all_iff dest: in_set_dropD)
  have t: "transform_over D (drop ?n (hist_edits h)) (edit_operation edit) = Inr op"
  proof (cases "requiresHistory D")
    case True
    have "length (take ?n (hist_edits h)) = ?n" using c head_version [OF head] by simp
    with op(1) [OF True] show ?thesis by simp
  next
    case False
    with op(2) c(1) drop_ok show ?thesis by (simp add: transform_over_history_free edit_ok_def)
  qed
  have "operation_ok D op" using transform_over_ok [OF _ drop_ok t] c(1) by (simp add: edit_ok_def)
  moreover have "edit_id edit \<notin> acc_id ` set (hist_edits h)" using c(6) by auto
  ultimately show ?thesis
    using that [OF head c(2) c(1)] head_version [OF head] c t v acc
    by (auto simp: accepted_ok_def edit_ok_def version_ok_def)
qed

text \<open>Appending what was just accepted gives a history that folds to the next head.\<close>

lemma accepted_extends_history:
  assumes "reconcileOperation D h edit auth = Inr acc"
  shows "\<exists>head v. foldOperationHistory D h = Inr head \<and> dom_apply D auth (acc_operation acc) = Inr v
    \<and> foldOperationHistory D (h\<lparr>hist_edits := hist_edits h @ [acc]\<rparr>) =
        Inr \<lparr>snap_epoch = snap_epoch head, snap_version = snap_version head + 1, snap_value = v\<rparr>"
  using assms
proof (rule reconcile_Inr)
  fix head v
  assume *: "foldOperationHistory D h = Inr head" "snap_value head = auth"
    "acc_epoch acc = snap_epoch head" "acc_version acc = snap_version head + 1"
    "acc_id acc \<notin> acc_id ` set (hist_edits h)"
    "dom_apply D (snap_value head) (acc_operation acc) = Inr v" "accepted_ok D acc"
  then show ?thesis
    by (auto simp: foldOperationHistory_Inr fold_edits_append history_ok_def)
qed

end

end
