(* ===== verification/OperationSession.thy ===== *)
theory OperationSession
  imports Operations
begin

section \<open>The optimistic edit session\<close>

text \<open>
  Model of \<open>packages/transaction/src/commit/operations/session.ts\<close>. The class's only field is
  its \<open>OperationState\<close>; a method is a function from the state to the new state, or to the
  error it throws, in which case the caller keeps the old state as the code does: every
  method assigns \<open>this.state\<close> only after the last statement that can throw.

  The lemmas of the locale \<open>operation_domain\<close> show that the class invariant survives every
  method, the locale \<open>convergent_domain\<close> adds the transformation law of operational
  transformation and gives what a remote edit does to the visible value, and
  \<open>invertible_domain\<close> adds the law that undo relies on.
\<close>

subsection \<open>The class\<close>

definition pending_ids :: "('v, 'o) OperationState \<Rightarrow> string list" where
  "pending_ids st = map pend_id (st_pending st)"

definition apply_pending :: "('v, 'o) OperationDomain \<Rightarrow> 'o PendingEdit list \<Rightarrow> 'v \<Rightarrow> op_error + 'v" where
  "apply_pending D ps v = foldR (\<lambda>p v. dom_apply D v (pend_operation p)) ps v"

definition session_value :: "('v, 'o) OperationDomain \<Rightarrow> ('v, 'o) OperationState \<Rightarrow> op_error + 'v" where
  "session_value D st = apply_pending D (st_pending st) (snap_value (st_snapshot st))"

definition inFlight_matches :: "('v, 'o) OperationState \<Rightarrow> bool" where
  "inFlight_matches st \<longleftrightarrow> (case st_inFlight st of
      None \<Rightarrow> True
    | Some sent \<Rightarrow> (case pending_ids st of [] \<Rightarrow> False | i # _ \<Rightarrow> edit_id sent = i)
        \<and> edit_epoch sent = snap_epoch (st_snapshot st)
        \<and> edit_baseVersion sent \<le> snap_version (st_snapshot st))"

definition new_OperationSession :: "('v, 'o) OperationDomain \<Rightarrow> ('v, 'o) OperationState
    \<Rightarrow> op_error + ('v, 'o) OperationState" where
  "new_OperationSession D input =
     bindR (parse (state_ok D) input) (\<lambda>st.
       if \<not> distinct (pending_ids st)
       then Inl (PlainError ''Pending operation edit ids must be unique.'')
       else if \<not> inFlight_matches st
       then Inl (PlainError ''In-flight operation edit does not match the pending queue.'')
       else bindR (session_value D st) (\<lambda>_. Inr st))"

definition enqueue :: "('v, 'o) OperationDomain \<Rightarrow> ('v, 'o) OperationState \<Rightarrow> string \<Rightarrow> 'o
    \<Rightarrow> op_error + ('v, 'o) OperationState" where
  "enqueue D st i op =
     bindR (parse (edit_ok D) \<lparr>edit_id = i, edit_epoch = snap_epoch (st_snapshot st),
              edit_baseVersion = snap_version (st_snapshot st), edit_operation = op\<rparr>) (\<lambda>edit.
       if \<exists>p \<in> set (st_pending st). pend_id p = i
       then Inl (AbloValidationError DuplicatePendingId)
       else
         bindR (session_value D st) (\<lambda>v.
         bindR (dom_apply D v (edit_operation edit)) (\<lambda>_.
         bindR (mapR (\<lambda>saved. dom_transform D saved (edit_operation edit) RightSide) (st_undo st)) (\<lambda>undo.
         bindR (mapR (\<lambda>saved. dom_transform D saved (edit_operation edit) RightSide) (st_redo st)) (\<lambda>redo.
           Inr (st\<lparr>st_undo := undo, st_redo := redo,
             st_pending := st_pending st @ [\<lparr>pend_id = edit_id edit, pend_operation = edit_operation edit\<rparr>]\<rparr>))))))"

definition session_edit :: "('v, 'o) OperationDomain \<Rightarrow> ('v, 'o) OperationState \<Rightarrow> string \<Rightarrow> 'o
    \<Rightarrow> op_error + ('v, 'o) OperationState" where
  "session_edit D st i op =
     bindR (session_value D st) (\<lambda>v.
     bindR (dom_invert D v op) (\<lambda>inv_op.
     bindR (enqueue D st i op) (\<lambda>st1.
       Inr (st1\<lparr>st_undo := st_undo st1 @ [inv_op], st_redo := []\<rparr>))))"

definition nextEdit :: "('v, 'o) OperationState \<Rightarrow> ('v, 'o) OperationState \<times> 'o OperationEdit option" where
  "nextEdit st = (case st_inFlight st of
      Some sent \<Rightarrow> (st, Some sent)
    | None \<Rightarrow> (case st_pending st of
          [] \<Rightarrow> (st, None)
        | p # _ \<Rightarrow>
            let sent = \<lparr>edit_id = pend_id p, edit_epoch = snap_epoch (st_snapshot st),
                  edit_baseVersion = snap_version (st_snapshot st), edit_operation = pend_operation p\<rparr>
            in (st\<lparr>st_inFlight := Some sent\<rparr>, Some sent)))"

text \<open>The loop of \<open>receive\<close> that carries the remote operation through the pending edits.\<close>

fun transform_pending :: "('v, 'o) OperationDomain \<Rightarrow> 'o PendingEdit list \<Rightarrow> 'o
    \<Rightarrow> op_error + ('o PendingEdit list \<times> 'o)" where
  "transform_pending D [] remote = Inr ([], remote)"
| "transform_pending D (p # ps) remote =
     bindR (dom_transform D (pend_operation p) remote RightSide) (\<lambda>operation.
     bindR (dom_transform D remote (pend_operation p) LeftSide) (\<lambda>remote1.
     bindR (transform_pending D ps remote1) (\<lambda>(ps1, remote2).
       Inr (p\<lparr>pend_operation := operation\<rparr> # ps1, remote2))))"

text \<open>The second half of \<open>receive\<close>, for an edit that is not the one in flight.\<close>

definition receive_remote :: "('v, 'o) OperationDomain \<Rightarrow> ('v, 'o) OperationState \<Rightarrow> 'o AcceptedOperation
    \<Rightarrow> 'v OperationSnapshot \<Rightarrow> op_error + ('v, 'o) OperationState" where
  "receive_remote D st edit snapshot =
     (if \<exists>p \<in> set (st_pending st). pend_id p = acc_id edit
      then Inl (AbloValidationError UnsentAcknowledged)
      else
        bindR (transform_pending D (st_pending st) (acc_operation edit)) (\<lambda>(pending, remote).
        bindR (mapR (\<lambda>operation. dom_transform D operation remote RightSide) (st_undo st)) (\<lambda>undo.
        bindR (mapR (\<lambda>operation. dom_transform D operation remote RightSide) (st_redo st)) (\<lambda>redo.
        bindR (apply_pending D pending (snap_value snapshot)) (\<lambda>_.
          Inr (st\<lparr>st_snapshot := snapshot, st_pending := pending, st_undo := undo, st_redo := redo\<rparr>))))))"

definition receive :: "('v, 'o) OperationDomain \<Rightarrow> ('v, 'o) OperationState \<Rightarrow> 'o AcceptedOperation
    \<Rightarrow> op_error + ('v, 'o) OperationState" where
  "receive D st input =
     bindR (parse (accepted_ok D) input) (\<lambda>edit.
       let previous = st_snapshot st in
       if acc_epoch edit \<noteq> snap_epoch previous then Inl (AbloStaleContextError BaseChanged)
       else if acc_version edit \<le> snap_version previous then Inr st
       else if acc_version edit \<noteq> snap_version previous + 1 then Inl (AbloStaleContextError MissingEdits)
       else
         bindR (dom_apply D (snap_value previous) (acc_operation edit)) (\<lambda>v.
           let snapshot = \<lparr>snap_epoch = acc_epoch edit, snap_version = acc_version edit, snap_value = v\<rparr> in
           case st_pending st of
             own # rest \<Rightarrow>
               (if map_option edit_id (st_inFlight st) = Some (acc_id edit) then
                  bindR (dom_apply D (snap_value previous) (pend_operation own)) (\<lambda>w.
                    if w \<noteq> v then Inl (AbloStaleContextError AckDisagrees)
                    else Inr (st\<lparr>st_snapshot := snapshot, st_pending := rest, st_inFlight := None\<rparr>))
                else receive_remote D st edit snapshot)
           | [] \<Rightarrow> receive_remote D st edit snapshot))"

text \<open>\<open>replay(id, 'undo', 'redo')\<close> and \<open>replay(id, 'redo', 'undo')\<close>; the flag is the returned boolean.\<close>

definition session_undo :: "('v, 'o) OperationDomain \<Rightarrow> ('v, 'o) OperationState \<Rightarrow> string
    \<Rightarrow> op_error + (('v, 'o) OperationState \<times> bool)" where
  "session_undo D st i =
     (if st_undo st = [] then Inr (st, False)
      else let operation = last (st_undo st) in
        bindR (session_value D st) (\<lambda>v.
        bindR (dom_invert D v operation) (\<lambda>inv_op.
        bindR (enqueue D st i operation) (\<lambda>st1.
          Inr (st1\<lparr>st_undo := butlast (st_undo st1), st_redo := st_redo st1 @ [inv_op]\<rparr>, True)))))"

definition session_redo :: "('v, 'o) OperationDomain \<Rightarrow> ('v, 'o) OperationState \<Rightarrow> string
    \<Rightarrow> op_error + (('v, 'o) OperationState \<times> bool)" where
  "session_redo D st i =
     (if st_redo st = [] then Inr (st, False)
      else let operation = last (st_redo st) in
        bindR (session_value D st) (\<lambda>v.
        bindR (dom_invert D v operation) (\<lambda>inv_op.
        bindR (enqueue D st i operation) (\<lambda>st1.
          Inr (st1\<lparr>st_undo := st_undo st1 @ [inv_op], st_redo := butlast (st_redo st1)\<rparr>, True)))))"

subsection \<open>The class invariant\<close>

text \<open>What the constructor checks is what holds between calls.\<close>

definition session_inv :: "('v, 'o) OperationDomain \<Rightarrow> ('v, 'o) OperationState \<Rightarrow> bool" where
  "session_inv D st \<longleftrightarrow> state_ok D st \<and> distinct (pending_ids st) \<and> inFlight_matches st
     \<and> (\<exists>v. session_value D st = Inr v)"

lemma new_OperationSession_Inr:
  "new_OperationSession D input = Inr st \<longleftrightarrow> st = input \<and> session_inv D st"
  by (auto simp: new_OperationSession_def session_inv_def result_simps split: if_splits)

lemma apply_pending_simps [simp]:
  "apply_pending D [] v = Inr v"
  "apply_pending D (p # ps) v = bindR (dom_apply D v (pend_operation p)) (apply_pending D ps)"
  "apply_pending D (ps @ [p]) v = bindR (apply_pending D ps v) (\<lambda>w. dom_apply D w (pend_operation p))"
  by (simp_all add: apply_pending_def foldR_snoc apply_pending_def [abs_def])

lemma transform_pending_ids:
  "transform_pending D ps r = Inr (ps', r') \<Longrightarrow> map pend_id ps' = map pend_id ps"
  by (induction ps arbitrary: r ps') (auto simp: result_simps split_def)

lemma inFlight_matches_cong:
  "pending_ids st' = pending_ids st \<Longrightarrow> st_inFlight st' = st_inFlight st \<Longrightarrow>
   snap_epoch (st_snapshot st') = snap_epoch (st_snapshot st) \<Longrightarrow>
   snap_version (st_snapshot st) \<le> snap_version (st_snapshot st') \<Longrightarrow>
   inFlight_matches st \<Longrightarrow> inFlight_matches st'"
  by (auto simp: inFlight_matches_def split: option.splits)

lemma inFlight_matches_snoc:
  "inFlight_matches st \<Longrightarrow> inFlight_matches (st\<lparr>st_undo := u, st_redo := r, st_pending := st_pending st @ [p]\<rparr>)"
  by (auto simp: inFlight_matches_def pending_ids_def split: option.splits list.splits)

lemma session_inv_stacks:
  assumes "session_inv D st" and "list_all (operation_ok D) u" and "list_all (operation_ok D) r"
  shows "session_inv D (st\<lparr>st_undo := u, st_redo := r\<rparr>)"
  using assms
  by (auto simp: session_inv_def state_ok_def session_value_def inFlight_matches_def pending_ids_def
      split: option.splits)

lemma list_all_butlast: "list_all P xs \<Longrightarrow> list_all P (butlast xs)"
  by (induction xs) auto

lemma session_inv_undo: "session_inv D st \<Longrightarrow> list_all (operation_ok D) (st_undo st)"
  and session_inv_redo: "session_inv D st \<Longrightarrow> list_all (operation_ok D) (st_redo st)"
  by (simp_all add: session_inv_def state_ok_def)

lemma session_value_stacks [simp]:
  "session_value D (st\<lparr>st_undo := u\<rparr>) = session_value D st"
  "session_value D (st\<lparr>st_redo := r\<rparr>) = session_value D st"
  by (simp_all add: session_value_def)

text \<open>What a successful \<open>receive\<close> did, by the branch it took.\<close>

definition next_snapshot :: "'o AcceptedOperation \<Rightarrow> 'v \<Rightarrow> 'v OperationSnapshot" where
  "next_snapshot edit v = \<lparr>snap_epoch = acc_epoch edit, snap_version = acc_version edit, snap_value = v\<rparr>"

lemma receive_cases:
  assumes "receive D st edit = Inr st'"
  obtains (duplicate) "accepted_ok D edit" "acc_epoch edit = snap_epoch (st_snapshot st)"
      "acc_version edit \<le> snap_version (st_snapshot st)" "st' = st"
  | (ack) v own rest where "accepted_ok D edit" "acc_epoch edit = snap_epoch (st_snapshot st)"
      "acc_version edit = snap_version (st_snapshot st) + 1"
      "dom_apply D (snap_value (st_snapshot st)) (acc_operation edit) = Inr v"
      "st_pending st = own # rest" "map_option edit_id (st_inFlight st) = Some (acc_id edit)"
      "dom_apply D (snap_value (st_snapshot st)) (pend_operation own) = Inr v"
      "st' = st\<lparr>st_snapshot := next_snapshot edit v, st_pending := rest, st_inFlight := None\<rparr>"
  | (remote) v ps r undo redo w where "accepted_ok D edit" "acc_epoch edit = snap_epoch (st_snapshot st)"
      "acc_version edit = snap_version (st_snapshot st) + 1"
      "dom_apply D (snap_value (st_snapshot st)) (acc_operation edit) = Inr v"
      "\<forall>p \<in> set (st_pending st). pend_id p \<noteq> acc_id edit"
      "transform_pending D (st_pending st) (acc_operation edit) = Inr (ps, r)"
      "mapR (\<lambda>a. dom_transform D a r RightSide) (st_undo st) = Inr undo"
      "mapR (\<lambda>a. dom_transform D a r RightSide) (st_redo st) = Inr redo"
      "apply_pending D ps v = Inr w"
      "st' = st\<lparr>st_snapshot := next_snapshot edit v, st_pending := ps, st_undo := undo, st_redo := redo\<rparr>"
proof (cases "acc_version edit \<le> snap_version (st_snapshot st)")
  case True
  with assms show ?thesis
    by (auto simp: receive_def result_simps Let_def split: if_splits intro: duplicate)
next
  case newer: False
  with assms obtain v where common: "accepted_ok D edit" "acc_epoch edit = snap_epoch (st_snapshot st)"
    "acc_version edit = snap_version (st_snapshot st) + 1"
    "dom_apply D (snap_value (st_snapshot st)) (acc_operation edit) = Inr v"
    by (auto simp: receive_def result_simps Let_def split: if_splits)
  show ?thesis
  proof (cases "\<exists>own rest. st_pending st = own # rest \<and> map_option edit_id (st_inFlight st) = Some (acc_id edit)")
    case True
    then obtain own rest where own: "st_pending st = own # rest"
      "map_option edit_id (st_inFlight st) = Some (acc_id edit)" by blast
    with assms newer common show ?thesis
      by (auto simp: receive_def result_simps Let_def next_snapshot_def split: if_splits
          intro!: ack [OF common own])
  next
    case False
    with assms newer common have "receive_remote D st edit (next_snapshot edit v) = Inr st'"
      by (auto simp: receive_def result_simps Let_def next_snapshot_def split: if_splits list.splits)
    then show ?thesis
      by (auto simp: receive_remote_def result_simps next_snapshot_def pending_ids_def split: if_splits
          intro!: remote [OF common])
  qed
qed

context operation_domain
begin

lemma apply_pending_ok:
  "value_ok D v \<Longrightarrow> list_all (pending_ok D) ps \<Longrightarrow> apply_pending D ps v = Inr w \<Longrightarrow> value_ok D w"
  by (induction ps arbitrary: v) (auto simp: result_simps pending_ok_def dest: apply_ok)

lemma session_value_ok: "state_ok D st \<Longrightarrow> session_value D st = Inr v \<Longrightarrow> value_ok D v"
  by (auto simp: state_ok_def snapshot_ok_def session_value_def intro: apply_pending_ok)

lemma mapR_transform_ok:
  "list_all (operation_ok D) ops \<Longrightarrow> operation_ok D b \<Longrightarrow>
   mapR (\<lambda>a. dom_transform D a b sd) ops = Inr ops' \<Longrightarrow> list_all (operation_ok D) ops'"
  by (induction ops arbitrary: ops') (auto simp: result_simps dest: transform_ok)

lemma transform_pending_ok:
  "list_all (pending_ok D) ps \<Longrightarrow> operation_ok D r \<Longrightarrow> transform_pending D ps r = Inr (ps', r') \<Longrightarrow>
   list_all (pending_ok D) ps' \<and> operation_ok D r'"
proof (induction ps arbitrary: r ps')
  case (Cons p ps)
  then obtain a b qs where a: "dom_transform D (pend_operation p) r RightSide = Inr a"
    and b: "dom_transform D r (pend_operation p) LeftSide = Inr b"
    and qs: "transform_pending D ps b = Inr (qs, r')" and ps': "ps' = p\<lparr>pend_operation := a\<rparr> # qs"
    by (auto simp: result_simps split_def)
  from Cons.prems a b have "operation_ok D a" "operation_ok D b"
    by (auto simp: pending_ok_def intro: transform_ok)
  with Cons.IH [OF _ _ qs] Cons.prems show ?case by (auto simp: ps' pending_ok_def)
qed simp

lemma enqueue_inv:
  assumes inv: "session_inv D st" and enq: "enqueue D st i op = Inr st'"
  shows "session_inv D st' \<and> (\<exists>v. session_value D st = Inr v \<and> session_value D st' = dom_apply D v op)
    \<and> st_snapshot st' = st_snapshot st \<and> pending_ids st' = pending_ids st @ [i]
    \<and> length (st_undo st') = length (st_undo st) \<and> length (st_redo st') = length (st_redo st)"
proof -
  from enq obtain v w undo redo where ok: "id_ok i" "operation_ok D op"
    and fresh: "\<forall>p \<in> set (st_pending st). pend_id p \<noteq> i" and v: "session_value D st = Inr v" and w: "dom_apply D v op = Inr w"
    and undo: "mapR (\<lambda>a. dom_transform D a op RightSide) (st_undo st) = Inr undo"
    and redo: "mapR (\<lambda>a. dom_transform D a op RightSide) (st_redo st) = Inr redo"
    and st': "st' = st\<lparr>st_undo := undo, st_redo := redo,
        st_pending := st_pending st @ [\<lparr>pend_id = i, pend_operation = op\<rparr>]\<rparr>"
    by (auto simp: enqueue_def result_simps edit_ok_def split: if_splits)
  from inv have "state_ok D st" by (simp add: session_inv_def)
  with ok undo redo mapR_transform_ok [of _ op RightSide] have "state_ok D st'"
    by (auto simp: st' state_ok_def pending_ok_def split: option.splits)
  moreover have "session_value D st' = dom_apply D v op"
    using v by (simp add: st' session_value_def)
  moreover have "inFlight_matches st'"
    using inv by (simp add: st' session_inv_def inFlight_matches_snoc)
  ultimately show ?thesis
    using inv fresh v w undo redo by (auto simp: st' session_inv_def pending_ids_def)
qed

lemma session_edit_inv:
  assumes inv: "session_inv D st" and ed: "session_edit D st i op = Inr st'"
  shows "session_inv D st' \<and> (\<exists>v. session_value D st = Inr v \<and> session_value D st' = dom_apply D v op)"
proof -
  from ed obtain v inv_op st1 where v: "session_value D st = Inr v"
    and inv_op: "dom_invert D v op = Inr inv_op" and enq: "enqueue D st i op = Inr st1"
    and st': "st' = st1\<lparr>st_undo := st_undo st1 @ [inv_op], st_redo := []\<rparr>"
    by (auto simp: session_edit_def result_simps)
  from enq have "operation_ok D op" by (auto simp: enqueue_def result_simps edit_ok_def split: if_splits)
  with inv v inv_op have "operation_ok D inv_op"
    by (auto simp: session_inv_def intro: invert_ok session_value_ok)
  with enqueue_inv [OF inv enq] show ?thesis
    by (auto simp: st' intro!: session_inv_stacks dest: session_inv_undo)
qed

lemma replay_inv:
  assumes inv: "session_inv D st" and enq: "enqueue D st i op = Inr st1"
    and v: "session_value D st = Inr v" and inv_op: "dom_invert D v op = Inr inv_op"
  shows "session_inv D (st1\<lparr>st_undo := butlast (st_undo st1), st_redo := st_redo st1 @ [inv_op]\<rparr>)
    \<and> session_inv D (st1\<lparr>st_undo := st_undo st1 @ [inv_op], st_redo := butlast (st_redo st1)\<rparr>)"
proof -
  from enq have "operation_ok D op" by (auto simp: enqueue_def result_simps edit_ok_def split: if_splits)
  with inv v inv_op have "operation_ok D inv_op"
    by (auto simp: session_inv_def intro: invert_ok session_value_ok)
  moreover have "session_inv D st1" using enqueue_inv [OF inv enq] by blast
  moreover note session_inv_undo [OF this] session_inv_redo [OF this]
  ultimately have "session_inv D (st1\<lparr>st_undo := butlast (st_undo st1), st_redo := st_redo st1 @ [inv_op]\<rparr>)"
    "session_inv D (st1\<lparr>st_undo := st_undo st1 @ [inv_op], st_redo := butlast (st_redo st1)\<rparr>)"
    by (auto intro!: session_inv_stacks list_all_butlast)
  then show ?thesis by simp
qed

lemma session_undo_inv: "session_inv D st \<Longrightarrow> session_undo D st i = Inr (st', b) \<Longrightarrow> session_inv D st'"
  by (auto simp: session_undo_def Let_def result_simps dest: replay_inv split: if_splits)

lemma session_redo_inv: "session_inv D st \<Longrightarrow> session_redo D st i = Inr (st', b) \<Longrightarrow> session_inv D st'"
  by (auto simp: session_redo_def Let_def result_simps dest: replay_inv split: if_splits)

lemma receive_inv:
  assumes inv: "session_inv D st" and rec: "receive D st edit = Inr st'"
  shows "session_inv D st'"
  using rec
proof (cases rule: receive_cases)
  case duplicate
  with inv show ?thesis by simp
next
  case (ack v own rest)
  have "value_ok D v"
    using inv ack by (auto simp: session_inv_def state_ok_def snapshot_ok_def accepted_ok_def intro: apply_ok)
  with inv ack show ?thesis
    by (auto simp: next_snapshot_def session_inv_def state_ok_def session_value_def pending_ids_def
        inFlight_matches_def snapshot_ok_def accepted_ok_def)
next
  case (remote v ps r undo redo w)
  have "value_ok D v"
    using inv remote by (auto simp: session_inv_def state_ok_def snapshot_ok_def accepted_ok_def intro: apply_ok)
  moreover have "list_all (pending_ok D) ps" "operation_ok D r"
    using transform_pending_ok [OF _ _ remote(6)] inv remote(1)
    by (auto simp: session_inv_def state_ok_def accepted_ok_def)
  moreover have ids: "pending_ids st' = pending_ids st"
    using transform_pending_ids [OF remote(6)] remote(10) by (simp add: pending_ids_def)
  moreover have "inFlight_matches st'"
    using inFlight_matches_cong [OF ids] inv remote by (simp add: session_inv_def next_snapshot_def)
  ultimately show ?thesis
    using inv remote mapR_transform_ok [OF _ _ remote(7)] mapR_transform_ok [OF _ _ remote(8)]
    by (auto simp: next_snapshot_def session_inv_def state_ok_def session_value_def snapshot_ok_def accepted_ok_def)
qed

end

subsection \<open>Following the accepted history\<close>

text \<open>The deliveries of a list of accepted edits, in order.\<close>

definition session_follow :: "('v, 'o) OperationDomain \<Rightarrow> 'o AcceptedOperation list
    \<Rightarrow> ('v, 'o) OperationState \<Rightarrow> op_error + ('v, 'o) OperationState" where
  "session_follow D es st = foldR (\<lambda>e st. receive D st e) es st"

lemma session_follow_simps [simp]:
  "session_follow D [] st = Inr st"
  "session_follow D (e # es) st = bindR (receive D st e) (session_follow D es)"
  by (simp_all add: session_follow_def session_follow_def [abs_def])

lemma receive_snapshot:
  assumes "receive D st e = Inr st'" and "acc_version e = snap_version (st_snapshot st) + 1"
    and "dom_apply D (snap_value (st_snapshot st)) (acc_operation e) = Inr v"
  shows "st_snapshot st' = next_snapshot e v"
  using assms(1) by (cases rule: receive_cases) (use assms(2,3) in auto)

lemma follow_snapshot:
  "fold_edits D ids es (st_snapshot st) = Inr head \<Longrightarrow> session_follow D es st = Inr st' \<Longrightarrow> st_snapshot st' = head"
proof (induction es arbitrary: ids st)
  case Nil
  then show ?case by simp
next
  case (Cons e es)
  then obtain v st1 where v: "dom_apply D (snap_value (st_snapshot st)) (acc_operation e) = Inr v"
    and ver: "acc_version e = snap_version (st_snapshot st) + 1"
    and st1: "receive D st e = Inr st1" "session_follow D es st1 = Inr st'"
    and rest: "fold_edits D (acc_id e # ids) es (next_snapshot e v) = Inr head"
    by (auto simp: result_simps next_snapshot_def split: if_splits)
  from receive_snapshot [OF st1(1) ver v] Cons.IH [of _ st1] rest st1(2) show ?case by simp
qed

text \<open>While its own edit is in flight, the head of the queue is carried over each remote edit.\<close>

lemma follow_pending_head:
  assumes "fold_edits D ids es (st_snapshot st) = Inr head" and "session_follow D es st = Inr st'"
    and "st_inFlight st = Some sent" and "\<forall>e \<in> set es. acc_id e \<noteq> edit_id sent" and "st_pending st = p # ps"
  shows "st_inFlight st' = Some sent \<and> (\<exists>q qs. st_pending st' = q # qs \<and> pend_id q = pend_id p
    \<and> transform_over D es (pend_operation p) = Inr (pend_operation q))"
  using assms
proof (induction es arbitrary: ids st p ps)
  case Nil
  then show ?case by (simp add: transform_over_def)
next
  case (Cons e es)
  then obtain v st1 where ver: "acc_version e = snap_version (st_snapshot st) + 1"
    and v: "dom_apply D (snap_value (st_snapshot st)) (acc_operation e) = Inr v"
    and st1: "receive D st e = Inr st1" "session_follow D es st1 = Inr st'"
    and rest: "fold_edits D (acc_id e # ids) es (next_snapshot e v) = Inr head"
    by (auto simp: result_simps next_snapshot_def split: if_splits)
  from st1(1) Cons.prems ver obtain snap qs r undo redo
    where qs: "transform_pending D (p # ps) (acc_operation e) = Inr (qs, r)"
      and eq: "st1 = st\<lparr>st_snapshot := snap, st_pending := qs, st_undo := undo, st_redo := redo\<rparr>"
    by (cases rule: receive_cases) auto
  from qs obtain a qs' where a: "dom_transform D (pend_operation p) (acc_operation e) RightSide = Inr a"
    and qs': "qs = p\<lparr>pend_operation := a\<rparr> # qs'"
    by (auto simp: result_simps split_def)
  have "st_inFlight st1 = Some sent" "st_pending st1 = p\<lparr>pend_operation := a\<rparr> # qs'"
    using eq qs' Cons.prems(3) by simp_all
  with Cons.IH [of "acc_id e # ids" st1] rest st1(2) Cons.prems(4) receive_snapshot [OF st1(1) ver v] a
  show ?case by (simp add: transform_over_def)
qed

subsection \<open>The session and the authority agree\<close>

lemma nextEdit_fresh:
  assumes "st_inFlight st = None" and "nextEdit st = (st1, Some sent)"
  obtains p ps where "st_pending st = p # ps" "st1 = st\<lparr>st_inFlight := Some sent\<rparr>"
    "edit_id sent = pend_id p" "edit_operation sent = pend_operation p"
    "edit_epoch sent = snap_epoch (st_snapshot st)" "edit_baseVersion sent = snap_version (st_snapshot st)"
  using assms by (auto simp: nextEdit_def Let_def split: list.splits)

context operation_domain
begin

lemma nextEdit_inv: "session_inv D st \<Longrightarrow> nextEdit st = (st', e) \<Longrightarrow>
    session_inv D st' \<and> session_value D st' = session_value D st"
  by (auto simp: nextEdit_def session_inv_def state_ok_def pending_ok_def edit_ok_def session_value_def
      inFlight_matches_def pending_ids_def snapshot_ok_def Let_def split: option.splits list.splits)

lemma own_edit_acknowledged:
  assumes fresh: "st_inFlight st = None" and sent: "nextEdit st = (st1, Some sent)"
    and base: "foldOperationHistory D \<lparr>hist_base = hist_base h, hist_edits = take n (hist_edits h)\<rparr> = Inr (st_snapshot st)"
    and n: "n \<le> length (hist_edits h)"
    and acc: "reconcileOperation D h sent auth = Inr acc"
    and follow: "session_follow D (drop n (hist_edits h)) st1 = Inr st2"
  shows "\<exists>st3. receive D st2 acc = Inr st3 \<and> session_value D st3 = session_value D st2
    \<and> pending_ids st3 = tl (pending_ids st2) \<and> st_inFlight st3 = None
    \<and> foldOperationHistory D (h\<lparr>hist_edits := hist_edits h @ [acc]\<rparr>) = Inr (st_snapshot st3)"
proof -
  from fresh sent obtain p ps where p: "st_pending st = p # ps" "st1 = st\<lparr>st_inFlight := Some sent\<rparr>"
    "edit_id sent = pend_id p" "edit_operation sent = pend_operation p"
    "edit_baseVersion sent = snap_version (st_snapshot st)"
    by (rule nextEdit_fresh)
  from acc obtain head v where head: "foldOperationHistory D h = Inr head"
    and a: "acc_id acc = edit_id sent" "acc_epoch acc = snap_epoch head" "acc_version acc = snap_version head + 1"
      "acc_id acc \<notin> acc_id ` set (hist_edits h)"
    and op: "transform_over D (drop (nat (edit_baseVersion sent - snap_version (hist_base h))) (hist_edits h))
       (edit_operation sent) = Inr (acc_operation acc)"
    and v: "dom_apply D (snap_value head) (acc_operation acc) = Inr v" and ok: "accepted_ok D acc"
    by (rule reconcile_Inr)
  have "nat (edit_baseVersion sent - snap_version (hist_base h)) = n"
    using head_version [OF base] n p(5) by simp
  with op p(4) have op': "transform_over D (drop n (hist_edits h)) (pend_operation p) = Inr (acc_operation acc)"
    by simp
  have "fold_edits D [] (take n (hist_edits h) @ drop n (hist_edits h)) (hist_base h) = Inr head"
    using head by (simp add: foldOperationHistory_Inr)
  with base have "fold_edits D (rev (map acc_id (take n (hist_edits h)))) (drop n (hist_edits h))
      (st_snapshot st1) = Inr head"
    by (simp only: fold_edits_append) (simp add: foldOperationHistory_Inr p(2))
  note f = this follow
  have snap2: "st_snapshot st2 = head" by (rule follow_snapshot [OF f])
  have "\<forall>e \<in> set (drop n (hist_edits h)). acc_id e \<noteq> edit_id sent"
    using a(1,4) by (metis image_eqI in_set_dropD)
  with follow_pending_head [OF f, of sent p ps] p(1,2) obtain q qs where q: "st_inFlight st2 = Some sent"
    "st_pending st2 = q # qs" "transform_over D (drop n (hist_edits h)) (pend_operation p) = Inr (pend_operation q)"
    by auto
  let ?st3 = "st2\<lparr>st_snapshot := next_snapshot acc v, st_pending := qs, st_inFlight := None\<rparr>"
  have "receive D st2 acc = Inr ?st3"
    using ok a q op' v by (simp add: receive_def snap2 Let_def next_snapshot_def)
  moreover from accepted_extends_history [OF acc] head v a
  have "foldOperationHistory D (h\<lparr>hist_edits := hist_edits h @ [acc]\<rparr>) = Inr (next_snapshot acc v)"
    using reconcile_Inr [OF acc] by (metis (no_types, lifting) Inr_inject next_snapshot_def)
  ultimately show ?thesis
    using q op' v by (auto simp: session_value_def pending_ids_def snap2 next_snapshot_def)
qed

end

subsection \<open>Domains with the transformation law\<close>

text \<open>
  The law of operational transformation: two operations on the same value, each carried
  over the other, lead to the same result. The locally pending side is transformed as
  \<open>right\<close>, the already accepted side as \<open>left\<close>, as \<open>receive\<close> does.
\<close>

locale convergent_domain = operation_domain +
  assumes tp1: "value_ok D v \<Longrightarrow> operation_ok D a \<Longrightarrow> operation_ok D b \<Longrightarrow>
    dom_apply D v a = Inr va \<Longrightarrow> dom_apply D v b = Inr vb \<Longrightarrow>
    dom_transform D a b RightSide = Inr a' \<Longrightarrow> dom_transform D b a LeftSide = Inr b' \<Longrightarrow>
    dom_apply D vb a' = dom_apply D va b'"
begin

lemma transform_pending_diamond:
  assumes "value_ok D v" and "list_all (pending_ok D) ps" and "operation_ok D r"
    and "dom_apply D v r = Inr v'" and "apply_pending D ps v = Inr w"
    and "transform_pending D ps r = Inr (ps', r')" and "apply_pending D ps' v' = Inr w'"
  shows "dom_apply D w r' = Inr w'"
  using assms
proof (induction ps arbitrary: v r v' ps')
  case Nil
  then show ?case by simp
next
  case (Cons p ps)
  let ?a = "pend_operation p"
  from Cons.prems(6) obtain a' b' qs where a': "dom_transform D ?a r RightSide = Inr a'"
    and b': "dom_transform D r ?a LeftSide = Inr b'" and qs: "transform_pending D ps b' = Inr (qs, r')"
    and ps': "ps' = p\<lparr>pend_operation := a'\<rparr> # qs"
    by (auto simp: result_simps split_def)
  from Cons.prems(5) obtain va where va: "dom_apply D v ?a = Inr va" "apply_pending D ps va = Inr w"
    by (auto simp: result_simps)
  from Cons.prems(7) obtain x where x: "dom_apply D v' a' = Inr x" "apply_pending D qs x = Inr w'"
    by (auto simp: ps' result_simps)
  have ok: "operation_ok D ?a" "list_all (pending_ok D) ps"
    using Cons.prems(2) by (auto simp: pending_ok_def [of D p])
  have "dom_apply D va b' = Inr x"
    using tp1 [OF Cons.prems(1) ok(1) Cons.prems(3) va(1) Cons.prems(4) a' b'] x(1) by simp
  moreover have "value_ok D va" by (rule apply_ok [OF Cons.prems(1) ok(1) va(1)])
  moreover have "operation_ok D b'" by (rule transform_ok [OF Cons.prems(3) ok(1) b'])
  ultimately show ?case using Cons.IH ok(2) va(2) qs x(2) by blast
qed

lemma receive_remote_view:
  assumes inv: "session_inv D st" and rec: "receive D st edit = Inr st'"
    and new: "snap_version (st_snapshot st) < acc_version edit" and foreign: "acc_id edit \<notin> set (pending_ids st)"
  shows "\<exists>v v' ps r'. session_value D st = Inr v \<and> session_value D st' = Inr v'
    \<and> transform_pending D (st_pending st) (acc_operation edit) = Inr (ps, r')
    \<and> st_pending st' = ps \<and> dom_apply D v r' = Inr v'"
  using rec
proof (cases rule: receive_cases)
  case duplicate
  with new show ?thesis by simp
next
  case (ack v own rest)
  with inv foreign show ?thesis
    by (auto simp: session_inv_def inFlight_matches_def pending_ids_def split: option.splits)
next
  case (remote v' ps r undo redo w')
  from inv obtain w where w: "session_value D st = Inr w" by (auto simp: session_inv_def)
  have "dom_apply D w r = Inr w'"
    using transform_pending_diamond [OF _ _ _ remote(4) _ remote(6,9)] inv remote(1) w
    by (auto simp: session_inv_def state_ok_def snapshot_ok_def accepted_ok_def session_value_def)
  with remote w show ?thesis by (auto simp: session_value_def next_snapshot_def)
qed

end

text \<open>The law that undo relies on: the inverse computed before an edit takes it back.\<close>

locale invertible_domain = operation_domain +
  assumes invert_back: "value_ok D v \<Longrightarrow> operation_ok D a \<Longrightarrow> dom_apply D v a = Inr w \<Longrightarrow>
    dom_invert D v a = Inr b \<Longrightarrow> dom_apply D w b = Inr v"
begin

lemma edit_then_undo:
  assumes inv: "session_inv D st" and ed: "session_edit D st i op = Inr st1"
    and un: "session_undo D st1 j = Inr (st2, undone)"
  shows "undone \<and> session_value D st2 = session_value D st"
proof -
  from ed obtain v b st0 where v: "session_value D st = Inr v" and b: "dom_invert D v op = Inr b"
    and st0: "enqueue D st i op = Inr st0" and st1: "st1 = st0\<lparr>st_undo := st_undo st0 @ [b], st_redo := []\<rparr>"
    by (auto simp: session_edit_def result_simps)
  from session_edit_inv [OF inv ed] v have inv1: "session_inv D st1" and v1: "session_value D st1 = dom_apply D v op"
    by auto
  from un st1 obtain st3 where st3: "enqueue D st1 j b = Inr st3" and st2: "session_value D st2 = session_value D st3"
    and "undone" by (auto simp: session_undo_def Let_def result_simps)
  from enqueue_inv [OF inv1 st3] v1 obtain w where w: "dom_apply D v op = Inr w"
    and v3: "session_value D st3 = dom_apply D w b" by auto
  have "operation_ok D op" using st0 by (auto simp: enqueue_def result_simps edit_ok_def split: if_splits)
  then have "dom_apply D w b = Inr v"
    using invert_back [OF session_value_ok [OF _ v] _ w b] inv by (simp add: session_inv_def)
  with v v3 st2 \<open>undone\<close> show ?thesis by simp
qed

end

end
