(* ===== verification/OperationContext.thy ===== *)
theory OperationContext
  imports OperationSession
begin

section \<open>Authoring contexts of queued edits\<close>

text \<open>
  Model of \<open>packages/transaction/src/commit/operations/context.ts\<close>: the context that a queued
  mutation keeps until its edit is sealed. A context is rebased by replaying the accepted
  history into a session, and only its causal head may be given a server basis.

  The lemmas show that a rebased context sits exactly on the head of the history, and that
  an edit prepared from it is one the authority accepts as it stands.
\<close>

record ('v, 'o) OperationContext =
  ctx_snapshot :: "'v OperationSnapshot"
  ctx_pending :: "'o PendingEdit list"

text \<open>Parsing a context with the state schema fills in the defaults.\<close>

definition ctx_state :: "('v, 'o) OperationContext \<Rightarrow> ('v, 'o) OperationState" where
  "ctx_state c = \<lparr>st_snapshot = ctx_snapshot c, st_pending = ctx_pending c, st_inFlight = None,
     st_undo = [], st_redo = []\<rparr>"

definition export_context :: "('v, 'o) OperationState \<Rightarrow> ('v, 'o) OperationContext" where
  "export_context st = \<lparr>ctx_snapshot = st_snapshot st, ctx_pending = st_pending st\<rparr>"

text \<open>The loop of \<open>rebaseOperationContext\<close>: skip what the snapshot already holds, deliver the rest.\<close>

definition rebase_loop :: "('v, 'o) OperationDomain \<Rightarrow> int \<Rightarrow> 'o AcceptedOperation list
    \<Rightarrow> ('v, 'o) OperationState \<Rightarrow> op_error + ('v, 'o) OperationState" where
  "rebase_loop D ver es st =
     foldR (\<lambda>e st. if acc_version e \<le> ver then Inr st else receive D (fst (nextEdit st)) e) es st"

definition rebaseOperationContext :: "('v, 'o) OperationDomain \<Rightarrow> ('v, 'o) OperationContext
    \<Rightarrow> ('v, 'o) OperationHistory \<Rightarrow> op_error + ('v, 'o) OperationContext" where
  "rebaseOperationContext D input accepted =
     bindR (parse (history_ok D) accepted) (\<lambda>history.
     bindR (foldOperationHistory D history) (\<lambda>head.
     bindR (parse (state_ok D) (ctx_state input)) (\<lambda>context.
       let ver = snap_version (st_snapshot context) in
       if snap_epoch (st_snapshot context) \<noteq> snap_epoch head \<or> ver < snap_version (hist_base history)
          \<or> snap_version head < ver
       then Inl (AbloStaleContextError ContextUnavailable)
       else
         bindR (foldOperationHistory D
             (history\<lparr>hist_edits := filter (\<lambda>e. acc_version e \<le> ver) (hist_edits history)\<rparr>)) (\<lambda>basis.
           if snap_value basis \<noteq> snap_value (st_snapshot context)
           then Inl (AbloStaleContextError SnapshotDisagrees)
           else
             bindR (new_OperationSession D context) (\<lambda>session.
             bindR (rebase_loop D ver (hist_edits history) session) (\<lambda>session.
               Inr (export_context session)))))))"

definition appendContextOperation :: "('v, 'o) OperationDomain \<Rightarrow> ('v, 'o) OperationContext
    \<Rightarrow> string \<Rightarrow> 'o \<Rightarrow> op_error + ('v, 'o) OperationContext" where
  "appendContextOperation D context i op =
     bindR (new_OperationSession D (ctx_state context)) (\<lambda>session.
     bindR (session_edit D session i op) (\<lambda>session. Inr (export_context session)))"

definition appendIndependentOperation :: "('v, 'o) OperationDomain \<Rightarrow> ('v, 'o) OperationContext
    \<Rightarrow> ('v, 'o) OperationHistory \<Rightarrow> 'o OperationEdit \<Rightarrow> op_error + ('v, 'o) OperationContext" where
  "appendIndependentOperation D context history input =
     bindR (parse (edit_ok D) input) (\<lambda>edit.
       if \<exists>a \<in> set (hist_edits history). acc_id a = edit_id edit \<and> acc_epoch a = edit_epoch edit
       then Inr context
       else
         bindR (reconcileOperation D history edit (snap_value (ctx_snapshot context))) (\<lambda>acc.
         bindR (foldR (\<lambda>p op. dom_transform D op (pend_operation p) RightSide) (ctx_pending context)
                  (acc_operation acc)) (\<lambda>operation.
           appendContextOperation D context (edit_id edit) operation)))"

definition prepareContextOperation :: "('v, 'o) OperationDomain \<Rightarrow> ('v, 'o) OperationContext
    \<Rightarrow> ('v, 'o) OperationHistory \<Rightarrow> string \<Rightarrow> op_error + 'o OperationEdit" where
  "prepareContextOperation D context history i =
     bindR (rebaseOperationContext D context history) (\<lambda>rebased.
       case ctx_pending rebased of
         [] \<Rightarrow> Inl (AbloStaleContextError EarlierNotAccepted)
       | first # _ \<Rightarrow>
           if pend_id first \<noteq> i then Inl (AbloStaleContextError EarlierNotAccepted)
           else parse (edit_ok D)
             \<lparr>edit_id = pend_id first, edit_epoch = snap_epoch (ctx_snapshot rebased),
              edit_baseVersion = snap_version (ctx_snapshot rebased), edit_operation = pend_operation first\<rparr>)"

subsection \<open>Rebasing reaches the head\<close>

lemma nextEdit_snapshot [simp]: "st_snapshot (fst (nextEdit st)) = st_snapshot st"
  and nextEdit_pending [simp]: "st_pending (fst (nextEdit st)) = st_pending st"
  by (auto simp: nextEdit_def Let_def split: option.splits list.splits)

lemma rebase_loop_simps [simp]:
  "rebase_loop D ver [] st = Inr st"
  "rebase_loop D ver (e # es) st =
     bindR (if acc_version e \<le> ver then Inr st else receive D (fst (nextEdit st)) e) (rebase_loop D ver es)"
  by (simp_all add: rebase_loop_def rebase_loop_def [abs_def])

lemma rebase_loop_skip:
  "\<forall>e \<in> set es. acc_version e \<le> ver \<Longrightarrow> rebase_loop D ver (es @ fs) st = rebase_loop D ver fs st"
  by (induction es) auto

text \<open>In a folding history the versions increase, so a version bound cuts it at one place.\<close>

lemma fold_edits_filter:
  assumes "fold_edits D ids es s = Inr t" and "snap_version s \<le> ver"
  shows "\<exists>n. filter (\<lambda>e. acc_version e \<le> ver) es = take n es
    \<and> (\<forall>e \<in> set (take n es). acc_version e \<le> ver) \<and> (\<forall>e \<in> set (drop n es). ver < acc_version e)"
  using assms
proof (induction es arbitrary: ids s)
  case Nil
  then show ?case by simp
next
  case (Cons e es)
  then obtain v where v: "acc_version e = snap_version s + 1"
    and rest: "fold_edits D (acc_id e # ids) es
        \<lparr>snap_epoch = acc_epoch e, snap_version = acc_version e, snap_value = v\<rparr> = Inr t"
    by (auto simp: result_simps split: if_splits)
  show ?case
  proof (cases "acc_version e \<le> ver")
    case True
    with Cons.IH [OF rest] obtain n where
      "filter (\<lambda>e. acc_version e \<le> ver) es = take n es
       \<and> (\<forall>e \<in> set (take n es). acc_version e \<le> ver) \<and> (\<forall>e \<in> set (drop n es). ver < acc_version e)"
      by auto
    with True show ?thesis by (intro exI [of _ "Suc n"]) auto
  next
    case False
    have "ver < acc_version f" if "f \<in> set es" for f
      using that fold_edits_versions [OF rest] False by (auto simp: in_set_conv_nth)
    with False show ?thesis by (intro exI [of _ 0]) (force simp: filter_empty_conv)
  qed
qed

lemma rebase_loop_snapshot:
  "fold_edits D ids es (st_snapshot st) = Inr head \<Longrightarrow> \<forall>e \<in> set es. ver < acc_version e \<Longrightarrow>
   rebase_loop D ver es st = Inr st' \<Longrightarrow> st_snapshot st' = head"
proof (induction es arbitrary: ids st)
  case Nil
  then show ?case by simp
next
  case (Cons e es)
  then obtain v st1 where v: "dom_apply D (snap_value (st_snapshot st)) (acc_operation e) = Inr v"
    and ver: "acc_version e = snap_version (st_snapshot st) + 1"
    and st1: "receive D (fst (nextEdit st)) e = Inr st1" "rebase_loop D ver es st1 = Inr st'"
    and rest: "fold_edits D (acc_id e # ids) es (next_snapshot e v) = Inr head"
    by (auto simp: result_simps next_snapshot_def split: if_splits)
  from receive_snapshot [OF st1(1)] ver v have "st_snapshot st1 = next_snapshot e v" by simp
  with Cons.IH [of "acc_id e # ids" st1] rest st1(2) Cons.prems(2) show ?case by simp
qed

text \<open>A bound between the base and the head cuts the history exactly at that version.\<close>

lemma cut_version:
  assumes f: "fold_edits D ids es s = Inr head" and g: "fold_edits D ids (take n es) s = Inr basis"
    and n: "\<forall>e \<in> set (take n es). acc_version e \<le> ver" "\<forall>e \<in> set (drop n es). ver < acc_version e"
    and ver: "snap_version s \<le> ver" "ver \<le> snap_version head"
  shows "snap_version basis = ver"
proof -
  have at: "acc_version (es ! i) = snap_version s + int i + 1" if "i < length es" for i
    using fold_edits_versions [OF f that] .
  show ?thesis
  proof (cases "n < length es")
    case True
    then have "es ! n \<in> set (drop n es)" by (metis Cons_nth_drop_Suc list.set_intros(1))
    with n(2) at [OF True] have "ver < snap_version s + int n + 1" by auto
    moreover have "snap_version s + int n \<le> ver"
    proof (cases n)
      case (Suc m)
      with True have "es ! m \<in> set (take n es)" by (simp add: in_set_conv_nth) (metis lessI nth_take)
      with n(1) at [of m] True Suc show ?thesis by auto
    qed (use ver in simp)
    ultimately show ?thesis using fold_edits_head [OF g] True by auto
  next
    case False
    with g f have "basis = head" by simp
    moreover have "snap_version head \<le> ver"
    proof (cases es rule: rev_cases)
      case (snoc xs e)
      with n(1) False have "acc_version e \<le> ver" by simp
      with at [of "length xs"] snoc fold_edits_head [OF f] show ?thesis by simp
    qed (use f ver in simp)
    ultimately show ?thesis using ver by simp
  qed
qed

context operation_domain
begin

lemma rebase_loop_inv:
  "session_inv D st \<Longrightarrow> rebase_loop D ver es st = Inr st' \<Longrightarrow> session_inv D st'"
proof (induction es arbitrary: st)
  case (Cons e es)
  from Cons.prems(1) have "session_inv D (fst (nextEdit st))"
    using nextEdit_inv by (metis prod.collapse)
  with Cons show ?case by (auto simp: result_simps split: if_splits dest: receive_inv)
qed simp

lemma rebase_reaches_head:
  assumes "rebaseOperationContext D context history = Inr rebased"
  obtains head st where "foldOperationHistory D history = Inr head" "ctx_snapshot rebased = head"
    "session_inv D st" "rebased = export_context st"
proof -
  let ?ver = "snap_version (ctx_snapshot context)"
  from assms obtain head basis st where head: "foldOperationHistory D history = Inr head"
    and guards: "snap_epoch (ctx_snapshot context) = snap_epoch head"
      "\<not> ?ver < snap_version (hist_base history)" "\<not> snap_version head < ?ver"
    and basis: "foldOperationHistory D
        (history\<lparr>hist_edits := filter (\<lambda>e. acc_version e \<le> ?ver) (hist_edits history)\<rparr>) = Inr basis"
      "snap_value basis = snap_value (ctx_snapshot context)"
    and inv: "session_inv D (ctx_state context)"
    and st: "rebase_loop D ?ver (hist_edits history) (ctx_state context) = Inr st" "rebased = export_context st"
    by (auto simp: rebaseOperationContext_def result_simps Let_def ctx_state_def new_OperationSession_Inr
        split: if_splits)
  have f: "fold_edits D [] (hist_edits history) (hist_base history) = Inr head"
    using head by (simp add: foldOperationHistory_Inr)
  from fold_edits_filter [OF f, of ?ver] guards obtain n where
    n: "filter (\<lambda>e. acc_version e \<le> ?ver) (hist_edits history) = take n (hist_edits history)"
      "\<forall>e \<in> set (take n (hist_edits history)). acc_version e \<le> ?ver"
      "\<forall>e \<in> set (drop n (hist_edits history)). ?ver < acc_version e" by auto
  have "fold_edits D [] (take n (hist_edits history) @ drop n (hist_edits history)) (hist_base history) = Inr head"
    using f by simp
  with basis(1) n(1) have tail: "fold_edits D (rev (map acc_id (take n (hist_edits history))))
      (drop n (hist_edits history)) basis = Inr head"
    by (simp only: fold_edits_append) (simp add: foldOperationHistory_Inr)
  have "snap_version basis = ?ver"
    using basis(1) n(1) guards by (intro cut_version [OF f _ n(2) n(3)]) (auto simp: foldOperationHistory_Inr)
  then have "basis = ctx_snapshot context"
    using guards(1) basis(2) fold_edits_head [OF tail] by (simp add: OperationSnapshot.equality)
  with tail have "fold_edits D (rev (map acc_id (take n (hist_edits history))))
      (drop n (hist_edits history)) (st_snapshot (ctx_state context)) = Inr head"
    by (simp add: ctx_state_def)
  moreover have "rebase_loop D ?ver (drop n (hist_edits history)) (ctx_state context) = Inr st"
    using st(1) rebase_loop_skip [OF n(2), of D "drop n (hist_edits history)"] by simp
  ultimately have "st_snapshot st = head" using rebase_loop_snapshot n(3) by blast
  with that [OF head _ rebase_loop_inv [OF inv st(1)] st(2)] st(2) show ?thesis
    by (simp add: export_context_def)
qed

lemma prepared_is_accepted:
  assumes prep: "prepareContextOperation D context history i = Inr edit"
    and new: "i \<notin> acc_id ` set (hist_edits history)"
    and head: "foldOperationHistory D history = Inr head" and room: "snap_version head < MAX_SAFE_INTEGER"
  shows "reconcileOperation D history edit (snap_value head) =
    Inr \<lparr>acc_id = i, acc_epoch = snap_epoch head, acc_version = snap_version head + 1,
         acc_operation = edit_operation edit\<rparr>"
proof -
  from prep obtain rebased where rebased: "rebaseOperationContext D context history = Inr rebased"
    by (auto simp: prepareContextOperation_def result_simps)
  with prep obtain first rest where first: "ctx_pending rebased = first # rest" "pend_id first = i"
    and edit: "edit = \<lparr>edit_id = i, edit_epoch = snap_epoch (ctx_snapshot rebased),
              edit_baseVersion = snap_version (ctx_snapshot rebased), edit_operation = pend_operation first\<rparr>"
      "edit_ok D edit"
    by (cases "ctx_pending rebased") (auto simp: prepareContextOperation_def split: if_splits)
  from rebased obtain st where st: "ctx_snapshot rebased = head" "session_inv D st" "rebased = export_context st"
    using head by (elim rebase_reaches_head) auto
  then obtain v where v: "dom_apply D (snap_value head) (pend_operation first) = Inr v"
    using first by (auto simp: export_context_def session_inv_def session_value_def result_simps)
  with reconcile_at_head [OF edit(2) head] edit(1) st(1) new room show ?thesis by simp
qed

end

end
