(* ===== verification/OperationField.thy ===== *)
theory OperationField
  imports OperationContext
begin

section \<open>Field buffers over a commit transport\<close>

text \<open>
  Model of \<open>packages/transaction/src/commit/operations/model.ts\<close>, \<open>contention.ts\<close> and
  \<open>resource.ts\<close>: projecting and reversing accepted edits, the retry of a contended request,
  and \<open>OperationField\<close>, the buffer that persists its session, commits one edit at a time and
  reads the history back.

  The transport and the \<open>persist\<close> callback are supplied by the caller: they are the record
  \<open>OperationTransport\<close>, with the authority behind them as a state \<open>'s\<close>. An asynchronous
  method is a function of the pair of that state and the buffer; it returns the value or
  the error its promise settles with. The methods are modelled one call after the other,
  without a second call entering while one is awaiting.
\<close>

subsection \<open>Projection and inversion of accepted edits\<close>

fun project_edits :: "('v, 'o) OperationDomain \<Rightarrow> 'o OperationEdit list \<Rightarrow> ('v, 'o) OperationHistory
    \<Rightarrow> 'v OperationSnapshot \<Rightarrow> op_error + 'v" where
  "project_edits D [] projected head = Inr (snap_value head)"
| "project_edits D (input # rest) projected head =
     bindR (parse (edit_ok D) input) (\<lambda>edit.
       case find (\<lambda>a. acc_id a = edit_id edit) (hist_edits projected) of
         Some a \<Rightarrow>
           if acc_epoch a \<noteq> edit_epoch edit then Inl (AbloStaleContextError OtherEpoch)
           else project_edits D rest projected head
       | None \<Rightarrow>
           bindR (reconcileOperation D projected edit (snap_value head)) (\<lambda>accepted.
           bindR (dom_apply D (snap_value head) (acc_operation accepted)) (\<lambda>v.
             project_edits D rest (projected\<lparr>hist_edits := hist_edits projected @ [accepted]\<rparr>)
               \<lparr>snap_epoch = acc_epoch accepted, snap_version = acc_version accepted, snap_value = v\<rparr>)))"

definition projectFieldEdits :: "('v, 'o) OperationDomain \<Rightarrow> ('v, 'o) OperationHistory
    \<Rightarrow> 'o OperationEdit list \<Rightarrow> op_error + 'v" where
  "projectFieldEdits D history edits =
     bindR (parse (history_ok D) history) (\<lambda>projected.
     bindR (foldOperationHistory D projected) (\<lambda>head. project_edits D edits projected head))"

fun invert_at :: "('v, 'o) OperationDomain \<Rightarrow> string \<Rightarrow> string \<Rightarrow> 'o AcceptedOperation list \<Rightarrow> 'v
    \<Rightarrow> op_error + 'o OperationEdit" where
  "invert_at D editId inverseId [] v = Inl (AbloStaleContextError NotRetained)"
| "invert_at D editId inverseId (edit # rest) v =
     (if acc_id edit = editId then
        bindR (dom_invert D v (acc_operation edit)) (\<lambda>operation.
          parse (edit_ok D) \<lparr>edit_id = inverseId, edit_epoch = acc_epoch edit,
            edit_baseVersion = acc_version edit, edit_operation = operation\<rparr>)
      else bindR (dom_apply D v (acc_operation edit)) (invert_at D editId inverseId rest))"

definition invertAcceptedFieldEdit :: "('v, 'o) OperationDomain \<Rightarrow> ('v, 'o) OperationHistory
    \<Rightarrow> string \<Rightarrow> string \<Rightarrow> op_error + 'o OperationEdit" where
  "invertAcceptedFieldEdit D input editId inverseId =
     bindR (parse (history_ok D) input) (\<lambda>history.
     bindR (foldOperationHistory D history) (\<lambda>_.
       invert_at D editId inverseId (hist_edits history) (snap_value (hist_base history))))"

subsection \<open>Retrying a contended request\<close>

type_synonym ('w, 'r) io = "'w \<Rightarrow> (op_error + 'r) \<times> 'w"

definition bindX :: "('w, 'a) io \<Rightarrow> ('a \<Rightarrow> ('w, 'b) io) \<Rightarrow> ('w, 'b) io" where
  "bindX m k w = (case m w of (Inl e, w1) \<Rightarrow> (Inl e, w1) | (Inr x, w1) \<Rightarrow> k x w1)"

fun retry_attempts :: "nat \<Rightarrow> ('w, 'r) io \<Rightarrow> ('w, 'r) io" where
  "retry_attempts left action w = (case action w of
      (Inr r, w1) \<Rightarrow> (Inr r, w1)
    | (Inl e, w1) \<Rightarrow>
        if e \<noteq> DecisionContended \<or> left = 0 then (Inl e, w1)
        else retry_attempts (left - 1) action w1)"

declare retry_attempts.simps [simp del]

definition retryOperationContention :: "('w, 'r) io \<Rightarrow> ('w, 'r) io" where
  "retryOperationContention action = retry_attempts 15 action"

subsection \<open>The field buffer\<close>

record ('v, 'o) OperationField =
  fld_session :: "('v, 'o) OperationState"
  fld_failure :: "op_error option"
  fld_closed :: bool
  fld_saved :: "('v, 'o) OperationState list"

record ('s, 'v, 'o) OperationTransport =
  tr_read :: "('s, ('v, 'o) OperationHistory) io"
  tr_commit :: "'o OperationEdit \<Rightarrow> ('s, unit) io"
  tr_persist :: "('v, 'o) OperationState \<Rightarrow> op_error option"

type_synonym ('s, 'v, 'o, 'r) field_io = "('s \<times> ('v, 'o) OperationField, 'r) io"

definition on_transport :: "('s, 'r) io \<Rightarrow> ('s, 'v, 'o, 'r) field_io" where
  "on_transport action = (\<lambda>(s, f). case action s of (r, s1) \<Rightarrow> (r, (s1, f)))"

definition assertOpen :: "('s, 'v, 'o, unit) field_io" where
  "assertOpen = (\<lambda>(s, f). (if fld_closed f
     then Inl (PlainError ''The field buffer is disposed. Reopen it to continue.'') else Inr (), (s, f)))"

definition field_save :: "('s, 'v, 'o) OperationTransport \<Rightarrow> ('s, 'v, 'o, unit) field_io" where
  "field_save T = (\<lambda>(s, f).
     (case tr_persist T (fld_session f) of None \<Rightarrow> Inr () | Some e \<Rightarrow> Inl e,
      (s, f\<lparr>fld_saved := fld_saved f @ [fld_session f]\<rparr>)))"

text \<open>
  \<open>receive\<close> delivers the whole history; when one delivery throws, the earlier ones have
  already been applied to the session.
\<close>

fun receive_all :: "('v, 'o) OperationDomain \<Rightarrow> 'o AcceptedOperation list \<Rightarrow> ('s, 'v, 'o, unit) field_io" where
  "receive_all D [] w = (Inr (), w)"
| "receive_all D (e # es) w = (case receive D (fld_session (snd w)) e of
      Inl err \<Rightarrow> (Inl err, w)
    | Inr st \<Rightarrow> receive_all D es (fst w, (snd w)\<lparr>fld_session := st\<rparr>))"

definition field_receive :: "('v, 'o) OperationDomain \<Rightarrow> ('v, 'o) OperationHistory
    \<Rightarrow> ('s, 'v, 'o, unit) field_io" where
  "field_receive D input w = (case parse (history_ok D) input of
      Inl err \<Rightarrow> (Inl err, w)
    | Inr history \<Rightarrow>
        let snapshot = st_snapshot (fld_session (snd w)) in
        if snap_epoch snapshot \<noteq> snap_epoch (hist_base history)
           \<or> snap_version snapshot < snap_version (hist_base history)
        then (Inl (AbloStaleContextError HistoryExpired), w)
        else receive_all D (hist_edits history) w)"

definition new_OperationField :: "('v, 'o) OperationDomain \<Rightarrow> ('v, 'o) OperationHistory
    \<Rightarrow> ('v, 'o) OperationState option \<Rightarrow> op_error + ('v, 'o) OperationField" where
  "new_OperationField D history saved =
     bindR (case saved of
         Some st \<Rightarrow> Inr st
       | None \<Rightarrow> bindR (foldOperationHistory D history) (\<lambda>snapshot.
           Inr \<lparr>st_snapshot = snapshot, st_pending = [], st_inFlight = None, st_undo = [], st_redo = []\<rparr>)) (\<lambda>input.
     bindR (new_OperationSession D input) (\<lambda>session.
       case field_receive D history
           ((), \<lparr>fld_session = session, fld_failure = None, fld_closed = False, fld_saved = []\<rparr>) of
         (Inl e, w) \<Rightarrow> Inl e
       | (Inr _, (_, f)) \<Rightarrow> Inr f))"

definition field_dispose :: "('v, 'o) OperationField \<Rightarrow> ('v, 'o) OperationField" where
  "field_dispose f = f\<lparr>fld_closed := True\<rparr>"

text \<open>The random identifier of the code is the argument \<open>i\<close>.\<close>

definition field_edit :: "('v, 'o) OperationDomain \<Rightarrow> ('s, 'v, 'o) OperationTransport \<Rightarrow> string \<Rightarrow> 'o
    \<Rightarrow> ('s, 'v, 'o, unit) field_io" where
  "field_edit D T i operation = bindX assertOpen (\<lambda>_ (s, f).
     case session_edit D (fld_session f) i operation of
       Inl e \<Rightarrow> (Inl e, (s, f))
     | Inr st \<Rightarrow> field_save T (s, f\<lparr>fld_session := st\<rparr>))"

definition field_replay :: "(('v, 'o) OperationState \<Rightarrow> op_error + (('v, 'o) OperationState \<times> bool))
    \<Rightarrow> ('s, 'v, 'o) OperationTransport \<Rightarrow> ('s, 'v, 'o, bool) field_io" where
  "field_replay method T = bindX assertOpen (\<lambda>_ (s, f).
     case method (fld_session f) of
       Inl e \<Rightarrow> (Inl e, (s, f))
     | Inr (st, applied) \<Rightarrow>
         if applied then bindX (field_save T) (\<lambda>_ w. (Inr True, w)) (s, f\<lparr>fld_session := st\<rparr>)
         else (Inr False, (s, f\<lparr>fld_session := st\<rparr>)))"

definition field_undo :: "('v, 'o) OperationDomain \<Rightarrow> ('s, 'v, 'o) OperationTransport \<Rightarrow> string
    \<Rightarrow> ('s, 'v, 'o, bool) field_io" where
  "field_undo D T i = field_replay (\<lambda>st. session_undo D st i) T"

definition field_redo :: "('v, 'o) OperationDomain \<Rightarrow> ('s, 'v, 'o) OperationTransport \<Rightarrow> string
    \<Rightarrow> ('s, 'v, 'o, bool) field_io" where
  "field_redo D T i = field_replay (\<lambda>st. session_redo D st i) T"

text \<open>One invalidation: \<open>refresh\<close> with the body of \<open>readInvalidations\<close>.\<close>

definition field_refresh :: "('v, 'o) OperationDomain \<Rightarrow> ('s, 'v, 'o) OperationTransport
    \<Rightarrow> ('s, 'v, 'o, unit) field_io" where
  "field_refresh D T = bindX assertOpen (\<lambda>_.
     bindX (on_transport (retryOperationContention (tr_read T))) (\<lambda>history w.
       if fld_closed (snd w) then (Inr (), w)
       else bindX (field_receive D history) (\<lambda>_. field_save T) w))"

text \<open>The body of the loop of \<open>drain\<close>; the result says whether the queue was empty.\<close>

definition drain_step :: "('v, 'o) OperationDomain \<Rightarrow> ('s, 'v, 'o) OperationTransport
    \<Rightarrow> ('s, 'v, 'o, bool) field_io" where
  "drain_step D T = (\<lambda>(s, f). case nextEdit (fld_session f) of
      (st, None) \<Rightarrow> (Inr True, (s, f\<lparr>fld_session := st\<rparr>))
    | (st, Some edit) \<Rightarrow>
        bindX (field_save T) (\<lambda>_.
        bindX assertOpen (\<lambda>_.
        bindX (on_transport (retryOperationContention (tr_commit T edit))) (\<lambda>_.
        bindX (field_refresh D T) (\<lambda>_ w.
          if map_option edit_id (st_inFlight (fld_session (snd w))) = Some (edit_id edit)
          then (Inl (AbloStaleContextError NotVisibleYet), w)
          else (Inr False, w))))) (s, f\<lparr>fld_session := st\<rparr>))"

text \<open>The loop, with a bound on its iterations; \<open>None\<close> is a run that needs more.\<close>

fun drain_loop :: "('v, 'o) OperationDomain \<Rightarrow> ('s, 'v, 'o) OperationTransport \<Rightarrow> nat
    \<Rightarrow> 's \<times> ('v, 'o) OperationField \<Rightarrow> ((op_error + unit) \<times> ('s \<times> ('v, 'o) OperationField)) option" where
  "drain_loop D T 0 w = None"
| "drain_loop D T (Suc n) w = (case drain_step D T w of
      (Inl e, w1) \<Rightarrow> Some (Inl e, w1)
    | (Inr True, w1) \<Rightarrow> Some (Inr (), w1)
    | (Inr False, w1) \<Rightarrow> drain_loop D T n w1)"

definition field_flush :: "('v, 'o) OperationDomain \<Rightarrow> ('s, 'v, 'o) OperationTransport \<Rightarrow> nat
    \<Rightarrow> 's \<times> ('v, 'o) OperationField \<Rightarrow> ((op_error + unit) \<times> ('s \<times> ('v, 'o) OperationField)) option" where
  "field_flush D T fuel w = (case assertOpen w of
      (Inl e, w1) \<Rightarrow> Some (Inl e, w1)
    | (Inr _, w1) \<Rightarrow>
        (case (case field_refresh D T w1 of
            (Inl e, w2) \<Rightarrow> Some (Inl e, w2)
          | (Inr _, w2) \<Rightarrow> drain_loop D T fuel w2) of
          None \<Rightarrow> None
        | Some (Inl e, (s, f)) \<Rightarrow> Some (Inl e, (s, f\<lparr>fld_failure := Some e\<rparr>))
        | Some (Inr _, (s, f)) \<Rightarrow> Some (Inr (), (s, f\<lparr>fld_failure := None\<rparr>))))"

subsection \<open>Retries and deliveries\<close>

lemma retry_attempts_first:
  "fst (action w) \<noteq> Inl DecisionContended \<Longrightarrow> retry_attempts left action w = action w"
  by (subst retry_attempts.simps) (auto split: prod.splits sum.splits)

lemma retry_attempts_contended:
  "fst (action w) = Inl DecisionContended \<Longrightarrow>
     retry_attempts (Suc left) action w = retry_attempts left action (snd (action w))"
  by (subst retry_attempts.simps) (auto split: prod.splits)

text \<open>The world after a number of refused attempts; a refusal that made no write leaves it alone.\<close>

fun attempts :: "nat \<Rightarrow> ('w, 'r) io \<Rightarrow> 'w \<Rightarrow> 'w" where
  "attempts 0 action w = w"
| "attempts (Suc n) action w = attempts n action (snd (action w))"

lemma retry_attempts_spec:
  assumes "n \<le> left" and "\<forall>k<n. fst (action (attempts k action w)) = Inl DecisionContended"
    and "n = left \<or> fst (action (attempts n action w)) \<noteq> Inl DecisionContended"
  shows "retry_attempts left action w = action (attempts n action w)"
  using assms
proof (induction n arbitrary: left w)
  case 0
  then show ?case
    by (subst retry_attempts.simps) (auto split: prod.splits sum.splits)
next
  case (Suc n)
  then obtain m where left: "left = Suc m" by (cases left) auto
  have contended: "fst (action w) = Inl DecisionContended" using Suc.prems(2) by force
  have "retry_attempts m action (snd (action w)) = action (attempts n action (snd (action w)))"
    using Suc.prems left by (intro Suc.IH) force+
  with contended left show ?case by (simp add: retry_attempts_contended)
qed

lemma receive_all_duplicates:
  assumes "list_all (accepted_ok D) es" and "\<forall>e \<in> set es. acc_epoch e = snap_epoch (st_snapshot (fld_session f))
      \<and> acc_version e \<le> snap_version (st_snapshot (fld_session f))"
  shows "receive_all D (es @ fs) (s, f) = receive_all D fs (s, f)"
  using assms by (induction es) (simp_all add: receive_def)

subsection \<open>A flush empties the queue\<close>

text \<open>
  The transport of an authority that decides with \<open>reconcileOperation\<close> against its own head
  and appends what it accepts; persisting never fails. The state is the history.
\<close>

definition authority_transport :: "('v, 'o) OperationDomain
    \<Rightarrow> (('v, 'o) OperationHistory, 'v, 'o) OperationTransport" where
  "authority_transport D =
     \<lparr>tr_read = (\<lambda>h. (Inr h, h)),
      tr_commit = (\<lambda>edit h. case bindR (foldOperationHistory D h) (\<lambda>head.
          reconcileOperation D h edit (snap_value head)) of
          Inl e \<Rightarrow> (Inl e, h)
        | Inr accepted \<Rightarrow> (Inr (), h\<lparr>hist_edits := hist_edits h @ [accepted]\<rparr>)),
      tr_persist = (\<lambda>_. None)\<rparr>"

text \<open>What holds of an open buffer that has read everything and has nothing in flight.\<close>

definition caught_up :: "('v, 'o) OperationDomain \<Rightarrow> ('v, 'o) OperationHistory \<Rightarrow> ('v, 'o) OperationField \<Rightarrow> bool" where
  "caught_up D h f \<longleftrightarrow> \<not> fld_closed f \<and> session_inv D (fld_session f) \<and> st_inFlight (fld_session f) = None
     \<and> foldOperationHistory D h = Inr (st_snapshot (fld_session f))
     \<and> set (pending_ids (fld_session f)) \<inter> acc_id ` set (hist_edits h) = {}
     \<and> snap_version (st_snapshot (fld_session f)) + int (length (st_pending (fld_session f))) \<le> MAX_SAFE_INTEGER"

lemma refresh_authority:
  assumes open_f: "\<not> fld_closed f" and h: "foldOperationHistory D (h\<lparr>hist_edits := es @ fs\<rparr>) = Inr head"
    and es: "foldOperationHistory D (h\<lparr>hist_edits := es\<rparr>) = Inr (st_snapshot (fld_session f))"
  shows "field_refresh D (authority_transport D) (h\<lparr>hist_edits := es @ fs\<rparr>, f) =
    bindX (receive_all D fs) (\<lambda>_. field_save (authority_transport D)) (h\<lparr>hist_edits := es @ fs\<rparr>, f)"
proof -
  let ?h = "h\<lparr>hist_edits := es @ fs\<rparr>"
  have ok: "history_ok D ?h" "list_all (accepted_ok D) es"
    using h by (simp_all add: foldOperationHistory_Inr history_ok_def)
  have f: "fold_edits D [] es (hist_base h) = Inr (st_snapshot (fld_session f))"
    using es by (simp add: foldOperationHistory_Inr)
  have "\<forall>e \<in> set es. acc_epoch e = snap_epoch (st_snapshot (fld_session f))
      \<and> acc_version e \<le> snap_version (st_snapshot (fld_session f))"
    using fold_edits_head [OF f] fold_edits_versions [OF f] by (fastforce simp: in_set_conv_nth)
  from receive_all_duplicates [OF ok(2) this]
  have all: "receive_all D (es @ fs) (?h, f) = receive_all D fs (?h, f)" .
  have "\<not> snap_version (st_snapshot (fld_session f)) < snap_version (hist_base h)"
    "snap_epoch (st_snapshot (fld_session f)) = snap_epoch (hist_base h)"
    using fold_edits_head [OF f] by auto
  with ok(1) all open_f show ?thesis
    by (simp add: field_refresh_def bindX_def assertOpen_def on_transport_def retryOperationContention_def
        retry_attempts_first authority_transport_def field_receive_def)
qed

context operation_domain
begin

lemma drain_step_commits:
  assumes up: "caught_up D h f" and p: "st_pending (fld_session f) = p # ps"
  shows "\<exists>acc f1. drain_step D (authority_transport D) (h, f) =
      (Inr False, (h\<lparr>hist_edits := hist_edits h @ [acc]\<rparr>, f1))
    \<and> caught_up D (h\<lparr>hist_edits := hist_edits h @ [acc]\<rparr>) f1 \<and> st_pending (fld_session f1) = ps
    \<and> session_value D (fld_session f1) = session_value D (fld_session f)
    \<and> acc_id acc = pend_id p"
proof -
  let ?st = "fld_session f" and ?T = "authority_transport D"
  from p up obtain st1 sent where sent: "nextEdit ?st = (st1, Some sent)"
    by (cases "nextEdit ?st") (auto simp: nextEdit_def caught_up_def Let_def)
  from up have fresh: "st_inFlight ?st = None" and inv: "session_inv D ?st"
    and head: "foldOperationHistory D h = Inr (st_snapshot ?st)"
    by (simp_all add: caught_up_def)
  from nextEdit_fresh [OF fresh sent] p have st1: "st1 = ?st\<lparr>st_inFlight := Some sent\<rparr>" "edit_id sent = pend_id p"
      "edit_operation sent = pend_operation p" "edit_epoch sent = snap_epoch (st_snapshot ?st)"
      "edit_baseVersion sent = snap_version (st_snapshot ?st)"
    by auto
  have inv1: "session_inv D st1" using nextEdit_inv [OF inv sent] by simp
  then have ok: "edit_ok D sent" using st1(1) by (simp add: session_inv_def state_ok_def)
  obtain v where v: "dom_apply D (snap_value (st_snapshot ?st)) (edit_operation sent) = Inr v"
    using inv p st1(3) by (auto simp: session_inv_def session_value_def result_simps)
  have new: "edit_id sent \<notin> acc_id ` set (hist_edits h)" and room: "snap_version (st_snapshot ?st) < MAX_SAFE_INTEGER"
    using up p st1(2) by (auto simp: caught_up_def pending_ids_def)
  define acc where "acc = \<lparr>acc_id = edit_id sent, acc_epoch = snap_epoch (st_snapshot ?st),
     acc_version = snap_version (st_snapshot ?st) + 1, acc_operation = edit_operation sent\<rparr>"
  have acc: "reconcileOperation D h sent (snap_value (st_snapshot ?st)) = Inr acc"
    using reconcile_at_head [OF ok head st1(4,5) new room v] by (simp add: acc_def)
  let ?h = "h\<lparr>hist_edits := hist_edits h @ [acc]\<rparr>"
  obtain st3 where st3: "receive D st1 acc = Inr st3" "session_value D st3 = session_value D st1"
      "pending_ids st3 = tl (pending_ids st1)" "st_inFlight st3 = None"
      "foldOperationHistory D ?h = Inr (st_snapshot st3)"
    using own_edit_acknowledged [OF fresh sent, of h "length (hist_edits h)" _ acc st1] head acc by auto
  have pend3: "st_pending st3 = ps"
    using st3(1) p st1(1,2) by (cases rule: receive_cases) (auto simp: acc_def)
  let ?f1 = "f\<lparr>fld_session := st1, fld_saved := fld_saved f @ [st1]\<rparr>"
  let ?f2 = "?f1\<lparr>fld_session := st3, fld_saved := fld_saved ?f1 @ [st3]\<rparr>"
  have "field_refresh D ?T (?h, ?f1) = (Inr (), (?h, ?f2))"
    using refresh_authority [of ?f1 D "hist_edits h" "[acc]" h] st3 st1(1) head up
    by (simp add: caught_up_def bindX_def field_save_def authority_transport_def)
  then have "drain_step D ?T (h, f) = (Inr False, (?h, ?f2))"
    using sent up head acc st3(4)
    by (simp add: drain_step_def bindX_def field_save_def authority_transport_def assertOpen_def caught_up_def
        on_transport_def retryOperationContention_def retry_attempts_first)
  moreover have "caught_up D ?h ?f2"
    using up p receive_inv [OF inv1 st3(1)] st3(4,5) pend3 head_version [OF st3(5)] head_version [OF head] inv
    by (auto simp: caught_up_def pending_ids_def acc_def st1(2) session_inv_def)
  ultimately show ?thesis
    using st3(2) pend3 nextEdit_inv [OF inv sent] st1(2) by (auto simp: acc_def)
qed

lemma drain_commits_all:
  "caught_up D h f \<Longrightarrow> length (st_pending (fld_session f)) < fuel \<Longrightarrow>
   \<exists>h1 f1. drain_loop D (authority_transport D) fuel (h, f) = Some (Inr (), (h1, f1))
     \<and> caught_up D h1 f1 \<and> st_pending (fld_session f1) = []
     \<and> session_value D (fld_session f1) = session_value D (fld_session f)
     \<and> map acc_id (hist_edits h1) = map acc_id (hist_edits h) @ pending_ids (fld_session f)"
proof (induction "st_pending (fld_session f)" arbitrary: h f fuel)
  case Nil
  then obtain n where "fuel = Suc n" by (cases fuel) auto
  with Nil show ?case
    by (simp add: drain_step_def nextEdit_def caught_up_def pending_ids_def)
next
  case (Cons p ps)
  then obtain n where n: "fuel = Suc n" by (cases fuel) auto
  from drain_step_commits [OF Cons.prems(1)] Cons.hyps(2) obtain acc f1 where
    step: "drain_step D (authority_transport D) (h, f) = (Inr False, (h\<lparr>hist_edits := hist_edits h @ [acc]\<rparr>, f1))"
      "caught_up D (h\<lparr>hist_edits := hist_edits h @ [acc]\<rparr>) f1" "st_pending (fld_session f1) = ps"
      "session_value D (fld_session f1) = session_value D (fld_session f)" "acc_id acc = pend_id p"
    by metis
  from Cons.hyps(1) [of f1 _ n, OF _ step(2)] step(3,4) n Cons.prems(2) Cons.hyps(2)
  obtain h1 f2 where "drain_loop D (authority_transport D) n (h\<lparr>hist_edits := hist_edits h @ [acc]\<rparr>, f1) =
        Some (Inr (), (h1, f2))" "caught_up D h1 f2" "st_pending (fld_session f2) = []"
      "session_value D (fld_session f2) = session_value D (fld_session f)"
      "map acc_id (hist_edits h1) = map acc_id (hist_edits h @ [acc]) @ pending_ids (fld_session f1)"
    by (metis (no_types, lifting) OperationHistory.select_convs(2) OperationHistory.surjective
        OperationHistory.update_convs(2) Suc_less_eq length_Cons)
  with step n Cons.hyps(2) [symmetric] show ?case by (simp add: pending_ids_def)
qed

lemma flush_commits_all:
  assumes up: "caught_up D h f" and fuel: "length (st_pending (fld_session f)) < fuel"
  shows "\<exists>h1 f1. field_flush D (authority_transport D) fuel (h, f) = Some (Inr (), (h1, f1))
     \<and> fld_failure f1 = None \<and> st_pending (fld_session f1) = []
     \<and> foldOperationHistory D h1 = Inr (st_snapshot (fld_session f1))
     \<and> Inr (snap_value (st_snapshot (fld_session f1))) = session_value D (fld_session f)
     \<and> map acc_id (hist_edits h1) = map acc_id (hist_edits h) @ pending_ids (fld_session f)"
proof -
  let ?f = "f\<lparr>fld_saved := fld_saved f @ [fld_session f]\<rparr>"
  have "caught_up D h ?f" using up by (simp add: caught_up_def)
  with fuel obtain h1 f1 where l: "drain_loop D (authority_transport D) fuel (h, ?f) = Some (Inr (), (h1, f1))"
     "caught_up D h1 f1" "st_pending (fld_session f1) = []"
     "session_value D (fld_session f1) = session_value D (fld_session f)"
     "map acc_id (hist_edits h1) = map acc_id (hist_edits h) @ pending_ids (fld_session f)"
    using drain_commits_all [of h "?f" fuel] by auto
  have "field_refresh D (authority_transport D) (h, f) = (Inr (), (h, ?f))"
    using refresh_authority [of f D "hist_edits h" "[]" h] up
    by (simp add: caught_up_def bindX_def field_save_def authority_transport_def)
  with l up have "field_flush D (authority_transport D) fuel (h, f) = Some (Inr (), (h1, f1\<lparr>fld_failure := None\<rparr>))"
    by (simp add: field_flush_def assertOpen_def caught_up_def)
  with l show ?thesis by (auto simp: caught_up_def session_value_def)
qed

end

end
