(* ===== verification/CounterDomain.thy ===== *)
theory CounterDomain
  imports OperationSession
begin

section \<open>The counter domain\<close>

text \<open>
  Model of \<open>packages/transaction/src/commit/counter/index.ts\<close>: a counter field whose
  operations are increments, with every value, operation and result kept inside the safe
  integer range. \<open>counterDomain\<close> satisfies the contracts of the operation locales, so the
  properties of sessions and histories hold for it without further hypotheses.
\<close>

definition counterValueSchema :: "int \<Rightarrow> bool" where
  "counterValueSchema n \<longleftrightarrow> - MAX_SAFE_INTEGER \<le> n \<and> n \<le> MAX_SAFE_INTEGER"

definition applyCounterOperation :: "int \<Rightarrow> int \<Rightarrow> op_error + int" where
  "applyCounterOperation v amount =
     bindR (parse counterValueSchema v) (\<lambda>v.
     bindR (parse counterValueSchema amount) (\<lambda>amount.
       let result = v + amount in
       if \<not> isSafeInteger result then Inl (AbloValidationError ResultUnsafe) else Inr result))"

definition counterDomain :: "(int, int) OperationDomain" where
  "counterDomain =
     \<lparr>requiresHistory = False, value_ok = counterValueSchema, operation_ok = counterValueSchema,
      dom_apply = applyCounterOperation,
      dom_invert = (\<lambda>v amount. bindR (applyCounterOperation v amount) (\<lambda>_. Inr (- amount))),
      dom_transform = (\<lambda>amount concurrent sd. parse counterValueSchema amount)\<rparr>"

definition foldCounterHistory :: "(int, int) OperationHistory \<Rightarrow> op_error + int OperationSnapshot" where
  "foldCounterHistory history = foldOperationHistory counterDomain history"

definition reconcileCounterEdit :: "(int, int) OperationHistory \<Rightarrow> int OperationEdit \<Rightarrow> int
    \<Rightarrow> op_error + int AcceptedOperation" where
  "reconcileCounterEdit history edit v = reconcileOperation counterDomain history edit v"

lemma applyCounterOperation_Inr:
  "applyCounterOperation v a = Inr w \<longleftrightarrow>
     counterValueSchema v \<and> counterValueSchema a \<and> counterValueSchema w \<and> w = v + a"
  by (auto simp: applyCounterOperation_def parse_def isSafeInteger_def counterValueSchema_def Let_def)

lemma counterValueSchema_uminus: "counterValueSchema (- a) = counterValueSchema a"
  by (auto simp: counterValueSchema_def)

lemmas counter_simps = counterDomain_def applyCounterOperation_Inr counterValueSchema_uminus

interpretation counter: operation_domain counterDomain
  by unfold_locales (auto simp: counter_simps result_simps)

interpretation counter_ot: convergent_domain counterDomain
proof unfold_locales
  fix v a b va vb a' b' :: int
  assume "dom_apply counterDomain v a = Inr va" "dom_apply counterDomain v b = Inr vb"
    "dom_transform counterDomain a b RightSide = Inr a'" "dom_transform counterDomain b a LeftSide = Inr b'"
  then show "dom_apply counterDomain vb a' = dom_apply counterDomain va b'"
    by (auto simp: counterDomain_def applyCounterOperation_def parse_def Let_def isSafeInteger_def
        counterValueSchema_def algebra_simps split: if_splits)
qed

interpretation counter_undo: invertible_domain counterDomain
  by unfold_locales (auto simp: counter_simps result_simps)

end
