(* ===== verification/TextDomain.thy ===== *)
theory TextDomain
  imports OperationSession "HOL-Library.Word"
begin

section \<open>The text domain\<close>

text \<open>
  Model of \<open>packages/transaction/src/commit/text/\<close> (\<open>contract.ts\<close>, \<open>operations.ts\<close>,
  \<open>domain.ts\<close>, \<open>history.ts\<close>): plain-text fields edited by operations whose positions count
  Unicode code points. A JavaScript string is its list of UTF-16 code units, and
  \<open>Array.from\<close> is \<open>characters\<close>, which pairs the surrogates.

  The functions of the package \<open>ot-text-unicode\<close> are the record \<open>text_type\<close>, an argument of the
  operations that call them. The lemmas concern the repository's own part: the check of an
  operation against its base value and the text it records for every deletion.
\<close>

type_synonym js_string = "16 word list"

definition high_surrogate :: "16 word \<Rightarrow> bool" where
  "high_surrogate c \<longleftrightarrow> 0xD800 \<le> c \<and> c \<le> 0xDBFF"

definition low_surrogate :: "16 word \<Rightarrow> bool" where
  "low_surrogate c \<longleftrightarrow> 0xDC00 \<le> c \<and> c \<le> 0xDFFF"

fun characters :: "js_string \<Rightarrow> js_string list" where
  "characters [] = []"
| "characters [c] = [[c]]"
| "characters (c # d # cs) =
     (if high_surrogate c \<and> low_surrogate d then [c, d] # characters cs else [c] # characters (d # cs))"

text \<open>The complement of the pattern \<open>/[\uD800-\uDFFF]/u\<close>, which sees only unpaired surrogates.\<close>

definition char_ok :: "js_string \<Rightarrow> bool" where
  "char_ok g = (case g of [c] \<Rightarrow> \<not> high_surrogate c \<and> \<not> low_surrogate c | _ \<Rightarrow> True)"

definition textValueSchema :: "js_string \<Rightarrow> bool" where
  "textValueSchema v \<longleftrightarrow> length v \<le> 1000000 \<and> list_all char_ok (characters v)"

datatype text_component = Skip int | InsertText js_string | DeleteCount int | DeleteText js_string

type_synonym TextOperation = "text_component list"

definition countSchema :: "int \<Rightarrow> bool" where
  "countSchema n \<longleftrightarrow> 0 < n \<and> n \<le> MAX_SAFE_INTEGER"

fun component_ok :: "text_component \<Rightarrow> bool" where
  "component_ok (Skip n) = countSchema n"
| "component_ok (InsertText t) = (textValueSchema t \<and> 0 < length t)"
| "component_ok (DeleteCount n) = countSchema n"
| "component_ok (DeleteText t) = (textValueSchema t \<and> 0 < length t)"

definition textOperationSchema :: "TextOperation \<Rightarrow> bool" where
  "textOperationSchema op \<longleftrightarrow> list_all component_ok op \<and> length op \<le> 4096"

text \<open>The characters of the base that a component passes over.\<close>

fun component_count :: "text_component \<Rightarrow> int" where
  "component_count (Skip n) = n"
| "component_count (InsertText t) = 0"
| "component_count (DeleteCount n) = n"
| "component_count (DeleteText t) = int (length (characters t))"

text \<open>The callback of \<open>operation.map\<close>, with the \<open>position\<close> it advances.\<close>

fun invert_components :: "js_string list \<Rightarrow> int \<Rightarrow> TextOperation \<Rightarrow> op_error + TextOperation" where
  "invert_components cs position [] = Inr []"
| "invert_components cs position (InsertText t # rest) =
     bindR (invert_components cs position rest) (\<lambda>rest1. Inr (InsertText t # rest1))"
| "invert_components cs position (component # rest) =
     (let count = component_count component;
          deleted = concat (take (nat count) (drop (nat position) cs))
      in if int (length cs) - position < count then Inl (AbloValidationError ExceedsBase)
         else
           bindR (case component of
               Skip n \<Rightarrow> Inr (Skip n)
             | DeleteText t \<Rightarrow>
                 if t \<noteq> deleted then Inl (AbloValidationError DeletedTextMismatch) else Inr (DeleteText deleted)
             | _ \<Rightarrow> Inr (DeleteText deleted)) (\<lambda>component1.
           bindR (invert_components cs (position + count) rest) (\<lambda>rest1. Inr (component1 # rest1))))"

definition invertibleOperation :: "js_string \<Rightarrow> TextOperation \<Rightarrow> op_error + TextOperation" where
  "invertibleOperation v input =
     bindR (parse textValueSchema v) (\<lambda>v.
     bindR (parse textOperationSchema input) (\<lambda>operation.
       invert_components (characters v) 0 operation))"

text \<open>The imported functions; \<open>type.invert\<close> may be absent.\<close>

record text_type =
  ty_normalize :: "TextOperation \<Rightarrow> TextOperation"
  ty_apply :: "js_string \<Rightarrow> TextOperation \<Rightarrow> js_string"
  ty_invert :: "(TextOperation \<Rightarrow> TextOperation) option"
  ty_transform :: "TextOperation \<Rightarrow> TextOperation \<Rightarrow> side \<Rightarrow> TextOperation"

definition applyTextOperation :: "text_type \<Rightarrow> js_string \<Rightarrow> TextOperation \<Rightarrow> op_error + js_string" where
  "applyTextOperation ty v operation =
     bindR (invertibleOperation v operation) (\<lambda>op.
       parse textValueSchema (ty_apply ty v (ty_normalize ty op)))"

definition invertTextOperation :: "text_type \<Rightarrow> js_string \<Rightarrow> TextOperation \<Rightarrow> op_error + TextOperation" where
  "invertTextOperation ty v operation = (case ty_invert ty of
      None \<Rightarrow> Inl (PlainError ''The text OT implementation must support inversion.'')
    | Some inv_op \<Rightarrow> bindR (invertibleOperation v operation) (\<lambda>op. Inr (inv_op (ty_normalize ty op))))"

definition transformTextOperation :: "text_type \<Rightarrow> TextOperation \<Rightarrow> TextOperation \<Rightarrow> side \<Rightarrow> op_error + TextOperation" where
  "transformTextOperation ty operation concurrent sd =
     bindR (parse textOperationSchema operation) (\<lambda>op.
     bindR (parse textOperationSchema concurrent) (\<lambda>con.
       Inr (ty_transform ty (ty_normalize ty op) (ty_normalize ty con) sd)))"

definition textDomain :: "text_type \<Rightarrow> (js_string, TextOperation) OperationDomain" where
  "textDomain ty =
     \<lparr>requiresHistory = True, value_ok = textValueSchema, operation_ok = textOperationSchema,
      dom_apply = applyTextOperation ty, dom_invert = invertTextOperation ty,
      dom_transform = transformTextOperation ty\<rparr>"

definition foldTextHistory :: "text_type \<Rightarrow> (js_string, TextOperation) OperationHistory
    \<Rightarrow> op_error + js_string OperationSnapshot" where
  "foldTextHistory ty history = foldOperationHistory (textDomain ty) history"

definition reconcileTextEdit :: "text_type \<Rightarrow> (js_string, TextOperation) OperationHistory
    \<Rightarrow> TextOperation OperationEdit \<Rightarrow> js_string \<Rightarrow> op_error + TextOperation AcceptedOperation" where
  "reconcileTextEdit ty history edit v = reconcileOperation (textDomain ty) history edit v"

subsection \<open>Characters\<close>

lemma concat_characters [simp]: "concat (characters v) = v"
  by (induction v rule: characters.induct) auto

text \<open>What \<open>characters\<close> returns for a well-formed string: single units or surrogate pairs.\<close>

definition char_group :: "js_string \<Rightarrow> bool" where
  "char_group g \<longleftrightarrow> (\<exists>c. g = [c] \<and> \<not> high_surrogate c \<and> \<not> low_surrogate c)
     \<or> (\<exists>c d. g = [c, d] \<and> high_surrogate c \<and> low_surrogate d)"

lemma characters_groups: "list_all char_ok (characters v) \<Longrightarrow> list_all char_group (characters v)"
  by (induction v rule: characters.induct) (auto simp: char_ok_def char_group_def split: if_splits)

lemma char_group_ok: "char_group g \<Longrightarrow> char_ok g"
  by (auto simp: char_group_def char_ok_def)

lemma characters_concat: "list_all char_group gs \<Longrightarrow> characters (concat gs) = gs"
proof (induction gs)
  case (Cons g gs)
  then consider c where "g = [c]" "\<not> high_surrogate c" | c d where "g = [c, d]" "high_surrogate c" "low_surrogate d"
    by (auto simp: char_group_def)
  then show ?case
  proof cases
    case 1
    with Cons show ?thesis by (cases "concat gs") auto
  next
    case 2
    with Cons show ?thesis by simp
  qed
qed simp

subsection \<open>The checked operation\<close>

text \<open>What the check returns: every deletion spells out a non-empty slice of its base.\<close>

lemma slice_ok:
  assumes "textValueSchema v" and "0 < count" and "0 \<le> position"
    and "count \<le> int (length (characters v)) - position"
  shows "component_ok (DeleteText (concat (take (nat count) (drop (nat position) (characters v)))))
    \<and> component_count (DeleteText (concat (take (nat count) (drop (nat position) (characters v))))) = count"
proof -
  let ?gs = "take (nat count) (drop (nat position) (characters v))"
  have gs: "list_all char_group ?gs"
    using characters_groups assms(1)
    by (auto simp: textValueSchema_def list_all_iff dest!: in_set_takeD in_set_dropD)
  have len: "length ?gs = nat count" using assms by simp
  have "characters v = take (nat position) (characters v) @ ?gs @ drop (nat count) (drop (nat position) (characters v))"
    by (simp only: append_take_drop_id)
  then have "length v = length (concat (take (nat position) (characters v))) + length (concat ?gs)
      + length (concat (drop (nat count) (drop (nat position) (characters v))))"
    by (metis add.assoc concat_append concat_characters length_append)
  then have "length (concat ?gs) \<le> 1000000" using assms(1) by (simp add: textValueSchema_def)
  moreover have "concat ?gs \<noteq> []"
  proof
    assume "concat ?gs = []"
    with characters_concat [OF gs] len assms(2) show False by simp
  qed
  ultimately show ?thesis
    using gs characters_concat [OF gs] len assms(2)
    by (auto simp: textValueSchema_def list_all_iff intro: char_group_ok)
qed

lemma invert_components_checked:
  assumes "textValueSchema v" and "list_all component_ok op" and "0 \<le> position"
    and "invert_components (characters v) position op = Inr op'"
  shows "list_all component_ok op' \<and> length op' = length op
    \<and> map component_count op' = map component_count op
    \<and> (\<forall>n. DeleteCount n \<notin> set op') \<and> invert_components (characters v) position op' = Inr op'"
  using assms(2-)
proof (induction op arbitrary: position op')
  case (Cons c op)
  show ?case
  proof (cases c)
    case (InsertText t)
    with Cons show ?thesis by (auto simp: result_simps)
  next
    case (Skip n)
    with Cons.prems obtain op1 where "invert_components (characters v) (position + n) op = Inr op1" "op' = Skip n # op1"
      "\<not> int (length (characters v)) - position < n" "0 \<le> position + n"
      by (auto simp: result_simps countSchema_def Let_def split: if_splits)
    with Cons.IH [of "position + n" op1] Cons.prems(1) Skip show ?thesis by (auto simp: Let_def)
  next
    case (DeleteCount n)
    let ?d = "concat (take (nat n) (drop (nat position) (characters v)))"
    from Cons.prems DeleteCount obtain op1 where op1:
      "invert_components (characters v) (position + n) op = Inr op1" "op' = DeleteText ?d # op1"
      "\<not> int (length (characters v)) - position < n" "0 < n" "0 \<le> position + n"
      by (auto simp: result_simps countSchema_def Let_def split: if_splits)
    with slice_ok [OF assms(1), of n position] Cons.IH [of "position + n" op1] Cons.prems(1,2) DeleteCount
    show ?thesis by (auto simp: Let_def)
  next
    case (DeleteText t)
    let ?n = "int (length (characters t))"
    from Cons.prems DeleteText obtain op1 where op1:
      "invert_components (characters v) (position + ?n) op = Inr op1" "op' = DeleteText t # op1"
      "t = concat (take (nat ?n) (drop (nat position) (characters v)))"
      "\<not> int (length (characters v)) - position < ?n"
      by (auto simp: result_simps Let_def split: if_splits)
    with Cons.IH [of "position + ?n" op1] Cons.prems(1,2) DeleteText show ?thesis
      by (auto simp: Let_def)
  qed
qed simp

text \<open>Without literal deletions the check fails exactly on operations that run past the base.\<close>

lemma invert_components_bounds:
  assumes "list_all component_ok op" and "0 \<le> position" and "position \<le> int (length cs)"
    and "\<forall>t. DeleteText t \<notin> set op"
  shows "if position + sum_list (map component_count op) \<le> int (length cs)
    then \<exists>op'. invert_components cs position op = Inr op'
    else invert_components cs position op = Inl (AbloValidationError ExceedsBase)"
  using assms
proof (induction op arbitrary: position)
  case (Cons c op)
  have nonneg: "0 \<le> sum_list (map component_count op)"
    using Cons.prems(1)
    by (induction op) (auto simp: countSchema_def elim!: component_ok.elims)
  show ?case
    using Cons.prems nonneg Cons.IH [of "position + component_count c"]
    by (cases c) (auto simp: Let_def countSchema_def result_simps algebra_simps split: if_splits)
qed simp

end
