(* ===== verification/OperationProperties.thy ===== *)
theory OperationProperties
  imports OperationField CounterDomain TextDomain
begin

section \<open>What versioned fields promise\<close>

text \<open>
  The properties of the operation fields, stated over the definitions of \<open>Operations\<close>,
  \<open>OperationSession\<close>, \<open>OperationContext\<close>, \<open>OperationField\<close> and \<open>TextDomain\<close>. A hypothesis
  \<open>operation_domain D\<close> (or one of its extensions) is the contract of the domain that the
  generic code is called with; \<open>CounterDomain\<close> discharges it for the counters of the
  repository, and the witnesses are sessions and histories of such a counter.
\<close>

subsection \<open>Method calls on a session\<close>

datatype 'o session_method =
    CallEdit string 'o
  | CallUndo string
  | CallRedo string
  | CallNextEdit
  | CallReceive "'o AcceptedOperation"

text \<open>A call that throws leaves the session as it was.\<close>

fun call_session :: "('v, 'o) OperationDomain \<Rightarrow> 'o session_method \<Rightarrow> ('v, 'o) OperationState
    \<Rightarrow> ('v, 'o) OperationState" where
  "call_session D (CallEdit i op) st = (case session_edit D st i op of Inl _ \<Rightarrow> st | Inr st' \<Rightarrow> st')"
| "call_session D (CallUndo i) st = (case session_undo D st i of Inl _ \<Rightarrow> st | Inr (st', _) \<Rightarrow> st')"
| "call_session D (CallRedo i) st = (case session_redo D st i of Inl _ \<Rightarrow> st | Inr (st', _) \<Rightarrow> st')"
| "call_session D CallNextEdit st = fst (nextEdit st)"
| "call_session D (CallReceive e) st = (case receive D st e of Inl _ \<Rightarrow> st | Inr st' \<Rightarrow> st')"

context operation_domain
begin

lemma session_call_inv: "session_inv D st \<Longrightarrow> session_inv D (call_session D c st)"
  using nextEdit_inv [OF _ prod.collapse [symmetric]] by (cases c)
    (auto split: sum.splits prod.splits dest: session_edit_inv session_undo_inv session_redo_inv receive_inv)

lemma session_calls_inv: "session_inv D st \<Longrightarrow> session_inv D (fold (call_session D) cs st)"
  by (induction cs arbitrary: st) (auto intro: session_call_inv)

end

subsection \<open>A counter to witness them\<close>

definition counter_base :: "int OperationSnapshot" where
  "counter_base = \<lparr>snap_epoch = ''e'', snap_version = 3, snap_value = 10\<rparr>"

definition counter_add :: "string \<Rightarrow> int \<Rightarrow> int \<Rightarrow> int AcceptedOperation" where
  "counter_add i ver n = \<lparr>acc_id = i, acc_epoch = ''e'', acc_version = ver, acc_operation = n\<rparr>"

definition counter_history :: "(int, int) OperationHistory" where
  "counter_history = \<lparr>hist_base = counter_base, hist_edits = [counter_add ''a'' 4 5, counter_add ''b'' 5 (- 2)]\<rparr>"

definition counter_session :: "string list \<Rightarrow> (int, int) OperationState" where
  "counter_session ids = \<lparr>st_snapshot = \<lparr>snap_epoch = ''e'', snap_version = 5, snap_value = 13\<rparr>,
     st_pending = map (\<lambda>i. \<lparr>pend_id = i, pend_operation = 7\<rparr>) ids, st_inFlight = None, st_undo = [], st_redo = []\<rparr>"

lemmas counter_eval = counter_base_def counter_add_def counter_history_def counter_session_def
  counterDomain_def applyCounterOperation_def counterValueSchema_def MAX_SAFE_INTEGER_def isSafeInteger_def
  foldOperationHistory_def history_ok_def accepted_ok_def snapshot_ok_def edit_ok_def state_ok_def pending_ok_def
  version_ok_def id_ok_def parse_def session_inv_def session_value_def inFlight_matches_def pending_ids_def

lemma counter_history_head:
  "foldOperationHistory counterDomain counter_history =
     Inr \<lparr>snap_epoch = ''e'', snap_version = 5, snap_value = 13\<rparr>"
  by (simp add: counter_eval)

lemma counter_session_inv: "session_inv counterDomain (counter_session [''x''])"
  "session_inv counterDomain (counter_session [''x'', ''y''])"
  by (simp_all add: counter_eval)

subsection \<open>The accepted history\<close>

text \<open>
  C7. What the authority accepts continues its history: when \<open>reconcileOperation\<close> accepts an
  edit against the authoritative value, the history with that edit appended folds again,
  to a head one version further whose value is the authoritative value with the
  accepted operation applied, and no other edit of the history has its identifier.
\<close>

theorem accepted_edit_extends_history:
  assumes "operation_domain D" and "reconcileOperation D h edit auth = Inr acc"
  shows "\<exists>head v. foldOperationHistory D h = Inr head \<and> snap_value head = auth
    \<and> dom_apply D auth (acc_operation acc) = Inr v
    \<and> foldOperationHistory D (h\<lparr>hist_edits := hist_edits h @ [acc]\<rparr>) =
        Inr \<lparr>snap_epoch = snap_epoch head, snap_version = snap_version head + 1, snap_value = v\<rparr>
    \<and> acc_id acc = edit_id edit \<and> edit_id edit \<notin> acc_id ` set (hist_edits h)"
proof -
  from assms obtain head where "foldOperationHistory D h = Inr head" "snap_value head = auth"
    "acc_id acc = edit_id edit" "acc_id acc \<notin> acc_id ` set (hist_edits h)"
    by (rule operation_domain.reconcile_Inr)
  with operation_domain.accepted_extends_history [OF assms] show ?thesis by auto
qed

theorem accepted_edit_extends_history_witness:
  "\<exists>head v. foldOperationHistory counterDomain counter_history = Inr head \<and> snap_value head = 13
    \<and> dom_apply counterDomain 13 9 = Inr v
    \<and> foldOperationHistory counterDomain
        (counter_history\<lparr>hist_edits := hist_edits counter_history @ [counter_add ''c'' 6 9]\<rparr>) =
        Inr \<lparr>snap_epoch = snap_epoch head, snap_version = snap_version head + 1, snap_value = v\<rparr>"
proof -
  have "reconcileOperation counterDomain counter_history
      \<lparr>edit_id = ''c'', edit_epoch = ''e'', edit_baseVersion = 4, edit_operation = 9\<rparr> 13 = Inr (counter_add ''c'' 6 9)"
    unfolding reconcileOperation_def counter_history_head by (simp add: counter_eval)
  from accepted_edit_extends_history [OF counter.operation_domain_axioms this] show ?thesis
    by (auto simp: counter_add_def)
qed

subsection \<open>Sessions\<close>

text \<open>
  The class invariant of \<open>OperationSession\<close> survives every sequence of calls, thrown
  errors included: pending identifiers stay unique, an edit in flight stays the head of
  the pending queue with a basis no newer than the snapshot, everything stored passes
  its schema, and the optimistic value can always be computed.
\<close>

theorem session_calls_keep_invariant:
  assumes "operation_domain D" and "new_OperationSession D input = Inr st"
    and "st' = fold (call_session D) calls st"
  shows "state_ok D st' \<and> distinct (pending_ids st') \<and> inFlight_matches st' \<and> (\<exists>v. session_value D st' = Inr v)"
  using operation_domain.session_calls_inv [OF assms(1), of st calls] assms(2,3)
  by (auto simp: new_OperationSession_Inr session_inv_def)

definition calls_example :: "int session_method list" where
  "calls_example = [CallNextEdit, CallEdit ''y'' 4, CallReceive (counter_add ''c'' 6 9), CallUndo ''z'',
     CallReceive (counter_add ''x'' 7 7)]"

theorem session_calls_keep_invariant_witness:
  "session_value counterDomain (fold (call_session counterDomain) calls_example (counter_session [''x''])) = Inr 29
   \<and> distinct (pending_ids (fold (call_session counterDomain) calls_example (counter_session [''x''])))"
proof -
  have "new_OperationSession counterDomain (counter_session [''x'']) = Inr (counter_session [''x''])"
    using counter_session_inv by (simp add: new_OperationSession_Inr)
  from session_calls_keep_invariant [OF counter.operation_domain_axioms this refl, of calls_example]
  have "distinct (pending_ids (fold (call_session counterDomain) calls_example (counter_session [''x''])))" by blast
  moreover have "session_value counterDomain
      (fold (call_session counterDomain) calls_example (counter_session [''x''])) = Inr 29"
    by (simp add: calls_example_def counter_eval session_edit_def session_undo_def enqueue_def nextEdit_def
        receive_def receive_remote_def Let_def)
  ultimately show ?thesis by blast
qed

text \<open>
  C1. An edit that its session has sent and the authority has accepted is acknowledged
  without the user seeing anything move: after the session has followed the edits
  accepted in between, receiving its own accepted edit never disagrees, the optimistic
  value stays what it was, exactly the head of the pending queue leaves, and the snapshot
  becomes the new head of the history.
\<close>

theorem own_edit_acknowledged_unseen:
  assumes "operation_domain D" and "st_inFlight st = None" and "nextEdit st = (st1, Some sent)"
    and "foldOperationHistory D \<lparr>hist_base = hist_base h, hist_edits = take n (hist_edits h)\<rparr> = Inr (st_snapshot st)"
    and "n \<le> length (hist_edits h)"
    and "reconcileOperation D h sent auth = Inr acc"
    and "session_follow D (drop n (hist_edits h)) st1 = Inr st2"
  shows "\<exists>st3. receive D st2 acc = Inr st3 \<and> session_value D st3 = session_value D st2
    \<and> pending_ids st3 = tl (pending_ids st2) \<and> st_inFlight st3 = None
    \<and> foldOperationHistory D (h\<lparr>hist_edits := hist_edits h @ [acc]\<rparr>) = Inr (st_snapshot st3)"
  by (rule operation_domain.own_edit_acknowledged [OF assms])

definition sent_example :: "int OperationEdit" where
  "sent_example = \<lparr>edit_id = ''x'', edit_epoch = ''e'', edit_baseVersion = 4, edit_operation = 7\<rparr>"

definition behind_session :: "(int, int) OperationState" where
  "behind_session = \<lparr>st_snapshot = \<lparr>snap_epoch = ''e'', snap_version = 4, snap_value = 15\<rparr>,
     st_pending = [\<lparr>pend_id = ''x'', pend_operation = 7\<rparr>], st_inFlight = None, st_undo = [], st_redo = []\<rparr>"

definition followed_session :: "(int, int) OperationState" where
  "followed_session = behind_session\<lparr>st_snapshot := \<lparr>snap_epoch = ''e'', snap_version = 5, snap_value = 13\<rparr>,
     st_inFlight := Some sent_example\<rparr>"

theorem own_edit_acknowledged_unseen_witness:
  "\<exists>st3. receive counterDomain followed_session (counter_add ''x'' 6 7) = Inr st3
    \<and> session_value counterDomain st3 = session_value counterDomain followed_session"
proof -
  have "nextEdit behind_session = (behind_session\<lparr>st_inFlight := Some sent_example\<rparr>, Some sent_example)"
    by (simp add: nextEdit_def behind_session_def sent_example_def Let_def)
  moreover have "foldOperationHistory counterDomain
      \<lparr>hist_base = hist_base counter_history, hist_edits = take 1 (hist_edits counter_history)\<rparr> =
      Inr (st_snapshot behind_session)"
    by (simp add: counter_eval behind_session_def)
  moreover have "reconcileOperation counterDomain counter_history sent_example 13 = Inr (counter_add ''x'' 6 7)"
    unfolding reconcileOperation_def counter_history_head sent_example_def by (simp add: counter_eval)
  moreover have "session_follow counterDomain (drop 1 (hist_edits counter_history))
      (behind_session\<lparr>st_inFlight := Some sent_example\<rparr>) = Inr followed_session"
    by (simp add: counter_eval behind_session_def followed_session_def sent_example_def receive_def
        receive_remote_def Let_def)
  ultimately show ?thesis
    using own_edit_acknowledged_unseen [OF counter.operation_domain_axioms _ _ _ _ _ _,
        of behind_session _ sent_example counter_history 1 13 "counter_add ''x'' 6 7" followed_session]
    by (auto simp: behind_session_def counter_history_def)
qed

text \<open>
  C26. A remote edit moves the optimistic value by exactly the remote operation carried
  over the pending edits, and the pending edits become the carried ones: the local view
  and the remote edit commute, for every domain with the transformation law.
\<close>

theorem remote_edit_moves_view:
  assumes "convergent_domain D" and "session_inv D st" and "receive D st edit = Inr st'"
    and "snap_version (st_snapshot st) < acc_version edit" and "acc_id edit \<notin> set (pending_ids st)"
  shows "\<exists>v v' ps r'. session_value D st = Inr v \<and> session_value D st' = Inr v'
    \<and> transform_pending D (st_pending st) (acc_operation edit) = Inr (ps, r')
    \<and> st_pending st' = ps \<and> dom_apply D v r' = Inr v'"
  by (rule convergent_domain.receive_remote_view [OF assms])

theorem remote_edit_moves_view_witness:
  "\<exists>st' v'. receive counterDomain (counter_session [''x'']) (counter_add ''c'' 6 9) = Inr st'
     \<and> session_value counterDomain st' = Inr v' \<and> dom_apply counterDomain 20 9 = Inr v'"
proof -
  let ?st' = "(counter_session [''x''])\<lparr>st_snapshot := \<lparr>snap_epoch = ''e'', snap_version = 6, snap_value = 22\<rparr>\<rparr>"
  have "receive counterDomain (counter_session [''x'']) (counter_add ''c'' 6 9) = Inr ?st'"
    by (simp add: counter_eval receive_def receive_remote_def Let_def)
  with remote_edit_moves_view [OF counter_ot.convergent_domain_axioms counter_session_inv(1) this]
  show ?thesis by (auto simp: counter_eval)
qed

text \<open>
  Undo takes back the last edit: whatever was pending, an edit followed by an undo
  restores the optimistic value, for every domain whose inverses invert.
\<close>

theorem undo_restores_value:
  assumes "invertible_domain D" and "session_inv D st" and "session_edit D st i op = Inr st1"
    and "session_undo D st1 j = Inr (st2, undone)"
  shows "undone \<and> session_value D st2 = session_value D st"
  by (rule invertible_domain.edit_then_undo [OF assms])

definition edited_session :: "(int, int) OperationState" where
  "edited_session = (counter_session [''x'', ''y''])\<lparr>st_pending :=
      [\<lparr>pend_id = ''x'', pend_operation = 7\<rparr>, \<lparr>pend_id = ''y'', pend_operation = 4\<rparr>], st_undo := [- 4]\<rparr>"

theorem undo_restores_value_witness:
  "\<exists>st2. session_undo counterDomain edited_session ''z'' = Inr (st2, True)
     \<and> session_value counterDomain st2 = session_value counterDomain (counter_session [''x''])"
proof -
  have "session_edit counterDomain (counter_session [''x'']) ''y'' 4 = Inr edited_session"
    by (simp add: counter_eval session_edit_def enqueue_def edited_session_def)
  moreover obtain st2 where "session_undo counterDomain edited_session ''z'' = Inr (st2, True)"
    by (simp add: counter_eval session_undo_def enqueue_def edited_session_def Let_def)
  ultimately show ?thesis
    using undo_restores_value [OF counter_undo.invertible_domain_axioms counter_session_inv(1)] by blast
qed

subsection \<open>Queued contexts and field buffers\<close>

text \<open>
  Only the causal head is sealed, and what is sealed is accepted: an edit returned by
  \<open>prepareContextOperation\<close> for an identifier the history does not hold is accepted by
  \<open>reconcileOperation\<close> at the head of that same history, unchanged.
\<close>

theorem prepared_edit_accepted:
  assumes "operation_domain D" and "prepareContextOperation D context history i = Inr edit"
    and "i \<notin> acc_id ` set (hist_edits history)"
    and "foldOperationHistory D history = Inr head" and "snap_version head < MAX_SAFE_INTEGER"
  shows "reconcileOperation D history edit (snap_value head) =
    Inr \<lparr>acc_id = i, acc_epoch = snap_epoch head, acc_version = snap_version head + 1,
         acc_operation = edit_operation edit\<rparr>"
  by (rule operation_domain.prepared_is_accepted [OF assms])

definition queued_context :: "(int, int) OperationContext" where
  "queued_context = \<lparr>ctx_snapshot = \<lparr>snap_epoch = ''e'', snap_version = 4, snap_value = 15\<rparr>,
     ctx_pending = [\<lparr>pend_id = ''b'', pend_operation = - 2\<rparr>, \<lparr>pend_id = ''x'', pend_operation = 7\<rparr>]\<rparr>"

lemma queued_context_prepared:
  "prepareContextOperation counterDomain queued_context counter_history ''x'' =
     Inr \<lparr>edit_id = ''x'', edit_epoch = ''e'', edit_baseVersion = 5, edit_operation = 7\<rparr>"
  by (simp add: prepareContextOperation_def rebaseOperationContext_def queued_context_def counter_eval
      ctx_state_def new_OperationSession_def receive_def nextEdit_def export_context_def Let_def)

theorem prepared_edit_accepted_witness:
  "reconcileOperation counterDomain counter_history
     \<lparr>edit_id = ''x'', edit_epoch = ''e'', edit_baseVersion = 5, edit_operation = 7\<rparr> 13 = Inr (counter_add ''x'' 6 7)"
  using prepared_edit_accepted [OF counter.operation_domain_axioms queued_context_prepared _ counter_history_head]
  by (simp add: counter_history_def counter_add_def MAX_SAFE_INTEGER_def)

text \<open>
  C2. Flushing delivers everything: against an authority that decides with
  \<open>reconcileOperation\<close>, a flush of a caught-up buffer returns without an error after one
  round trip per pending edit; the queue is empty, the authority has accepted the pending
  edits in order, and the authority's value is the value the user saw before the flush.
\<close>

theorem flush_delivers_pending:
  assumes "operation_domain D" and "caught_up D h f" and "length (st_pending (fld_session f)) < fuel"
  shows "\<exists>h1 f1. field_flush D (authority_transport D) fuel (h, f) = Some (Inr (), (h1, f1))
     \<and> fld_failure f1 = None \<and> st_pending (fld_session f1) = []
     \<and> foldOperationHistory D h1 = Inr (st_snapshot (fld_session f1))
     \<and> Inr (snap_value (st_snapshot (fld_session f1))) = session_value D (fld_session f)
     \<and> map acc_id (hist_edits h1) = map acc_id (hist_edits h) @ pending_ids (fld_session f)"
  by (rule operation_domain.flush_commits_all [OF assms])

definition counter_field :: "(int, int) OperationField" where
  "counter_field = \<lparr>fld_session = counter_session [''x'', ''y''], fld_failure = None, fld_closed = False, fld_saved = []\<rparr>"

lemma counter_field_caught_up: "caught_up counterDomain counter_history counter_field"
  using counter_session_inv(2) counter_history_head
  by (simp add: caught_up_def counter_field_def)
     (simp add: counter_session_def pending_ids_def counter_history_def counter_add_def MAX_SAFE_INTEGER_def)

theorem flush_delivers_pending_witness:
  "\<exists>h1 f1. field_flush counterDomain (authority_transport counterDomain) 3 (counter_history, counter_field) =
       Some (Inr (), (h1, f1))
     \<and> map acc_id (hist_edits h1) = [''a'', ''b'', ''x'', ''y''] \<and> snap_value (st_snapshot (fld_session f1)) = 27"
proof -
  have "session_value counterDomain (fld_session counter_field) = Inr 27"
    by (simp add: counter_field_def counter_eval)
  with flush_delivers_pending [OF counter.operation_domain_axioms counter_field_caught_up, of 3]
  show ?thesis
    by (auto simp: counter_field_def counter_session_def counter_history_def counter_add_def pending_ids_def)
qed

subsection \<open>Text operations\<close>

text \<open>
  The operation that is handed to the text library always fits its base:
  \<open>invertibleOperation\<close> keeps the number of components and the characters each passes over,
  replaces every counted deletion by the literal text, returns an operation that passes
  the schema, and checking its result again changes nothing.
\<close>

theorem invertible_operation_fits:
  assumes "invertibleOperation v op = Inr op'"
  shows "textOperationSchema op' \<and> map component_count op' = map component_count op
    \<and> (\<forall>n. DeleteCount n \<notin> set op') \<and> invertibleOperation v op' = Inr op'"
  using invert_components_checked [of v op 0 op'] assms
  by (auto simp: invertibleOperation_def result_simps textOperationSchema_def)

theorem invertible_operation_fits_witness:
  "invertibleOperation [0x61, 0xD83D, 0xDE00, 0x62] [Skip 1, DeleteText [0xD83D, 0xDE00]] =
     Inr [Skip 1, DeleteText [0xD83D, 0xDE00]]"
proof -
  have "invertibleOperation [0x61, 0xD83D, 0xDE00, 0x62] [Skip 1, DeleteCount 1] =
      Inr [Skip 1, DeleteText [0xD83D, 0xDE00]]"
    by (simp add: invertibleOperation_def parse_def textValueSchema_def textOperationSchema_def countSchema_def
        char_ok_def high_surrogate_def low_surrogate_def MAX_SAFE_INTEGER_def Let_def)
  from invertible_operation_fits [OF this] show ?thesis by blast
qed

end
