(* ===== verification/Positions.thy ===== *)
theory Positions
  imports Prelude
begin

section \<open>Positions in the sync log\<close>

text \<open>
  Model of the client's cursors: \<open>packages/humans/src/local/logPosition.ts\<close> (what was applied,
  persisted and acknowledged), \<open>rowWatermarks.ts\<close> (what each pooled row reflects),
  \<open>sync/persistedPrefix.ts\<close> (how far a frame of deltas was stored without a gap) and
  \<open>sync/syncCursor.ts\<close> (the resume state of one socket session). Positions are integers.

  The locale \<open>absorbing_calls\<close> is the contract of a cursor that only joins what it is told:
  its calls commute and repeat without effect. Both position objects satisfy it, so
  redelivered and reordered notifications cannot change where they end.
\<close>

subsection \<open>Log positions\<close>

record LogPositionSnapshot =
  lp_persisted :: int
  lp_applied :: int
  lp_acked :: int

definition logPositionSchema :: "int \<Rightarrow> bool" where
  "logPositionSchema n \<longleftrightarrow> 0 \<le> n"

text \<open>The unknown value that \<open>parseLogPosition\<close> receives, reduced to its three entries.\<close>

definition parseLogPosition :: "int option \<times> int option \<times> int option \<Rightarrow> LogPositionSnapshot option" where
  "parseLogPosition = (\<lambda>(p, a, k). case (p, a, k) of
      (Some p, Some a, Some k) \<Rightarrow>
        if logPositionSchema p \<and> logPositionSchema a \<and> logPositionSchema k
        then Some \<lparr>lp_persisted = p, lp_applied = a, lp_acked = k\<rparr> else None
    | _ \<Rightarrow> None)"

definition ZERO :: LogPositionSnapshot where
  "ZERO = \<lparr>lp_persisted = 0, lp_applied = 0, lp_acked = 0\<rparr>"

definition lp_advance :: "LogPositionSnapshot \<Rightarrow> int option \<Rightarrow> int option \<Rightarrow> int option \<Rightarrow> LogPositionSnapshot" where
  "lp_advance st p a k =
     \<lparr>lp_persisted = max (lp_persisted st) (case p of None \<Rightarrow> 0 | Some n \<Rightarrow> n),
      lp_applied = max (lp_applied st) (case a of None \<Rightarrow> 0 | Some n \<Rightarrow> n),
      lp_acked = max (lp_acked st) (case k of None \<Rightarrow> 0 | Some n \<Rightarrow> n)\<rparr>"

definition advancePersisted :: "int \<Rightarrow> LogPositionSnapshot \<Rightarrow> LogPositionSnapshot" where
  "advancePersisted syncId st = lp_advance st (Some syncId) (Some syncId) None"

definition advanceApplied :: "int \<Rightarrow> LogPositionSnapshot \<Rightarrow> LogPositionSnapshot" where
  "advanceApplied syncId st = lp_advance st None (Some syncId) None"

definition noteAck :: "int option \<Rightarrow> LogPositionSnapshot \<Rightarrow> LogPositionSnapshot" where
  "noteAck lastSyncId st = (case lastSyncId of None \<Rightarrow> st | Some n \<Rightarrow> lp_advance st None None (Some n))"

definition lp_restore :: "LogPositionSnapshot \<Rightarrow> LogPositionSnapshot \<Rightarrow> LogPositionSnapshot" where
  "lp_restore snapshot st =
     lp_advance st (Some (lp_persisted snapshot)) (Some (lp_applied snapshot)) (Some (lp_acked snapshot))"

definition readFloor :: "LogPositionSnapshot \<Rightarrow> int" where
  "readFloor st = max (lp_applied st) (lp_acked st)"

datatype position_call =
    AdvancePersisted int
  | AdvanceApplied int
  | NoteAck "int option"
  | Restore LogPositionSnapshot

fun call_position :: "position_call \<Rightarrow> LogPositionSnapshot \<Rightarrow> LogPositionSnapshot" where
  "call_position (AdvancePersisted n) st = advancePersisted n st"
| "call_position (AdvanceApplied n) st = advanceApplied n st"
| "call_position (NoteAck a) st = noteAck a st"
| "call_position (Restore p) st = lp_restore p st"

subsection \<open>Row watermarks\<close>

text \<open>The weak map from row objects to positions; a row object is its address.\<close>

type_synonym 'row watermarks = "'row \<Rightarrow> int option"

definition wm_advance :: "'row \<Rightarrow> int option \<Rightarrow> 'row watermarks \<Rightarrow> 'row watermarks" where
  "wm_advance row position wm = (case position of
      None \<Rightarrow> wm
    | Some p \<Rightarrow>
        if \<not> 0 < p then wm
        else (case wm row of
            None \<Rightarrow> wm(row \<mapsto> p)
          | Some known \<Rightarrow> if known < p then wm(row \<mapsto> p) else wm))"

definition wm_of :: "'row watermarks \<Rightarrow> 'row \<Rightarrow> int option" where
  "wm_of wm row = wm row"

definition isAheadOf :: "'row watermarks \<Rightarrow> 'row \<Rightarrow> int option \<Rightarrow> bool" where
  "isAheadOf wm row snapshotPosition = (case snapshotPosition of
      None \<Rightarrow> False
    | Some p \<Rightarrow> (case wm row of None \<Rightarrow> False | Some known \<Rightarrow> p < known))"

subsection \<open>The persisted prefix of a frame\<close>

text \<open>
  A delta's \<open>syncId\<close> is a number, a string or absent. \<open>Number(raw)\<close> is modelled for decimal
  digits, which is how the wire spells a position; other strings count as not finite.
\<close>

datatype raw_sync_id = RawNumber int | RawString string | RawAbsent

definition sync_number :: "raw_sync_id \<Rightarrow> int option" where
  "sync_number raw = (case raw of
      RawNumber n \<Rightarrow> Some n
    | RawString s \<Rightarrow> digits_value s 0
    | RawAbsent \<Rightarrow> None)"

fun prefix_loop :: "nat set \<Rightarrow> nat \<Rightarrow> raw_sync_id list \<Rightarrow> int \<Rightarrow> int" where
  "prefix_loop persisted index [] through = through"
| "prefix_loop persisted index (raw # deltas) through =
     (if index \<notin> persisted then through
      else prefix_loop persisted (Suc index) deltas (case sync_number raw of
          None \<Rightarrow> through
        | Some n \<Rightarrow> if through < n then n else through))"

definition highestPersistedPrefixSyncId :: "raw_sync_id list \<Rightarrow> nat set \<Rightarrow> int" where
  "highestPersistedPrefixSyncId deltas persistedIndexes = prefix_loop persistedIndexes 0 deltas 0"

subsection \<open>The resume cursor of a socket session\<close>

record SyncCursor =
  sc_lastSyncId :: int
  sc_syncCursor :: "string option"

definition new_SyncCursor :: "int \<Rightarrow> SyncCursor" where
  "new_SyncCursor n = \<lparr>sc_lastSyncId = n, sc_syncCursor = None\<rparr>"

definition ackAdvance :: "int \<Rightarrow> SyncCursor \<Rightarrow> SyncCursor" where
  "ackAdvance syncId c = (if sc_lastSyncId c < syncId then c\<lparr>sc_lastSyncId := syncId\<rparr> else c)"

definition setLastSyncId :: "int \<Rightarrow> SyncCursor \<Rightarrow> SyncCursor" where
  "setLastSyncId syncId c = c\<lparr>sc_lastSyncId := syncId\<rparr>"

definition setSyncCursor :: "string option \<Rightarrow> SyncCursor \<Rightarrow> SyncCursor" where
  "setSyncCursor cursor c = c\<lparr>sc_syncCursor := cursor\<rparr>"

definition getLastSyncId :: "SyncCursor \<Rightarrow> int" where
  "getLastSyncId c = sc_lastSyncId c"

subsection \<open>Calls that only join\<close>

locale absorbing_calls =
  fixes f :: "'c \<Rightarrow> 's \<Rightarrow> 's"
  assumes commute: "f x (f y s) = f y (f x s)" and absorb: "f x (f x s) = f x s"
begin

lemma through: "fold f ys (f x s) = f x (fold f ys s)"
proof (induction ys arbitrary: s)
  case (Cons y ys)
  then show ?case using commute [of y x s] by simp
qed simp

lemma move_front: "x \<in> set xs \<Longrightarrow> f x (fold f xs s) = fold f xs s"
proof (induction xs arbitrary: s)
  case (Cons y ys)
  then show ?case
  proof (cases "x = y")
    case True
    then show ?thesis by (simp add: through absorb)
  next
    case False
    with Cons show ?thesis by simp
  qed
qed simp

lemma absorbed: "set ys \<subseteq> set xs \<Longrightarrow> fold f ys (fold f xs s) = fold f xs s"
  by (induction ys) (auto simp: move_front)

lemma fold_swap: "fold f ys (fold f xs s) = fold f xs (fold f ys s)"
  by (induction ys arbitrary: s) (simp_all add: through [symmetric])

lemma same_calls: "set xs = set ys \<Longrightarrow> fold f xs s = fold f ys s"
  by (metis absorbed fold_swap order_refl)

end

lemmas lp_simps = lp_advance_def advancePersisted_def advanceApplied_def noteAck_def lp_restore_def

lemma position_call_join:
  "call_position c (lp_advance st p a k) = lp_advance (call_position c st) p a k"
  by (cases c) (auto simp: lp_simps max.assoc max.commute max.left_commute split: option.splits)

interpretation position_calls: absorbing_calls call_position
proof unfold_locales
  fix x y s
  show "call_position x (call_position y s) = call_position y (call_position x s)"
    by (cases y)
       (simp_all add: advancePersisted_def advanceApplied_def noteAck_def lp_restore_def position_call_join
         split: option.splits)
  show "call_position x (call_position x s) = call_position x s"
    by (cases x) (auto simp: lp_simps split: option.splits)
qed

interpretation watermark_calls: absorbing_calls "\<lambda>(row, p). wm_advance row p"
  by unfold_locales (auto simp: wm_advance_def fun_eq_iff split: option.splits if_splits)

subsection \<open>Watermarks and prefixes\<close>

definition valid_call :: "position_call \<Rightarrow> bool" where
  "valid_call c = (case c of Restore p \<Rightarrow> lp_persisted p \<le> lp_applied p | _ \<Rightarrow> True)"

lemma position_call_mono:
  "lp_persisted st \<le> lp_persisted (call_position c st) \<and> lp_applied st \<le> lp_applied (call_position c st)
    \<and> lp_acked st \<le> lp_acked (call_position c st)"
  by (cases c) (auto simp: lp_simps split: option.splits)

lemma position_call_ordered:
  "valid_call c \<Longrightarrow> 0 \<le> lp_persisted st \<and> lp_persisted st \<le> lp_applied st \<Longrightarrow>
     0 \<le> lp_persisted (call_position c st) \<and> lp_persisted (call_position c st) \<le> lp_applied (call_position c st)"
  by (cases c) (auto simp: lp_simps valid_call_def split: option.splits)

lemma positions_mono:
  "lp_persisted st \<le> lp_persisted (fold call_position cs st) \<and> lp_applied st \<le> lp_applied (fold call_position cs st)
    \<and> lp_acked st \<le> lp_acked (fold call_position cs st)"
proof (induction cs arbitrary: st)
  case (Cons c cs)
  from Cons.IH [of "call_position c st"] position_call_mono [of st c] show ?case by simp
qed simp

lemma positions_ordered:
  "list_all valid_call cs \<Longrightarrow> 0 \<le> lp_persisted st \<and> lp_persisted st \<le> lp_applied st \<Longrightarrow>
     0 \<le> lp_persisted (fold call_position cs st) \<and>
     lp_persisted (fold call_position cs st) \<le> lp_applied (fold call_position cs st)"
proof (induction cs arbitrary: st)
  case (Cons c cs)
  then show ?case using position_call_ordered [of c st] by simp
qed simp

lemma wm_advance_ahead:
  "0 \<le> p \<Longrightarrow> isAheadOf (wm_advance row q wm) row' (Some p) \<longleftrightarrow>
     isAheadOf wm row' (Some p) \<or> (row = row' \<and> (case q of None \<Rightarrow> False | Some n \<Rightarrow> p < n))"
  by (auto simp: isAheadOf_def wm_advance_def split: option.splits if_splits)

lemma wm_fold_ahead:
  "0 \<le> p \<Longrightarrow> isAheadOf (fold (\<lambda>(row, q). wm_advance row q) cs wm) row (Some p) \<longleftrightarrow>
     isAheadOf wm row (Some p) \<or> (\<exists>n. (row, Some n) \<in> set cs \<and> p < n)"
  by (induction cs arbitrary: wm) (auto simp: wm_advance_ahead split: option.splits)

lemma prefix_loop_ge: "through \<le> prefix_loop persisted i ds through"
  by (induction ds arbitrary: i through) (auto split: option.splits intro: order_trans [OF less_imp_le])

lemma prefix_loop_bound:
  assumes "\<forall>d \<in> set ds. \<exists>n. sync_number d = Some n"
    and "sorted_wrt (\<lambda>c d. the (sync_number c) < the (sync_number d)) ds"
    and "k < length ds" and "i + k \<notin> persisted" and "\<forall>d \<in> set ds. through < the (sync_number d)"
  shows "prefix_loop persisted i ds through < the (sync_number (ds ! k))"
  using assms
proof (induction ds arbitrary: i k through)
  case (Cons d ds)
  from Cons.prems(1) obtain n where n: "sync_number d = Some n" by auto
  show ?case
  proof (cases k)
    case 0
    with Cons.prems show ?thesis by simp
  next
    case (Suc m)
    have "prefix_loop persisted (Suc i) ds n < the (sync_number (ds ! m))"
      using Cons.prems n Suc by (intro Cons.IH) auto
    moreover have "ds ! m \<in> set ds" using Cons.prems(3) Suc by simp
    ultimately show ?thesis using Cons.prems n Suc by auto
  qed
qed simp

lemma prefix_loop_reaches:
  assumes "k < length ds" and "\<forall>j \<le> k. i + j \<in> persisted" and "sync_number (ds ! k) = Some n"
  shows "n \<le> prefix_loop persisted i ds through"
  using assms
proof (induction ds arbitrary: i k through)
  case (Cons d ds)
  have i: "i \<in> persisted" using Cons.prems(2) by force
  show ?case
  proof (cases k)
    case 0
    with Cons.prems i show ?thesis
      using prefix_loop_ge [of n persisted "Suc i" ds] prefix_loop_ge [of through persisted "Suc i" ds] by auto
  next
    case (Suc m)
    have "Suc i + j \<in> persisted" if "j \<le> m" for j
      using Cons.prems(2) Suc that by (metis Suc_le_mono add_Suc_shift)
    with Cons.IH [of m "Suc i"] Cons.prems i Suc show ?thesis by (auto split: option.splits)
  qed
qed simp

subsection \<open>Properties\<close>

text \<open>
  C39. The three positions of a client do not depend on the order in which, or how often,
  it is told of them: any two sequences of calls with the same calls in them lead to the
  same positions, no position ever moves back, and what is persisted never passes what is
  applied.
\<close>

theorem positions_order_irrelevant:
  assumes "set cs = set ds" and "list_all valid_call cs" and "0 \<le> lp_persisted st \<and> lp_persisted st \<le> lp_applied st"
  shows "fold call_position cs st = fold call_position ds st
    \<and> lp_persisted st \<le> lp_persisted (fold call_position cs st)
    \<and> lp_applied st \<le> lp_applied (fold call_position cs st) \<and> lp_acked st \<le> lp_acked (fold call_position cs st)
    \<and> lp_persisted (fold call_position cs st) \<le> lp_applied (fold call_position cs st)"
  using position_calls.same_calls [OF assms(1)] positions_mono positions_ordered [OF assms(2,3)] by blast

theorem positions_order_irrelevant_witness:
  "fold call_position [AdvancePersisted 4, NoteAck (Some 9), AdvanceApplied 7] ZERO =
     fold call_position [NoteAck (Some 9), AdvanceApplied 7, AdvancePersisted 4, NoteAck (Some 9)] ZERO
   \<and> lp_persisted (fold call_position [AdvancePersisted 4, NoteAck (Some 9), AdvanceApplied 7] ZERO) \<le> 7"
proof -
  let ?cs = "[AdvancePersisted 4, NoteAck (Some 9), AdvanceApplied 7]"
  let ?ds = "[NoteAck (Some 9), AdvanceApplied 7, AdvancePersisted 4, NoteAck (Some 9)]"
  have "set ?cs = set ?ds" and "list_all valid_call ?cs" by (auto simp: valid_call_def)
  moreover have "0 \<le> lp_persisted ZERO \<and> lp_persisted ZERO \<le> lp_applied ZERO" by (simp add: ZERO_def)
  ultimately have "fold call_position ?cs ZERO = fold call_position ?ds ZERO"
    and "lp_persisted (fold call_position ?cs ZERO) \<le> lp_applied (fold call_position ?cs ZERO)"
    by (blast dest: positions_order_irrelevant)+
  moreover have "lp_applied (fold call_position ?cs ZERO) = 7" by (simp add: lp_simps ZERO_def)
  ultimately show ?thesis by simp
qed

text \<open>
  A snapshot is refused for a row exactly when the client has evidence past it: after
  any notifications, in any order, the pooled copy is ahead of a snapshot at a position
  if and only if some notification for that very row named a later one, or it was ahead before.
\<close>

theorem row_ahead_iff_evidence:
  assumes "0 \<le> p"
  shows "isAheadOf (fold (\<lambda>(row, q). wm_advance row q) cs wm) row (Some p) \<longleftrightarrow>
     isAheadOf wm row (Some p) \<or> (\<exists>n. (row, Some n) \<in> set cs \<and> p < n)"
  using assms by (rule wm_fold_ahead)

theorem row_ahead_iff_evidence_witness:
  "isAheadOf (fold (\<lambda>(row, q). wm_advance row q) [(''r1'', Some 12), (''r2'', Some 40), (''r1'', Some 3)]
     (\<lambda>_. None)) ''r1'' (Some 11)
   \<and> \<not> isAheadOf (fold (\<lambda>(row, q). wm_advance row q) [(''r1'', Some 12), (''r2'', Some 40), (''r1'', Some 3)]
     (\<lambda>_. None)) ''r1'' (Some 12)"
  using row_ahead_iff_evidence [of 11 "[(''r1'', Some 12), (''r2'', Some 40), (''r1'', Some 3)]" "\<lambda>_. None" "''r1''"]
    row_ahead_iff_evidence [of 12 "[(''r1'', Some 12), (''r2'', Some 40), (''r1'', Some 3)]" "\<lambda>_. None" "''r1''"]
  by (auto simp: isAheadOf_def)

lemma prefix_no_gap:
  assumes "\<forall>d \<in> set deltas. \<exists>n. sync_number d = Some n \<and> 0 < n"
    and "sorted_wrt (\<lambda>c d. the (sync_number c) < the (sync_number d)) deltas" and "k < length deltas"
  shows "the (sync_number (deltas ! k)) \<le> highestPersistedPrefixSyncId deltas persistedIndexes
    \<longleftrightarrow> (\<forall>j \<le> k. j \<in> persistedIndexes)"
proof
  assume le: "the (sync_number (deltas ! k)) \<le> highestPersistedPrefixSyncId deltas persistedIndexes"
  show "\<forall>j \<le> k. j \<in> persistedIndexes"
  proof (intro allI impI, rule ccontr)
    fix j assume "j \<le> k" and "j \<notin> persistedIndexes"
    then have "highestPersistedPrefixSyncId deltas persistedIndexes < the (sync_number (deltas ! j))"
      unfolding highestPersistedPrefixSyncId_def
      using assms by (intro prefix_loop_bound) auto
    moreover have "the (sync_number (deltas ! j)) \<le> the (sync_number (deltas ! k))"
      using sorted_wrt_nth_less [OF assms(2), of j k] \<open>j \<le> k\<close> assms(3) by (cases "j = k") auto
    ultimately show False using le by simp
  qed
next
  assume "\<forall>j \<le> k. j \<in> persistedIndexes"
  then show "the (sync_number (deltas ! k)) \<le> highestPersistedPrefixSyncId deltas persistedIndexes"
    unfolding highestPersistedPrefixSyncId_def
    using assms prefix_loop_reaches [of k deltas 0 persistedIndexes] by (metis add_0 nth_mem option.sel)
qed

text \<open>
  Resuming from the persisted prefix never skips a delta that failed to store: in a
  frame delivered in increasing order of positive positions, every delta at or below the
  returned position was persisted, and every delta of the gap-free prefix is at or below it.
\<close>

theorem persisted_prefix_has_no_gap:
  assumes "\<forall>d \<in> set deltas. \<exists>n. sync_number d = Some n \<and> 0 < n"
    and "sorted_wrt (\<lambda>c d. the (sync_number c) < the (sync_number d)) deltas" and "k < length deltas"
  shows "the (sync_number (deltas ! k)) \<le> highestPersistedPrefixSyncId deltas persistedIndexes
    \<longleftrightarrow> (\<forall>j \<le> k. j \<in> persistedIndexes)"
  using assms by (rule prefix_no_gap)

theorem persisted_prefix_has_no_gap_witness:
  "highestPersistedPrefixSyncId [RawNumber 5, RawString ''12'', RawNumber 13] {0, 2} < 12
   \<and> 5 \<le> highestPersistedPrefixSyncId [RawNumber 5, RawString ''12'', RawNumber 13] {0, 2}"
  using persisted_prefix_has_no_gap [of "[RawNumber 5, RawString ''12'', RawNumber 13]" 1 "{0, 2}"]
    persisted_prefix_has_no_gap [of "[RawNumber 5, RawString ''12'', RawNumber 13]" 0 "{0, 2}"]
  by (auto simp: sync_number_def digit_value_def Let_def)

end
