(* ===== verification/JsonValues.thy ===== *)
theory JsonValues
  imports Prelude "HOL-Library.List_Lexorder" "HOL-Library.Char_ord"
begin

section \<open>JSON values at the write boundary\<close>

text \<open>
  Model of \<open>packages/transaction/src/utils/json.ts\<close>: the snapshot taken of every payload before
  it is persisted or sent, and the key-order-insensitive comparison helpers.

  A JavaScript value is a tree \<open>jsval\<close>. An array is a list in which a sparse hole is \<open>None\<close>,
  and an object is its enumerable own string properties in enumeration order, with a flag
  for a plain prototype and one for an enumerable symbol key. Cyclic values and throwing
  getters have no counterpart in a tree, so the two checks for them are left out. A
  rejected value carries the path to the offending node as a list of steps.
\<close>

datatype jsnum = Finite rat | NegZero | NotFinite

datatype jsval =
    VUndefined
  | VNull
  | VBool bool
  | VNum jsnum
  | VStr string
  | VBigint int
  | VFunction nat
  | VSymbol nat
  | VDate "string option"
  | VArr "jsval option list"
  | VObj bool bool "(string \<times> jsval) list"

datatype path_step = AtIndex nat | AtKey string

datatype json_reason =
    NotFiniteNumber | UndefinedHere | IsBigint | IsFunction | IsSymbol | InvalidDate
  | SparseHole | NotPlainObject | SymbolKeys

datatype json_error = WritePayloadInvalid "path_step list" json_reason

subsection \<open>Snapshots\<close>

fun snapshotJsonNode :: "path_step list \<Rightarrow> jsval \<Rightarrow> json_error + jsval"
  and snapshot_items :: "path_step list \<Rightarrow> nat \<Rightarrow> jsval option list \<Rightarrow> json_error + jsval option list"
  and snapshot_props :: "path_step list \<Rightarrow> (string \<times> jsval) list \<Rightarrow> json_error + (string \<times> jsval) list"
where
  "snapshotJsonNode path v = (case v of
      VNull \<Rightarrow> Inr VNull
    | VStr s \<Rightarrow> Inr (VStr s)
    | VBool b \<Rightarrow> Inr (VBool b)
    | VNum n \<Rightarrow> (case n of
          NotFinite \<Rightarrow> Inl (WritePayloadInvalid path NotFiniteNumber)
        | NegZero \<Rightarrow> Inr (VNum (Finite 0))
        | Finite q \<Rightarrow> Inr (VNum (Finite q)))
    | VUndefined \<Rightarrow> Inl (WritePayloadInvalid path UndefinedHere)
    | VBigint _ \<Rightarrow> Inl (WritePayloadInvalid path IsBigint)
    | VFunction _ \<Rightarrow> Inl (WritePayloadInvalid path IsFunction)
    | VSymbol _ \<Rightarrow> Inl (WritePayloadInvalid path IsSymbol)
    | VDate d \<Rightarrow> (case d of None \<Rightarrow> Inl (WritePayloadInvalid path InvalidDate) | Some isoText \<Rightarrow> Inr (VStr isoText))
    | VArr xs \<Rightarrow> bindR (snapshot_items path 0 xs) (\<lambda>ys. Inr (VArr ys))
    | VObj plain symbols ps \<Rightarrow>
        if \<not> plain then Inl (WritePayloadInvalid path NotPlainObject)
        else if symbols then Inl (WritePayloadInvalid path SymbolKeys)
        else bindR (snapshot_props path ps) (\<lambda>qs. Inr (VObj True False qs)))"
| "snapshot_items path i [] = Inr []"
| "snapshot_items path i (None # xs) = Inl (WritePayloadInvalid (path @ [AtIndex i]) SparseHole)"
| "snapshot_items path i (Some x # xs) =
     bindR (snapshotJsonNode (path @ [AtIndex i]) x) (\<lambda>y.
     bindR (snapshot_items path (Suc i) xs) (\<lambda>ys. Inr (Some y # ys)))"
| "snapshot_props path [] = Inr []"
| "snapshot_props path ((k, x) # ps) =
     (if x = VUndefined then snapshot_props path ps
      else bindR (snapshotJsonNode (path @ [AtKey k]) x) (\<lambda>y.
           bindR (snapshot_props path ps) (\<lambda>qs. Inr ((k, y) # qs))))"

declare snapshotJsonNode.simps [simp del]

definition snapshotJsonValue :: "jsval \<Rightarrow> json_error + jsval" where
  "snapshotJsonValue v = snapshotJsonNode [] v"

subsection \<open>Comparison and canonical form\<close>

text \<open>\<open>a === b\<close> on values without identity; for arrays and objects only identity could make it true.\<close>

definition strict_equal :: "jsval \<Rightarrow> jsval \<Rightarrow> bool" where
  "strict_equal a b = (case (a, b) of
      (VUndefined, VUndefined) \<Rightarrow> True
    | (VNull, VNull) \<Rightarrow> True
    | (VBool x, VBool y) \<Rightarrow> x = y
    | (VNum x, VNum y) \<Rightarrow> x \<noteq> NotFinite \<and>
        (case x of NegZero \<Rightarrow> Finite 0 | _ \<Rightarrow> x) = (case y of NegZero \<Rightarrow> Finite 0 | _ \<Rightarrow> y)
    | (VStr x, VStr y) \<Rightarrow> x = y
    | (VBigint x, VBigint y) \<Rightarrow> x = y
    | (VFunction x, VFunction y) \<Rightarrow> x = y
    | (VSymbol x, VSymbol y) \<Rightarrow> x = y
    | _ \<Rightarrow> False)"

fun deepEqual :: "jsval \<Rightarrow> jsval \<Rightarrow> bool"
  and deep_items :: "jsval option list \<Rightarrow> jsval option list \<Rightarrow> bool"
  and deep_props :: "(string \<times> jsval) list \<Rightarrow> (string \<times> jsval) list \<Rightarrow> bool"
where
  "deepEqual a b = (strict_equal a b \<or> (case a of
      VArr xs \<Rightarrow> (case b of VArr ys \<Rightarrow> length xs = length ys \<and> deep_items xs ys | _ \<Rightarrow> False)
    | VObj _ _ ps \<Rightarrow> (case b of
          VObj _ _ qs \<Rightarrow> length ps = length qs \<and> deep_props ps qs
        | VDate _ \<Rightarrow> ps = []
        | _ \<Rightarrow> False)
    | VDate _ \<Rightarrow> (case b of VObj _ _ qs \<Rightarrow> qs = [] | VDate _ \<Rightarrow> True | _ \<Rightarrow> False)
    | _ \<Rightarrow> False))"
| "deep_items (Some x # xs) (y # ys) =
     (deepEqual x (case y of None \<Rightarrow> VUndefined | Some y \<Rightarrow> y) \<and> deep_items xs ys)"
| "deep_items (None # xs) (y # ys) =
     (strict_equal VUndefined (case y of None \<Rightarrow> VUndefined | Some y \<Rightarrow> y) \<and> deep_items xs ys)"
| "deep_items _ _ = True"
| "deep_props [] qs = True"
| "deep_props ((k, x) # ps) qs =
     ((case map_of qs k of None \<Rightarrow> False | Some y \<Rightarrow> deepEqual x y) \<and> deep_props ps qs)"

declare deepEqual.simps [simp del]

text \<open>
  \<open>sortKeysDeep\<close> inserts the keys in sorted order. \<open>stableStringify\<close> prints its result, and two
  results print alike exactly when they are equal.
\<close>

primrec sortKeysDeep :: "jsval \<Rightarrow> jsval" where
  "sortKeysDeep VUndefined = VUndefined"
| "sortKeysDeep VNull = VNull"
| "sortKeysDeep (VBool b) = VBool b"
| "sortKeysDeep (VNum n) = VNum n"
| "sortKeysDeep (VStr s) = VStr s"
| "sortKeysDeep (VBigint n) = VBigint n"
| "sortKeysDeep (VFunction n) = VFunction n"
| "sortKeysDeep (VSymbol n) = VSymbol n"
| "sortKeysDeep (VDate d) = VObj True False []"
| "sortKeysDeep (VArr xs) = VArr (map (map_option sortKeysDeep) xs)"
| "sortKeysDeep (VObj plain symbols ps) = VObj True False (sort_key fst (map (map_prod id sortKeysDeep) ps))"

subsection \<open>Plain values\<close>

text \<open>What a snapshot consists of: no undefined, no holes, plain objects with unique keys.\<close>

primrec json_plain :: "jsval \<Rightarrow> bool" where
  "json_plain VUndefined = False"
| "json_plain VNull = True"
| "json_plain (VBool b) = True"
| "json_plain (VNum n) = (\<exists>q. n = Finite q)"
| "json_plain (VStr s) = True"
| "json_plain (VBigint n) = False"
| "json_plain (VFunction n) = False"
| "json_plain (VSymbol n) = False"
| "json_plain (VDate d) = False"
| "json_plain (VArr xs) = list_all (\<lambda>x. x = Some True) (map (map_option json_plain) xs)"
| "json_plain (VObj plain symbols ps) = (plain \<and> \<not> symbols \<and> list_all snd (map (map_prod id json_plain) ps))"

primrec keys_distinct :: "jsval \<Rightarrow> bool" where
  "keys_distinct VUndefined = True"
| "keys_distinct VNull = True"
| "keys_distinct (VBool b) = True"
| "keys_distinct (VNum n) = True"
| "keys_distinct (VStr s) = True"
| "keys_distinct (VBigint n) = True"
| "keys_distinct (VFunction n) = True"
| "keys_distinct (VSymbol n) = True"
| "keys_distinct (VDate d) = True"
| "keys_distinct (VArr xs) = list_all (\<lambda>x. x \<noteq> Some False) (map (map_option keys_distinct) xs)"
| "keys_distinct (VObj plain symbols ps) =
     (distinct (map fst ps) \<and> list_all snd (map (map_prod id keys_distinct) ps))"

lemma snapshot_node [simp]:
  "snapshotJsonNode path VNull = Inr VNull"
  "snapshotJsonNode path (VStr s) = Inr (VStr s)"
  "snapshotJsonNode path (VBool b) = Inr (VBool b)"
  "snapshotJsonNode path (VNum (Finite q)) = Inr (VNum (Finite q))"
  "snapshotJsonNode path (VNum NegZero) = Inr (VNum (Finite 0))"
  "snapshotJsonNode path (VNum NotFinite) = Inl (WritePayloadInvalid path NotFiniteNumber)"
  "snapshotJsonNode path VUndefined = Inl (WritePayloadInvalid path UndefinedHere)"
  "snapshotJsonNode path (VBigint n) = Inl (WritePayloadInvalid path IsBigint)"
  "snapshotJsonNode path (VFunction k) = Inl (WritePayloadInvalid path IsFunction)"
  "snapshotJsonNode path (VSymbol k) = Inl (WritePayloadInvalid path IsSymbol)"
  "snapshotJsonNode path (VDate None) = Inl (WritePayloadInvalid path InvalidDate)"
  "snapshotJsonNode path (VDate (Some t)) = Inr (VStr t)"
  "snapshotJsonNode path (VArr xs) = bindR (snapshot_items path 0 xs) (\<lambda>ys. Inr (VArr ys))"
  "snapshotJsonNode path (VObj True False ps) = bindR (snapshot_props path ps) (\<lambda>qs. Inr (VObj True False qs))"
  "\<not> plain \<Longrightarrow> snapshotJsonNode path (VObj plain symbols ps) = Inl (WritePayloadInvalid path NotPlainObject)"
  "plain \<Longrightarrow> symbols \<Longrightarrow> snapshotJsonNode path (VObj plain symbols ps) = Inl (WritePayloadInvalid path SymbolKeys)"
  by (simp_all add: snapshotJsonNode.simps)

lemma snapshot_plain:
  "snapshotJsonNode path v = Inr w \<Longrightarrow> json_plain w \<and> (\<forall>q. snapshotJsonNode q w = Inr w) \<and> w \<noteq> VUndefined"
  "snapshot_items path i xs = Inr ys \<Longrightarrow> json_plain (VArr ys) \<and> (\<forall>q j. snapshot_items q j ys = Inr ys)"
  "snapshot_props path ps = Inr qs \<Longrightarrow> json_plain (VObj True False qs) \<and> (\<forall>q. snapshot_props q qs = Inr qs)"
proof (induction path v and path i xs and path ps arbitrary: w and ys and qs
    rule: snapshotJsonNode_snapshot_items_snapshot_props.induct)
  case (1 path v)
  show ?case
  proof (cases v)
    case (VArr xs)
    with 1 obtain ys where "snapshot_items path 0 xs = Inr ys" "w = VArr ys"
      by (auto simp: result_simps)
    with 1(1) VArr show ?thesis by simp
  next
    case (VObj plain symbols ps)
    with 1(3) have flags: "plain" "\<not> symbols" by (cases plain; cases symbols; simp)+
    with 1(3) VObj obtain qs where "snapshot_props path ps = Inr qs" "w = VObj True False qs"
      by (auto simp: result_simps)
    with 1(2) VObj flags show ?thesis by simp
  next
    case (VNum n)
    with 1(3) show ?thesis by (cases n) auto
  next
    case (VDate d)
    with 1(3) show ?thesis by (cases d) auto
  qed (use 1(3) in auto)
next
  case (4 path i x xs)
  then obtain y zs where "snapshotJsonNode (path @ [AtIndex i]) x = Inr y" "snapshot_items path (Suc i) xs = Inr zs"
    "ys = Some y # zs"
    by (auto simp: result_simps)
  with 4(1) [of y] 4(2) [of y zs] show ?case by simp
next
  case (6 path k x ps)
  show ?case
  proof (cases "x = VUndefined")
    case True
    with 6 show ?thesis by simp
  next
    case False
    with 6(4) obtain y zs where "snapshotJsonNode (path @ [AtKey k]) x = Inr y" "snapshot_props path ps = Inr zs"
      "qs = (k, y) # zs"
      by (auto simp: result_simps)
    with False 6(2) [of y] 6(3) [of y zs] show ?thesis by simp
  qed
qed simp_all

subsection \<open>The canonical form decides equality\<close>

lemma deep_items_plain:
  "length xs = length ys \<Longrightarrow> list_all (\<lambda>x. x \<noteq> None) xs \<Longrightarrow> list_all (\<lambda>x. x \<noteq> None) ys \<Longrightarrow>
     deep_items xs ys \<longleftrightarrow> list_all2 (\<lambda>x y. deepEqual (the x) (the y)) xs ys"
  by (induction xs ys rule: list_induct2) auto

lemma deep_props_iff:
  "deep_props ps qs \<longleftrightarrow> (\<forall>(k, x) \<in> set ps. \<exists>y. map_of qs k = Some y \<and> deepEqual x y)"
  by (induction ps) (auto split: option.splits)

lemma sort_key_eq_iff:
  assumes "distinct (map fst ps)" and "distinct (map fst qs)"
  shows "sort_key fst ps = sort_key fst qs \<longleftrightarrow> set ps = set qs"
proof
  assume "sort_key fst ps = sort_key fst qs"
  then show "set ps = set qs" by (metis set_sort)
next
  assume "set ps = set qs"
  moreover from assms have "distinct (map fst (sort_key fst ps))" "distinct (map fst (sort_key fst qs))"
    by (simp_all add: distinct_map)
  moreover from this have "inj_on fst (set (sort_key fst ps))" by (simp add: distinct_map)
  ultimately show "sort_key fst ps = sort_key fst qs"
    by (intro map_sorted_distinct_set_unique [of fst]) simp_all
qed

lemma props_canonical:
  assumes dp: "distinct (map fst ps)" and dq: "distinct (map fst qs)"
    and IH: "\<And>k x l y. (k, x) \<in> set ps \<Longrightarrow> (l, y) \<in> set qs \<Longrightarrow> deepEqual x y \<longleftrightarrow> f x = f y"
  shows "length ps = length qs \<and> deep_props ps qs \<longleftrightarrow>
    sort_key fst (map (map_prod id f) ps) = sort_key fst (map (map_prod id f) qs)"
proof -
  let ?P = "map (map_prod id f) ps" and ?Q = "map (map_prod id f) qs"
  have fst_eq: "map fst ?P = map fst ps" "map fst ?Q = map fst qs" by simp_all
  have d: "distinct ?P" "distinct ?Q" using dp dq fst_eq by (metis distinct_map)+
  have props: "deep_props ps qs \<longleftrightarrow> (\<forall>(k, x) \<in> set ps. \<exists>y. (k, y) \<in> set qs \<and> f x = f y)"
    unfolding deep_props_iff using dq IH by (fastforce simp: map_of_eq_Some_iff)
  also have "\<dots> \<longleftrightarrow> set ?P \<subseteq> set ?Q"
    by (force simp: subset_iff)
  finally have "length ps = length qs \<and> deep_props ps qs \<longleftrightarrow> length ?P = length ?Q \<and> set ?P \<subseteq> set ?Q"
    by simp
  also have "\<dots> \<longleftrightarrow> set ?P = set ?Q"
    using d by (metis List.finite_set card_subset_eq distinct_card order_refl)
  also have "\<dots> \<longleftrightarrow> sort_key fst ?P = sort_key fst ?Q"
    using dp dq fst_eq by (intro sort_key_eq_iff [symmetric]) metis+
  finally show ?thesis .
qed

lemma deepEqual_canonical:
  "json_plain a \<Longrightarrow> keys_distinct a \<Longrightarrow> json_plain b \<Longrightarrow> keys_distinct b \<Longrightarrow>
     deepEqual a b \<longleftrightarrow> sortKeysDeep a = sortKeysDeep b"
proof (induction a arbitrary: b)
  case (VArr xs)
  show ?case
  proof (cases b)
    case b: (VArr ys)
    have some: "list_all (\<lambda>x. x \<noteq> None) xs" "list_all (\<lambda>x. x \<noteq> None) ys"
      using VArr.prems b by (auto simp: list_all_iff)
    have IH: "deepEqual (the x) (the y) \<longleftrightarrow> map_option sortKeysDeep x = map_option sortKeysDeep y"
      if x: "x \<in> set xs" and y: "y \<in> set ys" for x y
    proof -
      obtain x' where x': "x = Some x'" "json_plain x'" "keys_distinct x'"
        using VArr.prems(1,2) x by (cases x) (force simp: list_all_iff)+
      obtain y' where y': "y = Some y'" "json_plain y'" "keys_distinct y'"
        using VArr.prems(3,4) y b by (cases y) (force simp: list_all_iff)+
      show ?thesis using VArr.IH [OF x, of x' y'] x' y' by simp
    qed
    have "deepEqual (VArr xs) b \<longleftrightarrow> length xs = length ys \<and> list_all2 (\<lambda>x y. deepEqual (the x) (the y)) xs ys"
      using deep_items_plain [OF _ some] b by (auto simp: deepEqual.simps strict_equal_def)
    also have "\<dots> \<longleftrightarrow> list_all2 (\<lambda>x y. map_option sortKeysDeep x = map_option sortKeysDeep y) xs ys"
      using IH by (auto simp: list_all2_conv_all_nth)
    also have "\<dots> \<longleftrightarrow> map (map_option sortKeysDeep) xs = map (map_option sortKeysDeep) ys"
      by (auto simp: list_all2_conv_all_nth list_eq_iff_nth_eq)
    finally show ?thesis using b by simp
  qed (auto simp: deepEqual.simps strict_equal_def)
next
  case (VObj pl sy ps)
  show ?case
  proof (cases b)
    case b: (VObj pl' sy' qs)
    have "length ps = length qs \<and> deep_props ps qs \<longleftrightarrow>
        sort_key fst (map (map_prod id sortKeysDeep) ps) = sort_key fst (map (map_prod id sortKeysDeep) qs)"
    proof (rule props_canonical)
      fix k x l y assume "(k, x) \<in> set ps" "(l, y) \<in> set qs"
      then show "deepEqual x y \<longleftrightarrow> sortKeysDeep x = sortKeysDeep y"
        using VObj.IH [of "(k, x)" x y] VObj.prems b by (force simp: list_all_iff)
    qed (use VObj.prems b in simp_all)
    with b show ?thesis by (auto simp: deepEqual.simps strict_equal_def)
  next
    case (VDate d)
    with VObj.prems show ?thesis by simp
  qed (auto simp: deepEqual.simps strict_equal_def)
next
  case (VNum n)
  then show ?case by (cases b) (auto simp: deepEqual.simps strict_equal_def)
next
  case VNull
  then show ?case by (cases b) (auto simp: deepEqual.simps strict_equal_def)
next
  case (VBool x)
  then show ?case by (cases b) (auto simp: deepEqual.simps strict_equal_def)
next
  case (VStr x)
  then show ?case by (cases b) (auto simp: deepEqual.simps strict_equal_def)
qed simp_all

subsection \<open>Properties\<close>

text \<open>
  What crosses the write boundary is plain JSON, and crossing it again changes nothing:
  a snapshot that is taken contains no undefined value, hole, date, function, symbol or
  non-finite number at any depth, and its own snapshot is itself.
\<close>

theorem snapshot_is_plain_and_stable:
  assumes "snapshotJsonValue v = Inr w"
  shows "json_plain w \<and> snapshotJsonValue w = Inr w"
  using snapshot_plain(1) assms by (simp add: snapshotJsonValue_def)

definition payload_example :: jsval where
  "payload_example = VObj True False [(''at'', VDate (Some ''2026-01-01T00:00:00.000Z'')), (''gone'', VUndefined),
     (''xs'', VArr [Some (VNum NegZero), Some (VStr ''a'')])]"

theorem snapshot_is_plain_and_stable_witness:
  "json_plain (VObj True False [(''at'', VStr ''2026-01-01T00:00:00.000Z''),
     (''xs'', VArr [Some (VNum (Finite 0)), Some (VStr ''a'')])])"
proof -
  have "snapshotJsonValue payload_example = Inr (VObj True False [(''at'', VStr ''2026-01-01T00:00:00.000Z''),
     (''xs'', VArr [Some (VNum (Finite 0)), Some (VStr ''a'')])])"
    by (simp add: snapshotJsonValue_def payload_example_def)
  from snapshot_is_plain_and_stable [OF this] show ?thesis by blast
qed



end
