(* ===== verification/CommitPayload.thy ===== *)
theory CommitPayload
  imports JsonValues
begin

section \<open>Queued mutations and their wire operations\<close>

text \<open>
  Model of \<open>packages/humans/src/local/transactions/mutations/commitPayload.ts\<close>, \<open>modelBatch.ts\<close>
  and the schema of an envelope member in
  \<open>packages/transaction/src/commit/confirmation/commitEnvelope.ts\<close>: the record that a local
  write is queued as, the projection onto the wire, and the merging of updates to one row.

  A property that JavaScript may leave undefined is an \<open>option\<close>; where the code tells
  \<open>undefined\<close> from \<open>null\<close>, it is an \<open>option option\<close> with \<open>Some None\<close> for \<open>null\<close>. Objects used as
  dictionaries are association lists in enumeration order.
\<close>

subsection \<open>Data\<close>

datatype mutation_type = Create | Update | Delete | Archive | Unarchive

datatype mutation_status = Pending | Executing | AwaitingDelta | Completed | Failed | RolledBack

datatype priority = Normal | High

datatype claim_ref = ClaimRefId string | ClaimRefObject string

type_synonym MutationInput = "(string \<times> jsval) list"

record WriteOptions =
  wo_readAt :: "int option option"
  wo_reads :: "jsval list option option"
  wo_idempotencyKey :: "string option"
  wo_label :: "string option"
  wo_fenceToken :: "int option option"
  wo_claimRef :: "claim_ref option"

record CommitEnvelopeMember =
  env_idempotencyKey :: string
  env_operationIndex :: nat
  env_operationCount :: nat
  env_sealedAt :: "int option"
  env_sequence :: "nat option"

record QueuedMutation =
  qm_id :: string
  qm_type :: mutation_type
  qm_modelName :: string
  qm_modelId :: string
  qm_modelKey :: string
  qm_data :: "MutationInput option"
  qm_fieldIntent :: bool
  qm_status :: mutation_status
  qm_createdAt :: int
  qm_attempts :: nat
  qm_firstTransientFailureAt :: "int option"
  qm_priority :: priority
  qm_priorityScore :: "int option"
  qm_writeOptions :: "WriteOptions option"
  qm_commitEnvelope :: "CommitEnvelopeMember option"
  qm_durableKey :: "string option"
  qm_sourceMutationIds :: "string list"
  qm_localOnly :: bool
  qm_syncIdNeeded :: "int option"
  qm_correlationId :: "string option"
  qm_requiresCorrelatedDelta :: bool

definition commitEnvelopeMember_ok :: "CommitEnvelopeMember \<Rightarrow> bool" where
  "commitEnvelopeMember_ok e \<longleftrightarrow> 1 \<le> length (env_idempotencyKey e) \<and> length (env_idempotencyKey e) \<le> 255
     \<and> 0 < env_operationCount e \<and> env_operationIndex e < env_operationCount e"

subsection \<open>Names and priorities\<close>

text \<open>\<open>modelName.replace('Model', '')\<close> removes the first occurrence only.\<close>

fun drop_first :: "string \<Rightarrow> string \<Rightarrow> string" where
  "drop_first pat [] = []"
| "drop_first pat (c # cs) =
     (if take (length pat) (c # cs) = pat then drop (length pat) (c # cs) else c # drop_first pat cs)"

definition normalizeModelKey :: "string \<Rightarrow> string" where
  "normalizeModelKey modelName = toLowerCase (drop_first ''Model'' modelName)"

definition stripModelSuffix :: "string \<Rightarrow> string" where
  "stripModelSuffix modelName = drop_first ''Model'' modelName"

record priority_config =
  modelCreatePriority :: "(string \<times> int) list"
  defaultCreatePriority :: int
  defaultNonCreatePriority :: int

definition computePriorityScore :: "priority_config \<Rightarrow> mutation_type \<Rightarrow> string \<Rightarrow> int" where
  "computePriorityScore cfg ty modelName =
     (if ty \<noteq> Create then defaultNonCreatePriority cfg
      else (case map_of (modelCreatePriority cfg) modelName of
          None \<Rightarrow> defaultCreatePriority cfg
        | Some n \<Rightarrow> n))"

definition ensureDerivedFields :: "priority_config \<Rightarrow> QueuedMutation \<Rightarrow> QueuedMutation" where
  "ensureDerivedFields cfg tx =
     (let tx1 = (if qm_modelKey tx = [] then tx\<lparr>qm_modelKey := normalizeModelKey (qm_modelName tx)\<rparr> else tx)
      in case qm_priorityScore tx1 of
           None \<Rightarrow> tx1\<lparr>qm_priorityScore := Some (computePriorityScore cfg (qm_type tx1) (qm_modelName tx1))\<rparr>
         | Some _ \<Rightarrow> tx1)"

datatype MutationOperationType = CREATE | UPDATE | DELETE | ARCHIVE | UNARCHIVE

primrec TX_TYPE_TO_MUTATION_OP :: "mutation_type \<Rightarrow> MutationOperationType" where
  "TX_TYPE_TO_MUTATION_OP Create = CREATE"
| "TX_TYPE_TO_MUTATION_OP Update = UPDATE"
| "TX_TYPE_TO_MUTATION_OP Delete = DELETE"
| "TX_TYPE_TO_MUTATION_OP Archive = ARCHIVE"
| "TX_TYPE_TO_MUTATION_OP Unarchive = UNARCHIVE"

subsection \<open>Barriers\<close>

definition hasStaleWriteOptions :: "WriteOptions option \<Rightarrow> bool" where
  "hasStaleWriteOptions options = (case options of None \<Rightarrow> False | Some wo \<Rightarrow> wo_readAt wo \<noteq> None)"

definition hasCommitCoalescingBarrier :: "WriteOptions option \<Rightarrow> bool" where
  "hasCommitCoalescingBarrier options = (hasStaleWriteOptions options \<or> (case options of
      None \<Rightarrow> False
    | Some wo \<Rightarrow> wo_claimRef wo \<noteq> None \<or> (case wo_fenceToken wo of Some (Some _) \<Rightarrow> True | _ \<Rightarrow> False)
        \<or> wo_idempotencyKey wo \<noteq> None \<or> wo_label wo \<noteq> None))"

definition is_versioned_value :: "jsval \<Rightarrow> bool" where
  "is_versioned_value v = (case v of
      VObj _ _ ps \<Rightarrow> ''$text'' \<in> fst ` set ps \<or> ''$increment'' \<in> fst ` set ps
    | _ \<Rightarrow> False)"

definition hasVersionedFieldInput :: "QueuedMutation \<Rightarrow> bool" where
  "hasVersionedFieldInput tx = (\<exists>p \<in> set (case qm_data tx of None \<Rightarrow> [] | Some d \<Rightarrow> d). is_versioned_value (snd p))"

subsection \<open>Projection onto the wire\<close>

definition FRAMEWORK_KEYS :: "string list" where
  "FRAMEWORK_KEYS = [''__class'', ''__typename'', ''clientId'', ''syncStatus'']"

text \<open>\<open>declared\<close> are the declared field names of the model, \<open>None\<close> when it is not registered.\<close>

definition projectCommitPayload :: "string list option \<Rightarrow> MutationInput \<Rightarrow> bool \<Rightarrow> json_error + jsval" where
  "projectCommitPayload declared source dropUndefined = (case declared of
      None \<Rightarrow> snapshotJsonValue (VObj True False
        (filter (\<lambda>(k, v). k \<notin> set FRAMEWORK_KEYS \<and> \<not> (dropUndefined \<and> v = VUndefined)) source))
    | Some keys \<Rightarrow> snapshotJsonValue (VObj True False
        (concat (map (\<lambda>k. case map_of source k of
            None \<Rightarrow> []
          | Some v \<Rightarrow> if dropUndefined \<and> v = VUndefined then [] else [(k, v)]) keys))))"

text \<open>The premises of a batch, each dependency once, under its printed form.\<close>

definition collectQueuedReads :: "(jsval \<Rightarrow> string) \<Rightarrow> QueuedMutation list \<Rightarrow> jsval list option option" where
  "collectQueuedReads stringify txs =
     (let declared = concat (map (\<lambda>tx. case qm_writeOptions tx of
              None \<Rightarrow> []
            | Some wo \<Rightarrow> (case wo_reads wo of None \<Rightarrow> [] | Some reads \<Rightarrow> [reads])) txs);
          dependencies = concat (map (\<lambda>reads. case reads of None \<Rightarrow> [] | Some ds \<Rightarrow> ds) declared);
          unique = foldl (\<lambda>m d. AList.update (stringify d) d m) [] dependencies
      in if declared = [] then None
         else Some (if unique = [] then None else Some (map snd unique)))"

record wire_operation =
  op_type :: MutationOperationType
  op_model :: string
  op_id :: string
  op_input :: "MutationInput option"
  op_transactionId :: string
  op_readAt :: "int option option"
  op_fenceToken :: "int option option"
  op_claimId :: "string option"
  op_options :: "(string option \<times> string option) option"

definition applyWriteOptions :: "wire_operation \<Rightarrow> QueuedMutation \<Rightarrow> wire_operation" where
  "applyWriteOptions op tx = (case qm_writeOptions tx of
      None \<Rightarrow> op
    | Some wo \<Rightarrow>
        let op1 = (case wo_readAt wo of None \<Rightarrow> op | Some r \<Rightarrow> op\<lparr>op_readAt := Some r\<rparr>);
            op2 = (case wo_fenceToken wo of None \<Rightarrow> op1 | Some t \<Rightarrow> op1\<lparr>op_fenceToken := Some t\<rparr>);
            op3 = (case wo_claimRef wo of
                None \<Rightarrow> op2
              | Some (ClaimRefId i) \<Rightarrow> op2\<lparr>op_claimId := Some i\<rparr>
              | Some (ClaimRefObject i) \<Rightarrow> op2\<lparr>op_claimId := Some i\<rparr>)
        in if wo_idempotencyKey wo \<noteq> None \<or> wo_label wo \<noteq> None
           then op3\<lparr>op_options := Some (wo_idempotencyKey wo, wo_label wo)\<rparr> else op3)"

text \<open>The operation that \<open>processBatch\<close> builds for a member.\<close>

definition wire_operation_of :: "QueuedMutation \<Rightarrow> wire_operation" where
  "wire_operation_of tx = applyWriteOptions
     \<lparr>op_type = TX_TYPE_TO_MUTATION_OP (qm_type tx), op_model = qm_modelKey tx, op_id = qm_modelId tx,
      op_input = (if qm_type tx = Create \<or> qm_type tx = Update
        then Some (case qm_data tx of None \<Rightarrow> [] | Some d \<Rightarrow> d) else None),
      op_transactionId = qm_id tx, op_readAt = None, op_fenceToken = None, op_claimId = None, op_options = None\<rparr> tx"

subsection \<open>Merging updates of one row\<close>

definition mergeable :: "QueuedMutation \<Rightarrow> bool" where
  "mergeable tx \<longleftrightarrow> qm_type tx = Update \<and> \<not> qm_fieldIntent tx \<and> \<not> hasVersionedFieldInput tx
     \<and> \<not> hasCommitCoalescingBarrier (qm_writeOptions tx)"

text \<open>\<open>{ ...a, ...b }\<close>\<close>

definition spread :: "MutationInput \<Rightarrow> MutationInput \<Rightarrow> MutationInput" where
  "spread a b = foldl (\<lambda>m (k, v). AList.update k v m) a b"

definition input_of :: "MutationInput option \<Rightarrow> MutationInput" where
  "input_of i = (case i of None \<Rightarrow> [] | Some m \<Rightarrow> m)"

text \<open>One turn of the loop; the map from a row to the index of its open operation is \<open>pending\<close>.\<close>

definition merge_step :: "QueuedMutation \<times> wire_operation
    \<Rightarrow> wire_operation list \<times> ((string \<times> string) \<Rightarrow> nat option)
    \<Rightarrow> wire_operation list \<times> ((string \<times> string) \<Rightarrow> nat option)" where
  "merge_step member acc = (case (member, acc) of ((tx, op), (operations, pending)) \<Rightarrow>
     let key = (op_model op, op_id op);
         index = (if mergeable tx then pending key else None)
     in case index of
          Some i \<Rightarrow>
            if i < length operations then
              (operations[i := op\<lparr>op_input := Some (spread (input_of (op_input (operations ! i))) (input_of (op_input op)))\<rparr>],
               pending)
            else (operations @ [op], pending(key \<mapsto> length operations))
        | None \<Rightarrow>
            (operations @ [op], if mergeable tx then pending(key \<mapsto> length operations) else pending(key := None)))"

definition buildModelBatchOperations :: "(QueuedMutation \<times> wire_operation) list \<Rightarrow> wire_operation list" where
  "buildModelBatchOperations members = fst (fold merge_step members ([], \<lambda>_. None))"

subsection \<open>Merging keeps the effect on every row\<close>

definition op_key :: "wire_operation \<Rightarrow> string \<times> string" where
  "op_key op = (op_model op, op_id op)"

text \<open>What a list of operations makes of one row, where \<open>eff\<close> is the effect of one of them.\<close>

definition row_result :: "(wire_operation \<Rightarrow> 'row \<Rightarrow> 'row) \<Rightarrow> string \<times> string \<Rightarrow> wire_operation list \<Rightarrow> 'row \<Rightarrow> 'row" where
  "row_result eff key ops r = fold (\<lambda>op r. if op_key op = key then eff op r else r) ops r"

lemma row_result_simps [simp]:
  "row_result eff key [] r = r"
  "row_result eff key (op # ops) r = row_result eff key ops (if op_key op = key then eff op r else r)"
  "row_result eff key (ops @ ops') r = row_result eff key ops' (row_result eff key ops r)"
  by (simp_all add: row_result_def)

lemma row_result_other: "\<forall>op \<in> set ops. op_key op \<noteq> key \<Longrightarrow> row_result eff key ops r = r"
  by (induction ops) auto

text \<open>The open operation of a row is an update, and nothing of that row comes after it.\<close>

definition open_ok :: "wire_operation list \<times> ((string \<times> string) \<Rightarrow> nat option) \<Rightarrow> bool" where
  "open_ok acc \<longleftrightarrow> (\<forall>key i. snd acc key = Some i \<longrightarrow> i < length (fst acc)
     \<and> op_key (fst acc ! i) = key \<and> op_type (fst acc ! i) = UPDATE
     \<and> (\<forall>j. i < j \<longrightarrow> j < length (fst acc) \<longrightarrow> op_key (fst acc ! j) \<noteq> key))"

text \<open>
  What the merge relies on in the receiver: two updates of a row one after the other do
  what one update with the combined input does. The effect of an operation on its row is \<open>eff\<close>.
\<close>

locale row_effects =
  fixes eff :: "wire_operation \<Rightarrow> 'row \<Rightarrow> 'row"
  assumes merge_law: "op_type p = UPDATE \<Longrightarrow> op_type q = UPDATE \<Longrightarrow>
    distinct (map fst (input_of (op_input q))) \<Longrightarrow>
    eff (q\<lparr>op_input := Some (spread (input_of (op_input p)) (input_of (op_input q)))\<rparr>) r = eff q (eff p r)"
begin

lemma row_result_update:
  assumes "i < length ops" and "op_key op = op_key (ops ! i)" and "\<And>r. eff op' r = eff op (eff (ops ! i) r)"
    and "op_key op' = op_key op" and "\<forall>j. i < j \<longrightarrow> j < length ops \<longrightarrow> op_key (ops ! j) \<noteq> op_key op"
  shows "row_result eff key (ops[i := op']) r = row_result eff key (ops @ [op]) r"
proof -
  have split: "ops = take i ops @ ops ! i # drop (Suc i) ops" using assms(1) by (simp add: id_take_nth_drop)
  have upd: "ops[i := op'] = take i ops @ op' # drop (Suc i) ops" using assms(1) by (simp add: upd_conv_take_nth_drop)
  have "\<forall>o1 \<in> set (drop (Suc i) ops). op_key o1 \<noteq> op_key op"
    using assms(5) by (auto simp: in_set_conv_nth less_diff_conv)
  then have tail: "op_key op = key \<Longrightarrow> row_result eff key (drop (Suc i) ops) r' = r'" for r'
    by (auto intro: row_result_other)
  show ?thesis
    unfolding upd by (subst (2) split) (use assms(2-4) tail in auto)
qed

lemma merge_step_keeps:
  assumes ok: "open_ok (operations, pending)" and op: "mergeable tx \<Longrightarrow> op_type op = UPDATE"
    and d: "distinct (map fst (input_of (op_input op)))"
    and step: "merge_step (tx, op) (operations, pending) = (operations', pending')"
  shows "open_ok (operations', pending') \<and> row_result eff key operations' r = row_result eff key (operations @ [op]) r
    \<and> length operations' \<le> Suc (length operations)"
proof (cases "mergeable tx \<and> pending (op_key op) \<noteq> None")
  case True
  then obtain i where i: "pending (op_key op) = Some i" by auto
  from ok i have at: "i < length operations" "op_key (operations ! i) = op_key op" "op_type (operations ! i) = UPDATE"
    "\<forall>j. i < j \<longrightarrow> j < length operations \<longrightarrow> op_key (operations ! j) \<noteq> op_key op"
    unfolding open_ok_def by (metis fst_conv snd_conv)+
  let ?op = "op\<lparr>op_input := Some (spread (input_of (op_input (operations ! i))) (input_of (op_input op)))\<rparr>"
  have step': "operations' = operations[i := ?op]" "pending' = pending"
    using step True i at(1) by (simp_all add: merge_step_def op_key_def)
  have "op_key ?op = op_key op" by (simp add: op_key_def)
  moreover have "eff ?op r = eff op (eff (operations ! i) r)" for r
    using True op d at(3) by (intro merge_law) auto
  ultimately have "row_result eff key operations' r = row_result eff key (operations @ [op]) r"
    unfolding step' using at by (intro row_result_update) auto
  moreover have "open_ok (operations', pending')"
  proof -
    have same: "op_key (operations' ! j) = op_key (operations ! j)" "op_type (operations' ! j) = op_type (operations ! j)"
      for j
      using step'(1) at(1,2,3) True op \<open>op_key ?op = op_key op\<close> by (cases "j = i"; simp)+
    moreover have "length operations' = length operations" using step'(1) by simp
    ultimately show ?thesis using ok unfolding step'(2) open_ok_def by simp
  qed
  ultimately show ?thesis using step' by simp
next
  case False
  then have step': "operations' = operations @ [op]"
    "pending' = (if mergeable tx then pending(op_key op \<mapsto> length operations) else pending(op_key op := None))"
    using step by (auto simp: merge_step_def op_key_def Let_def split: option.splits if_splits)
  have "open_ok (operations', pending')"
    using ok op unfolding step' open_ok_def
    by (auto simp: nth_append less_Suc_eq split: if_splits)
  with step' show ?thesis by simp
qed

lemma merge_keeps_rows:
  assumes "\<forall>(tx, op) \<in> set members. (mergeable tx \<longrightarrow> op_type op = UPDATE) \<and> distinct (map fst (input_of (op_input op)))"
  shows "row_result eff key (buildModelBatchOperations members) r = row_result eff key (map snd members) r
    \<and> length (buildModelBatchOperations members) \<le> length members"
proof -
  have "open_ok acc \<Longrightarrow> open_ok (fold merge_step members acc)
    \<and> row_result eff key (fst (fold merge_step members acc)) r = row_result eff key (fst acc @ map snd members) r
    \<and> length (fst (fold merge_step members acc)) \<le> length (fst acc) + length members" for acc
    using assms
  proof (induction members arbitrary: acc)
    case (Cons m members)
    obtain tx op ops pending where m: "m = (tx, op)" "acc = (ops, pending)" by (cases m, cases acc)
    obtain ops' pending' where s: "merge_step (tx, op) (ops, pending) = (ops', pending')" by fastforce
    have "open_ok (ops', pending') \<and> row_result eff key ops' r = row_result eff key (ops @ [op]) r
        \<and> length ops' \<le> Suc (length ops)"
      using Cons.prems m by (intro merge_step_keeps [OF _ _ _ s]) auto
    with Cons.IH [of "(ops', pending')"] Cons.prems(2) m s show ?case by auto
  qed simp
  from this [of "([], \<lambda>_. None)"] show ?thesis
    by (simp add: buildModelBatchOperations_def open_ok_def)
qed

end

subsection \<open>A row store as the receiver\<close>

definition row_effect :: "wire_operation \<Rightarrow> (string \<rightharpoonup> jsval) option \<Rightarrow> (string \<rightharpoonup> jsval) option" where
  "row_effect op row = (case op_type op of
      CREATE \<Rightarrow> Some (map_of (input_of (op_input op)))
    | UPDATE \<Rightarrow> map_option (\<lambda>r. r ++ map_of (input_of (op_input op))) row
    | DELETE \<Rightarrow> None
    | _ \<Rightarrow> row)"

lemma map_of_spread: "distinct (map fst b) \<Longrightarrow> map_of (spread a b) = map_of a ++ map_of b"
proof (induction b arbitrary: a)
  case (Cons p b)
  obtain k v where p: "p = (k, v)" by fastforce
  have "map_of (spread a (p # b)) = map_of (AList.update k v a) ++ map_of b"
    using Cons p by (simp add: spread_def)
  also have "\<dots> = (map_of a)(k \<mapsto> v) ++ map_of b" by (simp add: update_conv')
  also have "\<dots> = map_of a ++ map_of (p # b)"
    using Cons.prems p by (simp add: map_add_upd_left dom_map_of_conv_image_fst)
  finally show ?case .
qed (simp add: spread_def)

interpretation row_store: row_effects row_effect
  by unfold_locales (auto simp: row_effect_def input_of_def map_of_spread option.map_comp comp_def)

subsection \<open>Properties\<close>

lemma op_type_apply [simp]: "op_type (applyWriteOptions op tx) = op_type op"
  "op_model (applyWriteOptions op tx) = op_model op" "op_id (applyWriteOptions op tx) = op_id op"
  "op_input (applyWriteOptions op tx) = op_input op" "op_transactionId (applyWriteOptions op tx) = op_transactionId op"
  by (auto simp: applyWriteOptions_def Let_def split: option.splits claim_ref.splits)


definition blank_mutation :: QueuedMutation where
  "blank_mutation = \<lparr>qm_id = ''t1'', qm_type = Update, qm_modelName = ''TaskModel'', qm_modelId = ''r1'', qm_modelKey = ''task'',
     qm_data = None, qm_fieldIntent = False, qm_status = Pending, qm_createdAt = 0, qm_attempts = 0,
     qm_firstTransientFailureAt = None, qm_priority = Normal, qm_priorityScore = None, qm_writeOptions = None,
     qm_commitEnvelope = None, qm_durableKey = None, qm_sourceMutationIds = [], qm_localOnly = False,
     qm_syncIdNeeded = None, qm_correlationId = None, qm_requiresCorrelatedDelta = False\<rparr>"

definition update_example :: "string \<Rightarrow> string \<Rightarrow> jsval \<Rightarrow> QueuedMutation" where
  "update_example i k v = blank_mutation\<lparr>qm_id := i, qm_data := Some [(k, v)]\<rparr>"


end
