(* ===== verification/ExecutionQueue.thy ===== *)
theory ExecutionQueue
  imports CommitPayload "HOL-Library.Sublist"
begin

section \<open>The execution queue\<close>

text \<open>
  Model of \<open>packages/humans/src/local/transactions/mutations/executionQueue.ts\<close>: how a mutation
  enters the queue and which mutations go into the next commit. A batch is either one
  complete retry envelope, in its original order, or a run of fresh mutations.

  \<open>JSON.stringify([modelName, modelId])\<close> identifies a row; it is the pair of the two names.
\<close>

definition row_of :: "QueuedMutation \<Rightarrow> string \<times> string" where
  "row_of tx = (qm_modelName tx, qm_modelId tx)"

text \<open>The result is the new queue and whether, and how urgently, processing is scheduled.\<close>

definition enqueueTransaction :: "priority_config \<Rightarrow> QueuedMutation list \<Rightarrow> QueuedMutation
    \<Rightarrow> QueuedMutation list \<times> bool option" where
  "enqueueTransaction cfg executionQueue tx =
     (if qm_status tx \<noteq> Pending \<or> (\<exists>c \<in> set executionQueue. qm_id c = qm_id tx) then (executionQueue, None)
      else let tx1 = ensureDerivedFields cfg tx in
        (if qm_priority tx1 = High then tx1 # executionQueue else executionQueue @ [tx1],
         Some (qm_priority tx1 = High)))"

subsection \<open>Retry envelopes\<close>

definition envelope_key :: "QueuedMutation \<Rightarrow> string option" where
  "envelope_key tx = map_option env_idempotencyKey (qm_commitEnvelope tx)"

text \<open>One turn of the first loop: both maps keep the position of a key that is set again.\<close>

definition add_retry :: "(string \<times> (string \<times> QueuedMutation) list) list \<Rightarrow> QueuedMutation
    \<Rightarrow> (string \<times> (string \<times> QueuedMutation) list) list" where
  "add_retry groups tx = (case envelope_key tx of
      None \<Rightarrow> groups
    | Some key \<Rightarrow>
        let group = (case map_of groups key of None \<Rightarrow> [] | Some g \<Rightarrow> g)
        in AList.update key (AList.update (qm_id tx) tx group) groups)"

definition retry_groups :: "QueuedMutation list \<Rightarrow> (string \<times> (string \<times> QueuedMutation) list) list" where
  "retry_groups pendingQueue = foldl add_retry [] pendingQueue"

definition group_complete :: "(string \<times> QueuedMutation) list \<Rightarrow> bool" where
  "group_complete byId = (case map snd byId of
      [] \<Rightarrow> False
    | m # ms \<Rightarrow> (case qm_commitEnvelope m of
          None \<Rightarrow> False
        | Some e \<Rightarrow> Suc (length ms) = env_operationCount e))"

definition operation_index :: "QueuedMutation \<Rightarrow> nat" where
  "operation_index tx = (case qm_commitEnvelope tx of None \<Rightarrow> 0 | Some e \<Rightarrow> env_operationIndex e)"

subsection \<open>Fresh mutations\<close>

definition sealed_rows :: "QueuedMutation list \<Rightarrow> QueuedMutation list \<Rightarrow> (string \<times> string) list" where
  "sealed_rows outstanding pendingQueue =
     map row_of (filter (\<lambda>tx. qm_commitEnvelope tx \<noteq> None \<and> (qm_status tx = Pending \<or> qm_status tx = Executing)) outstanding)
     @ map row_of (filter (\<lambda>tx. qm_status tx = Pending \<and> \<not> (\<exists>c \<in> set pendingQueue. qm_id c = qm_id tx)) outstanding)"

definition has_explicit_key :: "QueuedMutation \<Rightarrow> bool" where
  "has_explicit_key tx = (case qm_writeOptions tx of None \<Rightarrow> False | Some wo \<Rightarrow> wo_idempotencyKey wo \<noteq> None)"

definition fresh_candidates :: "QueuedMutation list \<Rightarrow> nat \<Rightarrow> QueuedMutation list" where
  "fresh_candidates fresh maxBatchSize =
     (let before = length (takeWhile (\<lambda>tx. \<not> has_explicit_key tx) fresh) in
      if before = 0 then take 1 fresh else take (min maxBatchSize before) fresh)"

definition merge_barrier :: "QueuedMutation \<Rightarrow> bool" where
  "merge_barrier tx \<longleftrightarrow> hasVersionedFieldInput tx \<or> hasCommitCoalescingBarrier (qm_writeOptions tx)"

fun select_fresh :: "QueuedMutation list \<Rightarrow> QueuedMutation list \<Rightarrow> (string \<times> string) list \<Rightarrow> QueuedMutation list" where
  "select_fresh [] selected blockedRows = selected"
| "select_fresh (c # cs) selected blockedRows =
     (if row_of c \<in> set blockedRows then select_fresh cs selected blockedRows
      else (case find (\<lambda>tx. row_of tx = row_of c) selected of
          Some prior \<Rightarrow>
            if merge_barrier prior \<or> merge_barrier c
            then select_fresh cs selected (row_of c # blockedRows)
            else select_fresh cs (selected @ [c]) blockedRows
        | None \<Rightarrow> select_fresh cs (selected @ [c]) blockedRows))"

definition takeNextExecutionBatch :: "QueuedMutation list \<Rightarrow> nat \<Rightarrow> QueuedMutation list
    \<Rightarrow> QueuedMutation list \<times> QueuedMutation list" where
  "takeNextExecutionBatch executionQueue maxBatchSize outstanding =
     (let pendingQueue = filter (\<lambda>tx. qm_status tx = Pending) executionQueue in
      case find (\<lambda>(key, byId). group_complete byId) (retry_groups pendingQueue) of
        Some (key, byId) \<Rightarrow>
          (sort_key operation_index (map snd byId), filter (\<lambda>tx. envelope_key tx \<noteq> Some key) pendingQueue)
      | None \<Rightarrow>
          let sealedRows = sealed_rows outstanding pendingQueue;
              fresh = filter (\<lambda>tx. qm_commitEnvelope tx = None \<and> row_of tx \<notin> set sealedRows) pendingQueue
          in if fresh = [] then ([], pendingQueue)
             else
               let selected = select_fresh (fresh_candidates fresh maxBatchSize) [] [];
                   selectedIds = map qm_id selected
               in (selected, filter (\<lambda>tx. qm_id tx \<notin> set selectedIds) pendingQueue))"

subsection \<open>Retry groups\<close>

text \<open>With unique identifiers a group is the sublist of its envelope's members.\<close>

definition members_of :: "string \<Rightarrow> QueuedMutation list \<Rightarrow> QueuedMutation list" where
  "members_of key q = filter (\<lambda>tx. envelope_key tx = Some key) q"

lemma retry_groups_snoc: "retry_groups (q @ [tx]) = add_retry (retry_groups q) tx"
  by (simp add: retry_groups_def)

lemma map_of_retry_groups:
  "distinct (map qm_id q) \<Longrightarrow> map_of (retry_groups q) key =
     (if members_of key q = [] then None else Some (map (\<lambda>tx. (qm_id tx, tx)) (members_of key q)))"
proof (induction q arbitrary: key rule: rev_induct)
  case Nil
  then show ?case by (simp add: retry_groups_def members_of_def)
next
  case (snoc tx q)
  show ?case
  proof (cases "envelope_key tx")
    case None
    with snoc show ?thesis by (simp add: retry_groups_snoc add_retry_def members_of_def)
  next
    case (Some k)
    let ?g = "case map_of (retry_groups q) k of None \<Rightarrow> [] | Some g \<Rightarrow> g"
    have g: "?g = map (\<lambda>tx. (qm_id tx, tx)) (members_of k q)" using snoc by auto
    have "qm_id tx \<notin> fst ` set ?g" using snoc.prems unfolding g by (auto simp: members_of_def)
    then have "AList.update (qm_id tx) tx ?g = map (\<lambda>tx. (qm_id tx, tx)) (members_of k (q @ [tx]))"
      unfolding g by (simp add: alist_update_new members_of_def Some)
    with snoc Some show ?thesis
      by (auto simp: retry_groups_snoc add_retry_def Let_def update_conv' members_of_def)
  qed
qed

lemma retry_groups_distinct: "distinct (map fst (retry_groups q))"
proof (induction q rule: rev_induct)
  case (snoc tx q)
  then show ?case by (auto simp: retry_groups_snoc add_retry_def Let_def distinct_update split: option.splits)
qed (simp add: retry_groups_def)

lemma retry_group_members:
  assumes "distinct (map qm_id q)" and "(key, byId) \<in> set (retry_groups q)"
  shows "map snd byId = members_of key q \<and> members_of key q \<noteq> []"
proof -
  have "map_of (retry_groups q) key = Some byId"
    using assms(2) retry_groups_distinct by (simp add: map_of_eq_Some_iff)
  with map_of_retry_groups [OF assms(1), of key] show ?thesis by (auto simp: comp_def split: if_splits)
qed

subsection \<open>Selecting fresh mutations\<close>

text \<open>The loop with the blocked rows as a set, and its two outcomes for a candidate.\<close>

definition skips :: "QueuedMutation \<Rightarrow> QueuedMutation list \<Rightarrow> (string \<times> string) set \<Rightarrow> bool" where
  "skips c selected blocked \<longleftrightarrow> row_of c \<in> blocked
     \<or> (\<exists>prior. find (\<lambda>tx. row_of tx = row_of c) selected = Some prior \<and> (merge_barrier prior \<or> merge_barrier c))"

fun select_rows :: "QueuedMutation list \<Rightarrow> QueuedMutation list \<Rightarrow> (string \<times> string) set \<Rightarrow> QueuedMutation list" where
  "select_rows [] selected blocked = selected"
| "select_rows (c # cs) selected blocked =
     (if skips c selected blocked then select_rows cs selected (insert (row_of c) blocked)
      else select_rows cs (selected @ [c]) blocked)"

lemma select_fresh_rows: "select_fresh cs selected blocked = select_rows cs selected (set blocked)"
  by (induction cs selected blocked rule: select_fresh.induct)
     (auto simp: skips_def insert_absorb split: option.splits)

lemma select_rows_extends:
  "\<exists>ys. select_rows cs selected blocked = selected @ ys \<and> set ys \<subseteq> set cs \<and> length ys \<le> length cs
     \<and> (distinct cs \<longrightarrow> distinct ys) \<and> subseq ys cs"
proof (induction cs selected blocked rule: select_rows.induct)
  case (2 c cs selected blocked)
  show ?case
  proof (cases "skips c selected blocked")
    case True
    with 2(1) show ?thesis by fastforce
  next
    case False
    with 2(2) obtain ys where "select_rows cs (selected @ [c]) blocked = selected @ [c] @ ys"
      "set ys \<subseteq> set cs" "length ys \<le> length cs" "distinct cs \<longrightarrow> distinct ys" "subseq ys cs"
      by (metis append.assoc)
    with False show ?thesis by (intro exI [of _ "c # ys"]) auto
  qed
qed simp

text \<open>Nothing of a blocked row is selected later, so a row never loses its order.\<close>

lemma select_rows_blocked:
  "x \<in> set (select_rows cs selected blocked) \<Longrightarrow> row_of x \<in> blocked \<Longrightarrow> x \<in> set selected"
  by (induction cs selected blocked rule: select_rows.induct) (auto simp: skips_def split: if_splits)

lemma select_rows_fifo:
  assumes "distinct (pre @ x # mid @ y # post)" and "row_of x = row_of y"
    and "y \<in> set (select_rows (pre @ x # mid @ y # post) selected blocked)" and "y \<notin> set selected"
  shows "x \<in> set (select_rows (pre @ x # mid @ y # post) selected blocked)"
  using assms
proof (induction pre arbitrary: selected blocked)
  case Nil
  then show ?case
  proof (cases "skips x selected blocked")
    case True
    with Nil select_rows_blocked [of y "mid @ y # post" selected "insert (row_of x) blocked"] show ?thesis by auto
  next
    case False
    then show ?thesis using select_rows_extends [of "mid @ y # post" "selected @ [x]" blocked] by auto
  qed
next
  case (Cons p pre)
  show ?case
  proof (cases "skips p selected blocked")
    case True
    with Cons show ?thesis by simp
  next
    case False
    have "y \<noteq> p" using Cons.prems(1) by auto
    with Cons False show ?thesis by simp
  qed
qed

text \<open>Two selected mutations of one row are both free of barriers.\<close>

definition rows_mergeable :: "QueuedMutation list \<Rightarrow> bool" where
  "rows_mergeable sel \<longleftrightarrow> (\<forall>i j. i < j \<longrightarrow> j < length sel \<longrightarrow> row_of (sel ! i) = row_of (sel ! j) \<longrightarrow>
     \<not> merge_barrier (sel ! i) \<and> \<not> merge_barrier (sel ! j))"

lemma rows_mergeable_snoc:
  assumes ok: "rows_mergeable sel" and "\<not> skips c sel blocked"
  shows "rows_mergeable (sel @ [c])"
proof -
  have new: "\<not> merge_barrier (sel ! i) \<and> \<not> merge_barrier c" if i: "i < length sel" "row_of (sel ! i) = row_of c" for i
  proof -
    obtain prior where prior: "find (\<lambda>tx. row_of tx = row_of c) sel = Some prior"
      using i find_None_iff [of "\<lambda>tx. row_of tx = row_of c" sel] nth_mem [OF i(1)] by fastforce
    then obtain k where k: "k < length sel" "row_of (sel ! k) = row_of c" "prior = sel ! k" "\<forall>j<k. row_of (sel ! j) \<noteq> row_of c"
      unfolding find_Some_iff by blast
    have free: "\<not> merge_barrier prior" "\<not> merge_barrier c" using assms(2) prior by (auto simp: skips_def)
    have "k \<le> i" using k(4) i(2) by (meson not_le)
    with ok [unfolded rows_mergeable_def, rule_format, of k i] free k i show ?thesis
      by (cases "k = i") simp_all
  qed
  show ?thesis
    unfolding rows_mergeable_def
  proof (intro allI impI)
    fix i j assume *: "i < j" "j < length (sel @ [c])" "row_of ((sel @ [c]) ! i) = row_of ((sel @ [c]) ! j)"
    then consider "j < length sel" | "j = length sel" "i < length sel" by fastforce
    then show "\<not> merge_barrier ((sel @ [c]) ! i) \<and> \<not> merge_barrier ((sel @ [c]) ! j)"
    proof cases
      case 1
      with * ok [unfolded rows_mergeable_def, rule_format, of i j] show ?thesis by (simp add: nth_append)
    next
      case 2
      with * new [of i] show ?thesis by (simp add: nth_append)
    qed
  qed
qed

lemma select_rows_mergeable:
  "rows_mergeable selected \<Longrightarrow> rows_mergeable (select_rows cs selected blocked)"
  by (induction cs selected blocked rule: select_rows.induct) (auto intro: rows_mergeable_snoc)

subsection \<open>The batch that is taken\<close>

abbreviation pending_of :: "QueuedMutation list \<Rightarrow> QueuedMutation list" where
  "pending_of q \<equiv> filter (\<lambda>tx. qm_status tx = Pending) q"

abbreviation fresh_of :: "QueuedMutation list \<Rightarrow> QueuedMutation list \<Rightarrow> QueuedMutation list" where
  "fresh_of q out \<equiv> filter (\<lambda>tx. qm_commitEnvelope tx = None \<and> row_of tx \<notin> set (sealed_rows out (pending_of q))) (pending_of q)"

lemma takeNext_cases:
  assumes "takeNextExecutionBatch q n out = (batch, remaining)" and "distinct (map qm_id q)"
  obtains (retry) key where "members_of key (pending_of q) \<noteq> []"
      "batch = sort_key operation_index (members_of key (pending_of q))"
      "remaining = filter (\<lambda>tx. envelope_key tx \<noteq> Some key) (pending_of q)"
      "\<exists>e. qm_commitEnvelope (hd (members_of key (pending_of q))) = Some e
         \<and> length (members_of key (pending_of q)) = env_operationCount e"
  | (none) "fresh_of q out = []" "batch = []" "remaining = pending_of q"
  | (fresh) "fresh_of q out \<noteq> []" "batch = select_rows (fresh_candidates (fresh_of q out) n) [] {}"
      "remaining = filter (\<lambda>tx. qm_id tx \<notin> qm_id ` set batch) (pending_of q)"
proof (cases "find (\<lambda>(key, byId). group_complete byId) (retry_groups (pending_of q))")
  case None
  with assms(1) none fresh show ?thesis
    by (auto simp: takeNextExecutionBatch_def Let_def select_fresh_rows split: if_splits)
next
  case (Some kg)
  obtain key byId where kg: "kg = (key, byId)" by fastforce
  from Some kg have "(key, byId) \<in> set (retry_groups (pending_of q))" "group_complete byId"
    by (auto simp: find_Some_iff in_set_conv_nth)
  moreover have "distinct (map qm_id (pending_of q))" using assms(2) by (simp add: distinct_map_filter)
  ultimately have "map snd byId = members_of key (pending_of q)" "members_of key (pending_of q) \<noteq> []"
    "group_complete byId"
    using retry_group_members by blast+
  then show ?thesis
    using assms(1) Some kg
    by (intro retry) (auto simp: takeNextExecutionBatch_def group_complete_def split: list.splits option.splits)
qed

lemma fresh_candidates_take: "\<exists>k. fresh_candidates fresh n = take k fresh \<and> k \<le> max 1 n"
  unfolding fresh_candidates_def Let_def by (metis max.cobounded1 max.coboundedI2 min.cobounded1)

lemma fresh_batch:
  assumes "batch = select_rows (fresh_candidates fresh n) [] {}"
  shows "subseq batch fresh \<and> length batch \<le> max 1 n \<and> rows_mergeable batch \<and> (distinct fresh \<longrightarrow> distinct batch)"
proof -
  obtain k where k: "fresh_candidates fresh n = take k fresh" "k \<le> max 1 n" using fresh_candidates_take by blast
  from select_rows_extends [of "take k fresh" "[]" "{}"] obtain ys where ys: "batch = ys" "subseq ys (take k fresh)"
    "distinct (take k fresh) \<longrightarrow> distinct ys" "length ys \<le> length (take k fresh)"
    using assms k(1) by auto
  have "subseq (take k fresh) fresh" by (intro prefix_imp_subseq take_is_prefix)
  with ys have "subseq batch fresh" by (metis subseq_order.order_trans)
  moreover have "rows_mergeable batch" unfolding assms by (rule select_rows_mergeable) (simp add: rows_mergeable_def)
  ultimately show ?thesis using ys k(2) by auto
qed

lemma subseq_set: "subseq xs ys \<Longrightarrow> set xs \<subseteq> set ys"
  by (induction rule: list_emb.induct) auto

lemma take_upto:
  assumes "y \<in> set (take k (as @ y # bs))" and "y \<notin> set as"
  shows "\<exists>cs. take k (as @ y # bs) = as @ y # cs"
proof -
  have "length as < k"
  proof (rule ccontr)
    assume "\<not> length as < k"
    with assms show False by (auto dest: in_set_takeD)
  qed
  then obtain m where "k = Suc (length as + m)" using less_iff_Suc_add by auto
  then show ?thesis by (simp add: take_Cons')
qed

lemma batch_partitions:
  assumes take: "takeNextExecutionBatch q n out = (batch, remaining)" and ids: "distinct (map qm_id q)"
  shows "distinct (batch @ remaining) \<and> set (batch @ remaining) = set (pending_of q)"
  using take ids
proof (cases rule: takeNext_cases)
  case (retry key)
  have "distinct q" using ids by (simp add: distinct_map)
  with retry show ?thesis by (auto simp: members_of_def)
next
  case none
  with ids show ?thesis by (simp add: distinct_map)
next
  case fresh
  have sub: "subseq batch (pending_of q)"
    using fresh_batch [OF fresh(2)] subseq_filter_left subseq_order.order_trans by blast
  have d: "distinct q" "distinct (pending_of q)" "inj_on qm_id (set q)" using ids by (simp_all add: distinct_map)
  have "distinct batch" using fresh_batch [OF fresh(2)] d(1) by simp
  moreover have "qm_id tx \<in> qm_id ` set batch \<longleftrightarrow> tx \<in> set batch" if "tx \<in> set (pending_of q)" for tx
    using that d(3) subseq_set [OF sub] by (auto simp: inj_on_def)
  ultimately show ?thesis using d(1) subseq_set [OF sub] fresh(3) by auto
qed

lemma fresh_row_order:
  assumes q: "q = pre @ x # mid @ y # post" and ids: "distinct (map qm_id q)"
    and take: "takeNextExecutionBatch q n out = (batch, remaining)"
    and row: "row_of x = row_of y" and x: "qm_status x = Pending" and out: "set q \<subseteq> set out"
    and y: "y \<in> set batch" "qm_commitEnvelope y = None"
  shows "x \<in> set batch"
  using take ids
proof (cases rule: takeNext_cases)
  case (retry key)
  with y show ?thesis by (auto simp: members_of_def envelope_key_def)
next
  case none
  with y show ?thesis by simp
next
  case fresh
  let ?F = "fresh_of q out"
  obtain k where k: "fresh_candidates ?F n = take k ?F" using fresh_candidates_take by blast
  have "y \<in> set ?F" using y(1) fresh_batch [OF fresh(2)] subseq_set by blast
  then have yF: "row_of y \<notin> set (sealed_rows out (pending_of q))" "qm_status y = Pending" by auto
  have "qm_commitEnvelope x = None"
  proof (rule ccontr)
    assume "qm_commitEnvelope x \<noteq> None"
    then have "row_of x \<in> set (sealed_rows out (pending_of q))" using q x out by (auto simp: sealed_rows_def)
    with row yF show False by simp
  qed
  define S where "S = set (sealed_rows out (pending_of q))"
  let ?f = "\<lambda>l. filter (\<lambda>tx. qm_commitEnvelope tx = None \<and> row_of tx \<notin> S) (pending_of l)"
  have "?f q = (?f pre @ x # ?f mid) @ y # ?f post"
  proof -
    have "?f (pre @ x # mid @ y # post) = (?f pre @ x # ?f mid) @ y # ?f post"
      using \<open>qm_commitEnvelope x = None\<close> yF row x y(2) S_def by simp
    then show ?thesis using q by blast
  qed
  then have F: "?F = (?f pre @ x # ?f mid) @ y # ?f post" by (simp add: S_def)
  have dF: "distinct ?F" using ids by (simp add: distinct_map)
  have "y \<in> set (take k ?F)"
    using y(1) fresh(2) k select_rows_extends [of "take k ?F" "[]" "{}"] by auto
  moreover have "y \<notin> set (?f pre @ x # ?f mid)" using dF unfolding F by auto
  ultimately obtain post' where cut: "take k ?F = ?f pre @ x # ?f mid @ y # post'"
    using take_upto [of y k "?f pre @ x # ?f mid" "?f post"] unfolding F by auto
  have "distinct (take k ?F)" using dF by simp
  with select_rows_fifo [of "?f pre" x "?f mid" y post' "[]" "{}"] row y(1) fresh(2) k cut show ?thesis by simp
qed

lemma explicit_key_alone:
  assumes take: "takeNextExecutionBatch q n out = (batch, remaining)" and ids: "distinct (map qm_id q)"
    and tx: "tx \<in> set batch" "has_explicit_key tx" "qm_commitEnvelope tx = None"
  shows "batch = [tx]"
  using take ids
proof (cases rule: takeNext_cases)
  case (retry key)
  with tx show ?thesis by (auto simp: members_of_def envelope_key_def)
next
  case none
  with tx show ?thesis by simp
next
  case fresh
  let ?F = "fresh_of q out"
  have inC: "tx \<in> set (fresh_candidates ?F n)"
    using tx(1) fresh(2) select_rows_extends [of "fresh_candidates ?F n" "[]" "{}"] by auto
  let ?b = "length (takeWhile (\<lambda>tx. \<not> has_explicit_key tx) ?F)"
  have "?b = 0"
  proof (rule ccontr)
    assume "?b \<noteq> 0"
    then have "set (fresh_candidates ?F n) \<subseteq> set (takeWhile (\<lambda>tx. \<not> has_explicit_key tx) ?F)"
      using set_take_subset_set_take [of "min n ?b" ?b ?F] takeWhile_eq_take [of "\<lambda>tx. \<not> has_explicit_key tx" ?F]
      by (simp add: fresh_candidates_def Let_def)
    with inC tx(2) show False by (auto dest: set_takeWhileD)
  qed
  then have "fresh_candidates ?F n = take 1 ?F" by (simp add: fresh_candidates_def)
  with inC have "fresh_candidates ?F n = [tx]" by (cases ?F) auto
  with fresh(2) show ?thesis by (simp add: skips_def)
qed

text \<open>The members of an envelope, as sealing numbers them.\<close>

definition envelope_whole :: "QueuedMutation list \<Rightarrow> bool" where
  "envelope_whole ms \<longleftrightarrow> distinct (map operation_index ms) \<and> (\<forall>m \<in> set ms. operation_index m < length ms)"

lemma whole_indexes:
  assumes "envelope_whole ms"
  shows "map operation_index (sort_key operation_index ms) = [0..<length ms]"
proof -
  have "operation_index ` set ms \<subseteq> {0..<length ms}" using assms by (auto simp: envelope_whole_def)
  moreover have "card (operation_index ` set ms) = length ms"
    using assms distinct_card [of "map operation_index ms"] by (simp add: envelope_whole_def)
  ultimately have "set (map operation_index ms) = {0..<length ms}"
    using card_subset_eq [of "{0..<length ms}" "operation_index ` set ms"] by simp
  moreover have "sorted (map operation_index (sort_key operation_index ms))" by simp
  moreover have "distinct (map operation_index (sort_key operation_index ms))"
    using assms by (simp add: envelope_whole_def distinct_map)
  ultimately show ?thesis by (intro sorted_distinct_set_unique) simp_all
qed

subsection \<open>Properties\<close>

text \<open>
  Taking a batch loses nothing and sends nothing twice: the batch and the remaining
  queue are disjoint, without repetitions, and together exactly the pending mutations of
  the queue. Mutations that are not pending never cross the dispatch boundary.
\<close>

theorem batch_and_remaining_partition:
  assumes "takeNextExecutionBatch q n out = (batch, remaining)" and "distinct (map qm_id q)"
  shows "distinct (batch @ remaining) \<and> set (batch @ remaining) = {tx \<in> set q. qm_status tx = Pending}"
  using batch_partitions [OF assms] by auto

definition queue_example :: "QueuedMutation list" where
  "queue_example = [update_example ''t1'' ''title'' VNull,
     (update_example ''t2'' ''title'' VNull)\<lparr>qm_status := Completed\<rparr>,
     (update_example ''t3'' ''n'' (VObj True False [(''$increment'', VNull)])),
     (update_example ''t4'' ''title'' VNull)]"

lemmas queue_eval = queue_example_def update_example_def blank_mutation_def takeNextExecutionBatch_def retry_groups_def
  add_retry_def envelope_key_def sealed_rows_def row_of_def fresh_candidates_def has_explicit_key_def merge_barrier_def
  hasVersionedFieldInput_def is_versioned_value_def hasCommitCoalescingBarrier_def hasStaleWriteOptions_def Let_def

lemma queue_example_taken:
  "takeNextExecutionBatch queue_example 10 queue_example =
     ([update_example ''t1'' ''title'' VNull],
      [update_example ''t3'' ''n'' (VObj True False [(''$increment'', VNull)]), update_example ''t4'' ''title'' VNull])"
  by (simp add: queue_eval)

lemma queue_example_ids: "distinct (map qm_id queue_example)"
  by (simp add: queue_eval)

theorem batch_and_remaining_partition_witness:
  "set [update_example ''t1'' ''title'' VNull, update_example ''t3'' ''n'' (VObj True False [(''$increment'', VNull)]),
      update_example ''t4'' ''title'' VNull] = {tx \<in> set queue_example. qm_status tx = Pending}"
  using batch_and_remaining_partition [OF queue_example_taken queue_example_ids] by simp

text \<open>
  C15. A row keeps its order: when a fresh mutation is in the batch, every earlier pending
  mutation of the same row in the queue is in the batch too, and the batch is in queue order.
  Two mutations of one row travel together only if neither carries a barrier (a
  versioned field, a read premise, a claim, a key or a label).
\<close>

theorem fresh_batch_keeps_row_order:
  assumes "q = pre @ x # mid @ y # post" and "distinct (map qm_id q)" and "set q \<subseteq> set out"
    and "takeNextExecutionBatch q n out = (batch, remaining)"
    and "row_of x = row_of y" and "qm_status x = Pending" and "y \<in> set batch" and "qm_commitEnvelope y = None"
  shows "x \<in> set batch \<and> \<not> merge_barrier x \<and> \<not> merge_barrier y \<and> subseq batch q \<and> length batch \<le> max 1 n"
  using assms(4,2)
proof (cases rule: takeNext_cases)
  case (retry key)
  with assms(7,8) show ?thesis by (auto simp: members_of_def envelope_key_def)
next
  case none
  with assms(7) show ?thesis by simp
next
  case fresh
  note b = fresh_batch [OF fresh(2)]
  have x: "x \<in> set batch" by (rule fresh_row_order [OF assms(1,2,4,5,6,3,7,8)])
  obtain i j where ij: "i < length batch" "batch ! i = x" "j < length batch" "batch ! j = y"
    using x assms(7) by (auto simp: in_set_conv_nth)
  have "x \<noteq> y" using assms(1,2) by auto
  then have "i < j \<or> j < i" using ij by (metis nat_neq_iff)
  moreover have free: "\<lbrakk>i < j; j < length batch; row_of (batch ! i) = row_of (batch ! j)\<rbrakk>
      \<Longrightarrow> \<not> merge_barrier (batch ! i) \<and> \<not> merge_barrier (batch ! j)" for i j
    using b unfolding rows_mergeable_def by blast
  ultimately have "\<not> merge_barrier x \<and> \<not> merge_barrier y"
    using free [of i j] free [of j i] ij assms(5) by auto
  moreover have "subseq (fresh_of q out) q" by (simp only: filter_filter subseq_filter_left)
  then have "subseq batch q" using b subseq_order.order_trans by blast
  ultimately show ?thesis using x b by simp
qed

theorem fresh_batch_keeps_row_order_witness:
  "update_example ''t1'' ''title'' VNull \<in> set (fst (takeNextExecutionBatch
     [update_example ''t1'' ''title'' VNull, update_example ''t2'' ''done'' VNull] 10
     [update_example ''t1'' ''title'' VNull, update_example ''t2'' ''done'' VNull]))"
proof -
  let ?q = "[update_example ''t1'' ''title'' VNull, update_example ''t2'' ''done'' VNull]"
  have t: "takeNextExecutionBatch ?q 10 ?q = (?q, [])" by (simp add: queue_eval)
  have "?q = [] @ update_example ''t1'' ''title'' VNull # [] @ update_example ''t2'' ''done'' VNull # []" by simp
  from fresh_batch_keeps_row_order [OF this _ order_refl t] show ?thesis
    unfolding t by (simp add: row_of_def update_example_def blank_mutation_def)
qed


definition sealed_example :: "string \<Rightarrow> nat \<Rightarrow> QueuedMutation" where
  "sealed_example i k = (update_example i ''title'' VNull)\<lparr>qm_commitEnvelope :=
     Some \<lparr>env_idempotencyKey = ''key'', env_operationIndex = k, env_operationCount = 2, env_sealedAt = None, env_sequence = None\<rparr>\<rparr>"


end
