(* ===== verification/MutationStore.thy ===== *)
theory MutationStore
  imports ExecutionQueue
begin

section \<open>The mutation store and the coalescing rules\<close>

text \<open>
  Model of \<open>packages/humans/src/local/transactions/mutations/MutationStore.ts\<close> (transactions by
  identifier with an index by status) and \<open>coalesceRules.ts\<close> (cancelling a create that was
  never sent, and holding back a delete while a create is in flight).

  The rules read the store through \<open>getByStatus\<close> only; the locale \<open>status_index\<close> states what
  they rely on, and the store is shown to provide it as long as it is used through its own
  methods. A JavaScript \<open>Set\<close> is a list without repetitions in insertion order.
\<close>

subsection \<open>The store\<close>

record MutationStore =
  ms_transactions :: "(string \<times> QueuedMutation) list"
  ms_byStatus :: "(mutation_status \<times> string list) list"

definition new_MutationStore :: MutationStore where
  "new_MutationStore = \<lparr>ms_transactions = [], ms_byStatus = []\<rparr>"

definition ids_with :: "MutationStore \<Rightarrow> mutation_status \<Rightarrow> string list" where
  "ids_with s status = (case map_of (ms_byStatus s) status of None \<Rightarrow> [] | Some ids \<Rightarrow> ids)"

definition index_add :: "mutation_status \<Rightarrow> string \<Rightarrow> MutationStore \<Rightarrow> MutationStore" where
  "index_add status i s = s\<lparr>ms_byStatus := AList.update status
     (if i \<in> set (ids_with s status) then ids_with s status else ids_with s status @ [i]) (ms_byStatus s)\<rparr>"

text \<open>\<open>byStatus.get(status)?.delete(id)\<close>\<close>

definition index_delete :: "mutation_status \<Rightarrow> string \<Rightarrow> MutationStore \<Rightarrow> MutationStore" where
  "index_delete status i s = (case map_of (ms_byStatus s) status of
      None \<Rightarrow> s
    | Some ids \<Rightarrow> s\<lparr>ms_byStatus := AList.update status (removeAll i ids) (ms_byStatus s)\<rparr>)"

definition store_add :: "QueuedMutation \<Rightarrow> MutationStore \<Rightarrow> MutationStore" where
  "store_add tx s = index_add (qm_status tx) (qm_id tx)
     (s\<lparr>ms_transactions := AList.update (qm_id tx) tx (ms_transactions s)\<rparr>)"

definition store_get :: "MutationStore \<Rightarrow> string \<Rightarrow> QueuedMutation option" where
  "store_get s i = map_of (ms_transactions s) i"

definition updateStatus :: "string \<Rightarrow> mutation_status \<Rightarrow> MutationStore \<Rightarrow> MutationStore" where
  "updateStatus i newStatus s = (case store_get s i of
      None \<Rightarrow> s
    | Some tx \<Rightarrow>
        let s1 = index_delete (qm_status tx) i s;
            s2 = s1\<lparr>ms_transactions := AList.update i (tx\<lparr>qm_status := newStatus\<rparr>) (ms_transactions s1)\<rparr>
        in index_add newStatus i s2)"

definition getByStatus :: "MutationStore \<Rightarrow> mutation_status \<Rightarrow> QueuedMutation list" where
  "getByStatus s status = List.map_filter (store_get s) (ids_with s status)"

definition store_remove :: "string \<Rightarrow> MutationStore \<Rightarrow> MutationStore" where
  "store_remove i s = (case store_get s i of
      None \<Rightarrow> s
    | Some tx \<Rightarrow> index_delete (qm_status tx) i (s\<lparr>ms_transactions := AList.delete i (ms_transactions s)\<rparr>))"

definition store_clear :: "MutationStore \<Rightarrow> MutationStore" where
  "store_clear s = \<lparr>ms_transactions = [], ms_byStatus = []\<rparr>"

definition getAll :: "MutationStore \<Rightarrow> QueuedMutation list" where
  "getAll s = map snd (ms_transactions s)"

subsection \<open>The rules\<close>

definition entityKey :: "string \<Rightarrow> string \<Rightarrow> string" where
  "entityKey modelName modelId = modelName @ '':'' @ modelId"

definition isTransactionForModel :: "QueuedMutation \<Rightarrow> string \<Rightarrow> string \<Rightarrow> bool" where
  "isTransactionForModel tx modelName modelId \<longleftrightarrow> qm_modelName tx = modelName \<and> qm_modelId tx = modelId"

definition isUnsentCreate :: "string \<Rightarrow> string \<Rightarrow> QueuedMutation \<Rightarrow> bool" where
  "isUnsentCreate modelName modelId tx \<longleftrightarrow> qm_type tx = Create \<and> qm_status tx = Pending \<and> qm_attempts tx = 0
     \<and> isTransactionForModel tx modelName modelId"

text \<open>The result is the create that was found, with what is left of the two queues.\<close>

definition takeUnsentCreateForModel :: "QueuedMutation list \<Rightarrow> QueuedMutation list
    \<Rightarrow> (mutation_status \<Rightarrow> QueuedMutation list) \<Rightarrow> string \<Rightarrow> string
    \<Rightarrow> QueuedMutation option \<times> QueuedMutation list \<times> QueuedMutation list" where
  "takeUnsentCreateForModel staged queued byStatus modelName modelId =
     (let isUnsent = isUnsentCreate modelName modelId in
      case take_first isUnsent staged of
        Some (tx, staged1) \<Rightarrow> (Some tx, staged1, queued)
      | None \<Rightarrow> (case take_first isUnsent queued of
            Some (tx, queued1) \<Rightarrow> (Some tx, staged, queued1)
          | None \<Rightarrow> (find isUnsent (byStatus Pending), staged, queued)))"

definition liveCreates :: "(mutation_status \<Rightarrow> QueuedMutation list) \<Rightarrow> string \<Rightarrow> string \<Rightarrow> QueuedMutation list" where
  "liveCreates byStatus modelName modelId =
     filter (\<lambda>tx. qm_type tx = Create \<and> isTransactionForModel tx modelName modelId
        \<and> (qm_status tx \<noteq> Pending \<or> 0 < qm_attempts tx))
       (byStatus Pending @ byStatus Executing @ byStatus AwaitingDelta)"

definition findCreateBarrierForDelete :: "(mutation_status \<Rightarrow> QueuedMutation list) \<Rightarrow> string \<Rightarrow> string
    \<Rightarrow> QueuedMutation option" where
  "findCreateBarrierForDelete byStatus modelName modelId =
     (case sort_key (\<lambda>tx. - qm_createdAt tx) (liveCreates byStatus modelName modelId) of
        [] \<Rightarrow> None
      | tx # _ \<Rightarrow> Some tx)"

type_synonym deferred_deletes = "(string \<times> QueuedMutation list) list"

definition deferDeleteUntilCreateSettles :: "deferred_deletes \<Rightarrow> QueuedMutation \<Rightarrow> QueuedMutation \<Rightarrow> deferred_deletes" where
  "deferDeleteUntilCreateSettles deferred createTx deleteTx =
     (let key = entityKey (qm_modelName createTx) (qm_modelId createTx);
          waiting = (case map_of deferred key of None \<Rightarrow> [] | Some ds \<Rightarrow> ds)
      in AList.update key (waiting @ [deleteTx]) deferred)"

text \<open>The result is the map without the entry and the deletes given to \<open>enqueue\<close>, in order.\<close>

definition releaseDeferredDeletesForCreate :: "deferred_deletes \<Rightarrow> (string \<Rightarrow> QueuedMutation option)
    \<Rightarrow> QueuedMutation \<Rightarrow> deferred_deletes \<times> QueuedMutation list" where
  "releaseDeferredDeletesForCreate deferred get createTx =
     (let key = entityKey (qm_modelName createTx) (qm_modelId createTx) in
      case map_of deferred key of
        None \<Rightarrow> (deferred, [])
      | Some ds \<Rightarrow>
          if ds = [] then (deferred, [])
          else (AList.delete key deferred,
                filter (\<lambda>d. map_option qm_status (get (qm_id d)) = Some Pending) ds))"

subsection \<open>The contract of the status index\<close>

locale status_index =
  fixes get :: "'s \<Rightarrow> string \<Rightarrow> QueuedMutation option"
    and by_status :: "'s \<Rightarrow> mutation_status \<Rightarrow> QueuedMutation list"
    and inv :: "'s \<Rightarrow> bool"
  assumes indexed: "inv s \<Longrightarrow> tx \<in> set (by_status s st) \<longleftrightarrow> get s (qm_id tx) = Some tx \<and> qm_status tx = st"
begin

text \<open>The two rules leave no gap: with neither a create to cancel nor one to wait for, none is live.\<close>

lemma no_live_create:
  assumes "inv s" and "fst (takeUnsentCreateForModel staged queued (by_status s) m i) = None"
    and "findCreateBarrierForDelete (by_status s) m i = None"
    and "get s (qm_id tx) = Some tx" and "qm_type tx = Create" and "isTransactionForModel tx m i"
  shows "qm_status tx \<in> {Completed, Failed, RolledBack}"
proof (rule ccontr)
  assume live: "qm_status tx \<notin> {Completed, Failed, RolledBack}"
  have in_index: "tx \<in> set (by_status s (qm_status tx))" using assms(1,4) by (simp add: indexed)
  have "find (isUnsentCreate m i) (by_status s Pending) = None"
    using assms(2) by (auto simp: takeUnsentCreateForModel_def Let_def split: option.splits)
  then have "\<not> isUnsentCreate m i tx \<or> tx \<notin> set (by_status s Pending)" by (auto simp: find_None_iff)
  with in_index assms(5,6) have "qm_status tx \<noteq> Pending \<or> 0 < qm_attempts tx"
    by (auto simp: isUnsentCreate_def)
  with live in_index assms(5,6) have "tx \<in> set (liveCreates (by_status s) m i)"
    by (cases "qm_status tx") (auto simp: liveCreates_def)
  moreover have "liveCreates (by_status s) m i = []"
    using assms(3) by (auto simp: findCreateBarrierForDelete_def split: list.splits)
       (metis set_empty set_sort)
  ultimately show False by simp
qed

text \<open>A barrier is a create of that row that may have reached the server, the latest one.\<close>

lemma barrier_was_sent:
  assumes "inv s" and "findCreateBarrierForDelete (by_status s) m i = Some tx"
  shows "get s (qm_id tx) = Some tx \<and> qm_type tx = Create \<and> isTransactionForModel tx m i
    \<and> (qm_status tx = Pending \<and> 0 < qm_attempts tx \<or> qm_status tx = Executing \<or> qm_status tx = AwaitingDelta)
    \<and> \<not> isUnsentCreate m i tx
    \<and> (\<forall>tx' \<in> set (liveCreates (by_status s) m i). qm_createdAt tx' \<le> qm_createdAt tx)"
proof -
  let ?l = "liveCreates (by_status s) m i"
  from assms(2) obtain rest where l: "sort_key (\<lambda>tx. - qm_createdAt tx) ?l = tx # rest"
    by (auto simp: findCreateBarrierForDelete_def split: list.splits)
  have set_l: "set ?l = insert tx (set rest)" by (metis l list.simps(15) set_sort)
  then have "tx \<in> set ?l" by simp
  moreover have "sorted (map (\<lambda>tx. - qm_createdAt tx) (tx # rest))" by (metis l sorted_sort_key)
  then have "\<forall>tx' \<in> set ?l. qm_createdAt tx' \<le> qm_createdAt tx" unfolding set_l by auto
  ultimately show ?thesis
    using assms(1) by (auto simp: liveCreates_def indexed isUnsentCreate_def)
qed

end

subsection \<open>The store provides it\<close>

definition store_inv :: "MutationStore \<Rightarrow> bool" where
  "store_inv s \<longleftrightarrow> (\<forall>i tx. store_get s i = Some tx \<longrightarrow> qm_id tx = i)
     \<and> (\<forall>st i. i \<in> set (ids_with s st) \<longleftrightarrow> (\<exists>tx. store_get s i = Some tx \<and> qm_status tx = st))"

lemma set_ids_add: "set (ids_with (index_add st i s) st') = set (ids_with s st') \<union> (if st = st' then {i} else {})"
  by (auto simp: ids_with_def index_add_def update_conv' split: option.splits if_splits)

lemma set_ids_delete: "set (ids_with (index_delete st i s) st') = set (ids_with s st') - (if st = st' then {i} else {})"
  by (auto simp: ids_with_def index_delete_def update_conv' split: option.splits if_splits)

lemma store_get_index [simp]: "store_get (index_add st i s) = store_get s" "store_get (index_delete st i s) = store_get s"
  by (auto simp: store_get_def index_add_def index_delete_def split: option.splits)

lemma ids_with_transactions [simp]: "ids_with (s\<lparr>ms_transactions := ts\<rparr>) = ids_with s"
  by (simp add: ids_with_def fun_eq_iff)

lemma store_get_update [simp]:
  "store_get (s\<lparr>ms_transactions := AList.update i tx (ms_transactions s)\<rparr>) = (store_get s)(i \<mapsto> tx)"
  "store_get (s\<lparr>ms_transactions := AList.delete i (ms_transactions s)\<rparr>) = (store_get s)(i := None)"
  by (simp_all add: store_get_def fun_eq_iff update_conv' delete_conv')

lemma set_map_filter: "set (List.map_filter f xs) = {y. \<exists>x \<in> set xs. f x = Some y}"
  by (induction xs) (auto simp: map_filter_simps split: option.splits)

lemma store_add_inv:
  assumes "store_inv s" and "case store_get s (qm_id tx) of None \<Rightarrow> True | Some old \<Rightarrow> qm_status old = qm_status tx"
  shows "store_inv (store_add tx s)"
  using assms by (auto simp: store_inv_def store_add_def set_ids_add split: option.splits)

lemma updateStatus_get:
  "store_get (updateStatus i st s) = (case store_get s i of None \<Rightarrow> store_get s | Some tx \<Rightarrow> (store_get s)(i \<mapsto> tx\<lparr>qm_status := st\<rparr>))"
  by (auto simp: updateStatus_def Let_def split: option.splits)

lemma updateStatus_inv:
  assumes "store_inv s"
  shows "store_inv (updateStatus i st s)"
proof (cases "store_get s i")
  case None
  with assms show ?thesis by (simp add: updateStatus_def)
next
  case (Some tx)
  then have ids: "set (ids_with (updateStatus i st s) st') =
      set (ids_with s st') - (if qm_status tx = st' then {i} else {}) \<union> (if st = st' then {i} else {})" for st'
    by (simp add: updateStatus_def Let_def set_ids_add set_ids_delete)
  have inv: "j \<in> set (ids_with s st') \<longleftrightarrow> (\<exists>tx. store_get s j = Some tx \<and> qm_status tx = st')" for j st'
    using assms unfolding store_inv_def by blast
  have "j \<in> set (ids_with (updateStatus i st s) st') \<longleftrightarrow>
      (\<exists>tx. store_get (updateStatus i st s) j = Some tx \<and> qm_status tx = st')" for j st'
    using inv [of j st'] Some by (cases "j = i") (simp_all add: ids updateStatus_get)
  moreover have "\<forall>j tx. store_get (updateStatus i st s) j = Some tx \<longrightarrow> qm_id tx = j"
    using assms Some unfolding store_inv_def by (simp add: updateStatus_get)
  ultimately show ?thesis unfolding store_inv_def by blast
qed

lemma store_remove_inv: "store_inv s \<Longrightarrow> store_inv (store_remove i s)"
  by (cases "store_get s i") (auto simp: store_inv_def store_remove_def set_ids_delete split: if_splits)

lemma store_inv_empty: "store_inv new_MutationStore" "store_inv (store_clear s)"
  by (simp_all add: store_inv_def new_MutationStore_def store_clear_def store_get_def ids_with_def)

interpretation store_index: status_index store_get getByStatus store_inv
proof unfold_locales
  fix s :: MutationStore and tx st
  assume inv: "store_inv s"
  have own: "\<And>i tx. store_get s i = Some tx \<Longrightarrow> qm_id tx = i"
    and ids: "\<And>i. i \<in> set (ids_with s st) \<longleftrightarrow> (\<exists>tx. store_get s i = Some tx \<and> qm_status tx = st)"
    using inv unfolding store_inv_def by simp_all
  have "tx \<in> set (getByStatus s st) \<longleftrightarrow> (\<exists>i \<in> set (ids_with s st). store_get s i = Some tx)"
    by (simp add: getByStatus_def set_map_filter)
  also have "\<dots> \<longleftrightarrow> store_get s (qm_id tx) = Some tx \<and> qm_status tx = st"
  proof
    assume "\<exists>i \<in> set (ids_with s st). store_get s i = Some tx"
    then obtain i where "i \<in> set (ids_with s st)" "store_get s i = Some tx" by blast
    with own [of i tx] ids [of i] show "store_get s (qm_id tx) = Some tx \<and> qm_status tx = st" by simp
  next
    assume "store_get s (qm_id tx) = Some tx \<and> qm_status tx = st"
    with ids [of "qm_id tx"] show "\<exists>i \<in> set (ids_with s st). store_get s i = Some tx" by fastforce
  qed
  finally show "tx \<in> set (getByStatus s st) \<longleftrightarrow> store_get s (qm_id tx) = Some tx \<and> qm_status tx = st" .
qed

text \<open>
  The ways the store changes. A transaction is added under a new identifier, or again under
  the status it is stored with; the queue never adds one whose stored status differs.
\<close>

inductive store_step :: "MutationStore \<Rightarrow> unit list \<Rightarrow> MutationStore \<Rightarrow> bool" where
  add: "(case store_get s (qm_id tx) of None \<Rightarrow> True | Some old \<Rightarrow> qm_status old = qm_status tx) \<Longrightarrow>
     store_step s [] (store_add tx s)"
| update: "store_step s [] (updateStatus i st s)"
| remove: "store_step s [] (store_remove i s)"
| clear: "store_step s [] (store_clear s)"

interpretation store_runs: run_invariant "\<lambda>s. s = new_MutationStore" store_step "\<lambda>_ s. store_inv s"
proof unfold_locales
  fix ls s l t
  assume "store_step s l t" and "store_inv s"
  then show "store_inv t"
    by (induction rule: store_step.induct) (auto intro: store_add_inv updateStatus_inv store_remove_inv store_inv_empty)
qed (simp add: store_inv_empty)

subsection \<open>Properties\<close>

text \<open>
  C36. The status index is exact: after any sequence of additions, status changes, removals
  and clears, \<open>getByStatus\<close> returns precisely the stored transactions with that status, and
  no identifier is filed under two statuses.
\<close>

theorem status_index_exact:
  assumes "run (\<lambda>s. s = new_MutationStore) store_step ls s"
  shows "set (getByStatus s st) = {tx. store_get s (qm_id tx) = Some tx \<and> qm_status tx = st}
    \<and> (st \<noteq> st' \<longrightarrow> set (ids_with s st) \<inter> set (ids_with s st') = {})"
  using store_index.indexed [OF store_runs.holds [OF assms]] store_runs.holds [OF assms]
  by (auto simp: store_inv_def)

definition store_example :: MutationStore where
  "store_example = updateStatus ''t2'' Executing
     (store_add (update_example ''t2'' ''done'' VNull) (store_add (update_example ''t1'' ''title'' VNull) new_MutationStore))"

lemma store_example_run: "run (\<lambda>s. s = new_MutationStore) store_step [] store_example"
proof -
  have 0: "run (\<lambda>s. s = new_MutationStore) store_step [] new_MutationStore" by (rule run_init) simp
  have 1: "run (\<lambda>s. s = new_MutationStore) store_step ([] @ [])
      (store_add (update_example ''t1'' ''title'' VNull) new_MutationStore)"
    by (rule run_step [OF 0], rule store_step.add) (simp add: new_MutationStore_def store_get_def)
  have 2: "run (\<lambda>s. s = new_MutationStore) store_step (([] @ []) @ [])
      (store_add (update_example ''t2'' ''done'' VNull) (store_add (update_example ''t1'' ''title'' VNull) new_MutationStore))"
    by (rule run_step [OF 1], rule store_step.add)
       (simp add: new_MutationStore_def store_get_def store_add_def index_add_def update_example_def)
  show ?thesis unfolding store_example_def using run_step [OF 2 store_step.update] by simp
qed

theorem status_index_exact_witness:
  "getByStatus store_example Pending = [update_example ''t1'' ''title'' VNull]
   \<and> set (ids_with store_example Pending) \<inter> set (ids_with store_example Executing) = {}"
  using status_index_exact [OF store_example_run, of Pending Executing]
  by (simp add: store_example_def updateStatus_def store_add_def index_add_def index_delete_def ids_with_def
      getByStatus_def store_get_def new_MutationStore_def update_example_def blank_mutation_def map_filter_simps)

text \<open>
  A delete never overtakes a create: when \<open>delete\<close> finds neither an unsent create to
  cancel nor a sent one to wait for, the store holds no create of that row that is
  pending, executing or awaiting its delta.
\<close>

theorem delete_finds_every_live_create:
  assumes "run (\<lambda>s. s = new_MutationStore) store_step ls s"
    and "fst (takeUnsentCreateForModel staged queued (getByStatus s) m i) = None"
    and "findCreateBarrierForDelete (getByStatus s) m i = None"
    and "store_get s (qm_id tx) = Some tx" and "qm_type tx = Create" and "isTransactionForModel tx m i"
  shows "qm_status tx \<in> {Completed, Failed, RolledBack}"
  by (rule store_index.no_live_create [OF store_runs.holds [OF assms(1)] assms(2-)])

definition created_store :: MutationStore where
  "created_store = updateStatus ''c1'' Completed
     (store_add ((update_example ''c1'' ''title'' VNull)\<lparr>qm_type := Create\<rparr>) new_MutationStore)"

lemma created_store_run: "run (\<lambda>s. s = new_MutationStore) store_step [] created_store"
proof -
  have 0: "run (\<lambda>s. s = new_MutationStore) store_step [] new_MutationStore" by (rule run_init) simp
  have 1: "run (\<lambda>s. s = new_MutationStore) store_step ([] @ [])
      (store_add ((update_example ''c1'' ''title'' VNull)\<lparr>qm_type := Create\<rparr>) new_MutationStore)"
    by (rule run_step [OF 0], rule store_step.add) (simp add: new_MutationStore_def store_get_def)
  show ?thesis unfolding created_store_def using run_step [OF 1 store_step.update] by simp
qed

lemmas created_eval = created_store_def updateStatus_def store_add_def index_add_def index_delete_def ids_with_def
  getByStatus_def store_get_def new_MutationStore_def update_example_def blank_mutation_def map_filter_simps
  takeUnsentCreateForModel_def findCreateBarrierForDelete_def liveCreates_def isTransactionForModel_def Let_def

theorem delete_finds_every_live_create_witness:
  "store_get created_store ''c1'' =
     Some ((update_example ''c1'' ''title'' VNull)\<lparr>qm_type := Create, qm_status := Completed\<rparr>)
   \<and> qm_status (the (store_get created_store ''c1'')) \<in> {Completed, Failed, RolledBack}"
proof -
  let ?tx = "(update_example ''c1'' ''title'' VNull)\<lparr>qm_type := Create, qm_status := Completed\<rparr>"
  have g: "store_get created_store ''c1'' = Some ?tx" by (simp add: created_eval)
  have t: "fst (takeUnsentCreateForModel [] [] (getByStatus created_store) ''TaskModel'' ''r1'') = None"
    and b: "findCreateBarrierForDelete (getByStatus created_store) ''TaskModel'' ''r1'' = None"
    by (simp_all add: created_eval)
  have "qm_status ?tx \<in> {Completed, Failed, RolledBack}"
    by (rule delete_finds_every_live_create [OF created_store_run t b])
       (simp_all add: g isTransactionForModel_def update_example_def blank_mutation_def)
  with g show ?thesis by simp
qed

end
