(* ===== verification/DeltaConfirmation.thy ===== *)
theory DeltaConfirmation
  imports MutationStore
begin

section \<open>Recognising and confirming own writes\<close>

text \<open>
  Model of \<open>packages/humans/src/local/transactions/mutations/UnconfirmedWrites.ts\<close>, the bounded set
  that recognises the echo of an optimistic write, and \<open>deltaConfirmation.ts\<close>, the tracker that
  confirms a write when its delta arrives and retries while it does not.

  The tracker's timers are the entries of its map of timeouts, each with its delay and
  whether it is still armed. Emitted events and reports are the labels of the steps.
\<close>

subsection \<open>Unconfirmed writes\<close>

record UnconfirmedWrites =
  uw_ids :: "string list"
  uw_maxSize :: nat
  uw_totalAdded :: nat
  uw_hits :: nat
  uw_rollbacks :: nat
  uw_evictions :: nat

definition new_UnconfirmedWrites :: "nat option \<Rightarrow> UnconfirmedWrites" where
  "new_UnconfirmedWrites maxSize = \<lparr>uw_ids = [], uw_maxSize = (case maxSize of None \<Rightarrow> 10000 | Some n \<Rightarrow> n),
     uw_totalAdded = 0, uw_hits = 0, uw_rollbacks = 0, uw_evictions = 0\<rparr>"

definition evict_oldest :: "UnconfirmedWrites \<Rightarrow> UnconfirmedWrites" where
  "evict_oldest u = (case uw_ids u of
      [] \<Rightarrow> u
    | _ # rest \<Rightarrow> u\<lparr>uw_ids := rest, uw_evictions := uw_evictions u + 1\<rparr>)"

definition markPending :: "string \<Rightarrow> UnconfirmedWrites \<Rightarrow> UnconfirmedWrites" where
  "markPending i u =
     (if i \<in> set (uw_ids u) then u
      else let u1 = (if uw_maxSize u \<le> length (uw_ids u) then evict_oldest u else u)
           in u1\<lparr>uw_ids := uw_ids u1 @ [i], uw_totalAdded := uw_totalAdded u1 + 1\<rparr>)"

text \<open>A null, undefined or empty identifier is never an echo.\<close>

definition consumeEcho :: "string option \<Rightarrow> UnconfirmedWrites \<Rightarrow> UnconfirmedWrites \<times> bool" where
  "consumeEcho transactionId u = (case transactionId of
      None \<Rightarrow> (u, False)
    | Some i \<Rightarrow>
        if i = [] \<or> i \<notin> set (uw_ids u) then (u, False)
        else (u\<lparr>uw_ids := removeAll i (uw_ids u), uw_hits := uw_hits u + 1\<rparr>, True))"

definition drainOnRollback :: "string \<Rightarrow> UnconfirmedWrites \<Rightarrow> UnconfirmedWrites" where
  "drainOnRollback i u = (if i \<in> set (uw_ids u)
     then u\<lparr>uw_ids := removeAll i (uw_ids u), uw_rollbacks := uw_rollbacks u + 1\<rparr> else u)"

definition uw_clear :: "UnconfirmedWrites \<Rightarrow> UnconfirmedWrites" where
  "uw_clear u = u\<lparr>uw_ids := []\<rparr>"

datatype echo_label = Marked string | Echo string | Foreign | Drained string | Cleared

inductive uw_step :: "UnconfirmedWrites \<Rightarrow> echo_label list \<Rightarrow> UnconfirmedWrites \<Rightarrow> bool" where
  mark: "uw_step u [Marked i] (markPending i u)"
| echo: "consumeEcho ti u = (u', True) \<Longrightarrow> uw_step u [Echo (the ti)] u'"
| foreign: "consumeEcho ti u = (u', False) \<Longrightarrow> uw_step u [Foreign] u'"
| drain: "uw_step u [Drained i] (drainOnRollback i u)"
| clear: "uw_step u [Cleared] (uw_clear u)"

abbreviation occurrences :: "'a \<Rightarrow> 'a list \<Rightarrow> nat" where
  "occurrences x xs \<equiv> length (filter (\<lambda>y. y = x) xs)"

text \<open>No identifier is recognised as an echo more often than it was marked.\<close>

definition balanced :: "echo_label list \<Rightarrow> string set \<Rightarrow> bool" where
  "balanced ls ids \<longleftrightarrow> (\<forall>i. occurrences (Echo i) ls + (if i \<in> ids then 1 else 0) \<le> occurrences (Marked i) ls)"

lemma balanced_at: "balanced ls ids \<Longrightarrow> occurrences (Echo j) ls + (if j \<in> ids then 1 else 0) \<le> occurrences (Marked j) ls"
  unfolding balanced_def by blast

lemma balanced_mark:
  assumes "balanced ls ids" and "ids' \<subseteq> insert i ids"
  shows "balanced (ls @ [Marked i]) ids'"
  unfolding balanced_def
proof
  fix j
  show "occurrences (Echo j) (ls @ [Marked i]) + (if j \<in> ids' then 1 else 0) \<le> occurrences (Marked j) (ls @ [Marked i])"
    using balanced_at [OF assms(1), of j] assms(2) by (auto split: if_splits)
qed

lemma balanced_echo:
  assumes "balanced ls ids" and "i \<in> ids"
  shows "balanced (ls @ [Echo i]) (ids - {i})"
  unfolding balanced_def
proof
  fix j
  show "occurrences (Echo j) (ls @ [Echo i]) + (if j \<in> ids - {i} then 1 else 0) \<le> occurrences (Marked j) (ls @ [Echo i])"
    using balanced_at [OF assms(1), of j] assms(2) by (auto split: if_splits)
qed

lemma balanced_other:
  assumes "balanced ls ids" and "ids' \<subseteq> ids" and "\<forall>i. l \<noteq> Echo i \<and> l \<noteq> Marked i"
  shows "balanced (ls @ [l]) ids'"
  unfolding balanced_def
proof
  fix j
  show "occurrences (Echo j) (ls @ [l]) + (if j \<in> ids' then 1 else 0) \<le> occurrences (Marked j) (ls @ [l])"
    using balanced_at [OF assms(1), of j] assms(2,3) by (auto split: if_splits)
qed

text \<open>Size and bookkeeping.\<close>

definition uw_books :: "nat \<Rightarrow> bool \<Rightarrow> UnconfirmedWrites \<Rightarrow> bool" where
  "uw_books n cleared u \<longleftrightarrow> distinct (uw_ids u) \<and> uw_maxSize u = n \<and> length (uw_ids u) \<le> max 1 n
     \<and> length (uw_ids u) + uw_hits u + uw_rollbacks u + uw_evictions u \<le> uw_totalAdded u
     \<and> (\<not> cleared \<longrightarrow> uw_totalAdded u = length (uw_ids u) + uw_hits u + uw_rollbacks u + uw_evictions u)"

definition uw_inv :: "nat \<Rightarrow> echo_label list \<Rightarrow> UnconfirmedWrites \<Rightarrow> bool" where
  "uw_inv n ls u \<longleftrightarrow> uw_books n (Cleared \<in> set ls) u \<and> balanced ls (set (uw_ids u))"

lemma length_removeAll_distinct: "distinct xs \<Longrightarrow> x \<in> set xs \<Longrightarrow> Suc (length (removeAll x xs)) = length xs"
  by (induction xs) (auto simp: removeAll_id)

lemma markPending_cases:
  obtains (known) "i \<in> set (uw_ids u)" "markPending i u = u"
  | (evicts) old rest where "i \<notin> set (uw_ids u)" "uw_ids u = old # rest" "uw_maxSize u \<le> length (uw_ids u)"
      "markPending i u = u\<lparr>uw_ids := rest @ [i], uw_evictions := uw_evictions u + 1, uw_totalAdded := uw_totalAdded u + 1\<rparr>"
  | (room) "i \<notin> set (uw_ids u)" "length (uw_ids u) < uw_maxSize u \<or> uw_ids u = []"
      "markPending i u = u\<lparr>uw_ids := uw_ids u @ [i], uw_totalAdded := uw_totalAdded u + 1\<rparr>"
  by (cases "i \<in> set (uw_ids u)"; cases "uw_maxSize u \<le> length (uw_ids u)"; cases "uw_ids u")
     (auto simp: markPending_def evict_oldest_def Let_def)

lemma mark_inv:
  assumes "uw_inv n ls u"
  shows "uw_inv n (ls @ [Marked i]) (markPending i u)"
proof -
  have books: "uw_books n (Cleared \<in> set ls) u" and bal: "balanced ls (set (uw_ids u))"
    using assms by (simp_all add: uw_inv_def)
  have "uw_books n (Cleared \<in> set ls) (markPending i u) \<and> set (uw_ids (markPending i u)) \<subseteq> insert i (set (uw_ids u))"
    using books by (cases rule: markPending_cases [of i u]) (auto simp: uw_books_def)
  with balanced_mark [OF bal] show ?thesis by (simp add: uw_inv_def)
qed

lemma removal_inv:
  assumes inv: "uw_inv n ls u" and i: "i \<in> set (uw_ids u)"
  shows "uw_inv n (ls @ [Echo i]) (u\<lparr>uw_ids := removeAll i (uw_ids u), uw_hits := uw_hits u + 1\<rparr>)
    \<and> uw_inv n (ls @ [Drained i]) (u\<lparr>uw_ids := removeAll i (uw_ids u), uw_rollbacks := uw_rollbacks u + 1\<rparr>)"
proof -
  have books: "uw_books n (Cleared \<in> set ls) u" and bal: "balanced ls (set (uw_ids u))"
    using inv by (simp_all add: uw_inv_def)
  have "Suc (length (removeAll i (uw_ids u))) = length (uw_ids u)"
    using books i by (simp add: uw_books_def length_removeAll_distinct)
  with books have "uw_books n (Cleared \<in> set ls) (u\<lparr>uw_ids := removeAll i (uw_ids u), uw_hits := uw_hits u + 1\<rparr>)"
    "uw_books n (Cleared \<in> set ls) (u\<lparr>uw_ids := removeAll i (uw_ids u), uw_rollbacks := uw_rollbacks u + 1\<rparr>)"
    by (auto simp: uw_books_def distinct_removeAll)
  with balanced_echo [OF bal i] balanced_other [OF bal, of _ "Drained i"] show ?thesis
    by (auto simp: uw_inv_def set_removeAll)
qed

lemma uw_step_inv: "uw_step u l u' \<Longrightarrow> uw_inv n ls u \<Longrightarrow> uw_inv n (ls @ l) u'"
proof (induction rule: uw_step.induct)
  case (mark u i)
  then show ?case by (rule mark_inv)
next
  case (echo ti u u')
  then show ?case using removal_inv by (auto simp: consumeEcho_def split: option.splits if_splits)
next
  case (foreign ti u u')
  then have "u' = u" by (auto simp: consumeEcho_def split: option.splits if_splits)
  with foreign(2) balanced_other [of ls "set (uw_ids u)" "set (uw_ids u)" Foreign] show ?case
    by (simp add: uw_inv_def)
next
  case (drain u i)
  with removal_inv [of n ls u i] balanced_other [of ls "set (uw_ids u)" "set (uw_ids u)" "Drained i"] show ?case
    by (auto simp: drainOnRollback_def uw_inv_def)
next
  case (clear u)
  with balanced_other [of ls "set (uw_ids u)" "{}" Cleared] show ?case
    by (auto simp: uw_clear_def uw_inv_def uw_books_def)
qed

interpretation uw_runs: run_invariant "\<lambda>u. u = new_UnconfirmedWrites m" uw_step
  "uw_inv (case m of None \<Rightarrow> 10000 | Some n \<Rightarrow> n)" for m
proof unfold_locales
  fix u assume "u = new_UnconfirmedWrites m"
  then show "uw_inv (case m of None \<Rightarrow> 10000 | Some n \<Rightarrow> n) [] u"
    by (simp add: new_UnconfirmedWrites_def uw_inv_def uw_books_def balanced_def)
qed (rule uw_step_inv)

subsection \<open>The confirmation tracker\<close>

definition DELTA_MAX_RETRIES :: nat where
  "DELTA_MAX_RETRIES = 5"

definition DELTA_MAX_TIMEOUT_MS :: int where
  "DELTA_MAX_TIMEOUT_MS = 120000"

datatype tracker_event =
    TransactionCompleted string
  | ReconciliationNeeded string nat
  | RetriesExhausted string
  | PersistAwaiting string

record DeltaConfirmationTracker =
  dc_timeouts :: "(string \<times> int \<times> bool) list"
  dc_retries :: "(string \<times> nat) list"
  dc_disposed :: bool

definition new_DeltaConfirmationTracker :: DeltaConfirmationTracker where
  "new_DeltaConfirmationTracker = \<lparr>dc_timeouts = [], dc_retries = [], dc_disposed = False\<rparr>"

definition cancelDeltaConfirmationTimeout :: "string \<Rightarrow> DeltaConfirmationTracker \<Rightarrow> DeltaConfirmationTracker" where
  "cancelDeltaConfirmationTimeout i t =
     (let t1 = (case map_of (dc_timeouts t) i of
          None \<Rightarrow> t
        | Some _ \<Rightarrow> t\<lparr>dc_timeouts := AList.delete i (dc_timeouts t)\<rparr>)
      in t1\<lparr>dc_retries := AList.delete i (dc_retries t1)\<rparr>)"

definition scheduleDeltaConfirmationTimeout :: "string \<Rightarrow> int \<Rightarrow> DeltaConfirmationTracker \<Rightarrow> DeltaConfirmationTracker" where
  "scheduleDeltaConfirmationTimeout i timeoutMs t =
     (if dc_disposed t then t
      else let t1 = cancelDeltaConfirmationTimeout i t
           in t1\<lparr>dc_timeouts := AList.update i (timeoutMs, True) (dc_timeouts t1)\<rparr>)"

text \<open>The timer callback of transaction \<open>i\<close>, armed with \<open>timeoutMs\<close>.\<close>

definition timeout_callback :: "(string \<Rightarrow> QueuedMutation option) \<Rightarrow> bool \<Rightarrow> string \<Rightarrow> int
    \<Rightarrow> DeltaConfirmationTracker \<Rightarrow> DeltaConfirmationTracker \<times> tracker_event list" where
  "timeout_callback get online i timeoutMs t =
     (if map_option qm_status (get i) \<noteq> Some AwaitingDelta
      then (t\<lparr>dc_retries := AList.delete i (dc_retries t)\<rparr>, [])
      else if \<not> online
      then (scheduleDeltaConfirmationTimeout i timeoutMs (t\<lparr>dc_timeouts := AList.delete i (dc_timeouts t)\<rparr>), [])
      else
        let retryCount = (case map_of (dc_retries t) i of None \<Rightarrow> 0 | Some n \<Rightarrow> n) in
        if retryCount < DELTA_MAX_RETRIES then
          let t1 = t\<lparr>dc_timeouts := AList.delete i (dc_timeouts t), dc_retries := AList.update i (retryCount + 1) (dc_retries t)\<rparr>;
              nextTimeout = min (timeoutMs * 2) DELTA_MAX_TIMEOUT_MS
          in (scheduleDeltaConfirmationTimeout i nextTimeout t1, [ReconciliationNeeded i (retryCount + 1)])
        else
          (t\<lparr>dc_timeouts := AList.delete i (dc_timeouts t), dc_retries := AList.delete i (dc_retries t)\<rparr>,
           [RetriesExhausted i, PersistAwaiting i, ReconciliationNeeded i DELTA_MAX_RETRIES]))"

text \<open>An armed timer fires once; its entry stays in the map until the callback removes it.\<close>

definition timeout_fires :: "(string \<Rightarrow> QueuedMutation option) \<Rightarrow> bool \<Rightarrow> string
    \<Rightarrow> DeltaConfirmationTracker \<Rightarrow> (DeltaConfirmationTracker \<times> tracker_event list) option" where
  "timeout_fires get online i t = (case map_of (dc_timeouts t) i of
      Some (timeoutMs, True) \<Rightarrow>
        Some (timeout_callback get online i timeoutMs
          (t\<lparr>dc_timeouts := AList.update i (timeoutMs, False) (dc_timeouts t)\<rparr>))
    | _ \<Rightarrow> None)"

definition tracker_dispose :: "DeltaConfirmationTracker \<Rightarrow> DeltaConfirmationTracker" where
  "tracker_dispose t = t\<lparr>dc_timeouts := [], dc_retries := [], dc_disposed := True\<rparr>"

definition matchesSourceEcho :: "QueuedMutation \<Rightarrow> string option \<Rightarrow> bool" where
  "matchesSourceEcho tx correlationId \<longleftrightarrow> correlationId \<noteq> None \<and> qm_correlationId tx \<noteq> None
     \<and> correlationId = qm_correlationId tx"

definition delta_confirms :: "int \<Rightarrow> string option \<Rightarrow> QueuedMutation \<Rightarrow> bool" where
  "delta_confirms syncId correlationId tx \<longleftrightarrow>
     qm_requiresCorrelatedDelta tx \<and> matchesSourceEcho tx correlationId
     \<or> \<not> qm_requiresCorrelatedDelta tx \<and> (case qm_syncIdNeeded tx of None \<Rightarrow> False | Some n \<Rightarrow> n \<le> syncId)"

definition confirm_one :: "int \<Rightarrow> string option \<Rightarrow> QueuedMutation
    \<Rightarrow> MutationStore \<times> DeltaConfirmationTracker \<times> tracker_event list
    \<Rightarrow> MutationStore \<times> DeltaConfirmationTracker \<times> tracker_event list" where
  "confirm_one syncId correlationId tx acc = (case acc of (s, t, evs) \<Rightarrow>
     if delta_confirms syncId correlationId tx
     then (updateStatus (qm_id tx) Completed s, cancelDeltaConfirmationTimeout (qm_id tx) t,
           evs @ [TransactionCompleted (qm_id tx)])
     else (s, t, evs))"

definition onDeltaReceived :: "int \<Rightarrow> string option \<Rightarrow> MutationStore \<Rightarrow> DeltaConfirmationTracker
    \<Rightarrow> MutationStore \<times> DeltaConfirmationTracker \<times> tracker_event list" where
  "onDeltaReceived syncId correlationId s t =
     fold (confirm_one syncId correlationId) (getByStatus s AwaitingDelta) (s, t, [])"

subsection \<open>What a delta confirms\<close>

lemma confirm_fold_get:
  "store_get (fst (fold (confirm_one syncId c) txs (s, t, evs))) i =
     (if \<exists>tx \<in> set txs. qm_id tx = i \<and> delta_confirms syncId c tx
      then map_option (\<lambda>tx. tx\<lparr>qm_status := Completed\<rparr>) (store_get s i) else store_get s i)"
proof (induction txs arbitrary: s t evs)
  case (Cons tx txs)
  then show ?case
    by (auto simp: confirm_one_def updateStatus_get option.map_comp comp_def split: option.splits)
qed simp

lemma confirm_fold_timeouts:
  "map_of (dc_timeouts (fst (snd (fold (confirm_one syncId c) txs (s, t, evs))))) i =
     (if \<exists>tx \<in> set txs. qm_id tx = i \<and> delta_confirms syncId c tx then None else map_of (dc_timeouts t) i)"
  by (induction txs arbitrary: s t evs)
     (auto simp: confirm_one_def cancelDeltaConfirmationTimeout_def delete_conv' Let_def split: option.splits)

lemma confirm_fold_events:
  "snd (snd (fold (confirm_one syncId c) txs (s, t, evs))) =
     evs @ map (\<lambda>tx. TransactionCompleted (qm_id tx)) (filter (delta_confirms syncId c) txs)"
  by (induction txs arbitrary: s t evs) (auto simp: confirm_one_def)

subsection \<open>The retry counter\<close>

lemma cancel_retries [simp]:
  "dc_retries (cancelDeltaConfirmationTimeout i t) = AList.delete i (dc_retries t)"
  "dc_disposed (cancelDeltaConfirmationTimeout i t) = dc_disposed t"
  by (auto simp: cancelDeltaConfirmationTimeout_def Let_def split: option.splits)

inductive tracker_step :: "DeltaConfirmationTracker \<Rightarrow> tracker_event list \<Rightarrow> DeltaConfirmationTracker \<Rightarrow> bool" where
  schedule: "tracker_step t [] (scheduleDeltaConfirmationTimeout i ms t)"
| fires: "timeout_fires get online i t = Some (t', evs) \<Longrightarrow> tracker_step t evs t'"
| delta: "onDeltaReceived syncId c s t = (s', t', evs) \<Longrightarrow> tracker_step t evs t'"
| dispose: "tracker_step t [] (tracker_dispose t)"

lemma confirm_fold_retries:
  "dc_retries t = [] \<Longrightarrow> dc_retries (fst (snd (fold (confirm_one syncId c) txs (s, t, evs)))) = []
     \<and> dc_disposed (fst (snd (fold (confirm_one syncId c) txs (s, t, evs)))) = dc_disposed t
     \<and> (dc_timeouts t = [] \<longrightarrow> dc_timeouts (fst (snd (fold (confirm_one syncId c) txs (s, t, evs)))) = [])"
  by (induction txs arbitrary: s t evs)
     (auto simp: confirm_one_def, simp add: cancelDeltaConfirmationTimeout_def)

definition tracker_inv :: "tracker_event list \<Rightarrow> DeltaConfirmationTracker \<Rightarrow> bool" where
  "tracker_inv evs t \<longleftrightarrow> dc_retries t = [] \<and> (dc_disposed t \<longrightarrow> dc_timeouts t = [])
     \<and> (\<forall>j. PersistAwaiting j \<notin> set evs \<and> RetriesExhausted j \<notin> set evs)"

text \<open>Scheduling cancels first, and cancelling forgets the count that was just written.\<close>

lemma callback_keeps:
  assumes "tracker_inv evs t" and "\<not> dc_disposed t"
  shows "tracker_inv (evs @ snd (timeout_callback get online i ms t)) (fst (timeout_callback get online i ms t))"
  using assms
  by (auto simp: tracker_inv_def timeout_callback_def scheduleDeltaConfirmationTimeout_def DELTA_MAX_RETRIES_def Let_def)

lemma tracker_step_inv: "tracker_step t l t' \<Longrightarrow> tracker_inv evs t \<Longrightarrow> tracker_inv (evs @ l) t'"
proof (induction rule: tracker_step.induct)
  case (schedule t i ms)
  then show ?case by (auto simp: tracker_inv_def scheduleDeltaConfirmationTimeout_def Let_def)
next
  case (fires get online i t t' l)
  then obtain ms where armed: "map_of (dc_timeouts t) i = Some (ms, True)"
    "(t', l) = timeout_callback get online i ms (t\<lparr>dc_timeouts := AList.update i (ms, False) (dc_timeouts t)\<rparr>)"
    by (auto simp: timeout_fires_def split: option.splits bool.splits)
  then have "\<not> dc_disposed t" using fires(2) by (auto simp: tracker_inv_def)
  with callback_keeps [of evs "t\<lparr>dc_timeouts := AList.update i (ms, False) (dc_timeouts t)\<rparr>" get online i ms]
    fires(2) armed(2) [symmetric] show ?case
    by (simp add: tracker_inv_def)
next
  case (delta syncId c s t s' t' l)
  then have eq: "t' = fst (snd (fold (confirm_one syncId c) (getByStatus s AwaitingDelta) (s, t, [])))"
    "l = map (\<lambda>tx. TransactionCompleted (qm_id tx)) (filter (delta_confirms syncId c) (getByStatus s AwaitingDelta))"
    using confirm_fold_events [of syncId c "getByStatus s AwaitingDelta" s t "[]"] by (simp_all add: onDeltaReceived_def)
  show ?case
    using delta(2) confirm_fold_retries [of t syncId c "getByStatus s AwaitingDelta" s "[]"]
    unfolding eq tracker_inv_def by auto
next
  case (dispose t)
  then show ?case by (simp add: tracker_inv_def tracker_dispose_def)
qed

interpretation tracker_runs: run_invariant "\<lambda>t. t = new_DeltaConfirmationTracker" tracker_step tracker_inv
  by unfold_locales (auto simp: new_DeltaConfirmationTracker_def tracker_inv_def dest: tracker_step_inv)

subsection \<open>Properties\<close>


definition awaiting_store :: MutationStore where
  "awaiting_store = store_add ((update_example ''f1'' ''title'' VNull)\<lparr>qm_status := AwaitingDelta,
     qm_requiresCorrelatedDelta := True, qm_correlationId := Some ''corr'', qm_syncIdNeeded := None\<rparr>) new_MutationStore"

lemma awaiting_store_run: "run (\<lambda>s. s = new_MutationStore) store_step [] awaiting_store"
proof -
  have 0: "run (\<lambda>s. s = new_MutationStore) store_step [] new_MutationStore" by (rule run_init) simp
  have "store_step new_MutationStore [] awaiting_store"
    unfolding awaiting_store_def by (rule store_step.add) (simp add: new_MutationStore_def store_get_def)
  from run_step [OF 0 this] show ?thesis by simp
qed


text \<open>
  The set of unconfirmed writes stays within its bound and recognises each write at
  most once: over every run the number of tracked identifiers never exceeds the maximum (one
  where the maximum is zero), no identifier is consumed as an echo more often than it was
  marked, and without a clear every marked identifier is tracked, echoed, rolled back or evicted.
\<close>

theorem echo_recognised_at_most_once:
  assumes "run (\<lambda>u. u = new_UnconfirmedWrites (Some n)) uw_step ls u"
  shows "length (uw_ids u) \<le> max 1 n \<and> occurrences (Echo i) ls \<le> occurrences (Marked i) ls
    \<and> (Cleared \<notin> set ls \<longrightarrow> uw_totalAdded u = length (uw_ids u) + uw_hits u + uw_rollbacks u + uw_evictions u)"
  using uw_runs.holds [OF assms] balanced_at [of ls "set (uw_ids u)" i]
  by (auto simp: uw_inv_def uw_books_def)

theorem echo_recognised_at_most_once_witness:
  "\<exists>u. run (\<lambda>u. u = new_UnconfirmedWrites (Some 1)) uw_step [Marked ''a'', Marked ''b''] u
     \<and> uw_ids u = [''b''] \<and> uw_evictions u = 1 \<and> length (uw_ids u) \<le> max 1 1"
proof -
  let ?u = "markPending ''b'' (markPending ''a'' (new_UnconfirmedWrites (Some 1)))"
  have 0: "run (\<lambda>u. u = new_UnconfirmedWrites (Some 1)) uw_step [] (new_UnconfirmedWrites (Some 1))" by (rule run_init) simp
  have "run (\<lambda>u. u = new_UnconfirmedWrites (Some 1)) uw_step (([] @ [Marked ''a'']) @ [Marked ''b'']) ?u"
    by (rule run_step [OF run_step [OF 0 uw_step.mark] uw_step.mark])
  then have r: "run (\<lambda>u. u = new_UnconfirmedWrites (Some 1)) uw_step [Marked ''a'', Marked ''b''] ?u" by simp
  from echo_recognised_at_most_once [OF r] r show ?thesis
    by (intro exI [of _ ?u]) (simp add: markPending_def evict_oldest_def new_UnconfirmedWrites_def)
qed

text \<open>
  The retry limit of the confirmation tracker is never reached: over every run the map of
  retry counts is empty between callbacks, because re-scheduling cancels the old timeout
  and cancelling deletes the count that was just written. So no transaction is ever
  persisted as still awaiting, and the escalation after five retries does not happen.
\<close>

theorem confirmation_retries_never_exhausted:
  assumes "run (\<lambda>t. t = new_DeltaConfirmationTracker) tracker_step evs t"
  shows "dc_retries t = [] \<and> (\<forall>i. PersistAwaiting i \<notin> set evs \<and> RetriesExhausted i \<notin> set evs)"
  using tracker_runs.holds [OF assms] by (simp add: tracker_inv_def)

definition retried_tracker :: "nat \<Rightarrow> DeltaConfirmationTracker" where
  "retried_tracker n = new_DeltaConfirmationTracker\<lparr>dc_timeouts := [(''f1'', min (30000 * 2 ^ n) 120000, True)]\<rparr>"

lemma retried_tracker_fires:
  "timeout_fires (store_get awaiting_store) True ''f1'' (retried_tracker n) =
     Some (retried_tracker (Suc n), [ReconciliationNeeded ''f1'' 1])"
  by (simp add: timeout_fires_def timeout_callback_def retried_tracker_def new_DeltaConfirmationTracker_def
      scheduleDeltaConfirmationTimeout_def cancelDeltaConfirmationTimeout_def DELTA_MAX_RETRIES_def
      DELTA_MAX_TIMEOUT_MS_def awaiting_store_def store_get_def store_add_def index_add_def new_MutationStore_def
      update_example_def blank_mutation_def min_def)

lemma retried_tracker_run:
  "run (\<lambda>t. t = new_DeltaConfirmationTracker) tracker_step (replicate n (ReconciliationNeeded ''f1'' 1)) (retried_tracker n)"
proof (induction n)
  case 0
  have "tracker_step new_DeltaConfirmationTracker [] (scheduleDeltaConfirmationTimeout ''f1'' 30000 new_DeltaConfirmationTracker)"
    by (rule tracker_step.schedule)
  moreover have "run (\<lambda>t. t = new_DeltaConfirmationTracker) tracker_step [] new_DeltaConfirmationTracker"
    by (rule run_init) simp
  ultimately have "run (\<lambda>t. t = new_DeltaConfirmationTracker) tracker_step ([] @ [])
      (scheduleDeltaConfirmationTimeout ''f1'' 30000 new_DeltaConfirmationTracker)"
    by (rule run_step [rotated])
  then show ?case
    by (simp add: retried_tracker_def new_DeltaConfirmationTracker_def scheduleDeltaConfirmationTimeout_def
        cancelDeltaConfirmationTimeout_def)
next
  case (Suc n)
  from run_step [OF Suc tracker_step.fires [OF retried_tracker_fires]] show ?case
    by (simp add: replicate_append_same)
qed

theorem confirmation_retries_never_exhausted_witness:
  "dc_retries (retried_tracker 20) = []
   \<and> (\<forall>i. PersistAwaiting i \<notin> set (replicate 20 (ReconciliationNeeded ''f1'' 1)))"
  using confirmation_retries_never_exhausted [OF retried_tracker_run [of 20]] by blast

end
