(* ===== verification/FailureHandling.thy ===== *)
theory FailureHandling
  imports DeltaConfirmation
begin

section \<open>Failed commits\<close>

text \<open>
  Model of \<open>packages/humans/src/local/transactions/mutations/failurePolicy.ts\<close> (which errors are
  final), \<open>failureHandling.ts\<close> (retry with backoff, or fail and roll back) and
  \<open>processingScheduler.ts\<close> (when the next batch runs).

  The registry of error codes is the argument \<open>spec\<close>, which says for a code whether it may
  be retried. An error is reduced to what the functions read of it. \<open>Date.now()\<close> is \<open>now\<close> and
  \<open>Math.random()\<close> is \<open>rnd\<close>, with \<open>0 \<le> rnd < 1\<close>.
\<close>

subsection \<open>Classification\<close>

record queue_error =
  err_connection :: bool
  err_code :: "string option"
  err_message :: string
  err_status :: "int option"
  err_responseErrors :: nat

fun str_includes :: "string \<Rightarrow> string \<Rightarrow> bool" where
  "str_includes [] pat = (pat = [])"
| "str_includes (c # cs) pat = (take (length pat) (c # cs) = pat \<or> str_includes cs pat)"

definition TRANSPORT_MESSAGES :: "string list" where
  "TRANSPORT_MESSAGES = [''failed to fetch'', ''fetch failed'', ''network error'', ''networkerror'',
     ''connection refused'', ''connection reset'', ''timeout'', ''econnrefused'', ''econnreset'', ''etimedout'',
     ''socket hang up'']"

definition transport_message :: "queue_error \<Rightarrow> bool" where
  "transport_message e = list_ex (str_includes (toLowerCase (err_message e))) TRANSPORT_MESSAGES"

text \<open>An empty code is falsy, so it is not looked up.\<close>

definition code_spec :: "(string \<Rightarrow> bool option) \<Rightarrow> queue_error \<Rightarrow> bool option" where
  "code_spec spec e = (case err_code e of None \<Rightarrow> None | Some c \<Rightarrow> if c = [] then None else spec c)"

definition isPermanentError :: "(string \<Rightarrow> bool option) \<Rightarrow> queue_error \<Rightarrow> bool" where
  "isPermanentError spec e =
     (if err_connection e then False
      else case code_spec spec e of
          Some retryable \<Rightarrow> \<not> retryable
        | None \<Rightarrow>
            if transport_message e then False
            else (case err_status e of
                Some status \<Rightarrow> status < 500 \<and> status \<noteq> 429
              | None \<Rightarrow> err_responseErrors e = 0))"

definition isDefinitiveRejection :: "(string \<Rightarrow> bool option) \<Rightarrow> queue_error \<Rightarrow> bool" where
  "isDefinitiveRejection spec e =
     (if err_connection e then False
      else case code_spec spec e of
          Some retryable \<Rightarrow> \<not> retryable
        | None \<Rightarrow> (case err_status e of
              None \<Rightarrow> False
            | Some status \<Rightarrow> 400 \<le> status \<and> status < 500 \<and> status \<noteq> 429))"

subsection \<open>Backoff\<close>

record retry_backoff =
  rb_baseMs :: int
  rb_capMs :: int

definition retry_ceiling :: "queue_error \<Rightarrow> nat \<Rightarrow> retry_backoff \<Rightarrow> int" where
  "retry_ceiling e attempt rb =
     (let base = (if err_status e = Some 429 \<or> err_status e = Some 503 then max (rb_baseMs rb) 1000 else rb_baseMs rb)
      in min (rb_capMs rb) (base * 2 ^ (attempt - 1)))"

definition transientRetryDelayMs :: "queue_error \<Rightarrow> nat \<Rightarrow> retry_backoff \<Rightarrow> real \<Rightarrow> int" where
  "transientRetryDelayMs e attempt rb rnd = \<lfloor>rnd * real_of_int (retry_ceiling e attempt rb)\<rfloor>"

subsection \<open>Handling a failed transaction\<close>

record failure_config =
  fc_enableOptimistic :: bool
  fc_maxRetries :: nat
  fc_retryBackoff :: retry_backoff
  fc_availabilityRetryWindowMs :: int

datatype failure_effect =
    ReportPermanentFailure string
  | RollbackOptimistic string string
  | EmitFailed string bool
  | ScheduleRetry string int

text \<open>Assigning to a field of the shared transaction object.\<close>

definition store_modify :: "string \<Rightarrow> (QueuedMutation \<Rightarrow> QueuedMutation) \<Rightarrow> MutationStore \<Rightarrow> MutationStore" where
  "store_modify i f s = (case store_get s i of
      None \<Rightarrow> s
    | Some tx \<Rightarrow> s\<lparr>ms_transactions := AList.update i (f tx) (ms_transactions s)\<rparr>)"

definition fail_and_rollback :: "failure_config \<Rightarrow> string \<Rightarrow> string \<Rightarrow> bool \<Rightarrow> MutationStore
    \<Rightarrow> MutationStore \<times> failure_effect list" where
  "fail_and_rollback cfg i reason permanent s =
     (updateStatus i Failed s,
      (if fc_enableOptimistic cfg then [RollbackOptimistic i reason] else []) @ [EmitFailed i permanent])"

definition handleFailure :: "failure_config \<Rightarrow> (queue_error \<Rightarrow> bool) \<Rightarrow> int \<Rightarrow> real \<Rightarrow> string \<Rightarrow> queue_error
    \<Rightarrow> MutationStore \<Rightarrow> MutationStore \<times> failure_effect list" where
  "handleFailure cfg permanent now rnd i e s = (case store_get s i of
      None \<Rightarrow> (s, [])
    | Some tx \<Rightarrow>
        if qm_status tx \<in> {Completed, Failed, RolledBack, AwaitingDelta} then (s, [])
        else
          let attempts = qm_attempts tx + 1;
              s1 = store_modify i (\<lambda>tx. tx\<lparr>qm_attempts := attempts\<rparr>) s
          in if permanent e then
               (case fail_and_rollback cfg i ''permanent_error'' True s1 of (s2, es) \<Rightarrow> (s2, ReportPermanentFailure i # es))
             else
               let first = (case qm_firstTransientFailureAt tx of None \<Rightarrow> now | Some n \<Rightarrow> n);
                   s2 = store_modify i (\<lambda>tx. tx\<lparr>qm_firstTransientFailureAt := Some first\<rparr>) s1;
                   insideAvailabilityWindow = (now - first < fc_availabilityRetryWindowMs cfg)
               in if attempts < fc_maxRetries cfg \<or> insideAvailabilityWindow
                  then (updateStatus i Pending s2,
                        [ScheduleRetry i (transientRetryDelayMs e attempts (fc_retryBackoff cfg) rnd)])
                  else fail_and_rollback cfg i ''max_retries_exhausted'' False s2)"

text \<open>The callback of a scheduled retry enqueues the transaction only if it is still pending.\<close>

definition retry_callback :: "priority_config \<Rightarrow> MutationStore \<Rightarrow> QueuedMutation list \<Rightarrow> string \<Rightarrow> QueuedMutation list" where
  "retry_callback cfg s queue i = (case store_get s i of
      None \<Rightarrow> queue
    | Some tx \<Rightarrow> if qm_status tx \<noteq> Pending then queue else fst (enqueueTransaction cfg queue tx))"

subsection \<open>Scheduling the next batch\<close>

datatype schedule_effect = RunMicrotask | StartTimer int

record scheduler_state =
  sch_processScheduled :: bool
  sch_executingCount :: int
  sch_maxExecuting :: int
  sch_batchDelay :: int

definition scheduleProcessing :: "bool \<Rightarrow> scheduler_state \<Rightarrow> scheduler_state \<times> schedule_effect list" where
  "scheduleProcessing immediate st =
     (if sch_processScheduled st \<or> sch_maxExecuting st \<le> sch_executingCount st then (st, [])
      else (st\<lparr>sch_processScheduled := True\<rparr>,
            if immediate \<or> sch_batchDelay st \<le> 0 then [RunMicrotask] else [StartTimer (max 0 (sch_batchDelay st))]))"

text \<open>\<open>run\<close> clears the flag before the batch is processed.\<close>

definition scheduled_run :: "scheduler_state \<Rightarrow> scheduler_state" where
  "scheduled_run st = st\<lparr>sch_processScheduled := False\<rparr>"

subsection \<open>Lemmas\<close>

lemma store_modify_get:
  "store_get (store_modify i f s) j = (if j = i then map_option f (store_get s i) else store_get s j)"
  by (auto simp: store_modify_def split: option.splits)

lemma fail_and_rollback_simps [simp]:
  "fst (fail_and_rollback cfg i reason p s) = updateStatus i Failed s"
  "EmitFailed j q \<in> set (snd (fail_and_rollback cfg i reason p s)) \<longleftrightarrow> j = i \<and> q = p"
  "ScheduleRetry j d \<notin> set (snd (fail_and_rollback cfg i reason p s))"
  by (auto simp: fail_and_rollback_def)

lemma retry_ceiling_bounds:
  assumes "0 < rb_baseMs rb" and "0 < rb_capMs rb"
  shows "0 < retry_ceiling e n rb \<and> retry_ceiling e n rb \<le> rb_capMs rb"
  using assms by (auto simp: retry_ceiling_def Let_def)

lemma retry_delay_bounds:
  assumes "0 < rb_baseMs rb" and "0 < rb_capMs rb" and "0 \<le> rnd" and "rnd < 1"
  shows "0 \<le> transientRetryDelayMs e n rb rnd \<and> transientRetryDelayMs e n rb rnd < rb_capMs rb"
proof -
  let ?c = "retry_ceiling e n rb"
  have c: "0 < ?c" "?c \<le> rb_capMs rb" using retry_ceiling_bounds [OF assms(1,2)] by auto
  have "rnd * real_of_int ?c < real_of_int ?c" using assms(4) c(1) by simp
  then have "\<lfloor>rnd * real_of_int ?c\<rfloor> < ?c" by (simp add: floor_less_iff)
  moreover have "0 \<le> \<lfloor>rnd * real_of_int ?c\<rfloor>" using assms(3) c(1) by simp
  ultimately show ?thesis using c(2) by (simp add: transientRetryDelayMs_def)
qed

subsection \<open>Properties\<close>

text \<open>
  C35. A failed commit is never lost silently: handling the failure of a transaction that is
  not settled leaves it pending with exactly one retry scheduled, within the cap of the
  backoff, or failed with its failure event emitted; a permanent error is never retried, and
  a transient one always is while attempts or the availability window remain. A
  transaction that was settled meanwhile, or awaits its delta, is left alone.
\<close>

theorem failed_commit_is_retried_or_reported:
  assumes "store_get s i = Some tx" and "handleFailure cfg permanent now rnd i e s = (s', es)"
    and "0 < rb_baseMs (fc_retryBackoff cfg)" and "0 < rb_capMs (fc_retryBackoff cfg)" and "0 \<le> rnd" and "rnd < 1"
  shows "if qm_status tx \<in> {Completed, Failed, RolledBack, AwaitingDelta} then s' = s \<and> es = []
    else if \<not> permanent e \<and> (qm_attempts tx + 1 < fc_maxRetries cfg
        \<or> now - (case qm_firstTransientFailureAt tx of None \<Rightarrow> now | Some n \<Rightarrow> n) < fc_availabilityRetryWindowMs cfg)
    then map_option qm_status (store_get s' i) = Some Pending
      \<and> (\<exists>d. es = [ScheduleRetry i d] \<and> 0 \<le> d \<and> d < rb_capMs (fc_retryBackoff cfg))
    else map_option qm_status (store_get s' i) = Some Failed \<and> EmitFailed i (permanent e) \<in> set es
      \<and> (\<forall>d. ScheduleRetry i d \<notin> set es)"
proof (cases "qm_status tx \<in> {Completed, Failed, RolledBack, AwaitingDelta}")
  case True
  with assms(1,2) show ?thesis by (simp add: handleFailure_def)
next
  case False
  have "s' = fst (handleFailure cfg permanent now rnd i e s)" "es = snd (handleFailure cfg permanent now rnd i e s)"
    using assms(2) by simp_all
  with False show ?thesis
    using assms(1) retry_delay_bounds [OF assms(3-6)]
    by (auto simp: handleFailure_def Let_def updateStatus_get store_modify_get split_def)
qed

definition failure_example :: failure_config where
  "failure_example = \<lparr>fc_enableOptimistic = True, fc_maxRetries = 3, fc_retryBackoff = \<lparr>rb_baseMs = 100, rb_capMs = 5000\<rparr>,
     fc_availabilityRetryWindowMs = 60000\<rparr>"

definition gateway_error :: queue_error where
  "gateway_error = \<lparr>err_connection = False, err_code = None, err_message = ''bad gateway'', err_status = Some 502,
     err_responseErrors = 0\<rparr>"

theorem failed_commit_is_retried_or_reported_witness:
  "\<exists>d. snd (handleFailure failure_example (isPermanentError (\<lambda>_. None)) 0 (1 / 2) ''t1'' gateway_error store_example) =
       [ScheduleRetry ''t1'' d] \<and> 0 \<le> d \<and> d < 5000"
proof -
  obtain s' es where h: "handleFailure failure_example (isPermanentError (\<lambda>_. None)) 0 (1 / 2) ''t1'' gateway_error store_example = (s', es)"
    by fastforce
  have g: "store_get store_example ''t1'' = Some (update_example ''t1'' ''title'' VNull)"
    by (simp add: store_example_def updateStatus_def store_add_def index_add_def index_delete_def store_get_def
        new_MutationStore_def update_example_def blank_mutation_def ids_with_def)
  have "\<not> isPermanentError (\<lambda>_. None) gateway_error"
    by (simp add: isPermanentError_def gateway_error_def code_spec_def)
  with failed_commit_is_retried_or_reported [OF g h] show ?thesis
    unfolding h by (simp add: failure_example_def update_example_def blank_mutation_def)
qed

text \<open>
  The two classifications of an error agree but for one case: a definitive rejection
  is permanent exactly unless the error has no registered code and its message mentions a
  transport failure. In that case the durable record of the commit is removed while the
  commit stays queued for a retry.
\<close>

theorem definitive_rejection_permanent_iff:
  assumes "isDefinitiveRejection spec e"
  shows "isPermanentError spec e \<longleftrightarrow> code_spec spec e \<noteq> None \<or> \<not> transport_message e"
  using assms
  by (auto simp: isDefinitiveRejection_def isPermanentError_def split: if_splits option.splits)

definition statement_timeout :: queue_error where
  "statement_timeout = \<lparr>err_connection = False, err_code = None, err_message = ''statement timeout'', err_status = Some 422,
     err_responseErrors = 0\<rparr>"

theorem definitive_rejection_permanent_iff_witness:
  "isDefinitiveRejection (\<lambda>_. None) statement_timeout \<and> \<not> isPermanentError (\<lambda>_. None) statement_timeout"
proof -
  have "isDefinitiveRejection (\<lambda>_. None) statement_timeout"
    by (simp add: isDefinitiveRejection_def statement_timeout_def code_spec_def)
  moreover have "transport_message statement_timeout" "code_spec (\<lambda>_. None) statement_timeout = None"
    by (simp_all add: transport_message_def statement_timeout_def TRANSPORT_MESSAGES_def toLowerCase_def lower_char_def
        code_spec_def)
  ultimately show ?thesis using definitive_rejection_permanent_iff by blast
qed

end
