(* ===== verification/CommitLane.thy ===== *)
theory CommitLane
  imports FailureHandling
begin

section \<open>The atomic commit lane\<close>

text \<open>
  Model of \<open>packages/humans/src/local/transactions/mutations/commitLane.ts\<close> with the parts it
  calls: sealing and acceptance from \<open>commitTransport.ts\<close>, and the replay window and the
  completion of queued commits from \<open>MutationQueue.ts\<close>. The lane dispatches one commit at a
  time, in order, and keeps a commit at its head while it is being retried.

  Each attempt meets an environment \<open>attempt_env\<close>: the clock, what the outbox and the transport
  answer, and the echo that may already have been seen. The lane is modelled as a
  function of the commits and of one environment for every attempt; a list of environments that
  runs out is an attempt still waiting for its answer. What the code sends, schedules and
  emits is the list of effects.
\<close>

subsection \<open>Data\<close>

record DurableCommitEnvelope =
  de_idempotencyKey :: string
  de_operations :: "wire_operation list"
  de_sealedAt :: int
  de_acceptedAt :: "int option"
  de_correlationId :: "string option"

record CommitTransaction =
  ct_id :: string
  ct_operations :: "wire_operation list"
  ct_status :: mutation_status
  ct_attempts :: nat
  ct_transientAttempts :: nat
  ct_firstTransientFailureAt :: "int option"
  ct_lastSyncId :: "int option"
  ct_correlationId :: "string option"
  ct_error :: "queue_error option"
  ct_sealedAt :: int
  ct_durableEnvelope :: "DurableCommitEnvelope option"

datatype MutationCommitResult = ResultQueued int "string option" | ResultConfirmed int

record attempt_env =
  ae_now :: int
  ae_rnd :: real
  ae_sealFails :: "queue_error option"
  ae_dispatch :: "queue_error + MutationCommitResult"
  ae_acceptFails :: "queue_error option"
  ae_echo :: "int option"

datatype lane_effect =
    Dispatched string "wire_operation list"
  | RemovedDurable string
  | AcceptancePersisted string
  | NotedAck int
  | LaneCompleted string
  | LaneFailed string
  | LagTimeoutScheduled string
  | SourceReconciled string
  | LaneRetryScheduled int

definition DURABLE_REPLAY_WINDOW_MS :: int where
  "DURABLE_REPLAY_WINDOW_MS = 23 * 60 * 60 * 1000"

definition coded_error :: "bool \<Rightarrow> string \<Rightarrow> queue_error" where
  "coded_error conn code = \<lparr>err_connection = conn, err_code = Some code, err_message = [], err_status = None,
     err_responseErrors = 0\<rparr>"

subsection \<open>Sealing, the replay window and acceptance\<close>

definition seal_commit :: "CommitTransaction \<Rightarrow> DurableCommitEnvelope" where
  "seal_commit tx = \<lparr>de_idempotencyKey = ct_id tx, de_operations = ct_operations tx, de_sealedAt = ct_sealedAt tx,
     de_acceptedAt = None, de_correlationId = None\<rparr>"

text \<open>The second component is \<open>durableReplayBlock\<close> afterwards.\<close>

definition assertEnvelopeInsideReplayWindow :: "int \<Rightarrow> bool \<Rightarrow> DurableCommitEnvelope \<Rightarrow> queue_error option \<times> bool" where
  "assertEnvelopeInsideReplayWindow now block envelope =
     (if block then (Some (coded_error False ''idempotency_conflict''), block)
      else if de_acceptedAt envelope = None \<and> DURABLE_REPLAY_WINDOW_MS \<le> now - de_sealedAt envelope
      then (Some (coded_error False ''idempotency_conflict''), True)
      else (None, block))"

definition persistDurableCommitAcceptance :: "int \<Rightarrow> queue_error option \<Rightarrow> DurableCommitEnvelope
    \<Rightarrow> MutationCommitResult \<Rightarrow> queue_error + DurableCommitEnvelope" where
  "persistDurableCommitAcceptance now acceptFails envelope result = (case result of
      ResultConfirmed _ \<Rightarrow> Inr envelope
    | ResultQueued _ correlationId \<Rightarrow> (case correlationId of
          None \<Rightarrow> Inl (coded_error True ''commit_no_result'')
        | Some c \<Rightarrow>
            if c = [] then Inl (coded_error True ''commit_no_result'')
            else if de_correlationId envelope \<noteq> None \<and> de_correlationId envelope \<noteq> Some c
            then Inl (coded_error False ''idempotency_conflict'')
            else if de_acceptedAt envelope \<noteq> None then Inr envelope
            else (case acceptFails of
                Some e \<Rightarrow> Inl e
              | None \<Rightarrow> Inr (envelope\<lparr>de_acceptedAt := Some (max now (de_sealedAt envelope)), de_correlationId := Some c\<rparr>))))"

subsection \<open>One attempt\<close>

text \<open>
  The \<open>try\<close> block up to the result: the transaction with its envelope, whether the dispatch
  started, the replay block, the effects, and the result or the error thrown.
\<close>

definition try_commit :: "attempt_env \<Rightarrow> bool \<Rightarrow> CommitTransaction
    \<Rightarrow> CommitTransaction \<times> bool \<times> bool \<times> lane_effect list \<times> (queue_error + MutationCommitResult)" where
  "try_commit ae block tx0 =
     (let tx = tx0\<lparr>ct_status := Executing, ct_attempts := ct_attempts tx0 + 1\<rparr> in
      case (case ct_durableEnvelope tx of
          Some envelope \<Rightarrow> Inr envelope
        | None \<Rightarrow> (case ae_sealFails ae of Some e \<Rightarrow> Inl e | None \<Rightarrow> Inr (seal_commit tx))) of
        Inl e \<Rightarrow> (tx, False, block, [], Inl e)
      | Inr envelope \<Rightarrow>
          let tx1 = tx\<lparr>ct_durableEnvelope := Some envelope\<rparr> in
          case assertEnvelopeInsideReplayWindow (ae_now ae) block envelope of
            (Some e, block1) \<Rightarrow> (tx1, False, block1, [], Inl e)
          | (None, block1) \<Rightarrow>
              let sent = Dispatched (de_idempotencyKey envelope) (de_operations envelope) in
              case ae_dispatch ae of
                Inl e \<Rightarrow> (tx1, True, block1, [sent], Inl e)
              | Inr result \<Rightarrow> (case persistDurableCommitAcceptance (ae_now ae) (ae_acceptFails ae) envelope result of
                    Inl e \<Rightarrow> (tx1, True, block1, [sent], Inl e)
                  | Inr accepted \<Rightarrow> (tx1\<lparr>ct_durableEnvelope := Some accepted\<rparr>, True, block1, [sent], Inr result)))"

definition completeQueuedCommit :: "int \<Rightarrow> CommitTransaction \<Rightarrow> CommitTransaction \<times> lane_effect list" where
  "completeQueuedCommit syncId tx =
     (if ct_status tx \<noteq> AwaitingDelta then (tx, [])
      else (tx\<lparr>ct_lastSyncId := Some syncId, ct_status := Completed\<rparr>, [RemovedDurable (ct_id tx), LaneCompleted (ct_id tx)]))"

text \<open>After the result: the commit has left the lane and is settled or awaits its echo.\<close>

definition settle_commit :: "attempt_env \<Rightarrow> CommitTransaction \<Rightarrow> MutationCommitResult
    \<Rightarrow> CommitTransaction \<times> lane_effect list" where
  "settle_commit ae tx result = (case result of
      ResultQueued lastSyncId correlationId \<Rightarrow>
        let tx1 = tx\<lparr>ct_status := AwaitingDelta, ct_lastSyncId := Some lastSyncId, ct_correlationId := correlationId\<rparr> in
        (case ae_echo ae of
           Some syncId \<Rightarrow> completeQueuedCommit syncId tx1
         | None \<Rightarrow> (tx1, [LagTimeoutScheduled (ct_id tx1), SourceReconciled (ct_id tx1)]))
    | ResultConfirmed lastSyncId \<Rightarrow>
        (tx\<lparr>ct_status := Completed, ct_lastSyncId := Some lastSyncId\<rparr>,
         [RemovedDurable (ct_id tx), NotedAck lastSyncId, LaneCompleted (ct_id tx)]))"

text \<open>The \<open>catch\<close> block; the flag says that the commit stays at the head and the loop stops.\<close>

definition fail_commit :: "failure_config \<Rightarrow> (string \<Rightarrow> bool option) \<Rightarrow> attempt_env \<Rightarrow> bool \<Rightarrow> queue_error
    \<Rightarrow> CommitTransaction \<Rightarrow> bool \<times> CommitTransaction \<times> lane_effect list" where
  "fail_commit cfg spec ae dispatchStarted e tx =
     (let removed = (if dispatchStarted \<and> isDefinitiveRejection spec e then [RemovedDurable (ct_id tx)] else []);
          transientAttempts = ct_transientAttempts tx + 1;
          first = (case ct_firstTransientFailureAt tx of None \<Rightarrow> ae_now ae | Some n \<Rightarrow> n);
          tx1 = tx\<lparr>ct_transientAttempts := transientAttempts, ct_firstTransientFailureAt := Some first\<rparr>;
          outsideAvailabilityWindow = (fc_availabilityRetryWindowMs cfg \<le> ae_now ae - first);
          exhausted = (fc_maxRetries cfg < transientAttempts \<and> outsideAvailabilityWindow)
      in if \<not> isPermanentError spec e \<and> \<not> exhausted
         then (True, tx1\<lparr>ct_status := Pending\<rparr>,
               removed @ [LaneRetryScheduled (transientRetryDelayMs e transientAttempts (fc_retryBackoff cfg) (ae_rnd ae))])
         else (False, tx1\<lparr>ct_status := Failed, ct_error := Some e\<rparr>, removed @ [LaneFailed (ct_id tx)]))"

definition lane_attempt :: "failure_config \<Rightarrow> (string \<Rightarrow> bool option) \<Rightarrow> attempt_env \<Rightarrow> bool \<Rightarrow> CommitTransaction
    \<Rightarrow> bool \<times> CommitTransaction \<times> bool \<times> lane_effect list" where
  "lane_attempt cfg spec ae block tx = (case try_commit ae block tx of
      (tx1, dispatchStarted, block1, sent, Inr result) \<Rightarrow>
        (case settle_commit ae tx1 result of (tx2, es) \<Rightarrow> (False, tx2, block1, sent @ es))
    | (tx1, dispatchStarted, block1, sent, Inl e) \<Rightarrow>
        (case fail_commit cfg spec ae dispatchStarted e tx1 of (keep, tx2, es) \<Rightarrow> (keep, tx2, block1, sent @ es)))"

subsection \<open>The loop\<close>

text \<open>
  The result is the lane that is left, the commits that left it after an attempt, in
  order, the replay block and the effects.
\<close>

fun lane_loop :: "failure_config \<Rightarrow> (string \<Rightarrow> bool option) \<Rightarrow> attempt_env list \<Rightarrow> bool \<Rightarrow> CommitTransaction list
    \<Rightarrow> CommitTransaction list \<times> CommitTransaction list \<times> bool \<times> lane_effect list" where
  "lane_loop cfg spec aes block [] = ([], [], block, [])"
| "lane_loop cfg spec aes block (tx # rest) =
     (if ct_status tx \<noteq> Pending then lane_loop cfg spec aes block rest
      else case aes of
        [] \<Rightarrow> (tx\<lparr>ct_status := Executing, ct_attempts := ct_attempts tx + 1\<rparr> # rest, [], block, [])
      | ae # aes1 \<Rightarrow> (case lane_attempt cfg spec ae block tx of
            (keep, tx1, block1, es) \<Rightarrow>
              if keep then (tx1 # rest, [], block1, es)
              else (case lane_loop cfg spec aes1 block1 rest of
                  (lane, left, block2, es2) \<Rightarrow> (lane, tx1 # left, block2, es @ es2))))"

definition processCommitLane :: "failure_config \<Rightarrow> (string \<Rightarrow> bool option) \<Rightarrow> attempt_env list \<Rightarrow> bool \<Rightarrow> bool
    \<Rightarrow> CommitTransaction list \<Rightarrow> CommitTransaction list \<times> CommitTransaction list \<times> bool \<times> lane_effect list" where
  "processCommitLane cfg spec aes commitProcessing block lane =
     (if commitProcessing \<or> block then (lane, [], block, []) else lane_loop cfg spec aes block lane)"

subsection \<open>Recent correlations\<close>

definition rememberDeltaCorrelation :: "string \<Rightarrow> int \<Rightarrow> (string \<times> int) list \<Rightarrow> (string \<times> int) list" where
  "rememberDeltaCorrelation correlationId syncId target =
     (let t = AList.delete correlationId target @ [(correlationId, syncId)]
      in if length t \<le> 2048 then t else tl t)"

subsection \<open>Lemmas\<close>

text \<open>A sealed commit carries its own key and operations.\<close>

definition sealed_ok :: "CommitTransaction \<Rightarrow> bool" where
  "sealed_ok tx = (case ct_durableEnvelope tx of
      None \<Rightarrow> True
    | Some e \<Rightarrow> de_idempotencyKey e = ct_id tx \<and> de_operations e = ct_operations tx)"

lemma persistAcceptance_same:
  "persistDurableCommitAcceptance now af e r = Inr e' \<Longrightarrow>
     de_idempotencyKey e' = de_idempotencyKey e \<and> de_operations e' = de_operations e"
  by (auto simp: persistDurableCommitAcceptance_def split: MutationCommitResult.splits option.splits if_splits)

lemma try_commit_keeps:
  assumes "try_commit ae block tx = (tx1, started, block1, sent, r)" and "sealed_ok tx"
  shows "ct_id tx1 = ct_id tx \<and> ct_operations tx1 = ct_operations tx \<and> sealed_ok tx1
    \<and> set sent \<subseteq> {Dispatched (ct_id tx) (ct_operations tx)}"
  using assms
  by (auto simp: try_commit_def Let_def sealed_ok_def seal_commit_def dest!: persistAcceptance_same
      split: option.splits sum.splits prod.splits)

lemma settle_commit_keeps:
  assumes "settle_commit ae tx result = (tx2, es)"
  shows "ct_id tx2 = ct_id tx \<and> ct_operations tx2 = ct_operations tx \<and> ct_durableEnvelope tx2 = ct_durableEnvelope tx
    \<and> ct_status tx2 \<in> {Completed, AwaitingDelta} \<and> (\<forall>d. LaneRetryScheduled d \<notin> set es) \<and> (\<forall>k ops. Dispatched k ops \<notin> set es)
    \<and> (ct_status tx2 = Completed \<longrightarrow> LaneCompleted (ct_id tx) \<in> set es)"
  using assms
  by (auto simp: settle_commit_def completeQueuedCommit_def Let_def split: MutationCommitResult.splits option.splits)

lemma fail_commit_keeps:
  assumes "fail_commit cfg spec ae started e tx = (keep, tx2, es)"
  shows "ct_id tx2 = ct_id tx \<and> ct_operations tx2 = ct_operations tx \<and> ct_durableEnvelope tx2 = ct_durableEnvelope tx
    \<and> (\<forall>k ops. Dispatched k ops \<notin> set es)
    \<and> (if keep then ct_status tx2 = Pending \<and> (\<exists>d. LaneRetryScheduled d \<in> set es) \<and> \<not> isPermanentError spec e
       else ct_status tx2 = Failed \<and> LaneFailed (ct_id tx) \<in> set es \<and> (\<forall>d. LaneRetryScheduled d \<notin> set es))"
  using assms by (auto simp: fail_commit_def Let_def split: if_splits)

text \<open>How a commit comes out of an attempt.\<close>

definition left_ok :: "lane_effect list \<Rightarrow> CommitTransaction \<Rightarrow> bool" where
  "left_ok es tx \<longleftrightarrow> (ct_status tx = Completed \<and> LaneCompleted (ct_id tx) \<in> set es) \<or> ct_status tx = AwaitingDelta
     \<or> (ct_status tx = Failed \<and> LaneFailed (ct_id tx) \<in> set es)"

lemma lane_attempt_keeps:
  assumes "lane_attempt cfg spec ae block tx = (keep, tx2, block1, es)" and "sealed_ok tx"
  shows "ct_id tx2 = ct_id tx \<and> ct_operations tx2 = ct_operations tx \<and> sealed_ok tx2
    \<and> (\<forall>k ops. Dispatched k ops \<in> set es \<longrightarrow> k = ct_id tx \<and> ops = ct_operations tx)
    \<and> (if keep then ct_status tx2 = Pending \<and> (\<exists>d. LaneRetryScheduled d \<in> set es) else left_ok es tx2)"
proof -
  obtain tx1 started b1 sent r where t: "try_commit ae block tx = (tx1, started, b1, sent, r)"
    by (metis prod_cases5)
  note k = try_commit_keeps [OF t assms(2)]
  show ?thesis
  proof (cases r)
    case (Inl e)
    then obtain es2 where "fail_commit cfg spec ae started e tx1 = (keep, tx2, es2)" "es = sent @ es2"
      using assms(1) t by (auto simp: lane_attempt_def split: prod.splits)
    with fail_commit_keeps [OF this(1)] k show ?thesis by (auto simp: sealed_ok_def left_ok_def split: option.splits)
  next
    case (Inr result)
    then obtain es2 where "settle_commit ae tx1 result = (tx2, es2)" "es = sent @ es2" "\<not> keep"
      using assms(1) t by (auto simp: lane_attempt_def split: prod.splits)
    with settle_commit_keeps [OF this(1)] k show ?thesis by (auto simp: sealed_ok_def left_ok_def split: option.splits)
  qed
qed

lemma lane_loop_order:
  assumes "lane_loop cfg spec aes block lane = (lane', left, block', es)" and "list_all sealed_ok lane"
  shows "\<exists>passed rest. lane = passed @ rest \<and> map ct_id left = map ct_id (filter (\<lambda>tx. ct_status tx = Pending) passed)
    \<and> map ct_id lane' = map ct_id rest \<and> tl lane' = tl rest
    \<and> list_all (left_ok es) left \<and> list_all sealed_ok lane'
    \<and> (\<forall>k ops. Dispatched k ops \<in> set es \<longrightarrow> (\<exists>tx \<in> set lane. k = ct_id tx \<and> ops = ct_operations tx))"
  using assms
proof (induction lane arbitrary: aes block lane' left block' es)
  case Nil
  then show ?case by simp
next
  case (Cons tx lane)
  consider (skip) "ct_status tx \<noteq> Pending" | (wait) "ct_status tx = Pending" "aes = []"
    | (go) ae aes1 where "ct_status tx = Pending" "aes = ae # aes1" by (cases aes) auto
  then show ?case
  proof cases
    case skip
    with Cons.prems have "lane_loop cfg spec aes block lane = (lane', left, block', es)" "list_all sealed_ok lane" by simp_all
    from Cons.IH [OF this] obtain passed rest where p: "lane = passed @ rest"
      "map ct_id left = map ct_id (filter (\<lambda>tx. ct_status tx = Pending) passed)" "map ct_id lane' = map ct_id rest"
      "tl lane' = tl rest" "list_all (left_ok es) left" "list_all sealed_ok lane'"
      "\<forall>k ops. Dispatched k ops \<in> set es \<longrightarrow> (\<exists>tx \<in> set lane. k = ct_id tx \<and> ops = ct_operations tx)"
      by auto
    with skip show ?thesis by - (rule exI [of _ "tx # passed"], rule exI [of _ rest], auto)
  next
    case wait
    with Cons.prems show ?thesis by - (rule exI [of _ "[]"], rule exI [of _ "tx # lane"], auto simp: sealed_ok_def split: option.splits)
  next
    case go
    obtain keep tx1 b1 es1 where a: "lane_attempt cfg spec ae block tx = (keep, tx1, b1, es1)" by (metis prod_cases4)
    have k: "ct_id tx1 = ct_id tx" "sealed_ok tx1" "keep \<or> left_ok es1 tx1"
      "\<forall>k ops. Dispatched k ops \<in> set es1 \<longrightarrow> k = ct_id tx \<and> ops = ct_operations tx"
      using lane_attempt_keeps [OF a] Cons.prems(2) by (auto split: if_splits)
    show ?thesis
    proof (cases keep)
      case True
      with go a Cons.prems k show ?thesis by - (rule exI [of _ "[]"], rule exI [of _ "tx # lane"], auto)
    next
      case False
      obtain left1 es2 where l: "lane_loop cfg spec aes1 b1 lane = (lane', left1, block', es2)"
        and eq: "left = tx1 # left1" "es = es1 @ es2"
        using go a False Cons.prems(1) by (auto split: prod.splits)
      from Cons.IH [OF l] Cons.prems(2) obtain passed rest where p: "lane = passed @ rest"
        "map ct_id left1 = map ct_id (filter (\<lambda>tx. ct_status tx = Pending) passed)" "map ct_id lane' = map ct_id rest"
        "tl lane' = tl rest" "list_all (left_ok es2) left1" "list_all sealed_ok lane'"
        "\<forall>k ops. Dispatched k ops \<in> set es2 \<longrightarrow> (\<exists>tx \<in> set lane. k = ct_id tx \<and> ops = ct_operations tx)"
        by auto
      have "list_all (left_ok es) left1" using p(5) eq(2) by (auto simp: list_all_iff left_ok_def)
      moreover have "left_ok es tx1" using k(3) False eq(2) by (auto simp: left_ok_def)
      ultimately show ?thesis
        using p k go eq by - (rule exI [of _ "tx # passed"], rule exI [of _ rest], auto)
    qed
  qed
qed

lemma remember_distinct: "distinct (map fst t) \<Longrightarrow> distinct (map fst (rememberDeltaCorrelation c n t))"
proof -
  assume "distinct (map fst t)"
  then have "distinct (map fst (AList.delete c t @ [(c, n)]))"
    using distinct_delete [of t c] by (simp add: delete_keys)
  then show ?thesis by (auto simp: rememberDeltaCorrelation_def Let_def map_tl distinct_tl)
qed

subsection \<open>Properties\<close>


definition commit_example :: "string \<Rightarrow> CommitTransaction" where
  "commit_example i = \<lparr>ct_id = i, ct_operations = [wire_operation_of (update_example i ''title'' VNull)], ct_status = Pending,
     ct_attempts = 0, ct_transientAttempts = 0, ct_firstTransientFailureAt = None, ct_lastSyncId = None,
     ct_correlationId = None, ct_error = None, ct_sealedAt = 0, ct_durableEnvelope = None\<rparr>"

definition env_example :: "queue_error + MutationCommitResult \<Rightarrow> attempt_env" where
  "env_example r = \<lparr>ae_now = 0, ae_rnd = 0, ae_sealFails = None, ae_dispatch = r, ae_acceptFails = None, ae_echo = None\<rparr>"

lemmas lane_eval = processCommitLane_def commit_example_def env_example_def lane_attempt_def try_commit_def settle_commit_def
  fail_commit_def seal_commit_def assertEnvelopeInsideReplayWindow_def persistDurableCommitAcceptance_def
  completeQueuedCommit_def DURABLE_REPLAY_WINDOW_MS_def Let_def


end
