(* ===== verification/ForeignKeys.thy ===== *)
theory ForeignKeys
  imports CommitPayload "HOL-Library.AList"
begin

section \<open>Foreign-key depth of the models\<close>

text \<open>
  Model of \<open>computeFKDepthPriority\<close> in \<open>packages/humans/src/local/client/schemaConfig.ts\<close>: Tarjan's
  algorithm on the graph from each model to the parents its \<open>belongsTo\<close> relations name, the
  longest-path depth on the components it emits, and the create priorities derived from it.

  The maps of the algorithm are partial functions and its stack is a list with the top first.
  The recursion of \<open>strongconnect\<close> is bounded by fuel; a run that needs more is \<open>None\<close>, and as much fuel
  as there are models is shown to be enough.
\<close>

subsection \<open>The graph of a schema\<close>

datatype relation_type = BelongsTo | HasMany | HasOne

record RelationDef =
  rel_type :: relation_type
  rel_target :: string
  rel_defer :: bool

record ModelDef =
  md_typename :: "string option"
  md_relations :: "RelationDef list"

type_synonym fk_schema = "(string \<times> ModelDef) list"

definition keyToTypename :: "fk_schema \<Rightarrow> (string \<times> string) list" where
  "keyToTypename schema = map (\<lambda>(key, def). (key, case md_typename def of None \<Rightarrow> key | Some t \<Rightarrow> t)) schema"

definition parentsOf :: "fk_schema \<Rightarrow> string \<Rightarrow> string list" where
  "parentsOf schema key = (case map_of schema key of
      None \<Rightarrow> []
    | Some def \<Rightarrow> map rel_target (filter (\<lambda>rel. rel_type rel = BelongsTo
        \<and> map_of (keyToTypename schema) (rel_target rel) \<noteq> None \<and> \<not> rel_defer rel) (md_relations def)))"

subsection \<open>Tarjan's algorithm\<close>

record 'v tarjan =
  tj_dfsIndex :: "'v \<Rightarrow> nat option"
  tj_lowlink :: "'v \<Rightarrow> nat option"
  tj_onStack :: "'v \<Rightarrow> bool"
  tj_stack :: "'v list"
  tj_sccs :: "'v list list"
  tj_counter :: nat

definition new_tarjan :: "'v tarjan" where
  "new_tarjan = \<lparr>tj_dfsIndex = (\<lambda>_. None), tj_lowlink = (\<lambda>_. None), tj_onStack = (\<lambda>_. False), tj_stack = [], tj_sccs = [],
     tj_counter = 0\<rparr>"

definition discover :: "'v \<Rightarrow> 'v tarjan \<Rightarrow> 'v tarjan" where
  "discover v s = s\<lparr>tj_dfsIndex := (tj_dfsIndex s)(v \<mapsto> tj_counter s), tj_lowlink := (tj_lowlink s)(v \<mapsto> tj_counter s),
     tj_counter := tj_counter s + 1, tj_stack := v # tj_stack s, tj_onStack := (tj_onStack s)(v := True)\<rparr>"

definition low_min :: "'v \<Rightarrow> nat option \<Rightarrow> 'v tarjan \<Rightarrow> 'v tarjan" where
  "low_min v x s = s\<lparr>tj_lowlink := (tj_lowlink s)(v \<mapsto> min (the (tj_lowlink s v)) (the x))\<rparr>"

text \<open>The loop that pops a component. With an empty stack the source would not stop; that case does not arise.\<close>

fun pop_component :: "'v \<Rightarrow> 'v list \<Rightarrow> ('v \<Rightarrow> bool) \<Rightarrow> 'v list \<Rightarrow> 'v list \<times> ('v \<Rightarrow> bool) \<times> 'v list" where
  "pop_component v [] onStack component = ([], onStack, component)"
| "pop_component v (w # stack) onStack component =
     (if w = v then (stack, onStack(w := False), component @ [w])
      else pop_component v stack (onStack(w := False)) (component @ [w]))"

definition close_component :: "'v \<Rightarrow> 'v tarjan \<Rightarrow> 'v tarjan" where
  "close_component v s =
     (if tj_lowlink s v = tj_dfsIndex s v
      then (case pop_component v (tj_stack s) (tj_onStack s) [] of (stack, onStack, component) \<Rightarrow>
        s\<lparr>tj_stack := stack, tj_onStack := onStack, tj_sccs := tj_sccs s @ [component]\<rparr>)
      else s)"

fun strongconnect :: "('v \<Rightarrow> 'v list) \<Rightarrow> nat \<Rightarrow> 'v \<Rightarrow> 'v tarjan \<Rightarrow> 'v tarjan option"
  and visit_parents :: "('v \<Rightarrow> 'v list) \<Rightarrow> nat \<Rightarrow> 'v \<Rightarrow> 'v list \<Rightarrow> 'v tarjan \<Rightarrow> 'v tarjan option" where
  "strongconnect G 0 v s = None"
| "strongconnect G (Suc n) v s = map_option (close_component v) (visit_parents G n v (G v) (discover v s))"
| "visit_parents G n v [] s = Some s"
| "visit_parents G n v (w # ws) s =
     (if tj_dfsIndex s w = None
      then Option.bind (strongconnect G n w s) (\<lambda>s1. visit_parents G n v ws (low_min v (tj_lowlink s1 w) s1))
      else visit_parents G n v ws (if tj_onStack s w then low_min v (tj_dfsIndex s w) s else s))"

fun connect_all :: "('v \<Rightarrow> 'v list) \<Rightarrow> nat \<Rightarrow> 'v list \<Rightarrow> 'v tarjan \<Rightarrow> 'v tarjan option" where
  "connect_all G n [] s = Some s"
| "connect_all G n (v # vs) s =
     (if tj_dfsIndex s v = None then Option.bind (strongconnect G n v s) (connect_all G n vs) else connect_all G n vs s)"

subsection \<open>Depth and priority\<close>

text \<open>\<open>nodeToSccIdx\<close>: the last component a node is listed in.\<close>

definition nodeToSccIdx :: "'v list list \<Rightarrow> 'v \<Rightarrow> nat option" where
  "nodeToSccIdx sccs v = foldl (\<lambda>r (i, scc). if v \<in> set scc then Some i else r) None (zip [0..<length sccs] sccs)"

definition scc_depth :: "('v \<Rightarrow> 'v list) \<Rightarrow> 'v list list \<Rightarrow> int list \<Rightarrow> 'v list \<Rightarrow> int" where
  "scc_depth G sccs depths scc =
     (let i = length depths;
          step = (\<lambda>m parent. case nodeToSccIdx sccs parent of
              None \<Rightarrow> m
            | Some j \<Rightarrow> if j = i then m else if j < length depths \<and> m < depths ! j then depths ! j else m)
      in foldl (\<lambda>m node. foldl step m (G node)) (- 1) scc + 1)"

definition sccDepth :: "('v \<Rightarrow> 'v list) \<Rightarrow> 'v list list \<Rightarrow> int list" where
  "sccDepth G sccs = foldl (\<lambda>depths scc. depths @ [scc_depth G sccs depths scc]) [] sccs"

definition scc_priorities :: "('v \<Rightarrow> 'v list) \<Rightarrow> 'v list list \<Rightarrow> ('v \<times> int) list" where
  "scc_priorities G sccs =
     concat (map2 (\<lambda>scc depth. map (\<lambda>key. (key, (depth + 1) * 10)) scc) sccs (sccDepth G sccs))"

definition typename_of :: "fk_schema \<Rightarrow> string \<Rightarrow> string" where
  "typename_of schema key = the (map_of (keyToTypename schema) key)"

definition computeFKDepthPriority :: "fk_schema \<Rightarrow> (string \<times> int) list option" where
  "computeFKDepthPriority schema =
     map_option (\<lambda>s. foldl (\<lambda>out (key, priority). AList.update (typename_of schema key) priority out) []
         (scc_priorities (parentsOf schema) (tj_sccs s)))
       (connect_all (parentsOf schema) (length schema) (map fst schema) new_tarjan)"

text \<open>
  The fields of \<open>deriveConfigFromSchema\<close> that decide the order of a batch. The maps it leaves empty
  and the schema hashes for the drift check are not part of the model.
\<close>

definition deriveConfigFromSchema :: "fk_schema \<Rightarrow> priority_config option" where
  "deriveConfigFromSchema schema = map_option (\<lambda>create_priority. \<lparr>modelCreatePriority = create_priority,
     defaultCreatePriority = 40, defaultNonCreatePriority = 50\<rparr>) (computeFKDepthPriority schema)"

subsection \<open>Invariants of the search\<close>

text \<open>
  \<open>edges G\<close> goes from a node to its parents. The list \<open>gray\<close> holds the nodes whose calls are active.
\<close>

definition edges :: "('v \<Rightarrow> 'v list) \<Rightarrow> ('v \<times> 'v) set" where
  "edges G = {(v, w). w \<in> set (G v)}"

abbreviation visited :: "'v tarjan \<Rightarrow> 'v set" where
  "visited s \<equiv> dom (tj_dfsIndex s)"

abbreviation closed :: "'v tarjan \<Rightarrow> 'v set" where
  "closed s \<equiv> set (concat (tj_sccs s))"

abbreviation index :: "'v tarjan \<Rightarrow> 'v \<Rightarrow> nat" where
  "index s v \<equiv> the (tj_dfsIndex s v)"

text \<open>The stack holds the visited nodes without a component, newest first.\<close>

definition stack_ok :: "'v tarjan \<Rightarrow> bool" where
  "stack_ok s \<longleftrightarrow> visited s = set (tj_stack s) \<union> closed s \<and> set (tj_stack s) \<inter> closed s = {}
     \<and> (\<forall>x. tj_onStack s x \<longleftrightarrow> x \<in> set (tj_stack s))
     \<and> sorted_wrt (\<lambda>x y. index s y < index s x) (tj_stack s) \<and> (\<forall>x \<in> visited s. index s x < tj_counter s)"

text \<open>The components emitted so far are disjoint, strongly connected, and closed towards parents in order.\<close>

definition sccs_ok :: "('v \<Rightarrow> 'v list) \<Rightarrow> 'v list list \<Rightarrow> bool" where
  "sccs_ok G sccs \<longleftrightarrow> distinct (concat sccs) \<and> (\<forall>c \<in> set sccs. \<forall>x \<in> set c. \<forall>y \<in> set c. (x, y) \<in> (edges G)\<^sup>*)
     \<and> (\<forall>i < length sccs. \<forall>x \<in> set (sccs ! i). \<forall>w \<in> set (G x). \<exists>j \<le> i. w \<in> set (sccs ! j))"

definition gray_ok :: "('v \<Rightarrow> 'v list) \<Rightarrow> 'v list \<Rightarrow> 'v tarjan \<Rightarrow> bool" where
  "gray_ok G gray s \<longleftrightarrow> set gray \<subseteq> set (tj_stack s) \<and> (\<forall>x \<in> set (tj_stack s). \<exists>g \<in> set gray. (x, g) \<in> (edges G)\<^sup>*)
     \<and> (\<forall>x \<in> set (tj_stack s) - set gray. set (G x) \<subseteq> visited s)"

definition tj_inv :: "('v \<Rightarrow> 'v list) \<Rightarrow> 'v list \<Rightarrow> 'v tarjan \<Rightarrow> bool" where
  "tj_inv G gray s \<longleftrightarrow> stack_ok s \<and> sccs_ok G (tj_sccs s) \<and> gray_ok G gray s"

text \<open>What a state keeps of an earlier one.\<close>

definition tj_extends :: "'v tarjan \<Rightarrow> 'v tarjan \<Rightarrow> bool" where
  "tj_extends s s' \<longleftrightarrow> tj_dfsIndex s \<subseteq>\<^sub>m tj_dfsIndex s' \<and> (\<forall>x \<in> visited s. tj_lowlink s' x = tj_lowlink s x)
     \<and> tj_counter s \<le> tj_counter s'"

text \<open>
  After \<open>strongconnect\<close> on \<open>v\<close>: the stack grew by \<open>seg\<close>, all of it reachable from \<open>v\<close>. Either \<open>v\<close> has
  its component, or its low link is the index of an older stack node it reaches, and no
  edge leaves \<open>seg\<close> for the older stack below that.
\<close>

definition tj_post :: "('v \<Rightarrow> 'v list) \<Rightarrow> 'v list \<Rightarrow> 'v \<Rightarrow> 'v tarjan \<Rightarrow> 'v tarjan \<Rightarrow> bool" where
  "tj_post G gray v s s' \<longleftrightarrow> tj_inv G gray s' \<and> tj_extends s s' \<and> v \<in> visited s'
     \<and> (\<exists>seg low. tj_stack s' = seg @ tj_stack s \<and> tj_lowlink s' v = Some low \<and> (\<forall>x \<in> set seg. (v, x) \<in> (edges G)\<^sup>*)
          \<and> (if seg = [] then tj_counter s \<le> low
             else (\<exists>u \<in> set (tj_stack s). index s u = low \<and> (v, u) \<in> (edges G)\<^sup>*)
               \<and> (\<forall>x \<in> set seg. \<forall>w \<in> set (G x). w \<in> set (tj_stack s) \<longrightarrow> low \<le> index s w)))"

text \<open>What holds when \<open>strongconnect\<close> is called on \<open>v\<close>.\<close>

definition tj_pre :: "('v \<Rightarrow> 'v list) \<Rightarrow> 'v list \<Rightarrow> 'v \<Rightarrow> 'v tarjan \<Rightarrow> bool" where
  "tj_pre G gray v s \<longleftrightarrow> tj_inv G gray s \<and> v \<notin> visited s \<and> (\<forall>g \<in> set gray. (g, v) \<in> (edges G)\<^sup>*)"

text \<open>In the loop of the call for \<open>v\<close>, which began in \<open>s0\<close>, after the parents \<open>ps\<close>.\<close>

definition tj_loop :: "('v \<Rightarrow> 'v list) \<Rightarrow> 'v list \<Rightarrow> 'v \<Rightarrow> 'v tarjan \<Rightarrow> 'v list \<Rightarrow> 'v tarjan \<Rightarrow> bool" where
  "tj_loop G gray v s0 ps s \<longleftrightarrow> tj_pre G gray v s0 \<and> tj_inv G (v # gray) s \<and> tj_extends s0 s \<and> tj_dfsIndex s v = Some (tj_counter s0)
     \<and> (\<exists>seg low. tj_stack s = seg @ v # tj_stack s0 \<and> tj_lowlink s v = Some low \<and> (\<forall>x \<in> set seg. (v, x) \<in> (edges G)\<^sup>*)
          \<and> (\<exists>u \<in> insert v (set (tj_stack s0)). index s u = low \<and> (v, u) \<in> (edges G)\<^sup>*)
          \<and> set ps \<subseteq> visited s
          \<and> (\<forall>x \<in> set seg. \<forall>w \<in> set (G x). w \<in> set (tj_stack s0) \<longrightarrow> low \<le> index s w)
          \<and> (\<forall>w \<in> set ps. w \<in> set (tj_stack s0) \<longrightarrow> low \<le> index s w))"

lemma tj_extends_refl [simp]: "tj_extends s s"
  by (simp add: tj_extends_def)

lemma tj_extends_index: "tj_extends s s' \<Longrightarrow> x \<in> visited s \<Longrightarrow> tj_dfsIndex s' x = tj_dfsIndex s x"
  by (auto simp: tj_extends_def map_le_def)

lemma tj_extends_trans: "tj_extends s s1 \<Longrightarrow> tj_extends s1 s2 \<Longrightarrow> tj_extends s s2"
  unfolding tj_extends_def by (metis map_le_trans map_le_implies_dom_le subsetD le_trans)

lemma tj_extends_visited: "tj_extends s s' \<Longrightarrow> visited s \<subseteq> visited s'"
  by (auto simp: tj_extends_def dest: map_le_implies_dom_le)

lemma stack_visited: "tj_inv G gray s \<Longrightarrow> x \<in> set (tj_stack s) \<Longrightarrow> x \<in> visited s"
  by (auto simp: tj_inv_def stack_ok_def)

subsubsection \<open>Discovery\<close>

lemma discover_loop:
  assumes "tj_pre G gray v s"
  shows "tj_loop G gray v s [] (discover v s)"
proof -
  let ?s = "discover v s"
  have inv: "stack_ok s" "sccs_ok G (tj_sccs s)" "gray_ok G gray s" and v: "v \<notin> visited s"
    using assms by (simp_all add: tj_pre_def tj_inv_def)
  have idx: "x \<in> visited s \<Longrightarrow> index ?s x = index s x" for x using v by (auto simp: discover_def)
  have st: "x \<in> set (tj_stack s) \<Longrightarrow> x \<in> visited s" for x using inv(1) by (auto simp: stack_ok_def)
  have "sorted_wrt (\<lambda>x y. index ?s y < index ?s x) (tj_stack ?s)"
  proof -
    have "sorted_wrt (\<lambda>x y. index ?s y < index ?s x) (tj_stack s)"
      using inv(1) unfolding stack_ok_def by (elim conjE sorted_wrt_mono_rel [rotated]) (simp add: idx st)
    moreover have "\<forall>y \<in> set (tj_stack s). index ?s y < index ?s v"
      using inv(1) v st by (auto simp: stack_ok_def discover_def)
    ultimately show ?thesis by (simp add: discover_def)
  qed
  moreover have "\<forall>x \<in> visited ?s. index ?s x < tj_counter ?s"
    using inv(1) by (auto simp: stack_ok_def discover_def less_SucI)
  moreover have "visited ?s = set (tj_stack ?s) \<union> closed ?s" "set (tj_stack ?s) \<inter> closed ?s = {}"
    "\<forall>x. tj_onStack ?s x \<longleftrightarrow> x \<in> set (tj_stack ?s)"
    using inv(1) v by (auto simp: stack_ok_def discover_def)
  ultimately have "stack_ok ?s" by (simp add: stack_ok_def)
  moreover have "gray_ok G (v # gray) ?s" using inv(3) by (auto simp: gray_ok_def discover_def)
  ultimately have "tj_inv G (v # gray) ?s" using inv(2) by (simp add: tj_inv_def discover_def)
  moreover have "tj_extends s ?s" using v by (auto simp: tj_extends_def discover_def map_le_def)
  ultimately show ?thesis using assms by (auto simp: tj_loop_def discover_def)
qed

subsubsection \<open>One parent\<close>

lemma low_min_frame [simp]:
  "tj_dfsIndex (low_min v x s) = tj_dfsIndex s" "tj_stack (low_min v x s) = tj_stack s" "tj_counter (low_min v x s) = tj_counter s"
  "tj_inv G gray (low_min v x s) = tj_inv G gray s"
  by (simp_all add: low_min_def tj_inv_def stack_ok_def gray_ok_def)

lemma loop_stack:
  assumes "tj_loop G gray v s0 ps s" and "tj_stack s = seg @ v # tj_stack s0"
  shows "\<forall>x \<in> set seg. index s v < index s x" and "\<forall>x \<in> set (tj_stack s0). index s x < index s v"
    and "\<forall>x \<in> set (tj_stack s). x \<in> visited s"
  using assms by (auto simp: tj_loop_def tj_inv_def stack_ok_def sorted_wrt_append)

text \<open>Lowering the low link of \<open>v\<close> to the index of a stack node it reaches keeps the loop invariant.\<close>

lemma loop_low_min:
  assumes loop: "tj_loop G gray v s0 ps s"
    and u: "u \<in> set (tj_stack s)" "(v, u) \<in> (edges G)\<^sup>*"
  shows "tj_loop G gray v s0 ps (low_min v (tj_dfsIndex s u) s)"
proof -
  obtain seg low where l: "tj_stack s = seg @ v # tj_stack s0" "tj_lowlink s v = Some low" "\<forall>x \<in> set seg. (v, x) \<in> (edges G)\<^sup>*"
    "\<exists>u \<in> insert v (set (tj_stack s0)). index s u = low \<and> (v, u) \<in> (edges G)\<^sup>*" "set ps \<subseteq> visited s"
    "\<forall>x \<in> set seg. \<forall>w \<in> set (G x). w \<in> set (tj_stack s0) \<longrightarrow> low \<le> index s w"
    "\<forall>w \<in> set ps. w \<in> set (tj_stack s0) \<longrightarrow> low \<le> index s w"
    using loop unfolding tj_loop_def by blast
  note st = loop_stack [OF loop l(1)]
  let ?low = "min low (index s u)"
  obtain u' where u': "u' \<in> insert v (set (tj_stack s0))" "index s u' = low" "(v, u') \<in> (edges G)\<^sup>*" using l(4) by blast
  have "\<exists>u \<in> insert v (set (tj_stack s0)). index s u = ?low \<and> (v, u) \<in> (edges G)\<^sup>*"
  proof (cases "index s u < low")
    case True
    have "low \<le> index s v" using u'(1,2) st(2) by (cases "u' = v") auto
    with True have "index s u < index s v" by simp
    with st(1) u(1) have "u \<in> set (tj_stack s0)" unfolding l(1) by auto
    with True u(2) show ?thesis by auto
  next
    case False
    then have "?low = low" by simp
    with u' show ?thesis by metis
  qed
  moreover have "tj_extends s0 (low_min v (tj_dfsIndex s u) s)"
    using loop by (auto simp: tj_loop_def tj_pre_def tj_extends_def low_min_def)
  moreover have "tj_lowlink (low_min v (tj_dfsIndex s u) s) v = Some ?low" by (simp add: low_min_def l(2))
  ultimately show ?thesis
    using loop l(1,3,5,6,7) unfolding tj_loop_def by (auto simp: min_le_iff_disj)
qed

lemma loop_visited_edge:
  assumes loop: "tj_loop G gray v s0 ps s" and w: "w \<in> visited s" "w \<in> set (G v)"
  shows "tj_loop G gray v s0 (ps @ [w]) (if tj_onStack s w then low_min v (tj_dfsIndex s w) s else s)"
proof -
  have on: "tj_onStack s w \<longleftrightarrow> w \<in> set (tj_stack s)" using loop by (simp add: tj_loop_def tj_inv_def stack_ok_def)
  have vw: "(v, w) \<in> (edges G)\<^sup>*" using w(2) by (auto simp: edges_def)
  show ?thesis
  proof (cases "tj_onStack s w")
    case True
    let ?s = "low_min v (tj_dfsIndex s w) s"
    have "tj_loop G gray v s0 ps ?s" using loop_low_min [OF loop _ vw] True on by simp
    moreover have "the (tj_lowlink ?s v) \<le> index s w" by (simp add: low_min_def)
    ultimately show ?thesis using True w(1) unfolding tj_loop_def by auto
  next
    case False
    with on loop w(1) show ?thesis unfolding tj_loop_def by auto
  qed
qed

lemma loop_tree_edge:
  assumes loop: "tj_loop G gray v s0 ps s" and new: "w \<notin> visited s" and w: "w \<in> set (G v)"
    and post: "tj_post G (v # gray) w s s1"
  shows "tj_loop G gray v s0 (ps @ [w]) (low_min v (tj_lowlink s1 w) s1)"
proof -
  obtain seg low where l: "tj_stack s = seg @ v # tj_stack s0" "tj_lowlink s v = Some low" "\<forall>x \<in> set seg. (v, x) \<in> (edges G)\<^sup>*"
    "\<exists>u \<in> insert v (set (tj_stack s0)). index s u = low \<and> (v, u) \<in> (edges G)\<^sup>*" "set ps \<subseteq> visited s"
    "\<forall>x \<in> set seg. \<forall>w \<in> set (G x). w \<in> set (tj_stack s0) \<longrightarrow> low \<le> index s w"
    "\<forall>w \<in> set ps. w \<in> set (tj_stack s0) \<longrightarrow> low \<le> index s w"
    using loop unfolding tj_loop_def by blast
  obtain seg1 low1 where p: "tj_stack s1 = seg1 @ tj_stack s" "tj_lowlink s1 w = Some low1" "\<forall>x \<in> set seg1. (w, x) \<in> (edges G)\<^sup>*"
    "if seg1 = [] then tj_counter s \<le> low1 else (\<exists>u \<in> set (tj_stack s). index s u = low1 \<and> (w, u) \<in> (edges G)\<^sup>*)
      \<and> (\<forall>x \<in> set seg1. \<forall>y \<in> set (G x). y \<in> set (tj_stack s) \<longrightarrow> low1 \<le> index s y)"
    using post unfolding tj_post_def by blast
  have ext: "tj_extends s s1" "tj_inv G (v # gray) s1" "w \<in> visited s1" using post by (simp_all add: tj_post_def)
  have vw: "(v, w) \<in> (edges G)\<^sup>*" using w by (auto simp: edges_def)
  note st = loop_stack [OF loop l(1)]
  have idx: "index s1 x = index s x" if "x \<in> visited s" for x using tj_extends_index [OF ext(1) that] by simp
  have old: "x \<in> visited s" if "x \<in> insert v (set (tj_stack s0))" for x using that st(3) unfolding l(1) by auto
  obtain u where u: "u \<in> insert v (set (tj_stack s0))" "index s u = low" "(v, u) \<in> (edges G)\<^sup>*" using l(4) by blast
  have low_v: "low \<le> index s v" using u(1,2) st(2) by (cases "u = v") auto
  have v_lt: "index s v < tj_counter s" using loop old [of v] by (auto simp: tj_loop_def tj_inv_def stack_ok_def)
  let ?low = "min low low1" and ?t = "low_min v (tj_lowlink s1 w) s1"
  have "\<exists>u \<in> insert v (set (tj_stack s0)). index s1 u = ?low \<and> (v, u) \<in> (edges G)\<^sup>*"
  proof (cases "low1 < low")
    case True
    with low_v v_lt p(4) obtain u1 where u1: "u1 \<in> set (tj_stack s)" "index s u1 = low1" "(w, u1) \<in> (edges G)\<^sup>*"
      by (auto split: if_splits)
    with True low_v have "index s u1 < index s v" by simp
    with st(1) u1(1) have "u1 \<in> set (tj_stack s0)" unfolding l(1) by auto
    with True u1 vw idx old show ?thesis by (intro bexI [of _ u1]) (auto intro: rtrancl_trans)
  next
    case False
    with u idx [OF old [OF u(1)]] show ?thesis by (intro bexI [of _ u]) simp_all
  qed
  moreover have "tj_extends s0 ?t"
  proof -
    have "tj_extends s0 s1" using loop ext(1) tj_extends_trans unfolding tj_loop_def by blast
    moreover have "v \<notin> visited s0" using loop by (simp add: tj_loop_def tj_pre_def)
    ultimately show ?thesis by (auto simp: tj_extends_def low_min_def)
  qed
  moreover have "tj_lowlink ?t v = Some ?low"
    using ext(1) old [of v] l(2) by (simp add: low_min_def p(2) tj_extends_def)
  moreover have "tj_dfsIndex ?t v = Some (tj_counter s0)"
    using loop tj_extends_index [OF ext(1) old [of v]] by (simp add: tj_loop_def)
  moreover have "\<forall>x \<in> set (seg1 @ seg). (v, x) \<in> (edges G)\<^sup>*" using p(3) l(3) vw by (auto intro: rtrancl_trans)
  moreover have "\<forall>x \<in> set (seg1 @ seg). \<forall>y \<in> set (G x). y \<in> set (tj_stack s0) \<longrightarrow> ?low \<le> index s1 y"
    using l(1,6) p(4) by (auto simp: idx old min_le_iff_disj split: if_splits)
  moreover have "\<forall>y \<in> set (ps @ [w]). y \<in> set (tj_stack s0) \<longrightarrow> ?low \<le> index s1 y"
    using l(7) new old by (auto simp: idx min_le_iff_disj)
  moreover have "set (ps @ [w]) \<subseteq> visited s1" using l(5) ext(3) tj_extends_visited [OF ext(1)] by auto
  moreover have "tj_stack ?t = (seg1 @ seg) @ v # tj_stack s0" by (simp add: p(1) l(1))
  moreover have "tj_pre G gray v s0" using loop by (simp add: tj_loop_def)
  ultimately show ?thesis using ext(2) unfolding tj_loop_def low_min_frame by blast
qed

subsubsection \<open>Closing a component\<close>

lemma sorted_wrt_distinct: "sorted_wrt P xs \<Longrightarrow> (\<And>x. \<not> P x x) \<Longrightarrow> distinct xs"
  by (induction xs) auto

lemma pop_component_split:
  "v \<notin> set seg \<Longrightarrow> pop_component v (seg @ v # st) on c = (st, (\<lambda>x. on x \<and> x \<notin> set (seg @ [v])), c @ seg @ [v])"
  by (induction seg arbitrary: on c) (auto simp: fun_eq_iff)

text \<open>Where no edge leaves the new component for the older stack, it extends the emitted ones.\<close>

lemma sccs_ok_snoc:
  assumes "sccs_ok G sccs" and "distinct c" and "set c \<inter> set (concat sccs) = {}"
    and "\<forall>x \<in> set c. \<forall>y \<in> set c. (x, y) \<in> (edges G)\<^sup>*" and "\<forall>x \<in> set c. set (G x) \<subseteq> set c \<union> set (concat sccs)"
  shows "sccs_ok G (sccs @ [c])"
proof -
  have "\<exists>j \<le> i. w \<in> set ((sccs @ [c]) ! j)" if i: "i < Suc (length sccs)" and x: "x \<in> set ((sccs @ [c]) ! i)" "w \<in> set (G x)" for i x w
  proof (cases "i < length sccs")
    case True
    with x have "x \<in> set (sccs ! i)" by (simp add: nth_append)
    with assms(1) True x(2) obtain j where "j \<le> i" "w \<in> set (sccs ! j)" unfolding sccs_ok_def by blast
    with True show ?thesis by (intro exI [of _ j]) (simp add: nth_append)
  next
    case False
    with i have i: "i = length sccs" by simp
    with x assms(5) have "w \<in> set c \<or> w \<in> set (concat sccs)" by auto
    then show ?thesis
    proof
      assume "w \<in> set c"
      then show ?thesis by (intro exI [of _ i]) (simp add: i)
    next
      assume "w \<in> set (concat sccs)"
      then obtain k where "k < length sccs" "w \<in> set (sccs ! k)" by (metis in_set_conv_nth UN_E set_concat)
      then show ?thesis by (intro exI [of _ k]) (simp add: i nth_append)
    qed
  qed
  then have "\<forall>i < length (sccs @ [c]). \<forall>x \<in> set ((sccs @ [c]) ! i). \<forall>w \<in> set (G x). \<exists>j \<le> i. w \<in> set ((sccs @ [c]) ! j)" by simp
  moreover have "\<forall>d \<in> set (sccs @ [c]). \<forall>x \<in> set d. \<forall>y \<in> set d. (x, y) \<in> (edges G)\<^sup>*"
    using assms(1,4) by (simp add: sccs_ok_def)
  moreover have "distinct (concat (sccs @ [c]))" using assms(1-3) by (auto simp: sccs_ok_def)
  ultimately show ?thesis unfolding sccs_ok_def by blast
qed

lemma close_emits:
  assumes loop: "tj_loop G gray v s0 (G v) s" and eq: "tj_lowlink s v = tj_dfsIndex s v"
  shows "tj_post G gray v s0 (close_component v s)"
proof -
  obtain seg low where l: "tj_stack s = seg @ v # tj_stack s0" "tj_lowlink s v = Some low" "\<forall>x \<in> set seg. (v, x) \<in> (edges G)\<^sup>*"
    "\<forall>x \<in> set seg. \<forall>w \<in> set (G x). w \<in> set (tj_stack s0) \<longrightarrow> low \<le> index s w"
    "\<forall>w \<in> set (G v). w \<in> set (tj_stack s0) \<longrightarrow> low \<le> index s w" "set (G v) \<subseteq> visited s"
    using loop unfolding tj_loop_def by blast
  have loop': "tj_pre G gray v s0" "stack_ok s" "sccs_ok G (tj_sccs s)" "gray_ok G (v # gray) s" "tj_extends s0 s"
    "tj_dfsIndex s v = Some (tj_counter s0)"
    using loop by (auto simp: tj_loop_def tj_inv_def)
  note st = loop_stack [OF loop l(1)]
  let ?c = "seg @ [v]"
  have low: "low = index s v" "low = tj_counter s0" using eq l(2) loop'(6) by simp_all
  have seg: "v \<notin> set seg" "distinct seg" "set ?c \<inter> set (tj_stack s0) = {}"
  proof -
    have "sorted_wrt (\<lambda>x y. index s y < index s x) (seg @ v # tj_stack s0)" using loop'(2) l(1) by (simp add: stack_ok_def)
    then have "distinct (seg @ v # tj_stack s0)" by (rule sorted_wrt_distinct) simp
    then show "v \<notin> set seg" "distinct seg" "set ?c \<inter> set (tj_stack s0) = {}" by auto
  qed
  define s' where "s' = s\<lparr>tj_stack := tj_stack s0, tj_onStack := (\<lambda>x. tj_onStack s x \<and> x \<notin> set ?c), tj_sccs := tj_sccs s @ [?c]\<rparr>"
  have close: "close_component v s = s'"
    by (simp add: close_component_def eq l(1) pop_component_split [OF seg(1)] s'_def)
  have vis: "visited s = set ?c \<union> set (tj_stack s0) \<union> closed s" "set (tj_stack s) \<inter> closed s = {}"
    using loop'(2) by (auto simp: stack_ok_def l(1))
  have "stack_ok s'"
  proof -
    have "sorted_wrt (\<lambda>x y. index s' y < index s' x) (tj_stack s')" "\<forall>x \<in> visited s'. index s' x < tj_counter s'"
      using loop'(2) by (simp_all add: stack_ok_def s'_def l(1) sorted_wrt_append)
    moreover have "\<forall>x. tj_onStack s' x \<longleftrightarrow> x \<in> set (tj_stack s')"
      using loop'(2) seg(3) by (auto simp: stack_ok_def s'_def l(1))
    ultimately show ?thesis using vis seg(3) by (auto simp: stack_ok_def s'_def l(1))
  qed
  moreover have "sccs_ok G (tj_sccs s')"
  proof -
    have up: "(x, v) \<in> (edges G)\<^sup>*" if "x \<in> set ?c" for x
    proof -
      have "x \<in> set (tj_stack s)" using that by (auto simp: l(1))
      with loop'(4) obtain g where "g \<in> set (v # gray)" "(x, g) \<in> (edges G)\<^sup>*" unfolding gray_ok_def by blast
      with loop'(1) show ?thesis by (auto simp: tj_pre_def intro: rtrancl_trans)
    qed
    have down: "(v, x) \<in> (edges G)\<^sup>*" if "x \<in> set ?c" for x using that l(3) by auto
    have "set (G x) \<subseteq> set ?c \<union> closed s" if x: "x \<in> set ?c" for x
    proof
      fix w assume w: "w \<in> set (G x)"
      have "x \<in> set (tj_stack s) - set (v # gray) \<or> x = v \<or> x \<in> set gray" using x by (auto simp: l(1))
      moreover have "x \<notin> set gray"
        using loop'(1) x seg(3) by (auto simp: tj_pre_def tj_inv_def gray_ok_def)
      ultimately have "w \<in> visited s" using w l(6) loop'(4) by (auto simp: gray_ok_def)
      moreover have "w \<notin> set (tj_stack s0)"
      proof
        assume "w \<in> set (tj_stack s0)"
        with w x l(4,5) have "low \<le> index s w" by auto
        with st(2) \<open>w \<in> set (tj_stack s0)\<close> low(1) show False by auto
      qed
      ultimately show "w \<in> set ?c \<union> closed s" using vis(1) by auto
    qed
    moreover have "\<forall>x \<in> set ?c. \<forall>y \<in> set ?c. (x, y) \<in> (edges G)\<^sup>*" using up down by (meson rtrancl_trans)
    moreover have "distinct ?c" using seg by simp
    moreover have "set ?c \<inter> closed s = {}" using vis(2) unfolding l(1) by auto
    ultimately show ?thesis using sccs_ok_snoc [OF loop'(3), of ?c] by (simp add: s'_def)
  qed
  moreover have "gray_ok G gray s'"
    using loop'(1) tj_extends_visited [OF loop'(5)] by (auto simp: tj_pre_def tj_inv_def gray_ok_def s'_def) blast
  moreover have "tj_extends s0 s'" using loop'(5) by (simp add: tj_extends_def s'_def)
  ultimately show ?thesis
    unfolding close tj_post_def tj_inv_def using loop'(6) l(2) low(2) by (auto simp: s'_def)
qed

lemma close_keeps:
  assumes loop: "tj_loop G gray v s0 (G v) s" and ne: "tj_lowlink s v \<noteq> tj_dfsIndex s v"
  shows "tj_post G gray v s0 (close_component v s)"
proof -
  obtain seg low where l: "tj_stack s = seg @ v # tj_stack s0" "tj_lowlink s v = Some low" "\<forall>x \<in> set seg. (v, x) \<in> (edges G)\<^sup>*"
    "\<exists>u \<in> insert v (set (tj_stack s0)). index s u = low \<and> (v, u) \<in> (edges G)\<^sup>*"
    "\<forall>x \<in> set seg. \<forall>w \<in> set (G x). w \<in> set (tj_stack s0) \<longrightarrow> low \<le> index s w"
    "\<forall>w \<in> set (G v). w \<in> set (tj_stack s0) \<longrightarrow> low \<le> index s w" "set (G v) \<subseteq> visited s"
    using loop unfolding tj_loop_def by blast
  have loop': "tj_inv G gray s0" "stack_ok s" "sccs_ok G (tj_sccs s)" "gray_ok G (v # gray) s" "tj_extends s0 s"
    "tj_dfsIndex s v = Some (tj_counter s0)"
    using loop by (auto simp: tj_loop_def tj_pre_def tj_inv_def)
  obtain u where u: "u \<in> set (tj_stack s0)" "index s u = low" "(v, u) \<in> (edges G)\<^sup>*"
    using l(2,4) ne loop'(6) by auto
  have idx: "index s x = index s0 x" if "x \<in> set (tj_stack s0)" for x
    using tj_extends_index [OF loop'(5) stack_visited [OF loop'(1) that]] by simp
  obtain g where g: "g \<in> set gray" "(u, g) \<in> (edges G)\<^sup>*" using loop'(1) u(1) unfolding tj_inv_def gray_ok_def by blast
  have reach: "\<exists>g \<in> set gray. (x, g) \<in> (edges G)\<^sup>*" if x: "x \<in> set (tj_stack s)" for x
  proof -
    obtain h where h: "h \<in> set (v # gray)" "(x, h) \<in> (edges G)\<^sup>*" using loop'(4) x unfolding gray_ok_def by blast
    show ?thesis
    proof (cases "h = v")
      case True
      with h(2) u(3) g show ?thesis by (meson rtrancl_trans)
    next
      case False
      with h show ?thesis by auto
    qed
  qed
  have "gray_ok G gray s"
    using loop'(1,4) l(1,7) reach by (auto simp: gray_ok_def tj_inv_def)
  moreover have "close_component v s = s" using ne by (simp add: close_component_def)
  moreover have "tj_stack s = (seg @ [v]) @ tj_stack s0" using l(1) by simp
  moreover have "\<forall>x \<in> set (seg @ [v]). \<forall>w \<in> set (G x). w \<in> set (tj_stack s0) \<longrightarrow> low \<le> index s0 w"
    using l(5,6) by (auto simp: idx)
  moreover have "\<forall>x \<in> set (seg @ [v]). (v, x) \<in> (edges G)\<^sup>*" using l(3) by auto
  moreover have "\<exists>u \<in> set (tj_stack s0). index s0 u = low \<and> (v, u) \<in> (edges G)\<^sup>*" using u idx by auto
  moreover have "v \<in> visited s" using loop'(6) by auto
  ultimately show ?thesis
    unfolding tj_post_def tj_inv_def using loop'(2,3,5) l(2)
    by (metis append_is_Nil_conv list.distinct(1))
qed

subsubsection \<open>The whole search\<close>

text \<open>Within the models \<open>N\<close>, fuel for every model that is not visited is enough.\<close>

lemma search_correct:
  fixes G :: "'v \<Rightarrow> 'v list"
  shows "tj_pre G gray v s \<Longrightarrow> v \<in> N \<Longrightarrow> (\<forall>x \<in> N. set (G x) \<subseteq> N) \<Longrightarrow> finite N \<Longrightarrow> card (N - visited s) \<le> n \<Longrightarrow>
      \<exists>s'. strongconnect G n v s = Some s' \<and> tj_post G gray v s s'"
    and "tj_loop G gray v s0 ps s \<Longrightarrow> v \<in> N \<Longrightarrow> G v = ps @ ws \<Longrightarrow> (\<forall>x \<in> N. set (G x) \<subseteq> N) \<Longrightarrow> finite N \<Longrightarrow> card (N - visited s) \<le> n \<Longrightarrow>
      \<exists>s'. visit_parents G n v ws s = Some s' \<and> tj_loop G gray v s0 (G v) s'"
proof (induction G n v s and G n v ws s arbitrary: gray and gray s0 ps rule: strongconnect_visit_parents.induct)
  case (1 G v s)
  then have "v \<in> N - visited s" "N - visited s = {}" by (auto simp: tj_pre_def)
  then show ?case by simp
next
  case (2 G n v s)
  have v: "v \<in> N - visited s" using 2(2,3) by (simp add: tj_pre_def)
  have "N - visited (discover v s) = (N - visited s) - {v}" by (auto simp: discover_def)
  then have "card (N - visited (discover v s)) \<le> n" using 2(5,6) v by (simp add: card_Diff_singleton)
  then obtain s' where "visit_parents G n v (G v) (discover v s) = Some s'" "tj_loop G gray v s (G v) s'"
    using 2(1) [OF discover_loop [OF 2(2)] 2(3) _ 2(4,5)] by auto
  then show ?case using close_emits close_keeps by (cases "tj_lowlink s' v = tj_dfsIndex s' v") auto
next
  case (3 G n v s)
  then show ?case by simp
next
  case (4 G n v w ws s)
  have w: "w \<in> set (G v)" "w \<in> N" using 4(5,6,7) by auto
  show ?case
  proof (cases "tj_dfsIndex s w = None")
    case True
    have "tj_pre G (v # gray) w s"
    proof -
      have "(g, w) \<in> (edges G)\<^sup>*" if "g \<in> set (v # gray)" for g
      proof -
        have "(g, v) \<in> (edges G)\<^sup>*" using that 4(4) by (auto simp: tj_loop_def tj_pre_def)
        moreover have "(v, w) \<in> edges G" using w(1) by (simp add: edges_def)
        ultimately show ?thesis by (rule rtrancl_into_rtrancl)
      qed
      with 4(4) True show ?thesis by (auto simp: tj_pre_def tj_loop_def)
    qed
    then obtain s1 where s1: "strongconnect G n w s = Some s1" "tj_post G (v # gray) w s s1"
      using 4(1) [OF True] w(2) 4(7-9) by blast
    have "N - visited s1 \<subseteq> N - visited s" using s1(2) tj_extends_visited by (fastforce simp: tj_post_def)
    then have "card (N - visited s1) \<le> card (N - visited s)" using 4(8) by (intro card_mono) auto
    then have "card (N - visited (low_min v (tj_lowlink s1 w) s1)) \<le> n" using 4(9) by simp
    then show ?thesis
      using 4(2) [OF True s1(1) loop_tree_edge [OF 4(4) _ w(1) s1(2)] 4(5)] True 4(6-8) s1(1) by auto
  next
    case False
    then have "w \<in> visited s" by auto
    from 4(3) [OF False loop_visited_edge [OF 4(4) this w(1)] 4(5)] 4(6-9) False show ?thesis by auto
  qed
qed

lemma connect_correct:
  assumes "tj_inv G [] s" and "set vs \<subseteq> N" and "\<forall>x \<in> N. set (G x) \<subseteq> N" and "finite N" and "card N \<le> n"
  shows "\<exists>s'. connect_all G n vs s = Some s' \<and> tj_inv G [] s' \<and> visited s \<union> set vs \<subseteq> visited s'"
  using assms(1,2)
proof (induction vs arbitrary: s)
  case (Cons v vs)
  show ?case
  proof (cases "tj_dfsIndex s v = None")
    case True
    have "card (N - visited s) \<le> n" using assms(4,5) card_mono [of N "N - visited s"] by (auto intro: le_trans)
    then obtain s1 where s1: "strongconnect G n v s = Some s1" "tj_post G [] v s s1"
      using search_correct(1) [of G "[]" v s N n] Cons.prems True assms(3,4) by (auto simp: tj_pre_def)
    then have "tj_inv G [] s1" "tj_extends s s1" "v \<in> visited s1" by (simp_all add: tj_post_def)
    moreover note tj_extends_visited [OF this(2)]
    ultimately have "tj_inv G [] s1" "visited s \<subseteq> visited s1" "v \<in> visited s1" by blast+
    moreover from this(1) Cons.IH [of s1] Cons.prems(2) obtain s'
      where "connect_all G n vs s1 = Some s'" "tj_inv G [] s'" "visited s1 \<union> set vs \<subseteq> visited s'" by auto
    moreover from calculation have "visited s \<union> set (v # vs) \<subseteq> visited s'" unfolding list.set by blast
    ultimately show ?thesis using s1(1) True by simp
  next
    case False
    from Cons.IH [of s] Cons.prems obtain s'
      where "connect_all G n vs s = Some s'" "tj_inv G [] s'" "visited s \<union> set vs \<subseteq> visited s'" by auto
    moreover from this(3) have "visited s \<union> set (v # vs) \<subseteq> visited s'" using False by (auto dest: domIff [THEN iffD2] subsetD)
    ultimately show ?thesis using False by auto
  qed
qed auto

lemma tarjan_correct:
  assumes "\<forall>x \<in> set vs. set (G x) \<subseteq> set vs" and "length vs \<le> n"
  shows "\<exists>s. connect_all G n vs new_tarjan = Some s \<and> sccs_ok G (tj_sccs s) \<and> set vs \<subseteq> closed s \<and> stack_ok s"
proof -
  have "tj_inv G [] new_tarjan"
    by (simp add: tj_inv_def stack_ok_def sccs_ok_def gray_ok_def new_tarjan_def)
  moreover have "card (set vs) \<le> n" using assms(2) card_length [of vs] by simp
  ultimately obtain s where s: "connect_all G n vs new_tarjan = Some s" "tj_inv G [] s" "set vs \<subseteq> visited s"
    using connect_correct [of G new_tarjan vs "set vs" n] assms(1) by auto
  have "tj_stack s = []" using s(2) by (cases "tj_stack s") (auto simp: tj_inv_def gray_ok_def)
  with s show ?thesis by (auto simp: tj_inv_def stack_ok_def)
qed

subsection \<open>Depths\<close>

lemma nodeToSccIdx_snoc:
  "nodeToSccIdx (sccs @ [c]) v = (if v \<in> set c then Some (length sccs) else nodeToSccIdx sccs v)"
  by (simp add: nodeToSccIdx_def)

lemma nodeToSccIdx_at:
  assumes "distinct (concat sccs)" and "i < length sccs" and "v \<in> set (sccs ! i)"
  shows "nodeToSccIdx sccs v = Some i"
  using assms
proof (induction sccs rule: rev_induct)
  case (snoc c sccs)
  show ?case
  proof (cases "i < length sccs")
    case True
    with snoc.prems have "v \<in> set (sccs ! i)" by (simp add: nth_append)
    moreover have "v \<in> set (concat sccs)" using calculation nth_mem [OF True] by auto
    then have "v \<notin> set c" using snoc.prems(1) by auto
    ultimately show ?thesis using snoc True by (simp add: nodeToSccIdx_snoc)
  next
    case False
    with snoc.prems(2,3) show ?thesis by (simp add: nodeToSccIdx_snoc less_Suc_eq)
  qed
qed simp

lemma sccDepth_snoc_prefix:
  "length (foldl (\<lambda>depths scc. depths @ [f depths scc]) ds xs) = length ds + length xs
   \<and> take (length ds) (foldl (\<lambda>depths scc. depths @ [f depths scc]) ds xs) = ds"
proof (induction xs rule: rev_induct)
  case (snoc x xs)
  then show ?case by simp
qed simp

lemma sccDepth_nth:
  assumes "i < length sccs"
  shows "sccDepth G sccs ! i = scc_depth G sccs (take i (sccDepth G sccs)) (sccs ! i)"
proof -
  let ?step = "\<lambda>depths scc. depths @ [scc_depth G sccs depths scc]"
  let ?a = "foldl ?step [] (take i sccs)"
  have "foldl ?step [] (take i sccs @ sccs ! i # drop (Suc i) sccs) =
      foldl ?step (?a @ [scc_depth G sccs ?a (sccs ! i)]) (drop (Suc i) sccs)" by simp
  then have d: "sccDepth G sccs = foldl ?step (?a @ [scc_depth G sccs ?a (sccs ! i)]) (drop (Suc i) sccs)"
    unfolding sccDepth_def by (simp only: id_take_nth_drop [OF assms, symmetric])
  have len: "length ?a = i"
    using sccDepth_snoc_prefix [of "scc_depth G sccs" "[]" "take i sccs"] assms by simp
  have pre: "take (Suc i) (sccDepth G sccs) = ?a @ [scc_depth G sccs ?a (sccs ! i)]"
    using sccDepth_snoc_prefix [of "scc_depth G sccs" "?a @ [scc_depth G sccs ?a (sccs ! i)]" "drop (Suc i) sccs"]
    unfolding d by (simp add: len)
  have "take i (take (Suc i) (sccDepth G sccs)) = ?a" unfolding pre by (simp add: len)
  then have "take i (sccDepth G sccs) = ?a" by (simp add: min_def)
  moreover have "take (Suc i) (sccDepth G sccs) ! i = scc_depth G sccs ?a (sccs ! i)" unfolding pre by (simp add: nth_append len)
  then have "sccDepth G sccs ! i = scc_depth G sccs ?a (sccs ! i)" by simp
  ultimately show ?thesis by simp
qed

lemma sccDepth_length [simp]: "length (sccDepth G sccs) = length sccs"
  using sccDepth_snoc_prefix [of "scc_depth G sccs" "[]" sccs] by (simp add: sccDepth_def)

lemma foldl_max_mono:
  fixes m :: int
  assumes "\<And>m x. m \<le> f m x"
  shows "m \<le> foldl f m xs"
  using assms by (induction xs arbitrary: m) (auto intro: order_trans)

lemma foldl_max_member:
  fixes m d :: int
  assumes "\<And>m x. m \<le> f m x" and "x \<in> set xs" and "\<And>m. d \<le> f m x"
  shows "d \<le> foldl f m xs"
  using assms(2)
proof (induction xs arbitrary: m)
  case (Cons y ys)
  show ?case
  proof (cases "y = x")
    case True
    then show ?thesis using assms(3) foldl_max_mono [of f, OF assms(1)] order_trans by fastforce
  next
    case False
    with Cons show ?thesis by simp
  qed
qed simp

lemma scc_depth_above:
  assumes "x \<in> set scc" and "p \<in> set (G x)" and "nodeToSccIdx sccs p = Some j" and "j < length depths"
  shows "depths ! j < scc_depth G sccs depths scc"
proof -
  let ?step = "\<lambda>m parent. case nodeToSccIdx sccs parent of None \<Rightarrow> m
    | Some j \<Rightarrow> if j = length depths then m else if j < length depths \<and> m < depths ! j then depths ! j else m"
  have mono: "m \<le> ?step m y" for m y by (simp split: option.splits)
  have "depths ! j \<le> foldl ?step m (G x)" for m
    by (rule foldl_max_member [OF mono assms(2)]) (use assms(3,4) in auto)
  then have "depths ! j \<le> foldl (\<lambda>m node. foldl ?step m (G node)) (- 1) scc"
    by (intro foldl_max_member [OF foldl_max_mono [OF mono] assms(1)])
  then show ?thesis by (simp add: scc_depth_def Let_def)
qed

lemma scc_depth_nonneg: "0 \<le> scc_depth G sccs depths scc"
proof -
  let ?step = "\<lambda>m parent. case nodeToSccIdx sccs parent of None \<Rightarrow> m
    | Some j \<Rightarrow> if j = length depths then m else if j < length depths \<and> m < depths ! j then depths ! j else m"
  have mono: "m \<le> ?step m y" for m y by (simp split: option.splits)
  have "- 1 \<le> foldl (\<lambda>m node. foldl ?step m (G node)) (- 1) scc"
    by (rule foldl_max_mono [OF foldl_max_mono [OF mono]])
  then show ?thesis by (simp add: scc_depth_def Let_def)
qed

text \<open>A parent lies in the same component, exactly if it depends on the child in turn, or in one of smaller depth.\<close>

lemma depth_of_parent:
  assumes ok: "sccs_ok G sccs" and i: "i < length sccs" "x \<in> set (sccs ! i)" and p: "p \<in> set (G x)"
  shows "\<exists>j < length sccs. p \<in> set (sccs ! j) \<and> (if (p, x) \<in> (edges G)\<^sup>* then j = i else sccDepth G sccs ! j < sccDepth G sccs ! i)"
proof -
  have ord: "\<exists>j \<le> i. w \<in> set (sccs ! j)" if "i < length sccs" "x \<in> set (sccs ! i)" "w \<in> set (G x)" for i x w
    using ok that unfolding sccs_ok_def by blast
  have path: "\<forall>i < length sccs. x \<in> set (sccs ! i) \<longrightarrow> (\<exists>j \<le> i. w \<in> set (sccs ! j))" if "(x, w) \<in> (edges G)\<^sup>*" for x w
    using that
  proof (induction rule: converse_rtrancl_induct)
    case (step x y)
    show ?case
    proof (intro allI impI)
      fix i assume i: "i < length sccs" "x \<in> set (sccs ! i)"
      then obtain j where j: "j \<le> i" "y \<in> set (sccs ! j)" using ord [of i x y] step(1) by (auto simp: edges_def)
      then have "j < length sccs" using i(1) by simp
      with step(3) j(2) obtain k where "k \<le> j" "w \<in> set (sccs ! k)" by blast
      with j(1) show "\<exists>j \<le> i. w \<in> set (sccs ! j)" by (intro exI [of _ k]) simp
    qed
  qed auto
  obtain j where j: "j \<le> i" "p \<in> set (sccs ! j)" using ord [OF i p] by blast
  have idx: "nodeToSccIdx sccs w = Some k" if "k < length sccs" "w \<in> set (sccs ! k)" for k w
    using nodeToSccIdx_at [of sccs k w] ok that unfolding sccs_ok_def by blast
  show ?thesis
  proof (cases "(p, x) \<in> (edges G)\<^sup>*")
    case True
    have "j < length sccs" using j(1) i(1) by simp
    with path [OF True] j(2) obtain k where "k \<le> j" "x \<in> set (sccs ! k)" by blast
    with idx [of k x] idx [OF i] j i(1) have "i = k" by simp
    with \<open>k \<le> j\<close> j i(1) True show ?thesis by (intro exI [of _ j]) simp
  next
    case False
    have "j \<noteq> i"
    proof
      assume "j = i"
      with ok i j(2) have "(p, x) \<in> (edges G)\<^sup>*" unfolding sccs_ok_def by (meson nth_mem)
      with False show False ..
    qed
    with j(1) have lt: "j < i" by simp
    have at: "nodeToSccIdx sccs p = Some j" using idx [of j p] j(2) lt i(1) by simp
    have "take i (sccDepth G sccs) ! j < scc_depth G sccs (take i (sccDepth G sccs)) (sccs ! i)"
      using scc_depth_above [where x = x and scc = "sccs ! i" and G = G, OF i(2) p at, of "take i (sccDepth G sccs)"] lt i(1) by simp
    with lt i(1) j(2) False show ?thesis by (intro exI [of _ j]) (simp add: sccDepth_nth [OF i(1), symmetric])
  qed
qed

subsection \<open>Priorities\<close>

lemma scc_priorities_member:
  assumes "i < length sccs" and "k \<in> set (sccs ! i)"
  shows "(k, (sccDepth G sccs ! i + 1) * 10) \<in> set (scc_priorities G sccs)"
proof -
  have "(sccs ! i, sccDepth G sccs ! i) \<in> set (zip sccs (sccDepth G sccs))"
    using assms(1) by (auto simp: in_set_zip)
  with assms(2) show ?thesis unfolding scc_priorities_def by force
qed

lemma scc_priorities_keys: "map fst (scc_priorities G sccs) = concat sccs"
proof -
  have "map fst (concat (map2 (\<lambda>scc d. map (\<lambda>k. (k, (d + 1) * 10)) scc) xs ds)) = concat xs" if "length xs = length ds" for xs :: "'a list list" and ds :: "int list"
    using that by (induction xs ds rule: list_induct2) (simp_all add: comp_def)
  then show ?thesis by (simp add: scc_priorities_def)
qed

lemma foldl_update_get:
  assumes "distinct (map fst xs)" and "inj_on f (fst ` set xs)" and "(k, p) \<in> set xs"
  shows "map_of (foldl (\<lambda>out (key, q). AList.update (f key) q out) out xs) (f k) = Some p"
  using assms
proof (induction xs arbitrary: out rule: rev_induct)
  case (snoc x xs)
  obtain key q where x: "x = (key, q)" by fastforce
  show ?case
  proof (cases "(k, p) = x")
    case True
    with x show ?thesis by (simp add: update_conv')
  next
    case False
    with snoc.prems(3) x have m: "(k, p) \<in> set xs" by auto
    then have "k \<in> fst ` set xs" by (simp add: rev_image_eqI)
    then have "k \<noteq> key" "k \<in> fst ` set (xs @ [x])" "key \<in> fst ` set (xs @ [x])" using snoc.prems(1) x by auto
    then have ne: "f k \<noteq> f key" using snoc.prems(2) by (meson inj_onD)
    have "inj_on f (fst ` set xs)" using snoc.prems(2) by (rule inj_on_subset) auto
    with snoc.IH [of out] snoc.prems(1) m ne x show ?thesis by (simp add: update_conv')
  qed
qed simp

lemma parents_in_schema: "set (parentsOf schema k) \<subseteq> fst ` set schema"
proof -
  have "map_of (keyToTypename schema) t \<noteq> None \<longleftrightarrow> t \<in> fst ` set schema" for t
    by (simp add: map_of_eq_None_iff keyToTypename_def image_image split_def)
  then show ?thesis by (auto simp: parentsOf_def split: option.splits)
qed

lemma schema_search:
  "\<exists>s. connect_all (parentsOf schema) (length schema) (map fst schema) new_tarjan = Some s
     \<and> sccs_ok (parentsOf schema) (tj_sccs s) \<and> fst ` set schema \<subseteq> closed s \<and> stack_ok s"
  using tarjan_correct [of "map fst schema" "parentsOf schema" "length schema"] parents_in_schema [of schema] by auto

lemma visited_within:
  fixes G :: "'v \<Rightarrow> 'v list"
  shows "strongconnect G n v s = Some s' \<Longrightarrow> v \<in> N \<Longrightarrow> (\<forall>x \<in> N. set (G x) \<subseteq> N) \<Longrightarrow> visited s \<subseteq> N \<Longrightarrow> visited s' \<subseteq> N"
    and "visit_parents G n v ws s = Some s' \<Longrightarrow> set ws \<subseteq> N \<Longrightarrow> (\<forall>x \<in> N. set (G x) \<subseteq> N) \<Longrightarrow> visited s \<subseteq> N \<Longrightarrow> visited s' \<subseteq> N"
proof (induction G n v s and G n v ws s arbitrary: s' and s' rule: strongconnect_visit_parents.induct)
  case (2 G n v s)
  then obtain s1 where "visit_parents G n v (G v) (discover v s) = Some s1" and s': "s' = close_component v s1" by auto
  moreover have "visited (discover v s) \<subseteq> N" using 2(3,5) by (auto simp: discover_def)
  ultimately have "visited s1 \<subseteq> N" using 2(1) [of s1] 2(3,4) by auto
  then show ?case by (simp add: s' close_component_def split_def)
next
  case (4 G n v w ws s)
  show ?case
  proof (cases "tj_dfsIndex s w = None")
    case True
    with 4(4) obtain s1 where "strongconnect G n w s = Some s1" "visit_parents G n v ws (low_min v (tj_lowlink s1 w) s1) = Some s'"
      by (auto simp: bind_eq_Some_conv)
    with 4(1,2) [OF True] 4(5-7) show ?thesis by auto
  next
    case False
    with 4(3) [OF False] 4(4-7) show ?thesis by (auto split: if_splits)
  qed
qed auto

lemma connect_within:
  assumes "connect_all G n vs s = Some s'" and "set vs \<subseteq> N" and "\<forall>x \<in> N. set (G x) \<subseteq> N" and "visited s \<subseteq> N"
  shows "visited s' \<subseteq> N"
  using assms(1,2,4)
proof (induction vs arbitrary: s)
  case (Cons v vs)
  show ?case
  proof (cases "tj_dfsIndex s v = None")
    case True
    with Cons.prems(1) obtain s1 where s1: "strongconnect G n v s = Some s1" "connect_all G n vs s1 = Some s'"
      by (auto simp: bind_eq_Some_conv)
    have "visited s1 \<subseteq> N" using visited_within(1) [OF s1(1)] Cons.prems(2,3) assms(3) by simp
    with Cons.IH [OF s1(2)] Cons.prems(2) show ?thesis by simp
  next
    case False
    with Cons show ?thesis by simp
  qed
qed auto

text \<open>The priorities of all keys, through the components.\<close>

lemma priorities_of_schema:
  assumes "distinct (map fst schema)" and "distinct (map snd (keyToTypename schema))"
  shows "\<exists>out sccs. computeFKDepthPriority schema = Some out \<and> sccs_ok (parentsOf schema) sccs
    \<and> set (concat sccs) = fst ` set schema
    \<and> (\<forall>i < length sccs. \<forall>k \<in> set (sccs ! i). map_of out (typename_of schema k) = Some ((sccDepth (parentsOf schema) sccs ! i + 1) * 10))"
proof -
  obtain s where s: "connect_all (parentsOf schema) (length schema) (map fst schema) new_tarjan = Some s"
    "sccs_ok (parentsOf schema) (tj_sccs s)" "fst ` set schema \<subseteq> closed s" "stack_ok s"
    using schema_search by blast
  have within: "visited s \<subseteq> fst ` set schema"
    by (rule connect_within [OF s(1)]) (use parents_in_schema in \<open>auto simp: new_tarjan_def\<close>)
  have "closed s \<subseteq> visited s" using s(4) by (auto simp: stack_ok_def)
  with within s(3) have keys: "closed s = fst ` set schema" by blast
  have inj: "inj_on (typename_of schema) (closed s)"
  proof (rule inj_onI)
    fix a b assume ab: "a \<in> closed s" "b \<in> closed s" "typename_of schema a = typename_of schema b"
    have at: "(k, typename_of schema k) \<in> set (keyToTypename schema)" if "k \<in> closed s" for k
    proof -
      have "k \<in> fst ` set (keyToTypename schema)" using that unfolding keys by (simp add: keyToTypename_def image_image split_def)
      then obtain t where "map_of (keyToTypename schema) k = Some t" by (metis map_of_eq_None_iff not_None_eq)
      then show ?thesis by (simp add: typename_of_def map_of_SomeD)
    qed
    have "inj_on snd (set (keyToTypename schema))" using assms(2) by (simp add: distinct_map)
    from inj_onD [OF this _ at [OF ab(1)] at [OF ab(2)]] ab(3) show "a = b" by simp
  qed
  let ?xs = "scc_priorities (parentsOf schema) (tj_sccs s)"
  let ?out = "foldl (\<lambda>out (key, priority). AList.update (typename_of schema key) priority out) [] ?xs"
  have "computeFKDepthPriority schema = Some ?out" by (simp add: computeFKDepthPriority_def s(1))
  moreover have "map_of ?out (typename_of schema k) = Some ((sccDepth (parentsOf schema) (tj_sccs s) ! i + 1) * 10)"
    if "i < length (tj_sccs s)" "k \<in> set (tj_sccs s ! i)" for i k
  proof (rule foldl_update_get)
    show "distinct (map fst ?xs)" using s(2) by (simp add: scc_priorities_keys sccs_ok_def)
    show "inj_on (typename_of schema) (fst ` set ?xs)" using inj by (metis scc_priorities_keys set_map)
    show "(k, (sccDepth (parentsOf schema) (tj_sccs s) ! i + 1) * 10) \<in> set ?xs" using scc_priorities_member [OF that] .
  qed
  ultimately show ?thesis using s(2) keys by blast
qed

subsection \<open>Properties\<close>

text \<open>
  C38. The derivation of create priorities terminates on every schema, cyclic or not: the
  recursion never needs more nested calls than there are models.
\<close>

theorem fk_priority_terminates: "computeFKDepthPriority schema \<noteq> None"
  using schema_search [of schema] by (auto simp: computeFKDepthPriority_def)

text \<open>
  Parents come first: for every relation the derivation follows, the parent's create
  priority is strictly smaller than the child's, unless the parent depends on the child in
  turn; then both have the same priority. All priorities are positive multiples of ten.
\<close>

lemma fk_parent_before_child:
  assumes "distinct (map fst schema)" and "distinct (map snd (keyToTypename schema))"
    and "c \<in> fst ` set schema" and "p \<in> set (parentsOf schema c)"
  shows "\<exists>out pc pp. computeFKDepthPriority schema = Some out
    \<and> map_of out (typename_of schema c) = Some pc \<and> map_of out (typename_of schema p) = Some pp
    \<and> (if (p, c) \<in> (edges (parentsOf schema))\<^sup>* then pp = pc else pp < pc) \<and> 10 \<le> pp \<and> 10 dvd pp"
proof -
  let ?G = "parentsOf schema"
  obtain out sccs where o: "computeFKDepthPriority schema = Some out" "sccs_ok ?G sccs" "set (concat sccs) = fst ` set schema"
    "\<forall>i < length sccs. \<forall>k \<in> set (sccs ! i). map_of out (typename_of schema k) = Some ((sccDepth ?G sccs ! i + 1) * 10)"
    using priorities_of_schema [OF assms(1,2)] by blast
  from assms(3) o(3) obtain i where i: "i < length sccs" "c \<in> set (sccs ! i)" by (metis UN_E in_set_conv_nth set_concat)
  obtain j where j: "j < length sccs" "p \<in> set (sccs ! j)"
    "if (p, c) \<in> (edges ?G)\<^sup>* then j = i else sccDepth ?G sccs ! j < sccDepth ?G sccs ! i"
    using depth_of_parent [OF o(2) i assms(4)] by blast
  have "0 \<le> sccDepth ?G sccs ! j" using scc_depth_nonneg by (simp add: sccDepth_nth [OF j(1)])
  with o(1,4) i j show ?thesis by (auto split: if_splits)
qed

definition schema_example :: fk_schema where
  "schema_example = [(''tasks'', \<lparr>md_typename = Some ''Task'', md_relations =
       [\<lparr>rel_type = BelongsTo, rel_target = ''projects'', rel_defer = False\<rparr>]\<rparr>),
     (''projects'', \<lparr>md_typename = None, md_relations = [\<lparr>rel_type = HasMany, rel_target = ''tasks'', rel_defer = False\<rparr>]\<rparr>)]"

end
