(* ===== verification/BatchProcessing.thy ===== *)
theory BatchProcessing
  imports CommitLane ForeignKeys "HOL-Library.Multiset"
begin

section \<open>Processing a batch of model mutations\<close>

text \<open>
  Model of \<open>packages/humans/src/local/transactions/mutations/batchProcessing.ts\<close> and of the parts
  of \<open>MutationQueue.ts\<close> it calls: the order of the execution queue, the binding of a batch to
  one idempotency key, and how the members of a batch are settled when the answer to the
  commit arrives, including the answer that the write was only forwarded to its source.

  The transactions live in the store; a member of a batch is named by its identifier.
\<close>

subsection \<open>The order of the queue\<close>

text \<open>The comparator given to \<open>executionQueue.sort\<close>, after \<open>ensureDerivedFields\<close>.\<close>

definition score_of :: "priority_config \<Rightarrow> QueuedMutation \<Rightarrow> int" where
  "score_of cfg tx = the (qm_priorityScore (ensureDerivedFields cfg tx))"

definition batch_compare :: "priority_config \<Rightarrow> QueuedMutation \<Rightarrow> QueuedMutation \<Rightarrow> int" where
  "batch_compare cfg a b =
     (if row_of a = row_of b \<and> qm_type a \<noteq> qm_type b \<and> qm_type a = Create then - 1
      else if row_of a = row_of b \<and> qm_type a \<noteq> qm_type b \<and> qm_type b = Create then 1
      else score_of cfg a - score_of cfg b)"

subsection \<open>Binding a batch to its envelope\<close>

definition envelope_error :: "string \<Rightarrow> queue_error" where
  "envelope_error msg = \<lparr>err_connection = False, err_code = None, err_message = msg, err_status = None, err_responseErrors = 0\<rparr>"

text \<open>Every member of one whole envelope: the check before a replay.\<close>

definition isCompleteEnvelope :: "string \<Rightarrow> nat option \<Rightarrow> QueuedMutation list \<Rightarrow> bool" where
  "isCompleteEnvelope existingKey expectedCount batch \<longleftrightarrow>
     expectedCount = Some (length batch)
     \<and> length (remdups (map (\<lambda>tx. map_option env_operationIndex (qm_commitEnvelope tx)) batch)) = length batch
     \<and> list_all (\<lambda>tx. case qm_commitEnvelope tx of
           None \<Rightarrow> False
         | Some e \<Rightarrow> env_idempotencyKey e = existingKey \<and> Some (env_operationCount e) = expectedCount
             \<and> env_operationIndex e < length batch) batch"

definition set_sealedAt :: "int \<Rightarrow> QueuedMutation \<Rightarrow> QueuedMutation" where
  "set_sealedAt t tx = tx\<lparr>qm_commitEnvelope := map_option (\<lambda>e. e\<lparr>env_sealedAt := Some t\<rparr>) (qm_commitEnvelope tx)\<rparr>"

definition rebind_batch :: "int \<Rightarrow> string \<Rightarrow> nat option \<Rightarrow> QueuedMutation list
    \<Rightarrow> queue_error + (QueuedMutation list \<times> string)" where
  "rebind_batch now existingKey expectedCount batch =
     (if \<not> isCompleteEnvelope existingKey expectedCount batch
      then Inl (envelope_error ''Cannot replay a partial or malformed commit envelope'')
      else
        let sealTimes = remdups (List.map_filter (\<lambda>tx. Option.bind (qm_commitEnvelope tx) env_sealedAt) batch) in
        if 1 < length sealTimes
        then Inl (envelope_error ''Cannot replay a commit envelope with inconsistent seal times'')
        else
          let sealedAt = (case sealTimes of [] \<Rightarrow> now | t # _ \<Rightarrow> t)
          in Inr (sort_key operation_index (map (set_sealedAt sealedAt) batch), existingKey))"

definition fresh_key :: "string \<Rightarrow> QueuedMutation list \<Rightarrow> string" where
  "fresh_key generated batch =
     (case (case batch of
          [tx] \<Rightarrow> (case qm_writeOptions tx of None \<Rightarrow> None | Some wo \<Rightarrow> wo_idempotencyKey wo)
        | _ \<Rightarrow> None) of
        None \<Rightarrow> generated
      | Some k \<Rightarrow> if 0 < length k then k else generated)"

definition bind_fresh :: "int \<Rightarrow> string \<Rightarrow> nat \<Rightarrow> QueuedMutation list \<Rightarrow> QueuedMutation list" where
  "bind_fresh now key sequence batch = map2 (\<lambda>tx i. tx\<lparr>qm_commitEnvelope := Some \<lparr>env_idempotencyKey = key,
     env_operationIndex = i, env_operationCount = length batch, env_sealedAt = Some now, env_sequence = Some sequence\<rparr>\<rparr>)
     batch [0..<length batch]"

text \<open>
  \<open>generated\<close> is the key that \<open>generateCommitIdempotencyKey\<close> would return, \<open>sequence\<close> the next
  commit sequence. The result is the batch with its envelopes, in order, and the key.
\<close>

definition ensureCommitEnvelope :: "int \<Rightarrow> string \<Rightarrow> nat \<Rightarrow> QueuedMutation list
    \<Rightarrow> queue_error + (QueuedMutation list \<times> string)" where
  "ensureCommitEnvelope now generated sequence batch =
     (if batch = [] then Inl (envelope_error ''Cannot create an idempotency envelope for an empty commit'')
      else
        let existingKeys = remdups (List.map_filter envelope_key batch) in
        if 1 < length existingKeys
        then Inl (envelope_error ''Cannot combine transactions from different commit envelopes'')
        else if existingKeys \<noteq> [] \<and> hd existingKeys \<noteq> []
        then rebind_batch now (hd existingKeys) (map_option env_operationCount (qm_commitEnvelope (hd batch))) batch
        else
          let idempotencyKey = fresh_key generated batch
          in Inr (bind_fresh now idempotencyKey sequence batch, idempotencyKey))"

subsection \<open>Settling the members\<close>

datatype batch_effect =
    BatchCompleted string
  | BatchFailure failure_effect
  | BatchDurableRemoved string
  | BatchAck int
  | BatchLagTimeout string
  | BatchReconcile string

record batch_state =
  bs_store :: MutationStore
  bs_tracker :: DeltaConfirmationTracker
  bs_optimistic :: "string list"

definition complete_member :: "string \<Rightarrow> batch_state \<Rightarrow> batch_state" where
  "complete_member i st = st\<lparr>bs_store := updateStatus i Completed (bs_store st), bs_optimistic := removeAll i (bs_optimistic st)\<rparr>"

definition await_member :: "int \<Rightarrow> string \<Rightarrow> batch_state \<Rightarrow> batch_state" where
  "await_member timeoutMs i st = st\<lparr>bs_store := updateStatus i AwaitingDelta (bs_store st),
     bs_tracker := scheduleDeltaConfirmationTimeout i timeoutMs (bs_tracker st)\<rparr>"

definition settle_queued_member :: "int \<Rightarrow> (string \<times> int) list \<Rightarrow> string option \<Rightarrow> string
    \<Rightarrow> batch_state \<times> batch_effect list \<Rightarrow> batch_state \<times> batch_effect list" where
  "settle_queued_member timeoutMs recentDeltaCorrelations correlationId i acc = (case acc of (st, es) \<Rightarrow>
     let st1 = st\<lparr>bs_store := store_modify i (\<lambda>tx. tx\<lparr>qm_syncIdNeeded := None, qm_correlationId := correlationId,
           qm_requiresCorrelatedDelta := True\<rparr>) (bs_store st)\<rparr>;
         echoSyncId = (case correlationId of None \<Rightarrow> None | Some c \<Rightarrow> if c = [] then None else map_of recentDeltaCorrelations c)
     in if echoSyncId \<noteq> None then (complete_member i st1, es @ [BatchCompleted i])
        else (await_member timeoutMs i st1, es @ [BatchLagTimeout i]))"

definition settle_confirmed_member :: "int \<Rightarrow> int \<Rightarrow> string
    \<Rightarrow> batch_state \<times> batch_effect list \<Rightarrow> batch_state \<times> batch_effect list" where
  "settle_confirmed_member timeoutMs lastSyncId i acc = (case acc of (st, es) \<Rightarrow>
     let st1 = st\<lparr>bs_store := store_modify i (\<lambda>tx. tx\<lparr>qm_syncIdNeeded := Some lastSyncId\<rparr>) (bs_store st)\<rparr>;
         is_delete = (map_option qm_type (store_get (bs_store st1) i) = Some Delete)
     in if lastSyncId = 0 \<and> is_delete then (complete_member i st1, es @ [BatchCompleted i])
        else if 0 < lastSyncId then (complete_member i st1, es @ [BatchCompleted i])
        else (await_member timeoutMs i st1, es))"

text \<open>Rows the server did not find fail with \<open>not_found\<close>, last member first.\<close>

definition fail_member :: "failure_config \<Rightarrow> (queue_error \<Rightarrow> bool) \<Rightarrow> int \<Rightarrow> real \<Rightarrow> queue_error \<Rightarrow> string
    \<Rightarrow> batch_state \<times> batch_effect list \<Rightarrow> batch_state \<times> batch_effect list" where
  "fail_member cfg permanent now rnd e i acc = (case acc of (st, es) \<Rightarrow>
     case handleFailure cfg permanent now rnd i e (bs_store st) of
       (s, fs) \<Rightarrow> (st\<lparr>bs_store := s\<rparr>, es @ map BatchFailure fs))"

definition not_found_error :: queue_error where
  "not_found_error = \<lparr>err_connection = False, err_code = Some ''entity_not_found'', err_message = [], err_status = Some 404,
     err_responseErrors = 0\<rparr>"

definition settle_batch :: "failure_config \<Rightarrow> (queue_error \<Rightarrow> bool) \<Rightarrow> int \<Rightarrow> real \<Rightarrow> int \<Rightarrow> (string \<times> int) list
    \<Rightarrow> string \<Rightarrow> MutationCommitResult \<Rightarrow> string list \<Rightarrow> QueuedMutation list \<Rightarrow> batch_state
    \<Rightarrow> batch_state \<times> batch_effect list" where
  "settle_batch cfg permanent now rnd timeoutMs recent key result missingIds batch st =
     (let settling = map qm_id (filter (\<lambda>tx. qm_modelId tx \<notin> set missingIds) batch);
          missing = map qm_id (filter (\<lambda>tx. qm_modelId tx \<in> set missingIds) batch);
          acc = fold (fail_member cfg permanent now rnd not_found_error) (rev missing) (st, [])
      in case result of
           ResultQueued lastSyncId correlationId \<Rightarrow>
             let acc1 = (if settling = [] then (fst acc, snd acc @ [BatchDurableRemoved key]) else acc);
                 acc2 = fold (settle_queued_member timeoutMs recent correlationId) settling acc1
             in if settling = [] then acc2
                else if list_all (\<lambda>i. map_option qm_status (store_get (bs_store (fst acc2)) i) = Some Completed) settling
                then (fst acc2, snd acc2 @ [BatchDurableRemoved key])
                else (fst acc2, snd acc2 @ [BatchReconcile key])
         | ResultConfirmed lastSyncId \<Rightarrow>
             fold (settle_confirmed_member timeoutMs lastSyncId) settling
               (fst acc, snd acc @ [BatchDurableRemoved key, BatchAck lastSyncId]))"

text \<open>The \<open>catch\<close> block of the dispatch. A missing row is the goal of an update or delete already.\<close>

definition reject_member :: "failure_config \<Rightarrow> (queue_error \<Rightarrow> bool) \<Rightarrow> int \<Rightarrow> real \<Rightarrow> queue_error \<Rightarrow> QueuedMutation
    \<Rightarrow> batch_state \<times> batch_effect list \<Rightarrow> batch_state \<times> batch_effect list" where
  "reject_member cfg permanent now rnd e tx acc =
     (if qm_type tx = Update \<or> qm_type tx = Delete
      then (case acc of (st, es) \<Rightarrow>
        (st\<lparr>bs_store := updateStatus (qm_id tx) Completed (bs_store st)\<rparr>, es @ [BatchCompleted (qm_id tx)]))
      else fail_member cfg permanent now rnd e (qm_id tx) acc)"

definition reject_batch :: "failure_config \<Rightarrow> (string \<Rightarrow> bool option) \<Rightarrow> int \<Rightarrow> real \<Rightarrow> bool \<Rightarrow> string \<Rightarrow> queue_error
    \<Rightarrow> QueuedMutation list \<Rightarrow> batch_state \<Rightarrow> batch_state \<times> batch_effect list" where
  "reject_batch cfg spec now rnd dispatchStarted key e batch st =
     (let removed = (if dispatchStarted \<and> isDefinitiveRejection spec e then [BatchDurableRemoved key] else []);
          permanent = isPermanentError spec
      in if str_includes (err_message e) ''no rows in result set''
         then fold (reject_member cfg permanent now rnd e) (rev batch)
                (st, removed @ (if dispatchStarted then [BatchDurableRemoved key] else []))
         else fold (fail_member cfg permanent now rnd e) (rev (map qm_id batch)) (st, removed))"

text \<open>
  One pass over a batch that was taken from the queue: bind it, mark its members as executing,
  send it, and settle it by the outcome. \<open>Inl\<close> is the error that \<open>ensureCommitEnvelope\<close> throws.
\<close>

definition mark_executing :: "string list \<Rightarrow> batch_state \<Rightarrow> batch_state" where
  "mark_executing ids st = st\<lparr>bs_store := fold (\<lambda>i. updateStatus i Executing) ids (bs_store st)\<rparr>"

type_synonym batch_outcome = "(bool \<times> queue_error) + (MutationCommitResult \<times> string list)"

definition run_batch :: "failure_config \<Rightarrow> (string \<Rightarrow> bool option) \<Rightarrow> int \<Rightarrow> real \<Rightarrow> int \<Rightarrow> (string \<times> int) list
    \<Rightarrow> string \<Rightarrow> nat \<Rightarrow> batch_outcome \<Rightarrow> QueuedMutation list \<Rightarrow> batch_state
    \<Rightarrow> queue_error + (batch_state \<times> batch_effect list)" where
  "run_batch cfg spec now rnd timeoutMs recent generated sequence outcome batch st =
     bindR (ensureCommitEnvelope now generated sequence batch) (\<lambda>(bound, key).
       let st1 = mark_executing (map qm_id bound) st
       in Inr (case outcome of
           Inl (dispatchStarted, e) \<Rightarrow> reject_batch cfg spec now rnd dispatchStarted key e bound st1
         | Inr (result, missingIds) \<Rightarrow>
             settle_batch cfg (isPermanentError spec) now rnd timeoutMs recent key result missingIds bound st1))"

subsection \<open>Settling one member after the other\<close>

text \<open>
  Each loop over a batch handles one member per round. A round that settles its own member and
  leaves the others alone settles, over distinct members, all of them.
\<close>

locale member_steps =
  fixes step :: "'m \<Rightarrow> 'a \<Rightarrow> 'a"
    and id_of :: "'m \<Rightarrow> string"
    and ready :: "string \<Rightarrow> 'a \<Rightarrow> bool"
    and settled :: "string \<Rightarrow> 'a \<Rightarrow> bool"
  assumes settles: "ready (id_of m) a \<Longrightarrow> settled (id_of m) (step m a)"
    and keeps_ready: "ready j a \<Longrightarrow> j \<noteq> id_of m \<Longrightarrow> ready j (step m a)"
    and keeps_settled: "settled j a \<Longrightarrow> j \<noteq> id_of m \<Longrightarrow> settled j (step m a)"
begin

lemma fold_keeps:
  assumes "j \<notin> set (map id_of ms)"
  shows "(ready j a \<longrightarrow> ready j (fold step ms a)) \<and> (settled j a \<longrightarrow> settled j (fold step ms a))"
  using assms by (induction ms arbitrary: a) (simp_all add: keeps_ready keeps_settled)

lemma fold_settles:
  assumes "distinct (map id_of ms)" and "\<forall>m \<in> set ms. ready (id_of m) a" and "m \<in> set ms"
  shows "settled (id_of m) (fold step ms a)"
  using assms
proof (induction ms arbitrary: a)
  case (Cons x xs)
  show ?case
  proof (cases "m = x")
    case True
    with Cons.prems show ?thesis using fold_keeps [of "id_of x" xs "step x a"] by (simp add: settles)
  next
    case False
    with Cons.prems have "m \<in> set xs" by simp
    moreover have "\<forall>m \<in> set xs. ready (id_of m) (step x a)"
      using Cons.prems(1,2) by (auto intro!: keeps_ready simp: rev_image_eqI)
    ultimately show ?thesis using Cons.IH Cons.prems(1) by simp
  qed
qed simp

end

abbreviation member_status :: "string \<Rightarrow> batch_state \<Rightarrow> mutation_status option" where
  "member_status i st \<equiv> map_option qm_status (store_get (bs_store st) i)"

definition member_executing :: "string \<Rightarrow> batch_state \<times> batch_effect list \<Rightarrow> bool" where
  "member_executing i acc \<longleftrightarrow> member_status i (fst acc) = Some Executing \<and> \<not> dc_disposed (bs_tracker (fst acc))"

text \<open>
  A settled member has its outcome reported: completed with the event, waiting for its delta
  with the timer armed, pending with a retry scheduled, or failed with the event.
\<close>

definition member_settled :: "string \<Rightarrow> batch_state \<times> batch_effect list \<Rightarrow> bool" where
  "member_settled i acc \<longleftrightarrow> (case member_status i (fst acc) of
      Some Completed \<Rightarrow> BatchCompleted i \<in> set (snd acc)
    | Some AwaitingDelta \<Rightarrow> (\<exists>ms. map_of (dc_timeouts (bs_tracker (fst acc))) i = Some (ms, True))
    | Some Pending \<Rightarrow> (\<exists>d. BatchFailure (ScheduleRetry i d) \<in> set (snd acc))
    | Some Failed \<Rightarrow> (\<exists>p. BatchFailure (EmitFailed i p) \<in> set (snd acc))
    | _ \<Rightarrow> False)"

lemma schedule_timeouts:
  "\<not> dc_disposed t \<Longrightarrow> map_of (dc_timeouts (scheduleDeltaConfirmationTimeout i ms t)) j =
     (if j = i then Some (ms, True) else map_of (dc_timeouts t) j)"
  by (auto simp: scheduleDeltaConfirmationTimeout_def cancelDeltaConfirmationTimeout_def Let_def update_conv' delete_conv'
      split: option.splits)

lemma schedule_disposed [simp]: "dc_disposed (scheduleDeltaConfirmationTimeout i ms t) = dc_disposed t"
  by (simp add: scheduleDeltaConfirmationTimeout_def cancelDeltaConfirmationTimeout_def Let_def split: option.splits)

lemma schedule_other:
  "j \<noteq> i \<Longrightarrow> map_of (dc_timeouts (scheduleDeltaConfirmationTimeout i ms t)) j = map_of (dc_timeouts t) j"
  by (cases "dc_disposed t") (simp add: scheduleDeltaConfirmationTimeout_def, simp add: schedule_timeouts)

lemma updateStatus_member:
  "store_get (updateStatus i x s) j = (if j = i then map_option (\<lambda>tx. tx\<lparr>qm_status := x\<rparr>) (store_get s i) else store_get s j)"
  by (simp add: updateStatus_get split: option.splits)

lemmas member_simps = member_executing_def member_settled_def complete_member_def await_member_def updateStatus_member
  store_modify_get schedule_timeouts schedule_other Let_def

lemma handleFailure_other:
  "j \<noteq> i \<Longrightarrow> store_get (fst (handleFailure cfg permanent now rnd i e s)) j = store_get s j"
  by (auto simp: handleFailure_def Let_def fail_and_rollback_def updateStatus_member store_modify_get split: option.splits)

lemma handleFailure_own:
  assumes "map_option qm_status (store_get s i) = Some Executing"
    and "handleFailure cfg permanent now rnd i e s = (s', fs)"
  shows "map_option qm_status (store_get s' i) = Some Pending \<and> (\<exists>d. ScheduleRetry i d \<in> set fs)
    \<or> map_option qm_status (store_get s' i) = Some Failed \<and> EmitFailed i (permanent e) \<in> set fs"
  using assms
  by (auto simp: handleFailure_def Let_def fail_and_rollback_def updateStatus_member store_modify_get split: if_splits)

lemma fail_member_other:
  "j \<noteq> i \<Longrightarrow> store_get (bs_store (fst (fail_member cfg p now rnd e i acc))) j = store_get (bs_store (fst acc)) j"
  "bs_tracker (fst (fail_member cfg p now rnd e i acc)) = bs_tracker (fst acc)"
  "set (snd acc) \<subseteq> set (snd (fail_member cfg p now rnd e i acc))"
  using handleFailure_other [of j i cfg p now rnd e "bs_store (fst acc)"]
  by (auto simp: fail_member_def split: prod.splits)

lemma member_settled_mono:
  assumes "member_settled j acc" and "store_get (bs_store (fst acc')) j = store_get (bs_store (fst acc)) j"
    and "map_of (dc_timeouts (bs_tracker (fst acc'))) j = map_of (dc_timeouts (bs_tracker (fst acc))) j"
    and "set (snd acc) \<subseteq> set (snd acc')"
  shows "member_settled j acc'"
  using assms unfolding member_settled_def by (auto split: option.splits mutation_status.splits)

lemma fail_member_settles:
  assumes "member_executing i acc"
  shows "member_settled i (fail_member cfg p now rnd e i acc)"
proof -
  obtain s' fs where h: "handleFailure cfg p now rnd i e (bs_store (fst acc)) = (s', fs)" by fastforce
  have r: "fail_member cfg p now rnd e i acc = ((fst acc)\<lparr>bs_store := s'\<rparr>, snd acc @ map BatchFailure fs)"
    using h by (simp add: fail_member_def split_def)
  show ?thesis
    using handleFailure_own [OF _ h] assms unfolding r member_settled_def member_executing_def
    by (auto simp: image_iff)
qed

interpretation failing: member_steps "fail_member cfg p now rnd e" "\<lambda>i. i" member_executing member_settled
  for cfg p now rnd e
proof unfold_locales
  fix i j acc
  show "member_executing i acc \<Longrightarrow> member_settled i (fail_member cfg p now rnd e i acc)"
    by (rule fail_member_settles)
  assume "j \<noteq> i"
  then show "member_executing j acc \<Longrightarrow> member_executing j (fail_member cfg p now rnd e i acc)"
    by (simp add: member_executing_def fail_member_other)
  show "member_settled j acc \<Longrightarrow> member_settled j (fail_member cfg p now rnd e i acc)" using \<open>j \<noteq> i\<close>
    by (rule_tac member_settled_mono) (simp_all add: fail_member_other(1,2), rule fail_member_other(3))
qed

lemma settle_queued_other:
  "j \<noteq> i \<Longrightarrow> store_get (bs_store (fst (settle_queued_member ms recent c i acc))) j = store_get (bs_store (fst acc)) j"
  "j \<noteq> i \<Longrightarrow> map_of (dc_timeouts (bs_tracker (fst (settle_queued_member ms recent c i acc)))) j =
     map_of (dc_timeouts (bs_tracker (fst acc))) j"
  "dc_disposed (bs_tracker (fst (settle_queued_member ms recent c i acc))) = dc_disposed (bs_tracker (fst acc))"
  "set (snd acc) \<subseteq> set (snd (settle_queued_member ms recent c i acc))"
  by (auto simp: settle_queued_member_def member_simps split_def)

lemma settle_confirmed_other:
  "j \<noteq> i \<Longrightarrow> store_get (bs_store (fst (settle_confirmed_member ms n i acc))) j = store_get (bs_store (fst acc)) j"
  "j \<noteq> i \<Longrightarrow> map_of (dc_timeouts (bs_tracker (fst (settle_confirmed_member ms n i acc)))) j =
     map_of (dc_timeouts (bs_tracker (fst acc))) j"
  "dc_disposed (bs_tracker (fst (settle_confirmed_member ms n i acc))) = dc_disposed (bs_tracker (fst acc))"
  "set (snd acc) \<subseteq> set (snd (settle_confirmed_member ms n i acc))"
  by (auto simp: settle_confirmed_member_def member_simps split_def)

interpretation queued_settling: member_steps "settle_queued_member ms recent c" "\<lambda>i. i" member_executing member_settled
  for ms recent c
proof unfold_locales
  fix i j acc
  show "member_executing i acc \<Longrightarrow> member_settled i (settle_queued_member ms recent c i acc)"
    by (auto simp: settle_queued_member_def member_simps split_def)
  assume other: "j \<noteq> i"
  then show "member_executing j acc \<Longrightarrow> member_executing j (settle_queued_member ms recent c i acc)"
    by (simp add: member_executing_def settle_queued_other)
  show "member_settled j acc \<Longrightarrow> member_settled j (settle_queued_member ms recent c i acc)"
    by (erule member_settled_mono) (simp_all add: other settle_queued_other(1,2), rule settle_queued_other(4))
qed

interpretation confirmed_settling: member_steps "settle_confirmed_member ms n" "\<lambda>i. i" member_executing member_settled
  for ms n
proof unfold_locales
  fix i j acc
  show "member_executing i acc \<Longrightarrow> member_settled i (settle_confirmed_member ms n i acc)"
    by (auto simp: settle_confirmed_member_def member_simps split_def)
  assume other: "j \<noteq> i"
  then show "member_executing j acc \<Longrightarrow> member_executing j (settle_confirmed_member ms n i acc)"
    by (simp add: member_executing_def settle_confirmed_other)
  show "member_settled j acc \<Longrightarrow> member_settled j (settle_confirmed_member ms n i acc)"
    by (erule member_settled_mono) (simp_all add: other settle_confirmed_other(1,2), rule settle_confirmed_other(4))
qed

interpretation reject_settling: member_steps "reject_member cfg p now rnd e" qm_id member_executing member_settled
  for cfg p now rnd e
proof unfold_locales
  fix tx :: QueuedMutation and j acc
  show "member_executing (qm_id tx) acc \<Longrightarrow> member_settled (qm_id tx) (reject_member cfg p now rnd e tx acc)"
  proof (cases "qm_type tx = Update \<or> qm_type tx = Delete")
    case True
    then show "member_executing (qm_id tx) acc \<Longrightarrow> member_settled (qm_id tx) (reject_member cfg p now rnd e tx acc)"
      by (auto simp: reject_member_def member_simps split_def)
  qed (simp add: reject_member_def fail_member_settles)
  assume other: "j \<noteq> qm_id tx"
  then show "member_executing j acc \<Longrightarrow> member_executing j (reject_member cfg p now rnd e tx acc)"
    by (auto simp: reject_member_def member_executing_def updateStatus_member split_def fail_member_other)
  show "member_settled j acc \<Longrightarrow> member_settled j (reject_member cfg p now rnd e tx acc)"
    by (cases "qm_type tx = Update \<or> qm_type tx = Delete", erule member_settled_mono)
       (auto simp: reject_member_def updateStatus_member split_def other intro: failing.keeps_settled)
qed

subsection \<open>The whole batch\<close>

lemma executing_fold:
  "store_get (fold (\<lambda>i. updateStatus i Executing) ids s) j =
     (if j \<in> set ids then map_option (\<lambda>tx. tx\<lparr>qm_status := Executing\<rparr>) (store_get s j) else store_get s j)"
  by (induction ids arbitrary: s) (auto simp: updateStatus_member option.map_comp comp_def)

lemma mark_executing_ready:
  assumes "\<forall>i \<in> set ids. store_get (bs_store st) i \<noteq> None" and "\<not> dc_disposed (bs_tracker st)" and "i \<in> set ids"
  shows "member_executing i (mark_executing ids st, es)"
  using assms by (auto simp: member_executing_def mark_executing_def executing_fold)

lemma reject_batch_settles:
  assumes "distinct (map qm_id batch)" and "\<forall>es. \<forall>tx \<in> set batch. member_executing (qm_id tx) (st, es)" and "tx \<in> set batch"
  shows "member_settled (qm_id tx) (reject_batch cfg spec now rnd started key e batch st)"
  using reject_settling.fold_settles [of "rev batch"] failing.fold_settles [of "rev (map qm_id batch)" _ "qm_id tx"] assms
  by (simp add: reject_batch_def Let_def rev_map [symmetric])

lemma member_effects_appended:
  assumes "fst acc' = fst acc" and "set (snd acc) \<subseteq> set (snd acc')"
  shows "(member_executing i acc \<longrightarrow> member_executing i acc') \<and> (member_settled i acc \<longrightarrow> member_settled i acc')"
  using assms by (auto simp: member_executing_def intro: member_settled_mono)

lemma settled_appended: "member_settled i (st, es) \<Longrightarrow> set es \<subseteq> set es' \<Longrightarrow> member_settled i (st, es')"
  using member_effects_appended [of "(st, es')" "(st, es)"] by simp

lemma settled_effects_appended [simp]: "member_settled i acc \<Longrightarrow> member_settled i (fst acc, snd acc @ es)"
  using settled_appended [of i "fst acc" "snd acc"] by simp

lemma settle_batch_settles:
  assumes dist: "distinct (map qm_id batch)" and ex: "\<forall>es. \<forall>tx \<in> set batch. member_executing (qm_id tx) (st, es)"
    and tx: "tx \<in> set batch"
  shows "member_settled (qm_id tx) (settle_batch cfg p now rnd ms recent key result missing batch st)"
proof -
  define there where "there = map qm_id (filter (\<lambda>tx. qm_modelId tx \<notin> set missing) batch)"
  define gone where "gone = map qm_id (filter (\<lambda>tx. qm_modelId tx \<in> set missing) batch)"
  define acc where "acc = fold (fail_member cfg p now rnd not_found_error) (rev gone) (st, [])"
  have part: "distinct there" "distinct gone" "set there \<inter> set gone = {}"
    using dist by (simp_all add: there_def gone_def distinct_map_filter) (induction batch, auto simp: image_iff)
  have failed: "\<forall>i \<in> set gone. member_settled i acc"
    using failing.fold_settles [of "rev gone"] part(2) ex unfolding acc_def by (auto simp: gone_def)
  have ready: "\<forall>i \<in> set there. member_executing i acc"
    using failing.fold_keeps [of _ "rev gone"] part(3) ex unfolding acc_def by (fastforce simp: there_def)
  have all: "i \<in> set there \<union> set gone \<Longrightarrow> member_settled i (fold (settle_queued_member ms recent c) there acc1)
      \<and> member_settled i (fold (settle_confirmed_member ms n) there acc1)"
    if "fst acc1 = fst acc" and "set (snd acc) \<subseteq> set (snd acc1)" for c n i acc1
  proof -
    assume i: "i \<in> set there \<union> set gone"
    have "\<forall>i \<in> set there. member_executing i acc1" and "\<forall>i \<in> set gone. member_settled i acc1"
      using member_effects_appended [OF that] ready failed by blast+
    with i part(1,3) show ?thesis
      using queued_settling.fold_settles [of there acc1 i] queued_settling.fold_keeps [of i there]
        confirmed_settling.fold_settles [of there acc1 i] confirmed_settling.fold_keeps [of i there]
      by (cases "i \<in> set there") auto
  qed
  have mem: "qm_id tx \<in> set there \<union> set gone" using tx by (auto simp: there_def gone_def)
  have "member_settled (qm_id tx) (fold (settle_queued_member ms recent c) there acc)"
    "member_settled (qm_id tx) (fold (settle_confirmed_member ms n) there (fst acc, snd acc @ es))" for c n es
    using all [OF _ _ mem, of acc] all [OF _ _ mem, of "(fst acc, snd acc @ es)"] by auto
  moreover have "there = [] \<longrightarrow> member_settled (qm_id tx) acc" using mem failed by auto
  ultimately show ?thesis
    unfolding settle_batch_def there_def [symmetric] gone_def [symmetric] acc_def [symmetric] Let_def
    by (cases result) simp_all
qed

subsection \<open>Binding and rebinding\<close>

lemma bind_fresh_nth:
  "i < length batch \<Longrightarrow> bind_fresh now key sequence batch ! i = (batch ! i)\<lparr>qm_commitEnvelope := Some \<lparr>env_idempotencyKey = key,
     env_operationIndex = i, env_operationCount = length batch, env_sealedAt = Some now, env_sequence = Some sequence\<rparr>\<rparr>"
  by (simp add: bind_fresh_def)

lemma bind_fresh_simps [simp]:
  "length (bind_fresh now key sequence batch) = length batch"
  "map qm_id (bind_fresh now key sequence batch) = map qm_id batch"
  by (simp add: bind_fresh_def) (rule nth_equalityI; simp add: bind_fresh_def)

lemma bind_fresh_indexes: "map operation_index (bind_fresh now key sequence batch) = [0..<length batch]"
  by (rule nth_equalityI) (simp_all add: bind_fresh_nth operation_index_def)

lemma ensure_cases:
  assumes "ensureCommitEnvelope now generated sequence batch = Inr (bound, key)"
  obtains (replay) t where "bound = sort_key operation_index (map (set_sealedAt t) batch)"
  | (fresh) "bound = bind_fresh now key sequence batch"
  using assms that by (auto simp: ensureCommitEnvelope_def rebind_batch_def Let_def split: if_splits)

lemma ensure_bound_ids:
  assumes "ensureCommitEnvelope now generated sequence batch = Inr (bound, key)"
  shows "mset (map qm_id bound) = mset (map qm_id batch)"
  using assms
proof (cases rule: ensure_cases)
  case (replay t)
  have "mset (map qm_id bound) = image_mset qm_id (mset (map (set_sealedAt t) batch))"
    unfolding replay mset_map mset_sort ..
  also have "\<dots> = mset (map qm_id batch)" unfolding mset_map [symmetric] map_map by (simp add: comp_def set_sealedAt_def)
  finally show ?thesis .
qed (simp del: mset_map)

lemma sort_key_distinct_unique:
  assumes "mset ys = mset xs" and "sorted (map f xs)" and "distinct (map f xs)"
  shows "sort_key f ys = xs"
proof -
  have "mset (sort_key f ys) = mset xs" using assms(1) by simp
  then have sets: "set (sort_key f ys) = set xs" and "mset (map f (sort_key f ys)) = mset (map f xs)"
    by (rule mset_eq_setD, simp add: assms(1))
  then have "distinct (map f (sort_key f ys))" using assms(3) mset_eq_imp_distinct_iff by blast
  moreover have "set (map f (sort_key f ys)) = set (map f xs)" unfolding set_map sets ..
  ultimately have "map f (sort_key f ys) = map f xs"
    using assms(2,3) sorted_distinct_set_unique [OF sorted_sort_key] by blast
  moreover have "inj_on f (set (sort_key f ys) \<union> set xs)" using assms(3) unfolding sets by (simp add: distinct_map)
  ultimately show ?thesis using inj_on_map_eq_map by blast
qed

lemma remdups_replicate_Suc: "remdups (replicate (Suc n) k) = [k]"
  by (induction n) simp_all

lemma remdups_map_filter_const:
  assumes "xs \<noteq> []" and "\<forall>x \<in> set xs. f x = Some k"
  shows "remdups (List.map_filter f xs) = [k]"
proof -
  have "List.map_filter f xs = replicate (length xs) k"
    using assms(2) by (induction xs) (simp_all add: map_filter_simps)
  with assms(1) show ?thesis using remdups_replicate_Suc [of "length xs - 1" k] by (cases xs) simp_all
qed

lemma replay_of_bound:
  assumes "batch \<noteq> []" and "key \<noteq> []" and "mset shuffled = mset (bind_fresh now key sequence batch)"
  shows "ensureCommitEnvelope now' generated' sequence' shuffled = Inr (bind_fresh now key sequence batch, key)"
proof -
  let ?b = "bind_fresh now key sequence batch"
  let ?index = "\<lambda>tx. map_option env_operationIndex (qm_commitEnvelope tx)"
  have sets: "set shuffled = set ?b" using assms(3) by (rule mset_eq_setD)
  have len: "length shuffled = length batch" using mset_eq_length [OF assms(3)] by simp
  have ne: "shuffled \<noteq> []" using len assms(1) by auto
  have env: "\<exists>i < length batch. qm_commitEnvelope tx = Some \<lparr>env_idempotencyKey = key, env_operationIndex = i,
      env_operationCount = length batch, env_sealedAt = Some now, env_sequence = Some sequence\<rparr>" if "tx \<in> set shuffled" for tx
  proof -
    from that obtain i where "i < length batch" "tx = ?b ! i" unfolding sets by (metis in_set_conv_nth bind_fresh_simps(1))
    then show ?thesis by (auto simp: bind_fresh_nth)
  qed
  have keys: "remdups (List.map_filter envelope_key shuffled) = [key]"
    by (rule remdups_map_filter_const [OF ne]) (use env in \<open>fastforce simp: envelope_key_def\<close>)
  have times: "remdups (List.map_filter (\<lambda>tx. Option.bind (qm_commitEnvelope tx) env_sealedAt) shuffled) = [now]"
    by (rule remdups_map_filter_const [OF ne]) (use env in fastforce)
  have count: "map_option env_operationCount (qm_commitEnvelope (hd shuffled)) = Some (length batch)"
    using env [OF hd_in_set [OF ne]] by auto
  have "map ?index ?b = map Some [0..<length batch]" by (rule nth_equalityI) (simp_all add: bind_fresh_nth)
  then have "distinct (map ?index ?b)" by (simp add: distinct_map)
  moreover have "mset (map ?index shuffled) = mset (map ?index ?b)" unfolding mset_map assms(3) ..
  ultimately have "distinct (map ?index shuffled)" using mset_eq_imp_distinct_iff by blast
  then have complete: "isCompleteEnvelope key (Some (length batch)) shuffled"
    using env len by (fastforce simp: isCompleteEnvelope_def distinct_remdups_id list_all_iff)
  have "map (set_sealedAt now) shuffled = shuffled"
    by (rule map_idI) (use env in \<open>fastforce simp: set_sealedAt_def\<close>)
  moreover have "sort_key operation_index shuffled = ?b"
    by (rule sort_key_distinct_unique [OF assms(3)]) (simp_all add: bind_fresh_indexes)
  ultimately show ?thesis
    using ne assms(2) by (simp add: ensureCommitEnvelope_def rebind_batch_def keys times count complete)
qed

subsection \<open>Forwarded writes\<close>

text \<open>A write the server only forwarded to its source waits for the delta with its own correlation.\<close>

definition awaits_echo :: "(string \<times> int) list \<Rightarrow> string option \<Rightarrow> QueuedMutation \<Rightarrow> bool" where
  "awaits_echo recent c tx \<longleftrightarrow> qm_requiresCorrelatedDelta tx \<and> qm_syncIdNeeded tx = None \<and> qm_correlationId tx = c
     \<and> qm_status tx = (if (case c of None \<Rightarrow> False | Some k \<Rightarrow> k \<noteq> [] \<and> map_of recent k \<noteq> None) then Completed else AwaitingDelta)"

interpretation echo_settling: member_steps "settle_queued_member ms recent c" "\<lambda>i. i"
  "\<lambda>i acc. store_get (bs_store (fst acc)) i \<noteq> None"
  "\<lambda>i acc. \<exists>tx. store_get (bs_store (fst acc)) i = Some tx \<and> awaits_echo recent c tx"
  for ms recent c
proof unfold_locales
  fix i j acc
  show "store_get (bs_store (fst acc)) i \<noteq> None \<Longrightarrow>
      \<exists>tx. store_get (bs_store (fst (settle_queued_member ms recent c i acc))) i = Some tx \<and> awaits_echo recent c tx"
    by (auto simp: settle_queued_member_def member_simps awaits_echo_def split_def
        split: option.splits if_splits)
qed (simp_all add: settle_queued_other)

lemma settle_queued_batch:
  assumes "distinct (map qm_id batch)" and "\<forall>es. \<forall>tx \<in> set batch. member_executing (qm_id tx) (st, es)"
    and "tx \<in> set batch" and "qm_modelId tx \<notin> set missing"
  shows "\<exists>tx'. store_get (bs_store (fst (settle_batch cfg p now rnd ms recent key (ResultQueued n c) missing batch st))) (qm_id tx)
      = Some tx' \<and> awaits_echo recent c tx'"
proof -
  define there where "there = map qm_id (filter (\<lambda>tx. qm_modelId tx \<notin> set missing) batch)"
  define acc where "acc = fold (fail_member cfg p now rnd not_found_error)
    (rev (map qm_id (filter (\<lambda>tx. qm_modelId tx \<in> set missing) batch))) (st, [])"
  have there: "distinct there" "qm_id tx \<in> set there"
    using assms(1,3,4) by (auto simp: there_def distinct_map_filter)
  have "member_executing i acc" if "i \<in> set there" for i
  proof -
    from that obtain tx' where "tx' \<in> set batch" "qm_modelId tx' \<notin> set missing" "i = qm_id tx'" by (auto simp: there_def)
    moreover from this have "i \<notin> set (map (\<lambda>i. i) (rev (map qm_id (filter (\<lambda>tx. qm_modelId tx \<in> set missing) batch))))"
      using assms(1) by (auto simp: distinct_map dest: inj_onD)
    ultimately show ?thesis unfolding acc_def using failing.fold_keeps assms(2) by blast
  qed
  then have "\<forall>i \<in> set there. store_get (bs_store (fst acc)) i \<noteq> None" by (auto simp: member_executing_def)
  then have "\<exists>tx'. store_get (bs_store (fst (fold (settle_queued_member ms recent c) there acc))) (qm_id tx) = Some tx'
      \<and> awaits_echo recent c tx'"
    using echo_settling.fold_settles [of there acc "qm_id tx"] there by auto
  moreover have "there \<noteq> []" using there(2) by auto
  ultimately show ?thesis
    unfolding settle_batch_def there_def [symmetric] acc_def [symmetric] Let_def by simp
qed

subsection \<open>Properties\<close>

definition batch_ready :: "QueuedMutation list \<Rightarrow> batch_state \<Rightarrow> bool" where
  "batch_ready batch st \<longleftrightarrow> distinct (map qm_id batch) \<and> list_all (\<lambda>tx. store_get (bs_store st) (qm_id tx) \<noteq> None) batch
     \<and> \<not> dc_disposed (bs_tracker st)"

lemma bound_ready:
  assumes "batch_ready batch st" and "ensureCommitEnvelope now generated sequence batch = Inr (bound, key)"
  shows "distinct (map qm_id bound)" and "qm_id ` set bound = qm_id ` set batch"
    and "\<forall>es. \<forall>tx \<in> set bound. member_executing (qm_id tx) (mark_executing (map qm_id bound) st, es)"
proof -
  have m: "mset (map qm_id bound) = mset (map qm_id batch)" using ensure_bound_ids [OF assms(2)] .
  show "distinct (map qm_id bound)" using assms(1) mset_eq_imp_distinct_iff [OF m] by (simp add: batch_ready_def)
  show same: "qm_id ` set bound = qm_id ` set batch" using mset_eq_setD [OF m] by simp
  have "\<forall>i \<in> set (map qm_id bound). store_get (bs_store st) i \<noteq> None"
    using assms(1) unfolding set_map same batch_ready_def list_all_iff by simp
  with assms(1) show "\<forall>es. \<forall>tx \<in> set bound. member_executing (qm_id tx) (mark_executing (map qm_id bound) st, es)"
    using mark_executing_ready [of "map qm_id bound" st] unfolding batch_ready_def by simp
qed

text \<open>
  C6. No member of a batch is left hanging: whatever comes back from the server, an answer
  with or without missing rows, a forwarded acceptance or an error, every member ends completed
  with its event, waiting for its delta with the confirmation timer armed, pending with a
  retry scheduled, or failed with its event; none stays executing.
\<close>

theorem batch_settles_every_member:
  assumes "batch_ready batch st"
    and "run_batch cfg spec now rnd timeoutMs recent generated sequence outcome batch st = Inr acc" and "tx \<in> set batch"
  shows "member_settled (qm_id tx) acc"
proof -
  obtain bound key where b: "ensureCommitEnvelope now generated sequence batch = Inr (bound, key)"
    using assms(2) by (cases "ensureCommitEnvelope now generated sequence batch") (auto simp: run_batch_def)
  from assms(3) obtain tx' where tx': "tx' \<in> set bound" "qm_id tx' = qm_id tx"
    using bound_ready(2) [OF assms(1) b] by (metis imageE image_eqI)
  show ?thesis
    using assms(2) reject_batch_settles [OF bound_ready(1,3) [OF assms(1) b] tx'(1)]
      settle_batch_settles [OF bound_ready(1,3) [OF assms(1) b] tx'(1)]
    by (auto simp: run_batch_def b Let_def tx'(2) split: sum.splits prod.splits)
qed

definition batch_example :: "QueuedMutation list" where
  "batch_example = [update_example ''t1'' ''title'' VNull, (update_example ''t2'' ''done'' VNull)\<lparr>qm_modelId := ''r2'', qm_type := Delete\<rparr>]"

definition batch_state_example :: batch_state where
  "batch_state_example = \<lparr>bs_store = fold store_add batch_example new_MutationStore,
     bs_tracker = new_DeltaConfirmationTracker, bs_optimistic = [''t1'']\<rparr>"

lemma batch_example_ready: "batch_ready batch_example batch_state_example"
  by (simp add: batch_ready_def batch_example_def batch_state_example_def store_add_def index_add_def store_get_def
      new_MutationStore_def new_DeltaConfirmationTracker_def update_example_def blank_mutation_def ids_with_def)

lemma batch_example_bound:
  "ensureCommitEnvelope 0 ''commit_1'' 0 batch_example = Inr (bind_fresh 0 ''commit_1'' 0 batch_example, ''commit_1'')"
  by (simp add: ensureCommitEnvelope_def batch_example_def update_example_def blank_mutation_def envelope_key_def
      map_filter_simps fresh_key_def Let_def)

theorem batch_settles_every_member_witness:
  "\<exists>acc. run_batch failure_example (\<lambda>_. None) 0 0 1000 [] ''commit_1'' 0 (Inl (True, gateway_error)) batch_example batch_state_example
       = Inr acc \<and> member_settled ''t1'' acc \<and> member_settled ''t2'' acc"
proof -
  obtain acc where r: "run_batch failure_example (\<lambda>_. None) 0 0 1000 [] ''commit_1'' 0 (Inl (True, gateway_error)) batch_example
      batch_state_example = Inr acc"
    by (simp add: run_batch_def batch_example_bound Let_def)
  have "\<forall>tx \<in> set batch_example. member_settled (qm_id tx) acc"
    using batch_settles_every_member [OF batch_example_ready r] by blast
  with r show ?thesis by (auto simp: batch_example_def update_example_def)
qed

text \<open>
  C34. A forwarded write is confirmed by its own echo only: after the answer that the batch was
  queued at its source, each member the server knew carries the correlation of that answer, has
  no sync position that would confirm it, and is completed only if that echo was already
  seen; a delete gets no shortcut. Otherwise a later delta confirms it if and only if it carries
  that correlation.
\<close>

theorem forwarded_write_waits_for_its_echo:
  assumes "batch_ready batch st"
    and "run_batch cfg spec now rnd timeoutMs recent generated sequence (Inr (ResultQueued n c, missing)) batch st = Inr acc"
    and "ensureCommitEnvelope now generated sequence batch = Inr (bound, key)"
    and "tx \<in> set bound" and "qm_modelId tx \<notin> set missing"
  shows "\<exists>tx'. store_get (bs_store (fst acc)) (qm_id tx) = Some tx' \<and> awaits_echo recent c tx'
    \<and> (\<forall>syncId d. delta_confirms syncId d tx' \<longleftrightarrow> c \<noteq> None \<and> d = c)"
  using assms(2) settle_queued_batch [OF bound_ready(1,3) [OF assms(1,3)] assms(4,5)]
  by (fastforce simp: run_batch_def assms(3) Let_def awaits_echo_def delta_confirms_def matchesSourceEcho_def)

theorem forwarded_write_waits_for_its_echo_witness:
  "\<exists>acc tx'. run_batch failure_example (\<lambda>_. None) 0 0 1000 [] ''commit_1'' 0 (Inr (ResultQueued 0 (Some ''k''), [])) batch_example
       batch_state_example = Inr acc \<and> store_get (bs_store (fst acc)) ''t2'' = Some tx'
     \<and> qm_status tx' = AwaitingDelta \<and> delta_confirms 0 (Some ''k'') tx' \<and> \<not> delta_confirms 99 (Some ''other'') tx'"
proof -
  obtain acc where r: "run_batch failure_example (\<lambda>_. None) 0 0 1000 [] ''commit_1'' 0 (Inr (ResultQueued 0 (Some ''k''), []))
      batch_example batch_state_example = Inr acc"
    by (simp add: run_batch_def batch_example_bound Let_def)
  have "bind_fresh 0 ''commit_1'' 0 batch_example ! 1 \<in> set (bind_fresh 0 ''commit_1'' 0 batch_example)"
    by (rule nth_mem) (simp add: batch_example_def)
  moreover have "qm_id (bind_fresh 0 ''commit_1'' 0 batch_example ! 1) = ''t2''"
    by (simp add: bind_fresh_def batch_example_def update_example_def)
  ultimately obtain tx' where "store_get (bs_store (fst acc)) ''t2'' = Some tx'" "awaits_echo [] (Some ''k'') tx'"
      "\<forall>syncId d. delta_confirms syncId d tx' \<longleftrightarrow> Some ''k'' \<noteq> None \<and> d = Some ''k''"
    using forwarded_write_waits_for_its_echo [OF batch_example_ready r batch_example_bound, of "bind_fresh 0 ''commit_1'' 0 batch_example ! 1"]
    by auto
  with r show ?thesis by (auto simp: awaits_echo_def)
qed



text \<open>
  C9. Parents are inserted first: under the configuration derived from the schema, the create of
  a row of a parent model compares before the create of a row of the child model, so a
  batch sorted by the comparator lists it first. Models that depend on each other tie, and
  the order in which they were queued stands.
\<close>

theorem parent_create_sorts_first:
  assumes "distinct (map fst schema)" and "distinct (map snd (keyToTypename schema))"
    and "c \<in> fst ` set schema" and "p \<in> set (parentsOf schema c)"
    and "qm_type a = Create" and "qm_type b = Create" and "qm_priorityScore a = None" and "qm_priorityScore b = None"
    and "qm_modelName a = typename_of schema p" and "qm_modelName b = typename_of schema c"
  shows "\<exists>cfg. deriveConfigFromSchema schema = Some cfg
    \<and> (if (p, c) \<in> (edges (parentsOf schema))\<^sup>* then batch_compare cfg a b = 0 else batch_compare cfg a b < 0)"
proof -
  obtain out pc pp where p: "computeFKDepthPriority schema = Some out" "map_of out (typename_of schema c) = Some pc"
    "map_of out (typename_of schema p) = Some pp" "if (p, c) \<in> (edges (parentsOf schema))\<^sup>* then pp = pc else pp < pc"
    using fk_parent_before_child [OF assms(1-4)] by blast
  let ?cfg = "\<lparr>modelCreatePriority = out, defaultCreatePriority = 40, defaultNonCreatePriority = 50\<rparr>"
  have "score_of ?cfg a = pp" "score_of ?cfg b = pc"
    using assms(5-10) p(2,3) by (simp_all add: score_of_def ensureDerivedFields_def computePriorityScore_def Let_def)
  with p(1,4) assms(5,6) show ?thesis by (simp add: deriveConfigFromSchema_def batch_compare_def)
qed

definition fk_example :: fk_schema where
  "fk_example = [(''tasks'', \<lparr>md_typename = Some ''Task'', md_relations =
       [\<lparr>rel_type = BelongsTo, rel_target = ''projects'', rel_defer = False\<rparr>]\<rparr>),
     (''projects'', \<lparr>md_typename = None, md_relations = [\<lparr>rel_type = HasMany, rel_target = ''tasks'', rel_defer = False\<rparr>]\<rparr>)]"

lemma fk_example_facts:
  "distinct (map fst fk_example)" "distinct (map snd (keyToTypename fk_example))" "''tasks'' \<in> fst ` set fk_example"
  "''projects'' \<in> set (parentsOf fk_example ''tasks'')" "parentsOf fk_example ''projects'' = []"
  "typename_of fk_example ''tasks'' = ''Task''" "typename_of fk_example ''projects'' = ''projects''"
  by (simp_all add: fk_example_def keyToTypename_def parentsOf_def typename_of_def)

theorem parent_create_sorts_first_witness:
  "\<exists>cfg. deriveConfigFromSchema fk_example = Some cfg
     \<and> batch_compare cfg (blank_mutation\<lparr>qm_type := Create, qm_modelName := ''projects''\<rparr>)
         (blank_mutation\<lparr>qm_type := Create, qm_modelName := ''Task''\<rparr>) < 0"
proof -
  have "(''projects'', ''tasks'') \<notin> (edges (parentsOf fk_example))\<^sup>*"
    by (auto simp: edges_def fk_example_facts(5) elim: converse_rtranclE)
  then show ?thesis
    using parent_create_sorts_first [OF fk_example_facts(1-4), of
        "blank_mutation\<lparr>qm_type := Create, qm_modelName := ''projects''\<rparr>" "blank_mutation\<lparr>qm_type := Create, qm_modelName := ''Task''\<rparr>"]
    by (simp add: fk_example_facts(6,7) blank_mutation_def)
qed

text \<open>The configuration of a chain of six models, each belonging to the one before.\<close>

definition chain_schema :: fk_schema where
  "chain_schema = map (\<lambda>d. (''M'' @ [char_of (48 + d)], \<lparr>md_typename = None, md_relations =
     (if d = 0 then [] else [\<lparr>rel_type = BelongsTo, rel_target = ''M'' @ [char_of (47 + d)], rel_defer = False\<rparr>])\<rparr>)) [0..<6]"

definition chain_config :: priority_config where
  "chain_config = the (deriveConfigFromSchema chain_schema)"

definition chain_mutation :: "mutation_type \<Rightarrow> string \<Rightarrow> QueuedMutation" where
  "chain_mutation ty i = blank_mutation\<lparr>qm_type := ty, qm_modelName := ''M5'', qm_modelId := i, qm_modelKey := ''m5''\<rparr>"

text \<open>
  The order of the queue is consistent as long as every create scores below the other
  mutations: then the comparator is the difference of the scores in sign, so a stable sort by
  it puts parents before children and creates before the updates of their row. At a
  foreign-key depth of five the derived priorities leave that range, and the comparator has a
  cycle: create, update and a second create are each before the next, while the two
  creates tie.
\<close>

theorem batch_order_consistent_below_noncreate:
  assumes "\<forall>tx \<in> {a, b}. qm_type tx = Create \<longrightarrow> score_of cfg tx < limit" and "\<forall>tx \<in> {a, b}. qm_type tx \<noteq> Create \<longrightarrow> score_of cfg tx = limit"
  shows "sgn (batch_compare cfg a b) = sgn (score_of cfg a - score_of cfg b)
    \<and> batch_compare chain_config (chain_mutation Create ''r'') (chain_mutation Update ''r'') < 0
    \<and> batch_compare chain_config (chain_mutation Update ''r'') (chain_mutation Create ''s'') < 0
    \<and> batch_compare chain_config (chain_mutation Create ''s'') (chain_mutation Create ''r'') = 0"
proof -
  have "sgn (batch_compare cfg a b) = sgn (score_of cfg a - score_of cfg b)"
    using assms by (auto simp: batch_compare_def)
  moreover have "batch_compare chain_config (chain_mutation Create ''r'') (chain_mutation Update ''r'') < 0
      \<and> batch_compare chain_config (chain_mutation Update ''r'') (chain_mutation Create ''s'') < 0
      \<and> batch_compare chain_config (chain_mutation Create ''s'') (chain_mutation Create ''r'') = 0"
    by code_simp
  ultimately show ?thesis by simp
qed

theorem batch_order_consistent_below_noncreate_witness:
  "sgn (batch_compare chain_config (blank_mutation\<lparr>qm_type := Create, qm_modelName := ''M1''\<rparr>) blank_mutation) = - 1"
proof -
  have "score_of chain_config (blank_mutation\<lparr>qm_type := Create, qm_modelName := ''M1''\<rparr>) = 20" "score_of chain_config blank_mutation = 50"
    by code_simp+
  then show ?thesis
    using batch_order_consistent_below_noncreate [of "blank_mutation\<lparr>qm_type := Create, qm_modelName := ''M1''\<rparr>" blank_mutation chain_config 50]
    by (simp add: blank_mutation_def)
qed

end
