(* ===== verification/Batching.thy ===== *)
theory Batching
  imports Prelude "HOL-Library.Multiset"
begin

section \<open>The batch scheduler\<close>

text \<open>
  Model of \<open>createBatchScheduler\<close> in \<open>packages/transaction/src/batching/index.ts\<close>: items
  that are enqueued close together are dispatched as one batch, with size and cost limits and
  a bound on the dispatches in flight.

  The state holds the variables of the closure. A promise returned to a caller is named by a
  number, in the order of the calls; a waiter of \<open>flush\<close> is named by the number of
  promises there were when it was called. What the host keeps is in the state too: the queued
  microtasks, the dispatches that were not answered, the number of answered ones whose
  \<open>finally\<close> has not run, and the waiters that were woken. The effects are the
  dispatches and the settlements. \<open>Array.sort\<close> with the caller's \<open>compare\<close> is the function \<open>opt_sort\<close>;
  a limit of \<open>Infinity\<close> is \<open>None\<close>.
\<close>

subsection \<open>State\<close>

record 't batch_options =
  opt_enabled :: bool
  opt_windowMs :: int
  opt_maxBatchSize :: nat
  opt_maxBatchCost :: "int option"
  opt_costOf :: "'t \<Rightarrow> int"
  opt_maxInFlight :: nat
  opt_sort :: "('t list \<Rightarrow> 't list) option"

record 't Batch =
  b_items :: "'t list"
  b_deferreds :: "nat list"
  b_cost :: int

record 't scheduler =
  bq_pending :: "'t Batch option"
  bq_timer :: bool
  bq_microtaskScheduled :: bool
  bq_ready :: "'t Batch list"
  bq_inFlight :: nat
  bq_idleWaiters :: "nat list"
  bq_disposed :: bool
  bq_microtasks :: nat
  bq_running :: "'t Batch list"
  bq_answered :: nat
  bq_woken :: "nat list"
  bq_next :: nat

definition new_scheduler :: "'t scheduler" where
  "new_scheduler = \<lparr>bq_pending = None, bq_timer = False, bq_microtaskScheduled = False, bq_ready = [], bq_inFlight = 0,
     bq_idleWaiters = [], bq_disposed = False, bq_microtasks = 0, bq_running = [], bq_answered = 0, bq_woken = [], bq_next = 0\<rparr>"

datatype ('t, 'r) batch_label =
    Enqueued nat
  | EnqueuedSolo nat
  | Refused nat
  | BatchDispatched "nat list" "'t list"
  | PromiseSettled nat 'r
  | FlushDone nat

subsection \<open>Operations\<close>

definition scheduleFlush :: "'t batch_options \<Rightarrow> 't scheduler \<Rightarrow> 't scheduler" where
  "scheduleFlush cf s =
     (if bq_microtaskScheduled s \<or> bq_timer s then s
      else if 0 < opt_windowMs cf then s\<lparr>bq_timer := True\<rparr>
      else s\<lparr>bq_microtaskScheduled := True, bq_microtasks := bq_microtasks s + 1\<rparr>)"

text \<open>The loop of \<open>pump\<close>: what stays in \<open>ready\<close> and what is dispatched.\<close>

fun pump_loop :: "nat \<Rightarrow> nat \<Rightarrow> 't Batch list \<Rightarrow> 't Batch list \<times> 't Batch list" where
  "pump_loop maxInFlight inFlight [] = ([], [])"
| "pump_loop maxInFlight inFlight (b # bs) =
     (if inFlight < maxInFlight
      then (case pump_loop maxInFlight (inFlight + 1) bs of (rest, started) \<Rightarrow> (rest, b # started))
      else (b # bs, []))"

definition pump :: "'t batch_options \<Rightarrow> 't scheduler \<Rightarrow> 't scheduler \<times> ('t, 'r) batch_label list" where
  "pump cf s = (case pump_loop (opt_maxInFlight cf) (bq_inFlight s) (bq_ready s) of (rest, started) \<Rightarrow>
     (s\<lparr>bq_ready := rest, bq_inFlight := bq_inFlight s + length started, bq_running := bq_running s @ started\<rparr>,
      map (\<lambda>b. BatchDispatched (b_deferreds b) (b_items b)) started))"

definition flushPending :: "'t batch_options \<Rightarrow> 't scheduler \<Rightarrow> 't scheduler \<times> ('t, 'r) batch_label list" where
  "flushPending cf s =
     (let s1 = s\<lparr>bq_timer := False, bq_microtaskScheduled := False\<rparr> in
      case bq_pending s1 of
        None \<Rightarrow> (s1, [])
      | Some p \<Rightarrow>
          let p1 = (case opt_sort cf of None \<Rightarrow> p | Some f \<Rightarrow> p\<lparr>b_items := f (b_items p)\<rparr>)
          in pump cf (s1\<lparr>bq_ready := bq_ready s1 @ [p1], bq_pending := None\<rparr>))"

definition enqueueSolo :: "'t batch_options \<Rightarrow> 't \<Rightarrow> 't scheduler \<Rightarrow> 't scheduler \<times> ('t, 'r) batch_label list" where
  "enqueueSolo cf item s =
     (case pump cf (s\<lparr>bq_ready := bq_ready s @ [\<lparr>b_items = [item], b_deferreds = [bq_next s], b_cost = opt_costOf cf item\<rparr>],
         bq_next := bq_next s + 1\<rparr>) of
        (s1, ls) \<Rightarrow> (s1, EnqueuedSolo (bq_next s) # ls))"

definition cost_over :: "'t batch_options \<Rightarrow> int \<Rightarrow> bool" where
  "cost_over cf cost = (case opt_maxBatchCost cf of None \<Rightarrow> False | Some m \<Rightarrow> m < cost)"

definition cost_reached :: "'t batch_options \<Rightarrow> int \<Rightarrow> bool" where
  "cost_reached cf cost = (case opt_maxBatchCost cf of None \<Rightarrow> False | Some m \<Rightarrow> m \<le> cost)"

definition rollover :: "'t batch_options \<Rightarrow> 't \<Rightarrow> 't scheduler \<Rightarrow> 't scheduler \<times> ('t, 'r) batch_label list" where
  "rollover cf item s = (case bq_pending s of
      None \<Rightarrow> (s, [])
    | Some p \<Rightarrow>
        if opt_maxBatchSize cf < length (b_items p) + 1 \<or> cost_over cf (b_cost p + opt_costOf cf item)
        then flushPending cf s else (s, []))"

definition stage_item :: "'t batch_options \<Rightarrow> 't \<Rightarrow> 't scheduler \<Rightarrow> 't scheduler" where
  "stage_item cf item s =
     (let p = (case bq_pending s of None \<Rightarrow> \<lparr>b_items = [], b_deferreds = [], b_cost = 0\<rparr> | Some p \<Rightarrow> p)
      in s\<lparr>bq_pending := Some \<lparr>b_items = b_items p @ [item], b_deferreds = b_deferreds p @ [bq_next s],
           b_cost = b_cost p + opt_costOf cf item\<rparr>, bq_next := bq_next s + 1\<rparr>)"

definition batch_full :: "'t batch_options \<Rightarrow> 't scheduler \<Rightarrow> bool" where
  "batch_full cf s = (case bq_pending s of
      None \<Rightarrow> False
    | Some p \<Rightarrow> opt_maxBatchSize cf \<le> length (b_items p) \<or> cost_reached cf (b_cost p))"

definition enqueue_item :: "'t batch_options \<Rightarrow> 't \<Rightarrow> 't scheduler \<Rightarrow> 't scheduler \<times> ('t, 'r) batch_label list" where
  "enqueue_item cf item s =
     (if bq_disposed s then (s\<lparr>bq_next := bq_next s + 1\<rparr>, [Refused (bq_next s)])
      else if \<not> opt_enabled cf then enqueueSolo cf item s
      else case rollover cf item s of (s1, ls1) \<Rightarrow>
        let s2 = stage_item cf item s1 in
        if batch_full cf s2
        then (case flushPending cf s2 of (s3, ls3) \<Rightarrow> (s3, ls1 @ Enqueued (bq_next s1) # ls3))
        else (scheduleFlush cf s2, ls1 @ [Enqueued (bq_next s1)]))"

text \<open>A dispatch is answered: its promises settle with the one outcome. \<open>finally\<close> runs later.\<close>

definition batch_answer :: "nat \<Rightarrow> 'r \<Rightarrow> 't scheduler \<Rightarrow> 't scheduler \<times> ('t, 'r) batch_label list" where
  "batch_answer k outcome s =
     (s\<lparr>bq_running := take k (bq_running s) @ drop (Suc k) (bq_running s), bq_answered := bq_answered s + 1\<rparr>,
      map (\<lambda>i. PromiseSettled i outcome) (b_deferreds (bq_running s ! k)))"

definition notifyIdleIfDrained :: "'t scheduler \<Rightarrow> 't scheduler" where
  "notifyIdleIfDrained s =
     (if bq_inFlight s = 0 \<and> bq_ready s = [] \<and> bq_idleWaiters s \<noteq> []
      then s\<lparr>bq_idleWaiters := [], bq_woken := bq_woken s @ bq_idleWaiters s\<rparr> else s)"

definition batch_finally :: "'t batch_options \<Rightarrow> 't scheduler \<Rightarrow> 't scheduler \<times> ('t, 'r) batch_label list" where
  "batch_finally cf s = (case pump cf (s\<lparr>bq_answered := bq_answered s - 1, bq_inFlight := bq_inFlight s - 1\<rparr>) of
     (s1, ls) \<Rightarrow> (notifyIdleIfDrained s1, ls))"

definition flush_wait :: "nat \<Rightarrow> 't scheduler \<Rightarrow> 't scheduler \<times> ('t, 'r) batch_label list" where
  "flush_wait w s =
     (if bq_ready s \<noteq> [] \<or> 0 < bq_inFlight s then (s\<lparr>bq_idleWaiters := bq_idleWaiters s @ [w]\<rparr>, []) else (s, [FlushDone w]))"

definition batch_flush :: "'t batch_options \<Rightarrow> 't scheduler \<Rightarrow> 't scheduler \<times> ('t, 'r) batch_label list" where
  "batch_flush cf s = (case flushPending cf s of (s1, ls1) \<Rightarrow>
     case flush_wait (bq_next s) s1 of (s2, ls2) \<Rightarrow> (s2, ls1 @ ls2))"

definition batch_dispose :: "'t scheduler \<Rightarrow> 't scheduler" where
  "batch_dispose s = s\<lparr>bq_disposed := True, bq_timer := False, bq_microtaskScheduled := False\<rparr>"

text \<open>What can happen: calls of the user, and callbacks of the host.\<close>

inductive batch_step :: "'t batch_options \<Rightarrow> 't scheduler \<Rightarrow> ('t, 'r) batch_label list \<Rightarrow> 't scheduler \<Rightarrow> bool" for cf where
  enqueue: "enqueue_item cf item s = (s', ls) \<Longrightarrow> batch_step cf s ls s'"
| solo: "enqueueSolo cf item s = (s', ls) \<Longrightarrow> batch_step cf s ls s'"
| flush: "batch_flush cf s = (s', ls) \<Longrightarrow> batch_step cf s ls s'"
| dispose: "batch_step cf s [] (batch_dispose s)"
| microtask: "0 < bq_microtasks s \<Longrightarrow> flushPending cf (s\<lparr>bq_microtasks := bq_microtasks s - 1\<rparr>) = (s', ls) \<Longrightarrow> batch_step cf s ls s'"
| timer: "bq_timer s \<Longrightarrow> flushPending cf s = (s', ls) \<Longrightarrow> batch_step cf s ls s'"
| answer: "k < length (bq_running s) \<Longrightarrow> batch_answer k outcome s = (s', ls) \<Longrightarrow> batch_step cf s ls s'"
| settled: "0 < bq_answered s \<Longrightarrow> batch_finally cf s = (s', ls) \<Longrightarrow> batch_step cf s ls s'"
| resume: "bq_woken s = w # ws \<Longrightarrow> flush_wait w (s\<lparr>bq_woken := ws\<rparr>) = (s', ls) \<Longrightarrow> batch_step cf s ls s'"

subsection \<open>What holds in every run\<close>

definition pending_ids :: "'t scheduler \<Rightarrow> nat list" where
  "pending_ids s = (case bq_pending s of None \<Rightarrow> [] | Some p \<Rightarrow> b_deferreds p)"

definition queued_ids :: "'t scheduler \<Rightarrow> nat list" where
  "queued_ids s = concat (map b_deferreds (bq_ready s)) @ pending_ids s"

definition running_ids :: "'t scheduler \<Rightarrow> nat list" where
  "running_ids s = concat (map b_deferreds (bq_running s))"

primrec settled_by :: "('t, 'r) batch_label \<Rightarrow> nat list" where
  "settled_by (Enqueued i) = []"
| "settled_by (EnqueuedSolo i) = []"
| "settled_by (Refused i) = [i]"
| "settled_by (BatchDispatched ids xs) = []"
| "settled_by (PromiseSettled i r) = [i]"
| "settled_by (FlushDone w) = []"

primrec dispatched_by :: "('t, 'r) batch_label \<Rightarrow> nat list" where
  "dispatched_by (Enqueued i) = []"
| "dispatched_by (EnqueuedSolo i) = []"
| "dispatched_by (Refused i) = []"
| "dispatched_by (BatchDispatched ids xs) = ids"
| "dispatched_by (PromiseSettled i r) = []"
| "dispatched_by (FlushDone w) = []"

definition settled_ids :: "('t, 'r) batch_label list \<Rightarrow> nat list" where
  "settled_ids ls = concat (map settled_by ls)"

definition dispatched_ids :: "('t, 'r) batch_label list \<Rightarrow> nat list" where
  "dispatched_ids ls = concat (map dispatched_by ls)"

lemma label_ids [simp]:
  "settled_ids [] = []" "settled_ids (l # ls) = settled_by l @ settled_ids ls"
  "settled_ids (ls @ ls') = settled_ids ls @ settled_ids ls'"
  "dispatched_ids [] = []" "dispatched_ids (l # ls) = dispatched_by l @ dispatched_ids ls"
  "dispatched_ids (ls @ ls') = dispatched_ids ls @ dispatched_ids ls'"
  by (simp_all add: settled_ids_def dispatched_ids_def)

text \<open>Every promise is settled, staged, queued or in flight, and only one of these, once.\<close>

definition promises_ok :: "('t, 'r) batch_label list \<Rightarrow> 't scheduler \<Rightarrow> bool" where
  "promises_ok ls s \<longleftrightarrow> mset (settled_ids ls) + mset (queued_ids s) + mset (running_ids s) = mset [0..<bq_next s]"

definition flight_ok :: "'t batch_options \<Rightarrow> 't scheduler \<Rightarrow> bool" where
  "flight_ok cf s \<longleftrightarrow> bq_inFlight s = length (bq_running s) + bq_answered s \<and> bq_inFlight s \<le> opt_maxInFlight cf"

definition batch_ok :: "'t batch_options \<Rightarrow> 't Batch \<Rightarrow> bool" where
  "batch_ok cf b \<longleftrightarrow> length (b_items b) = length (b_deferreds b) \<and> b_items b \<noteq> [] \<and> length (b_items b) \<le> max 1 (opt_maxBatchSize cf)"

definition sizes_ok :: "'t batch_options \<Rightarrow> 't scheduler \<Rightarrow> bool" where
  "sizes_ok cf s \<longleftrightarrow> list_all (batch_ok cf) (bq_ready s) \<and> list_all (batch_ok cf) (bq_running s)
     \<and> pred_option (batch_ok cf) (bq_pending s)"

text \<open>Items that were not sent alone leave in the order in which they were enqueued.\<close>

definition order_ok :: "('t, 'r) batch_label list \<Rightarrow> 't scheduler \<Rightarrow> bool" where
  "order_ok ls s \<longleftrightarrow> sorted (filter (\<lambda>i. EnqueuedSolo i \<notin> set ls) (dispatched_ids ls @ queued_ids s))
     \<and> (\<forall>i \<in> set (dispatched_ids ls @ queued_ids s). i < bq_next s) \<and> (\<forall>i. EnqueuedSolo i \<in> set ls \<longrightarrow> i < bq_next s)"

definition waiters_ok :: "('t, 'r) batch_label list \<Rightarrow> 't scheduler \<Rightarrow> bool" where
  "waiters_ok ls s \<longleftrightarrow> (\<forall>w \<in> set (bq_idleWaiters s @ bq_woken s). w \<le> bq_next s \<and> (\<forall>i \<in> set (pending_ids s). w \<le> i))
     \<and> (\<forall>w. FlushDone w \<in> set ls \<longrightarrow> {..<w} \<subseteq> set (settled_ids ls))"

definition sort_ok :: "'t batch_options \<Rightarrow> bool" where
  "sort_ok cf \<longleftrightarrow> pred_option (\<lambda>f. \<forall>xs. mset (f xs) = mset xs) (opt_sort cf)"

definition core_ok :: "'t batch_options \<Rightarrow> ('t, 'r) batch_label list \<Rightarrow> 't scheduler \<Rightarrow> bool" where
  "core_ok cf ls s \<longleftrightarrow> promises_ok ls s \<and> flight_ok cf s \<and> sizes_ok cf s \<and> order_ok ls s \<and> waiters_ok ls s"

lemmas core_defs = promises_ok_def flight_ok_def sizes_ok_def order_ok_def waiters_ok_def queued_ids_def running_ids_def

lemma pump_loop_split:
  "pump_loop m n bs = (rest, started) \<Longrightarrow> bs = started @ rest \<and> n + length started \<le> max n m"
  by (induction m n bs arbitrary: rest started rule: pump_loop.induct) (fastforce split: if_splits prod.splits)+

lemma pumped_labels [simp]:
  "settled_ids (map (\<lambda>b. BatchDispatched (b_deferreds b) (b_items b)) bs) = []"
  "dispatched_ids (map (\<lambda>b. BatchDispatched (b_deferreds b) (b_items b)) bs) = concat (map b_deferreds bs)"
  by (induction bs) simp_all

lemma pump_cases:
  assumes "pump cf s = (s', l)"
  obtains started rest where "bq_ready s = started @ rest"
    "s' = s\<lparr>bq_ready := rest, bq_inFlight := bq_inFlight s + length started, bq_running := bq_running s @ started\<rparr>"
    "l = map (\<lambda>b. BatchDispatched (b_deferreds b) (b_items b)) started"
    "bq_inFlight s + length started \<le> max (bq_inFlight s) (opt_maxInFlight cf)"
proof -
  obtain rest started where l: "pump_loop (opt_maxInFlight cf) (bq_inFlight s) (bq_ready s) = (rest, started)" by fastforce
  have "s' = s\<lparr>bq_ready := rest, bq_inFlight := bq_inFlight s + length started, bq_running := bq_running s @ started\<rparr>"
    "l = map (\<lambda>b. BatchDispatched (b_deferreds b) (b_items b)) started"
    using assms by (simp_all add: pump_def l)
  with pump_loop_split [OF l] that show ?thesis by blast
qed

lemma pump_core:
  assumes core: "core_ok cf ls s" and "pump cf s = (s', l)"
  shows "core_ok cf (ls @ l) s'"
  using assms(2)
proof (cases rule: pump_cases)
  case (1 started rest)
  have nope: "EnqueuedSolo i \<notin> set l" "FlushDone i \<notin> set l" for i by (auto simp: 1(3))
  have "promises_ok (ls @ l) s'" using core by (simp add: core_ok_def promises_ok_def queued_ids_def running_ids_def pending_ids_def 1 add_ac)
  moreover have "flight_ok cf s'" "sizes_ok cf s'" using core 1(1,4) by (auto simp: core_ok_def core_defs 1(2))
  moreover have same: "dispatched_ids (ls @ l) @ queued_ids s' = dispatched_ids ls @ queued_ids s" "bq_next s' = bq_next s"
    by (simp_all add: queued_ids_def pending_ids_def 1)
  have "order_ok (ls @ l) s'" using core unfolding core_ok_def order_ok_def same by (simp add: nope)
  moreover have "waiters_ok (ls @ l) s'" using core by (auto simp: core_ok_def waiters_ok_def pending_ids_def nope 1(2))
  ultimately show ?thesis by (simp add: core_ok_def)
qed

lemma flush_core:
  assumes core: "core_ok cf ls s" and "flushPending cf s = (s', l)" and "sort_ok cf"
  shows "core_ok cf (ls @ l) s' \<and> bq_pending s' = None"
proof (cases "bq_pending s")
  case None
  then have "s' = s\<lparr>bq_timer := False, bq_microtaskScheduled := False\<rparr>" "l = []"
    using assms(2) by (simp_all add: flushPending_def)
  with core None show ?thesis by (simp add: core_ok_def core_defs pending_ids_def)
next
  case (Some p)
  define p1 where "p1 = (case opt_sort cf of None \<Rightarrow> p | Some f \<Rightarrow> p\<lparr>b_items := f (b_items p)\<rparr>)"
  define s1 where "s1 = s\<lparr>bq_timer := False, bq_microtaskScheduled := False, bq_ready := bq_ready s @ [p1], bq_pending := None\<rparr>"
  have p1: "b_deferreds p1 = b_deferreds p" "length (b_items p1) = length (b_items p)"
    using assms(3) by (auto simp: p1_def sort_ok_def split: option.splits intro: mset_eq_length)
  have "batch_ok cf p1" using core Some p1 by (auto simp: core_ok_def sizes_ok_def batch_ok_def)
  then have "core_ok cf ls s1" using core Some by (auto simp: core_ok_def core_defs pending_ids_def s1_def p1)
  moreover have pumped: "pump cf s1 = (s', l)" using assms(2) Some by (simp add: flushPending_def s1_def p1_def Let_def)
  moreover have "bq_pending s' = None" using pumped by (cases rule: pump_cases) (simp add: s1_def)
  ultimately show ?thesis using pump_core by blast
qed

lemma upt_next: "[0..<Suc n] = [0..<n] @ [n]" by simp

lemma filter_below: "\<forall>i \<in> set xs. i < n \<Longrightarrow> filter (\<lambda>i. i \<noteq> n \<and> P i) xs = filter P xs" for n :: nat
  by (rule filter_cong) auto

lemma solo_core:
  assumes core: "core_ok cf ls s" and "enqueueSolo cf item s = (s', l)"
  shows "core_ok cf (ls @ l) s'"
proof -
  let ?n = "bq_next s"
  define b where "b = \<lparr>b_items = [item], b_deferreds = [?n], b_cost = opt_costOf cf item\<rparr>"
  define s1 where "s1 = s\<lparr>bq_ready := bq_ready s @ [b], bq_next := ?n + 1\<rparr>"
  obtain l2 where pumped: "pump cf s1 = (s', l2)" and l: "l = EnqueuedSolo ?n # l2"
    using assms(2) by (auto simp: enqueueSolo_def s1_def b_def split: prod.splits)
  let ?ls = "ls @ [EnqueuedSolo ?n]"
  have old: "sorted (filter (\<lambda>i. EnqueuedSolo i \<notin> set ls) (dispatched_ids ls @ queued_ids s))"
    "\<forall>i \<in> set (dispatched_ids ls @ queued_ids s). i < ?n" "\<forall>i. EnqueuedSolo i \<in> set ls \<longrightarrow> i < ?n"
    using core by (simp_all add: core_ok_def order_ok_def)
  have "filter (\<lambda>i. EnqueuedSolo i \<notin> set ?ls) (dispatched_ids ?ls @ queued_ids s1) =
      filter (\<lambda>i. EnqueuedSolo i \<notin> set ls) (dispatched_ids ls @ queued_ids s)"
    using old(2) by (simp add: queued_ids_def pending_ids_def s1_def b_def filter_below)
  then have "order_ok ?ls s1"
    using old by (auto simp: order_ok_def queued_ids_def pending_ids_def s1_def b_def less_Suc_eq)
  moreover have "promises_ok ?ls s1"
    using core by (simp add: core_ok_def promises_ok_def queued_ids_def running_ids_def pending_ids_def s1_def b_def upt_next add_ac del: upt_Suc)
  moreover have "flight_ok cf s1 \<and> sizes_ok cf s1 \<and> waiters_ok ?ls s1"
    using core by (auto simp: core_ok_def flight_ok_def sizes_ok_def waiters_ok_def batch_ok_def pending_ids_def s1_def b_def
        intro: le_SucI)
  ultimately have "core_ok cf ?ls s1" by (simp add: core_ok_def)
  from pump_core [OF this pumped] show ?thesis by (simp add: l)
qed

lemma stage_core:
  assumes core: "core_ok cf ls s" and room: "pred_option (\<lambda>p. length (b_items p) < max 1 (opt_maxBatchSize cf)) (bq_pending s)"
  shows "core_ok cf (ls @ [Enqueued (bq_next s)]) (stage_item cf item s)"
proof -
  let ?s = "stage_item cf item s" and ?l = "[Enqueued (bq_next s)]" and ?n = "bq_next s"
  have ids: "pending_ids ?s = pending_ids s @ [?n]" "queued_ids ?s = queued_ids s @ [?n]"
    "running_ids ?s = running_ids s" "bq_next ?s = Suc ?n"
    by (simp_all add: stage_item_def pending_ids_def queued_ids_def running_ids_def Let_def split: option.splits)
  have same: "bq_ready ?s = bq_ready s" "bq_running ?s = bq_running s" "bq_answered ?s = bq_answered s"
    "bq_inFlight ?s = bq_inFlight s" "bq_idleWaiters ?s = bq_idleWaiters s" "bq_woken ?s = bq_woken s"
    by (simp_all add: stage_item_def Let_def)
  have "promises_ok (ls @ ?l) ?s"
    using core by (simp add: core_ok_def promises_ok_def ids upt_next add_ac del: upt_Suc)
  moreover have "order_ok (ls @ ?l) ?s"
    using core by (auto simp: core_ok_def order_ok_def ids sorted_append less_imp_le less_Suc_eq)
  moreover have "waiters_ok (ls @ ?l) ?s"
    using core by (auto simp: core_ok_def waiters_ok_def ids same intro: le_SucI)
  moreover have "pred_option (batch_ok cf) (bq_pending ?s)"
    using core room by (cases "bq_pending s") (auto simp: core_ok_def sizes_ok_def batch_ok_def stage_item_def Let_def)
  then have "flight_ok cf ?s \<and> sizes_ok cf ?s" using core by (simp add: core_ok_def flight_ok_def sizes_ok_def same)
  ultimately show ?thesis by (simp add: core_ok_def)
qed

lemma refused_core: "core_ok cf ls s \<Longrightarrow> core_ok cf (ls @ [Refused (bq_next s)]) (s\<lparr>bq_next := bq_next s + 1\<rparr>)"
  by (auto simp: core_ok_def core_defs pending_ids_def batch_ok_def upt_next add_ac less_Suc_eq intro: le_SucI simp del: upt_Suc)

lemma enqueue_core:
  fixes ls :: "('t, 'r) batch_label list"
  assumes core: "core_ok cf ls s" and call: "enqueue_item cf item s = (s', l)" and "sort_ok cf"
  shows "core_ok cf (ls @ l) s'"
proof -
  consider (disposed) "bq_disposed s" | (solo) "\<not> bq_disposed s" "\<not> opt_enabled cf" | (staged) "\<not> bq_disposed s" "opt_enabled cf"
    by blast
  then show ?thesis
  proof cases
    case disposed
    with core call show ?thesis using refused_core by (auto simp: enqueue_item_def)
  next
    case solo
    with core call show ?thesis using solo_core by (auto simp: enqueue_item_def)
  next
    case staged
    obtain s1 and l1 :: "('t, 'r) batch_label list" where r: "rollover cf item s = (s1, l1)" by fastforce
    have "core_ok cf (ls @ l1) s1 \<and> pred_option (\<lambda>p. length (b_items p) < max 1 (opt_maxBatchSize cf)) (bq_pending s1)"
      using r core flush_core [OF core _ assms(3)]
      by (auto simp: rollover_def split: option.splits if_splits)
    then have c2: "core_ok cf (ls @ l1 @ [Enqueued (bq_next s1)]) (stage_item cf item s1)"
      using stage_core by fastforce
    show ?thesis
    proof (cases "batch_full cf (stage_item cf item s1)")
      case True
      with call staged r obtain l3 where "flushPending cf (stage_item cf item s1) = (s', l3)" "l = l1 @ Enqueued (bq_next s1) # l3"
        by (auto simp: enqueue_item_def Let_def split: prod.splits)
      with flush_core [OF c2 _ assms(3)] show ?thesis by fastforce
    next
      case False
      with call staged r have "s' = scheduleFlush cf (stage_item cf item s1)" "l = l1 @ [Enqueued (bq_next s1)]"
        by (auto simp: enqueue_item_def Let_def)
      with c2 show ?thesis by (simp add: core_ok_def core_defs pending_ids_def scheduleFlush_def)
    qed
  qed
qed

lemma answered_ids [simp]:
  "settled_ids (map (\<lambda>i. PromiseSettled i r) is) = is" "dispatched_ids (map (\<lambda>i. PromiseSettled i r) is) = []"
  by (induction "is") simp_all

lemma answer_core:
  assumes core: "core_ok cf ls s" and "k < length (bq_running s)" and "batch_answer k r s = (s', l)"
  shows "core_ok cf (ls @ l) s'"
proof -
  let ?b = "bq_running s ! k"
  have run: "bq_running s = take k (bq_running s) @ ?b # drop (Suc k) (bq_running s)"
    using assms(2) by (rule id_take_nth_drop)
  have s': "s' = s\<lparr>bq_running := take k (bq_running s) @ drop (Suc k) (bq_running s), bq_answered := bq_answered s + 1\<rparr>"
    and l: "l = map (\<lambda>i. PromiseSettled i r) (b_deferreds ?b)" using assms(3) by (simp_all add: batch_answer_def)
  have nope: "EnqueuedSolo i \<notin> set l" "FlushDone i \<notin> set l" for i by (auto simp: l)
  have "mset (running_ids s) = mset (b_deferreds ?b) + mset (running_ids s')"
    unfolding running_ids_def s' by (subst run) (simp add: add_ac)
  then have "promises_ok (ls @ l) s'"
    using core by (simp add: core_ok_def promises_ok_def queued_ids_def pending_ids_def s' l add_ac)
  moreover have "flight_ok cf s'"
    using core assms(2) by (auto simp: core_ok_def flight_ok_def s')
  moreover have "sizes_ok cf s'"
    using core by (auto simp: core_ok_def sizes_ok_def s' list_all_iff dest: in_set_takeD in_set_dropD)
  moreover have "order_ok (ls @ l) s'"
    using core by (simp add: core_ok_def order_ok_def queued_ids_def pending_ids_def nope) (simp add: s' l)
  moreover have "waiters_ok (ls @ l) s'"
    using core by (auto simp: core_ok_def waiters_ok_def pending_ids_def nope s')
  ultimately show ?thesis by (simp add: core_ok_def)
qed

lemma notify_core:
  assumes "core_ok cf ls s"
  shows "core_ok cf ls (notifyIdleIfDrained s)"
proof -
  let ?t = "notifyIdleIfDrained s"
  have w: "set (bq_idleWaiters ?t @ bq_woken ?t) = set (bq_idleWaiters s @ bq_woken s)"
    by (auto simp: notifyIdleIfDrained_def)
  have same: "queued_ids ?t = queued_ids s" "pending_ids ?t = pending_ids s" "running_ids ?t = running_ids s" "bq_next ?t = bq_next s"
    "flight_ok cf ?t = flight_ok cf s" "sizes_ok cf ?t = sizes_ok cf s"
    by (simp_all add: notifyIdleIfDrained_def queued_ids_def pending_ids_def running_ids_def flight_ok_def sizes_ok_def)
  show ?thesis using assms unfolding core_ok_def promises_ok_def order_ok_def waiters_ok_def w same .
qed

lemma finally_core:
  assumes core: "core_ok cf ls s" and "0 < bq_answered s" and "batch_finally cf s = (s', l)"
  shows "core_ok cf (ls @ l) s'"
proof -
  let ?s = "s\<lparr>bq_answered := bq_answered s - 1, bq_inFlight := bq_inFlight s - 1\<rparr>"
  have "core_ok cf ls ?s" using core assms(2) by (auto simp: core_ok_def core_defs pending_ids_def)
  moreover obtain s1 where "pump cf ?s = (s1, l)" and s': "s' = notifyIdleIfDrained s1"
    using assms(3) by (auto simp: batch_finally_def split: prod.splits)
  ultimately have "core_ok cf (ls @ l) s1" using pump_core by blast
  then show ?thesis unfolding s' by (rule notify_core)
qed

lemma wait_core:
  assumes core: "core_ok cf ls s" and "flush_wait w s = (s', l)" and "w \<le> bq_next s" and "\<forall>i \<in> set (pending_ids s). w \<le> i"
  shows "core_ok cf (ls @ l) s'"
proof (cases "bq_ready s \<noteq> [] \<or> 0 < bq_inFlight s")
  case True
  with assms(2) have "s' = s\<lparr>bq_idleWaiters := bq_idleWaiters s @ [w]\<rparr>" "l = []" by (simp_all add: flush_wait_def)
  with core assms(3,4) show ?thesis by (auto simp: core_ok_def core_defs pending_ids_def)
next
  case False
  with assms(2) have r: "s' = s" "l = [FlushDone w]" by (simp_all add: flush_wait_def)
  have "running_ids s = []" "queued_ids s = pending_ids s"
    using core False by (simp_all add: core_ok_def flight_ok_def running_ids_def queued_ids_def)
  with core have "mset (settled_ids ls) + mset (pending_ids s) = mset [0..<bq_next s]"
    by (simp add: core_ok_def promises_ok_def)
  then have "set (settled_ids ls) \<union> set (pending_ids s) = {0..<bq_next s}"
    by (metis set_mset_mset set_mset_union set_upt)
  then have "{..<w} \<subseteq> set (settled_ids ls)" using assms(3,4) by fastforce
  then have "waiters_ok (ls @ [FlushDone w]) s" using core by (auto simp: core_ok_def waiters_ok_def)
  with core show ?thesis unfolding r by (simp add: core_ok_def promises_ok_def order_ok_def)
qed

lemma batch_flush_core:
  fixes ls :: "('t, 'r) batch_label list"
  assumes core: "core_ok cf ls s" and "batch_flush cf s = (s', l)" and "sort_ok cf"
  shows "core_ok cf (ls @ l) s'"
proof -
  obtain s1 and l1 l2 :: "('t, 'r) batch_label list" where f: "flushPending cf s = (s1, l1)" "flush_wait (bq_next s) s1 = (s', l2)" "l = l1 @ l2"
    using assms(2) by (auto simp: batch_flush_def split: prod.splits)
  have "bq_next s1 = bq_next s"
    using f(1) by (auto simp: flushPending_def Let_def split: option.splits elim!: pump_cases)
  with wait_core [of cf "ls @ l1" s1 "bq_next s" s' l2] flush_core [OF core f(1) assms(3)] f(2,3) show ?thesis
    by (auto simp: pending_ids_def)
qed

lemma batch_step_core: "batch_step cf s l s' \<Longrightarrow> sort_ok cf \<Longrightarrow> core_ok cf ls s \<Longrightarrow> core_ok cf (ls @ l) s'"
proof (induction rule: batch_step.induct)
  case (dispose s)
  then show ?case by (simp add: batch_dispose_def core_ok_def core_defs pending_ids_def)
next
  case (microtask s s' l)
  then have "core_ok cf ls (s\<lparr>bq_microtasks := bq_microtasks s - 1\<rparr>)" by (simp add: core_ok_def core_defs pending_ids_def)
  with microtask flush_core show ?case by blast
next
  case (resume s w ws s' l)
  then have "core_ok cf ls (s\<lparr>bq_woken := ws\<rparr>)" "w \<le> bq_next s" "\<forall>i \<in> set (pending_ids s). w \<le> i"
    by (auto simp: core_ok_def core_defs pending_ids_def)
  with resume wait_core [of cf ls "s\<lparr>bq_woken := ws\<rparr>"] show ?case by (simp add: pending_ids_def)
qed (auto intro: enqueue_core solo_core batch_flush_core answer_core finally_core dest: flush_core)

interpretation batch_core: run_invariant "\<lambda>s. s = new_scheduler" "batch_step cf" "\<lambda>ls s. sort_ok cf \<longrightarrow> core_ok cf ls s" for cf
proof unfold_locales
  fix s :: "'a scheduler"
  assume "s = new_scheduler"
  then show "sort_ok cf \<longrightarrow> core_ok cf [] s"
    by (simp add: new_scheduler_def core_ok_def core_defs pending_ids_def)
qed (use batch_step_core in blast)

subsection \<open>A staged batch has a trigger\<close>

text \<open>
  While the scheduler is live, whatever is staged will be flushed: by the timer where there is a
  window, by a queued microtask otherwise. The microtask survives a dispose, the timer does not.
\<close>

definition trigger_ok :: "'t batch_options \<Rightarrow> 't scheduler \<Rightarrow> bool" where
  "trigger_ok cf s \<longleftrightarrow> (bq_microtaskScheduled s \<longrightarrow> 0 < bq_microtasks s)
     \<and> (if 0 < opt_windowMs cf then \<not> bq_microtaskScheduled s \<and> (bq_pending s \<noteq> None \<longrightarrow> bq_timer s \<or> bq_disposed s)
        else \<not> bq_timer s \<and> (bq_pending s \<noteq> None \<longrightarrow> 0 < bq_microtasks s))"

lemma flush_trigger:
  assumes "flushPending cf s = (s', l)"
  shows "bq_pending s' = None \<and> \<not> bq_timer s' \<and> \<not> bq_microtaskScheduled s' \<and> bq_microtasks s' = bq_microtasks s"
  using assms by (auto simp: flushPending_def Let_def split: option.splits elim!: pump_cases)

lemma flushed_trigger_ok: "flushPending cf s = (s', l) \<Longrightarrow> trigger_ok cf s'"
  using flush_trigger by (fastforce simp: trigger_ok_def)

lemma pump_trigger: "pump cf s = (s', l) \<Longrightarrow> trigger_ok cf s' = trigger_ok cf s"
  by (auto simp: trigger_ok_def elim!: pump_cases)

lemma schedule_trigger:
  assumes "trigger_ok cf s \<or> \<not> bq_timer s \<and> \<not> bq_microtaskScheduled s"
  shows "trigger_ok cf (scheduleFlush cf (s\<lparr>bq_pending := p, bq_next := n\<rparr>))"
  using assms by (auto simp: trigger_ok_def scheduleFlush_def split: if_splits)

lemma stage_item_update: "\<exists>p n. stage_item cf item s = s\<lparr>bq_pending := p, bq_next := n\<rparr>"
  unfolding stage_item_def Let_def by blast

lemma enqueue_trigger:
  assumes "enqueue_item cf item s = (s', l :: ('t, 'r) batch_label list)" and ok: "trigger_ok cf s"
  shows "trigger_ok cf s'"
proof -
  consider (disposed) "bq_disposed s" | (solo) "\<not> bq_disposed s" "\<not> opt_enabled cf" | (staged) "\<not> bq_disposed s" "opt_enabled cf"
    by blast
  then show ?thesis
  proof cases
    case disposed
    with assms show ?thesis by (auto simp: enqueue_item_def trigger_ok_def)
  next
    case solo
    with assms(1) obtain s1 and l1 :: "('t, 'r) batch_label list"
      where "pump cf (s\<lparr>bq_ready := s1, bq_next := bq_next s + 1\<rparr>) = (s', l1)"
      by (auto simp: enqueue_item_def enqueueSolo_def split: prod.splits)
    from pump_trigger [OF this] ok show ?thesis by (simp add: trigger_ok_def)
  next
    case staged
    obtain s1 and l1 :: "('t, 'r) batch_label list" where r: "rollover cf item s = (s1, l1)" by fastforce
    have "trigger_ok cf s1"
      using r ok flushed_trigger_ok by (auto simp: rollover_def split: option.splits if_splits)
    moreover obtain p n where "stage_item cf item s1 = s1\<lparr>bq_pending := p, bq_next := n\<rparr>" using stage_item_update by metis
    ultimately show ?thesis
      using assms(1) staged r schedule_trigger [of cf s1] flushed_trigger_ok
      by (auto simp: enqueue_item_def Let_def split: if_splits prod.splits)
  qed
qed

lemma trigger_frame [simp]:
  "trigger_ok cf (s\<lparr>bq_ready := r, bq_next := n\<rparr>) = trigger_ok cf s"
  "trigger_ok cf (s\<lparr>bq_running := b, bq_answered := a\<rparr>) = trigger_ok cf s"
  "trigger_ok cf (s\<lparr>bq_answered := a, bq_inFlight := f\<rparr>) = trigger_ok cf s"
  "trigger_ok cf (s\<lparr>bq_idleWaiters := i\<rparr>) = trigger_ok cf s"
  "trigger_ok cf (s\<lparr>bq_idleWaiters := i, bq_woken := w\<rparr>) = trigger_ok cf s"
  "trigger_ok cf (s\<lparr>bq_woken := w\<rparr>) = trigger_ok cf s"
  by (simp_all add: trigger_ok_def)

lemma wait_trigger: "flush_wait w s = (s', l) \<Longrightarrow> trigger_ok cf s' = trigger_ok cf s"
  by (auto simp: flush_wait_def split: if_splits)

lemma batch_step_trigger: "batch_step cf s l s' \<Longrightarrow> trigger_ok cf s \<Longrightarrow> trigger_ok cf s'"
proof (induction rule: batch_step.induct)
  case (solo item s s' l)
  then show ?case using pump_trigger by (fastforce simp: enqueueSolo_def split: prod.splits)
next
  case (flush s s' l)
  then show ?case using flushed_trigger_ok wait_trigger by (fastforce simp: batch_flush_def split: prod.splits)
next
  case (dispose s)
  then show ?case by (auto simp: batch_dispose_def trigger_ok_def split: if_splits)
next
  case (answer k s r s' l)
  then show ?case by (auto simp: batch_answer_def)
next
  case (settled s s' l)
  then show ?case using pump_trigger by (fastforce simp: batch_finally_def notifyIdleIfDrained_def split: prod.splits)
next
  case (resume s w ws s' l)
  then show ?case using wait_trigger by fastforce
qed (auto intro: enqueue_trigger flushed_trigger_ok)

interpretation batch_trigger: run_invariant "\<lambda>s. s = new_scheduler" "batch_step cf" "\<lambda>_ s. trigger_ok cf s" for cf
proof unfold_locales
  fix s :: "'a scheduler"
  assume "s = new_scheduler"
  then show "trigger_ok cf s" by (simp add: new_scheduler_def trigger_ok_def)
qed (rule batch_step_trigger)

subsection \<open>Properties\<close>


definition options_example :: "nat batch_options" where
  "options_example = \<lparr>opt_enabled = True, opt_windowMs = 0, opt_maxBatchSize = 2, opt_maxBatchCost = None, opt_costOf = (\<lambda>_. 0),
     opt_maxInFlight = 1, opt_sort = None\<rparr>"

lemma batch_example_run:
  "\<exists>s. run (\<lambda>s. s = new_scheduler) (batch_step options_example)
     ([Enqueued 0] @ [Enqueued 1, BatchDispatched [0, 1] [7, 8]] @ [PromiseSettled 0 True, PromiseSettled 1 True] :: (nat, bool) batch_label list) s
     \<and> bq_next s = 2"
proof -
  have 0: "run (\<lambda>s. s = new_scheduler) (batch_step options_example) ([] :: (nat, bool) batch_label list) new_scheduler"
    by (rule run_init) simp
  let ?s1 = "fst (enqueue_item options_example 7 new_scheduler :: _ \<times> (nat, bool) batch_label list)"
  let ?s2 = "fst (enqueue_item options_example 8 ?s1 :: _ \<times> (nat, bool) batch_label list)"
  let ?s3 = "fst (batch_answer 0 True ?s2 :: _ \<times> (nat, bool) batch_label list)"
  note ev = enqueue_item_def rollover_def stage_item_def batch_full_def cost_reached_def cost_over_def scheduleFlush_def flushPending_def
    pump_def new_scheduler_def options_example_def batch_answer_def
  have 1: "batch_step options_example new_scheduler [Enqueued 0 :: (nat, bool) batch_label] ?s1"
    by (rule batch_step.enqueue [of _ 7]) (simp add: ev)
  have 2: "batch_step options_example ?s1 [Enqueued 1, BatchDispatched [0, 1] [7, 8] :: (nat, bool) batch_label] ?s2"
    by (rule batch_step.enqueue [of _ 8]) (simp add: ev Let_def)
  have 3: "batch_step options_example ?s2 [PromiseSettled 0 True, PromiseSettled 1 True :: (nat, bool) batch_label] ?s3"
    by (rule batch_step.answer [of 0 _ True]) (simp_all add: ev Let_def)
  have "bq_next ?s3 = 2" by (simp add: ev Let_def)
  with run_step [OF run_step [OF run_step [OF 0 1] 2] 3] show ?thesis by auto
qed


text \<open>
  \<open>flush\<close> waits for everything: when a call of \<open>flush\<close> completes, every promise that existed
  when it was called is settled. And nothing is left staged without something that will flush
  it: in every reachable state a staged batch has its timer or a queued microtask, except
  with a coalescing window after \<open>dispose\<close>, which clears the timer.
\<close>

theorem flush_waits_and_staged_is_triggered:
  assumes "run (\<lambda>s. s = new_scheduler) (batch_step cf) ls s" and "sort_ok cf"
  shows "(FlushDone w \<in> set ls \<longrightarrow> {..<w} \<subseteq> set (settled_ids ls))
    \<and> (bq_pending s \<noteq> None \<longrightarrow> (if 0 < opt_windowMs cf then bq_timer s \<or> bq_disposed s else 0 < bq_microtasks s))"
  using batch_core.holds [OF assms(1)] batch_trigger.holds [OF assms(1)] assms(2)
  by (auto simp: core_ok_def waiters_ok_def trigger_ok_def split: if_splits)

theorem flush_waits_and_staged_is_triggered_witness:
  "\<exists>s. run (\<lambda>s. s = new_scheduler) (batch_step options_example) ([Enqueued 0] :: (nat, bool) batch_label list) s
     \<and> bq_pending s \<noteq> None \<and> 0 < bq_microtasks s"
proof -
  let ?s = "fst (enqueue_item options_example 7 new_scheduler :: _ \<times> (nat, bool) batch_label list)"
  note ev = enqueue_item_def rollover_def stage_item_def batch_full_def cost_reached_def scheduleFlush_def new_scheduler_def
    options_example_def
  have 0: "run (\<lambda>s. s = new_scheduler) (batch_step options_example) ([] :: (nat, bool) batch_label list) new_scheduler"
    by (rule run_init) simp
  have "batch_step options_example new_scheduler [Enqueued 0 :: (nat, bool) batch_label] ?s"
    by (rule batch_step.enqueue [of _ 7]) (simp add: ev)
  from run_step [OF 0 this]
  have r: "run (\<lambda>s. s = new_scheduler) (batch_step options_example) ([Enqueued 0] :: (nat, bool) batch_label list) ?s" by simp
  have "sort_ok options_example" "bq_pending ?s \<noteq> None" "\<not> 0 < opt_windowMs options_example" by (simp_all add: sort_ok_def ev)
  with flush_waits_and_staged_is_triggered [OF r] r show ?thesis by (intro exI [of _ ?s]) auto
qed

end
