(* ===== verification/ClaimTargets.thy ===== *)
theory ClaimTargets
  imports JsonValues
begin

section \<open>Claim targets: the locator, the conflict rule and the batch fence\<close>

text \<open>
  Model of \<open>packages/transaction/src/claims/targetConflict.ts\<close>, \<open>locator.ts\<close>, \<open>conflict.ts\<close>,
  \<open>admission.ts\<close> and of the commit operations of \<open>packages/transaction/src/commit/httpRequest.ts\<close>
  that carry a claim's identity and fencing token.

  A member that may be absent is an \<open>option\<close>; the code treats \<open>null\<close> and \<open>undefined\<close> alike here.
  Application metadata is opaque. Error messages are left out; the class and the code of an
  error, which callers branch on, are kept.
\<close>

subsection \<open>The locator\<close>

record ClaimTargetDetails =
  td_field :: "string option"
  td_fields :: "string list option"
  td_meta :: "jsval option"

datatype part_ref = PlainName string | ClaimPart string | FieldRef string string

primrec partName :: "part_ref \<Rightarrow> string" where
  "partName (PlainName s) = s"
| "partName (ClaimPart p) = p"
| "partName (FieldRef model field) = field"

text \<open>
  A selector receives the selection of its model, whose every property is the reference of
  that name, and returns one reference or an array of them.
\<close>

datatype field_source =
    FieldList "part_ref list"
  | SelectOne "(string \<Rightarrow> part_ref) \<Rightarrow> part_ref"
  | SelectMany "(string \<Rightarrow> part_ref) \<Rightarrow> part_ref list"

definition fieldSelection :: "string \<Rightarrow> string \<Rightarrow> part_ref" where
  "fieldSelection model = FieldRef model"

record ClaimTargetSource =
  ts_field :: "part_ref option"
  ts_fields :: "field_source option"
  ts_meta :: "jsval option"

definition no_details :: ClaimTargetDetails where
  "no_details = \<lparr>td_field = None, td_fields = None, td_meta = None\<rparr>"

fun selected :: "string \<Rightarrow> field_source \<Rightarrow> part_ref list" where
  "selected model (FieldList refs) = refs"
| "selected model (SelectOne f) = [f (fieldSelection model)]"
| "selected model (SelectMany f) = f (fieldSelection model)"

fun subTarget :: "ClaimTargetSource option \<Rightarrow> string option \<Rightarrow> ClaimTargetDetails" where
  "subTarget None model = no_details"
| "subTarget (Some source) model = \<lparr>td_field = map_option partName (ts_field source),
     td_fields = map_option (\<lambda>s. map partName (selected (case model of None \<Rightarrow> [] | Some m \<Rightarrow> m) s)) (ts_fields source),
     td_meta = ts_meta source\<rparr>"

text \<open>A wire target read as a source again, as the next hop does.\<close>

definition details_source :: "ClaimTargetDetails \<Rightarrow> ClaimTargetSource" where
  "details_source d = \<lparr>ts_field = map_option PlainName (td_field d),
     ts_fields = map_option (\<lambda>names. FieldList (map PlainName names)) (td_fields d), ts_meta = td_meta d\<rparr>"

datatype EntityLocator = WireLocator string string | ModelLocator string string | StreamLocator string string

primrec entityOf :: "EntityLocator \<Rightarrow> string \<times> string" where
  "entityOf (WireLocator entityType entityId) = (entityType, entityId)"
| "entityOf (ModelLocator model i) = (model, i)"
| "entityOf (StreamLocator type i) = (type, i)"

definition wireTarget :: "EntityLocator \<Rightarrow> EntityLocator" where
  "wireTarget source = (case entityOf source of (entityType, entityId) \<Rightarrow> WireLocator entityType entityId)"

definition modelTarget :: "EntityLocator \<Rightarrow> EntityLocator" where
  "modelTarget source = (case entityOf source of (model, i) \<Rightarrow> ModelLocator model i)"

definition streamTarget :: "EntityLocator \<Rightarrow> EntityLocator" where
  "streamTarget source = (case entityOf source of (type, i) \<Rightarrow> StreamLocator type i)"

subsection \<open>The conflict rule\<close>

definition fieldSet :: "ClaimTargetDetails option \<Rightarrow> string list" where
  "fieldSet target = remdups (map toLowerCase (case target of
      None \<Rightarrow> []
    | Some t \<Rightarrow> (case td_field t of None \<Rightarrow> [] | Some f \<Rightarrow> [f]) @ (case td_fields t of None \<Rightarrow> [] | Some fs \<Rightarrow> fs)))"

definition hasSubtarget :: "ClaimTargetDetails option \<Rightarrow> bool" where
  "hasSubtarget target = (case target of
      None \<Rightarrow> False
    | Some t \<Rightarrow> (case td_field t of None \<Rightarrow> False | Some f \<Rightarrow> f \<noteq> []) \<or> (case td_fields t of None \<Rightarrow> False | Some fs \<Rightarrow> 0 < length fs))"

definition targetsConflict :: "ClaimTargetDetails \<Rightarrow> ClaimTargetDetails option \<Rightarrow> bool" where
  "targetsConflict held incoming =
     (if \<not> hasSubtarget (Some held) \<or> \<not> hasSubtarget incoming then True
      else
        let heldFields = fieldSet (Some held); incomingFields = fieldSet incoming
        in length heldFields = 0 \<or> length incomingFields = 0 \<or> list_ex (\<lambda>name. name \<in> set incomingFields) heldFields)"

subsection \<open>The batch fence\<close>

record BatchFence =
  fence_model :: string
  fence_id :: string
  fence_token :: int

definition batchFence :: "EntityLocator option \<Rightarrow> int option \<Rightarrow> BatchFence option" where
  "batchFence source token = (case (source, token) of
      (Some s, Some t) \<Rightarrow> (case entityOf (modelTarget s) of (model, i) \<Rightarrow>
        Some \<lparr>fence_model = model, fence_id = i, fence_token = t\<rparr>)
    | _ \<Rightarrow> None)"

definition fenceTokenFor :: "BatchFence option \<Rightarrow> string \<Rightarrow> string option \<Rightarrow> int option" where
  "fenceTokenFor fence model i = (case (fence, i) of
      (Some f, Some i) \<Rightarrow> if toLowerCase model = toLowerCase (fence_model f) \<and> i = fence_id f then Some (fence_token f) else None
    | _ \<Rightarrow> None)"

definition claimIdFor :: "EntityLocator option \<Rightarrow> string option \<Rightarrow> string \<Rightarrow> string option \<Rightarrow> string option" where
  "claimIdFor source claimId model i = (case (source, claimId, i) of
      (Some s, Some c, Some i) \<Rightarrow> (case entityOf (modelTarget s) of (tmodel, tid) \<Rightarrow>
        if toLowerCase model = toLowerCase tmodel \<and> i = tid then Some c else None)
    | _ \<Rightarrow> None)"

subsection \<open>Commit operations\<close>

text \<open>A claim handle as the write options carry it.\<close>

record ClaimHandle =
  ch_id :: string
  ch_target :: EntityLocator
  ch_readAt :: "int option"
  ch_fenceToken :: "int option"

record CommitOperationInput =
  ci_action :: string
  ci_model :: string
  ci_id :: "string option"
  ci_data :: "jsval option"
  ci_where :: "jsval option"
  ci_transactionId :: "string option"
  ci_claimId :: "string option"
  ci_readAt :: "int option"
  ci_fenceToken :: "int option"

record CommitCreateOptions =
  cc_operations :: "CommitOperationInput list"
  cc_readAt :: "int option"
  cc_claim :: "ClaimHandle option"

definition orElse :: "'a option \<Rightarrow> 'a option \<Rightarrow> 'a option" where
  "orElse a b = (case a of None \<Rightarrow> b | Some _ \<Rightarrow> a)"

definition normalizeCommitOperation :: "CommitOperationInput \<Rightarrow> int option \<Rightarrow> BatchFence option \<Rightarrow> ClaimHandle option
    \<Rightarrow> CommitOperationInput" where
  "normalizeCommitOperation op_in default_readAt fence claim = \<lparr>ci_action = ci_action op_in, ci_model = ci_model op_in,
     ci_id = ci_id op_in, ci_data = ci_data op_in, ci_where = ci_where op_in, ci_transactionId = ci_transactionId op_in,
     ci_claimId = orElse (ci_claimId op_in) (claimIdFor (map_option ch_target claim) (map_option ch_id claim) (ci_model op_in) (ci_id op_in)),
     ci_readAt = orElse (ci_readAt op_in) default_readAt,
     ci_fenceToken = orElse (ci_fenceToken op_in) (fenceTokenFor fence (ci_model op_in) (ci_id op_in))\<rparr>"

datatype commit_error = CommitOperationRequired

definition normalizeCommitOperations :: "CommitCreateOptions \<Rightarrow> BatchFence option
    \<Rightarrow> commit_error + CommitOperationInput list" where
  "normalizeCommitOperations opts fence =
     (if cc_operations opts = [] then Inl CommitOperationRequired
      else Inr (map (\<lambda>op_in. normalizeCommitOperation op_in (cc_readAt opts) fence (cc_claim opts)) (cc_operations opts)))"

text \<open>\<open>commits.create\<close> over HTTP: the claim supplies the defaults of the batch, explicit options win.\<close>

definition commits_create_operations :: "CommitCreateOptions \<Rightarrow> commit_error + CommitOperationInput list" where
  "commits_create_operations opts =
     normalizeCommitOperations (opts\<lparr>cc_readAt := orElse (cc_readAt opts) (Option.bind (cc_claim opts) ch_readAt)\<rparr>)
       (batchFence (map_option ch_target (cc_claim opts)) (Option.bind (cc_claim opts) ch_fenceToken))"

subsection \<open>Conflicts and refused admissions\<close>

datatype ParticipantKind = User | Agent | System

datatype claim_reason = Conflict | CoordinationUnavailable | CapabilityDenied | InvalidTarget | Expired | Preempted

record WireClaimSummary =
  wc_claimId :: string
  wc_entityType :: string
  wc_entityId :: string
  wc_details :: ClaimTargetDetails
  wc_description :: "string option"
  wc_declaredAt :: int
  wc_expiresAt :: int

record ClaimRejection =
  rj_claimId :: string
  rj_reason :: "claim_reason option"
  rj_target :: "(EntityLocator \<times> ClaimTargetDetails) option"
  rj_heldBy :: "string option"
  rj_heldByKind :: "ParticipantKind option"
  rj_heldByClaimId :: "string option"
  rj_heldByExpiresAt :: "int option"
  rj_heldByClaim :: "WireClaimSummary option"
  rj_message :: "string option"

record ClaimConflictCounterparty =
  cp_kind :: "ParticipantKind option"
  cp_description :: "string option"
  cp_expiresAt :: "int option"

record ClaimConflictContext =
  cx_counterparty :: "ClaimConflictCounterparty option"
  cx_target :: "EntityLocator option"
  cx_claimId :: "string option"
  cx_participantId :: "string option"

record ClaimConflictSource =
  xs_heldBy :: "string option"
  xs_heldByKind :: "ParticipantKind option"
  xs_heldByClaimId :: "string option"
  xs_heldByExpiresAt :: "int option"
  xs_heldByClaim :: "WireClaimSummary option"
  xs_target :: "EntityLocator option"
  xs_description :: "string option"
  xs_expiresAt :: "int option"

definition normalizeClaimConflict :: "ClaimConflictSource \<Rightarrow> ClaimConflictContext option" where
  "normalizeClaimConflict source =
     (let summary = xs_heldByClaim source;
          counterparty = \<lparr>cp_kind = xs_heldByKind source,
            cp_description = orElse (xs_description source) (Option.bind summary wc_description),
            cp_expiresAt = orElse (xs_expiresAt source) (orElse (xs_heldByExpiresAt source) (map_option wc_expiresAt summary))\<rparr>;
          conflict = \<lparr>cx_counterparty = (if counterparty = \<lparr>cp_kind = None, cp_description = None, cp_expiresAt = None\<rparr> then None
              else Some counterparty),
            cx_target = orElse (xs_target source) (map_option (\<lambda>s. modelTarget (WireLocator (wc_entityType s) (wc_entityId s))) summary),
            cx_claimId = orElse (xs_heldByClaimId source) (map_option wc_claimId summary),
            cx_participantId = xs_heldBy source\<rparr>
      in if conflict = \<lparr>cx_counterparty = None, cx_target = None, cx_claimId = None, cx_participantId = None\<rparr> then None
         else Some conflict)"

definition conflictFromClaimRejection :: "ClaimRejection \<Rightarrow> ClaimConflictContext option" where
  "conflictFromClaimRejection rejection = normalizeClaimConflict \<lparr>xs_heldBy = rj_heldBy rejection,
     xs_heldByKind = rj_heldByKind rejection, xs_heldByClaimId = rj_heldByClaimId rejection,
     xs_heldByExpiresAt = rj_heldByExpiresAt rejection, xs_heldByClaim = rj_heldByClaim rejection,
     xs_target = map_option (\<lambda>(t, _). modelTarget t) (rj_target rejection), xs_description = None, xs_expiresAt = None\<rparr>"

datatype claim_error =
    CapabilityScopeDenied
  | InvalidBody
  | Claimed string "WireClaimSummary list option" "ClaimConflictContext option"
  | ConnectionDown

definition claimAdmissionError :: "ClaimRejection \<Rightarrow> claim_error" where
  "claimAdmissionError rejection =
     (if rj_reason rejection = Some CapabilityDenied then CapabilityScopeDenied
      else if rj_reason rejection = Some InvalidTarget then InvalidBody
      else Claimed (if rj_reason rejection = Some Conflict then ''claim_conflict'' else ''claim_lease_unavailable'')
        (map_option (\<lambda>c. [c]) (rj_heldByClaim rejection)) (conflictFromClaimRejection rejection))"

subsection \<open>Which parts of a row a claim covers\<close>

text \<open>
  The meaning of a claim target: a target that names no part covers every part of its row,
  otherwise exactly the parts it names, compared without regard to case.
\<close>

definition covers :: "ClaimTargetDetails option \<Rightarrow> string \<Rightarrow> bool" where
  "covers target part \<longleftrightarrow> \<not> hasSubtarget target \<or> toLowerCase part \<in> set (fieldSet target)"

lemma orElse_simps [simp]: "orElse None b = b" "orElse (Some a) b = Some a" "orElse a None = a"
  by (simp_all add: orElse_def split: option.splits)

lemma entityOf_hops [simp]:
  "entityOf (wireTarget s) = entityOf s" "entityOf (modelTarget s) = entityOf s" "entityOf (streamTarget s) = entityOf s"
  by (simp_all add: wireTarget_def modelTarget_def streamTarget_def split: prod.splits)

lemma subtarget_named: "hasSubtarget target \<Longrightarrow> \<exists>name. name \<in> set (fieldSet target) \<and> toLowerCase name = name"
  by (cases target) (auto simp: hasSubtarget_def fieldSet_def neq_Nil_conv split: option.splits)

lemma fieldSet_lower: "name \<in> set (fieldSet target) \<Longrightarrow> toLowerCase name = name"
  by (auto simp: fieldSet_def)

lemma conflict_covers:
  "targetsConflict held incoming \<longleftrightarrow> (\<exists>part. covers (Some held) part \<and> covers incoming part)"
proof (cases "hasSubtarget (Some held) \<and> hasSubtarget incoming")
  case True
  have "(\<exists>name \<in> set (fieldSet (Some held)). name \<in> set (fieldSet incoming)) \<longleftrightarrow>
      (\<exists>part. toLowerCase part \<in> set (fieldSet (Some held)) \<and> toLowerCase part \<in> set (fieldSet incoming))"
    by (metis fieldSet_lower)
  moreover have "fieldSet (Some held) \<noteq> []" "fieldSet incoming \<noteq> []" using True subtarget_named by force+
  ultimately show ?thesis using True by (simp add: targetsConflict_def covers_def Let_def list_ex_iff)
next
  case False
  have "\<exists>part. covers t part" for t using subtarget_named [of t] unfolding covers_def by metis
  with False show ?thesis by (auto simp: targetsConflict_def covers_def)
qed

subsection \<open>Properties\<close>


text \<open>
  A target survives its hops: whatever sequence of the three spellings an entity travels
  through, it names the same model and row; and projecting a projected target again
  changes none of its parts, so no hop narrows or widens a claim.
\<close>

lemma entity_after_hops:
  "set hops \<subseteq> {wireTarget, modelTarget, streamTarget} \<Longrightarrow> entityOf (fold (\<lambda>hop. hop) hops source) = entityOf source"
  by (induction hops arbitrary: source) auto

lemma locator_hops_lossless:
  assumes "set hops \<subseteq> {wireTarget, modelTarget, streamTarget}"
  shows "entityOf (fold (\<lambda>hop. hop) hops source) = entityOf source
    \<and> subTarget (Some (details_source (subTarget target model))) model' = subTarget target model
    \<and> (targetsConflict held (Some (subTarget (Some (details_source d)) model')) \<longleftrightarrow> targetsConflict held (Some d))"
proof -
  have again: "subTarget (Some (details_source d)) m = d" for d m
    by (simp add: details_source_def option.map_comp comp_def option.map_ident)
  then show ?thesis using entity_after_hops [OF assms] by simp
qed

text \<open>
  C25. A claim's evidence stays on its row: in a batch written under a claim, the claim's fencing
  token and its id reach exactly the operations on the claimed row that do not name their
  own, whatever the case of the model name; an operation's own values always win. The
  position the claim was read at, in contrast, is the default of the whole batch. The
  operations keep their order, and an empty batch is refused.
\<close>

definition writes_claimed_row :: "ClaimHandle \<Rightarrow> CommitOperationInput \<Rightarrow> bool" where
  "writes_claimed_row claim op_in \<longleftrightarrow> toLowerCase (ci_model op_in) = toLowerCase (fst (entityOf (ch_target claim)))
     \<and> ci_id op_in = Some (snd (entityOf (ch_target claim)))"

lemma fence_on_claimed_row:
  "fenceTokenFor (batchFence (map_option ch_target claim) (Option.bind claim ch_fenceToken)) (ci_model op_in) (ci_id op_in) =
     (case claim of None \<Rightarrow> None | Some c \<Rightarrow> if writes_claimed_row c op_in then ch_fenceToken c else None)"
  by (cases claim; cases "entityOf (ch_target (the claim))"; cases "ch_fenceToken (the claim)"; cases "ci_id op_in")
    (auto simp: fenceTokenFor_def batchFence_def writes_claimed_row_def)

lemma claim_id_on_claimed_row:
  "claimIdFor (map_option ch_target claim) (map_option ch_id claim) (ci_model op_in) (ci_id op_in) =
     (case claim of None \<Rightarrow> None | Some c \<Rightarrow> if writes_claimed_row c op_in then Some (ch_id c) else None)"
  by (auto simp: claimIdFor_def writes_claimed_row_def split: option.splits prod.splits)

theorem claim_evidence_stays_on_its_row:
  "if cc_operations opts = [] then commits_create_operations opts = Inl CommitOperationRequired
   else \<exists>ops. commits_create_operations opts = Inr ops \<and> length ops = length (cc_operations opts)
     \<and> (\<forall>i < length ops. let op_in = cc_operations opts ! i; out = ops ! i in
          ci_model out = ci_model op_in \<and> ci_id out = ci_id op_in \<and> ci_data out = ci_data op_in
        \<and> ci_fenceToken out = (case ci_fenceToken op_in of Some t \<Rightarrow> Some t | None \<Rightarrow>
            (case cc_claim opts of Some c \<Rightarrow> if writes_claimed_row c op_in then ch_fenceToken c else None | None \<Rightarrow> None))
        \<and> ci_claimId out = (case ci_claimId op_in of Some c \<Rightarrow> Some c | None \<Rightarrow>
            (case cc_claim opts of Some c \<Rightarrow> if writes_claimed_row c op_in then Some (ch_id c) else None | None \<Rightarrow> None))
        \<and> ci_readAt out = (case ci_readAt op_in of Some r \<Rightarrow> Some r | None \<Rightarrow>
            (case cc_readAt opts of Some r \<Rightarrow> Some r | None \<Rightarrow> Option.bind (cc_claim opts) ch_readAt)))"
  by (auto simp: commits_create_operations_def normalizeCommitOperations_def normalizeCommitOperation_def fence_on_claimed_row
      claim_id_on_claimed_row orElse_def Let_def split: option.splits)

theorem claim_evidence_stays_on_its_row_witness:
  "let claim = \<lparr>ch_id = ''c1'', ch_target = StreamLocator ''Task'' ''t1'', ch_readAt = Some 7, ch_fenceToken = Some 3\<rparr>;
       edit = (\<lambda>i. \<lparr>ci_action = ''update'', ci_model = ''task'', ci_id = Some i, ci_data = None, ci_where = None,
         ci_transactionId = None, ci_claimId = None, ci_readAt = None, ci_fenceToken = None\<rparr>)
   in \<exists>ops. commits_create_operations \<lparr>cc_operations = [edit ''t1'', edit ''t2''], cc_readAt = None, cc_claim = Some claim\<rparr> = Inr ops
        \<and> map ci_fenceToken ops = [Some 3, None] \<and> map ci_claimId ops = [Some ''c1'', None] \<and> map ci_readAt ops = [Some 7, Some 7]"
proof -
  let ?edit = "\<lambda>i. \<lparr>ci_action = ''update'', ci_model = ''task'', ci_id = Some i, ci_data = None, ci_where = None,
         ci_transactionId = None, ci_claimId = None, ci_readAt = None, ci_fenceToken = None\<rparr>"
  let ?opts = "\<lparr>cc_operations = [?edit ''t1'', ?edit ''t2''], cc_readAt = None, cc_claim = Some \<lparr>ch_id = ''c1'',
     ch_target = StreamLocator ''Task'' ''t1'', ch_readAt = Some 7, ch_fenceToken = Some 3\<rparr>\<rparr>"
  have case_insensitive: "toLowerCase ''task'' = toLowerCase ''Task''" by code_simp
  obtain ops where ops: "commits_create_operations ?opts = Inr ops" "length ops = 2"
    "ci_fenceToken (ops ! 0) = Some 3" "ci_fenceToken (ops ! 1) = None" "ci_claimId (ops ! 0) = Some ''c1''" "ci_claimId (ops ! 1) = None"
    "ci_readAt (ops ! 0) = Some 7" "ci_readAt (ops ! 1) = Some 7"
    using claim_evidence_stays_on_its_row [of ?opts]
    by (auto simp: writes_claimed_row_def case_insensitive Let_def less_Suc_eq numeral_2_eq_2)
  then obtain a b where "ops = [a, b]" by (auto simp: numeral_2_eq_2 length_Suc_conv)
  with ops show ?thesis by (simp add: Let_def)
qed

end
