(* ===== verification/ClaimStream.thy ===== *)
theory ClaimStream
  imports ClaimTargets
begin

section \<open>The claim stream\<close>

text \<open>
  Model of \<open>packages/humans/src/local/sync/createClaimStream.ts\<close>, of the lifecycle of a granted
  claim in \<open>packages/transaction/src/claims/lifetime.ts\<close> and of the durations of
  \<open>packages/transaction/src/utils/duration.ts\<close>.

  The variables of the closure are one record. Handles are numbered in the order they are
  minted, and a handle carries its lifetime, which the stream's index of own grants refers
  to by that number; heartbeat promises are numbered in the order they are made. A
  function returns its effects, oldest first, and the new state. Whether the transport
  reports itself connected is an argument. Listeners are numbers: that one is
  called is an effect, and what it does in turn is a later step. Log lines are left out.
\<close>

subsection \<open>Durations\<close>

datatype duration = Seconds rat | DurationText string

text \<open>\<open>PATTERN\<close> is digits, optionally a point and digits, and a unit.\<close>

definition UNIT_MS :: "string \<Rightarrow> rat option" where
  "UNIT_MS unit = map_of [(''ms'', 1), (''s'', 1000), (''m'', 60000), (''h'', 3600000)] unit"

definition isDigit :: "char \<Rightarrow> bool" where
  "isDigit c \<longleftrightarrow> digit_value c \<noteq> None"

definition decimal_value :: "string \<Rightarrow> string \<Rightarrow> rat" where
  "decimal_value whole fraction =
     of_int (the (digits_value whole 0)) + of_int (the (digits_value fraction 0)) / 10 ^ length fraction"

definition parseDurationMs :: "duration \<Rightarrow> rat option" where
  "parseDurationMs input = (case input of
      Seconds n \<Rightarrow> Some (n * 1000)
    | DurationText s \<Rightarrow>
        (let whole = takeWhile isDigit s; after = dropWhile isDigit s;
             (fraction, unit) = (case after of
                 CHR ''.'' # rest \<Rightarrow> (takeWhile isDigit rest, if takeWhile isDigit rest = [] then after else dropWhile isDigit rest)
               | _ \<Rightarrow> ([], after))
         in if whole = [] then None
            else map_option (\<lambda>u. decimal_value whole fraction * u) (UNIT_MS unit)))"

subsection \<open>The lifetime of a grant\<close>

record claim_lifetime =
  lt_ended :: bool
  lt_reason :: "claim_error option"
  lt_listeners :: "nat list"

definition createClaimLifetime :: claim_lifetime where
  "createClaimLifetime = \<lparr>lt_ended = False, lt_reason = None, lt_listeners = []\<rparr>"

text \<open>The results are the listeners that are called and the new lifetime.\<close>

definition lifetime_end :: "claim_error option \<Rightarrow> claim_lifetime \<Rightarrow> (nat \<times> claim_error option) list \<times> claim_lifetime" where
  "lifetime_end nextReason lt =
     (if lt_ended lt then ([], lt)
      else (map (\<lambda>l. (l, nextReason)) (lt_listeners lt), lt\<lparr>lt_ended := True, lt_reason := nextReason, lt_listeners := []\<rparr>))"

definition lifetime_onEnd :: "nat \<Rightarrow> claim_lifetime \<Rightarrow> (nat \<times> claim_error option) list \<times> claim_lifetime" where
  "lifetime_onEnd listener lt =
     (if lt_ended lt then ([(listener, lt_reason lt)], lt)
      else ([], lt\<lparr>lt_listeners := List.insert listener (lt_listeners lt)\<rparr>))"

definition lifetime_off :: "nat \<Rightarrow> claim_lifetime \<Rightarrow> claim_lifetime" where
  "lifetime_off listener lt = lt\<lparr>lt_listeners := removeAll listener (lt_listeners lt)\<rparr>"

subsection \<open>State and effects\<close>

record OwnClaim =
  oc_entityType :: string
  oc_entityId :: string
  oc_details :: ClaimTargetDetails
  oc_description :: string
  oc_estimatedMs :: "rat option"
  oc_queue :: "bool option"

record StreamHandle =
  sh_claimId :: string
  sh_claim :: OwnClaim
  sh_revoked :: bool
  sh_lifetime :: claim_lifetime

record ObservedClaim =
  ob_id :: string
  ob_heldBy :: string
  ob_participantKind :: ParticipantKind
  ob_target :: EntityLocator
  ob_details :: ClaimTargetDetails
  ob_description :: string
  ob_ttlSeconds :: int
  ob_createdAt :: int
  ob_expiresAt :: int

record QueueClaim =
  qc_id :: string
  qc_target :: EntityLocator
  qc_details :: ClaimTargetDetails
  qc_description :: string
  qc_heldBy :: "string option"
  qc_participantKind :: "ParticipantKind option"
  qc_position :: int
  qc_expiresAt :: int

record HeartbeatOptions =
  ho_ttl :: "duration option"
  ho_details :: "jsval option"

record HeartbeatAck =
  ha_claimId :: string
  ha_status :: string
  ha_expiresAt :: "int option"
  ha_queueDepth :: "int option"

datatype beat_outcome = BeatHeld int "int option" | BeatRejected claim_error | BeatDurationInvalid

datatype claim_frame =
    ClaimBegin string OwnClaim
  | ClaimAbandon string OwnClaim
  | ClaimHeartbeat string OwnClaim "rat option" "jsval option"
  | ClaimReorder string string "(string option \<times> string) list"

datatype stream_effect =
    SendFrame claim_frame
  | SettleBeat nat beat_outcome
  | CallOnEnd nat nat "claim_error option"
  | CallOnChange nat
  | CallOnRejected nat ClaimRejection
  | CallOnLost nat string

record claim_stream =
  cs_attached :: bool
  cs_presence :: bool
  cs_active :: "(string \<times> ObservedClaim) list"
  cs_snapshot :: "ObservedClaim list"
  cs_own :: "(string \<times> (OwnClaim \<times> nat)) list"
  cs_handles :: "StreamHandle list"
  cs_pendingAbandons :: "(string \<times> OwnClaim) list"
  cs_queueByEntity :: "(string \<times> QueueClaim list) list"
  cs_queueEntries :: "(string \<times> (string \<times> QueueClaim) list) list"
  cs_listeners :: "nat list"
  cs_rejectionListeners :: "nat list"
  cs_lostListeners :: "nat list"
  cs_pendingHeartbeats :: "(string \<times> nat) list"
  cs_timers :: "(nat \<times> string) list"
  cs_nextBeat :: nat

type_synonym stream_result = "stream_effect list \<times> claim_stream"

definition createClaimStream :: "bool \<Rightarrow> bool \<Rightarrow> claim_stream" where
  "createClaimStream transport presence = \<lparr>cs_attached = transport, cs_presence = presence, cs_active = [], cs_snapshot = [],
     cs_own = [], cs_handles = [], cs_pendingAbandons = [], cs_queueByEntity = [], cs_queueEntries = [], cs_listeners = [],
     cs_rejectionListeners = [], cs_lostListeners = [], cs_pendingHeartbeats = [], cs_timers = [], cs_nextBeat = 0\<rparr>"

definition andThen :: "stream_result \<Rightarrow> (claim_stream \<Rightarrow> stream_result) \<Rightarrow> stream_result" where
  "andThen r f = (case r of (es, st) \<Rightarrow> (case f st of (es', st') \<Rightarrow> (es @ es', st')))"

fun for_each :: "('x \<Rightarrow> claim_stream \<Rightarrow> stream_result) \<Rightarrow> 'x list \<Rightarrow> claim_stream \<Rightarrow> stream_result" where
  "for_each f [] st = ([], st)"
| "for_each f (x # xs) st = andThen (f x st) (for_each f xs)"

definition stream_entityKey :: "string \<Rightarrow> string \<Rightarrow> string" where
  "stream_entityKey type i = type @ '':'' @ i"

subsection \<open>Shared helpers\<close>

definition settleHeartbeat :: "string \<Rightarrow> beat_outcome \<Rightarrow> claim_stream \<Rightarrow> stream_result" where
  "settleHeartbeat claimId outcome st = (case map_of (cs_pendingHeartbeats st) claimId of
      None \<Rightarrow> ([], st)
    | Some p \<Rightarrow> ([SettleBeat p outcome], st\<lparr>cs_pendingHeartbeats := AList.delete claimId (cs_pendingHeartbeats st),
        cs_timers := filter (\<lambda>(q, _). q \<noteq> p) (cs_timers st)\<rparr>))"

definition notifyListeners :: "claim_stream \<Rightarrow> stream_result" where
  "notifyListeners st = (map CallOnChange (cs_listeners st), st\<lparr>cs_snapshot := map snd (cs_active st)\<rparr>)"

fun descriptionFromMeta :: "jsval option \<Rightarrow> string option" where
  "descriptionFromMeta (Some (VObj _ _ props)) =
     (case map_of props ''description'' of Some (VStr s) \<Rightarrow> Some s | _ \<Rightarrow> None)"
| "descriptionFromMeta _ = None"

definition participantKindFromWire :: "ParticipantKind option \<Rightarrow> bool option \<Rightarrow> ParticipantKind" where
  "participantKindFromWire wireKind isAgent = (case wireKind of Some k \<Rightarrow> k | None \<Rightarrow> if isAgent = Some True then Agent else User)"

definition observeForeignClaim :: "int \<Rightarrow> string \<Rightarrow> WireClaimSummary \<Rightarrow> ParticipantKind option \<Rightarrow> bool option
    \<Rightarrow> claim_stream \<Rightarrow> claim_stream" where
  "observeForeignClaim now heldBy claim kind isAgent st = st\<lparr>cs_active := AList.update (wc_claimId claim)
     \<lparr>ob_id = wc_claimId claim, ob_heldBy = heldBy, ob_participantKind = participantKindFromWire kind isAgent,
      ob_target = streamTarget (WireLocator (wc_entityType claim) (wc_entityId claim)),
      ob_details = subTarget (Some (details_source (wc_details claim))) None,
      ob_description = (case orElse (wc_description claim) (descriptionFromMeta (td_meta (wc_details claim))) of
          None \<Rightarrow> ''editing'' | Some d \<Rightarrow> d),
      ob_ttlSeconds = max 0 ((wc_expiresAt claim - now) div 1000),
      ob_createdAt = wc_declaredAt claim, ob_expiresAt = wc_expiresAt claim\<rparr> (cs_active st)\<rparr>"

text \<open>\<open>own?.lifetime.end(error)\<close> followed by \<open>ownClaims.delete(claimId)\<close>.\<close>

definition end_handle :: "nat \<Rightarrow> claim_error option \<Rightarrow> claim_stream \<Rightarrow> stream_result" where
  "end_handle h reason st = (case lifetime_end reason (sh_lifetime (cs_handles st ! h)) of (calls, lt) \<Rightarrow>
     (map (\<lambda>(l, r). CallOnEnd h l r) calls, st\<lparr>cs_handles := (cs_handles st)[h := (cs_handles st ! h)\<lparr>sh_lifetime := lt\<rparr>]\<rparr>))"

definition end_own :: "string \<Rightarrow> claim_error \<Rightarrow> claim_stream \<Rightarrow> stream_result" where
  "end_own claimId err st = andThen
     (case map_of (cs_own st) claimId of None \<Rightarrow> ([], st) | Some (_, h) \<Rightarrow> end_handle h (Some err) st)
     (\<lambda>st. ([], st\<lparr>cs_own := AList.delete claimId (cs_own st)\<rparr>))"

definition claimed :: "string \<Rightarrow> claim_error" where
  "claimed code = Claimed code None None"

subsection \<open>Frames from the server\<close>

definition on_rejected :: "int \<Rightarrow> ClaimRejection \<Rightarrow> claim_stream \<Rightarrow> stream_result" where
  "on_rejected now rejection st =
     (if rj_claimId rejection = [] then ([], st)
      else andThen (andThen
        (end_own (rj_claimId rejection)
           (claimed (if rj_reason rejection = Some Conflict then ''claim_conflict'' else ''claim_lease_unavailable'')) st)
        (\<lambda>st. case (rj_heldBy rejection, rj_heldByClaim rejection) of
             (Some heldBy, Some summary) \<Rightarrow>
               if rj_reason rejection = Some Conflict \<and> heldBy \<noteq> []
               then notifyListeners (observeForeignClaim now heldBy summary (rj_heldByKind rejection) None st)
               else ([], st)
           | _ \<Rightarrow> ([], st)))
        (\<lambda>st. (map (\<lambda>l. CallOnRejected l rejection) (cs_rejectionListeners st), st)))"

definition on_lost :: "string \<Rightarrow> claim_stream \<Rightarrow> stream_result" where
  "on_lost claimId st = andThen (end_own claimId (claimed ''claim_lost'') st)
     (\<lambda>st. (map (\<lambda>l. CallOnLost l claimId) (cs_lostListeners st), st))"

definition publicQueueClaim :: "QueueClaim \<Rightarrow> QueueClaim" where
  "publicQueueClaim entry = entry"

definition put_entry :: "QueueClaim \<Rightarrow> (string \<times> QueueClaim) list \<Rightarrow> (string \<times> QueueClaim) list" where
  "put_entry entry line = AList.update (qc_id entry) (publicQueueClaim entry) line"

definition on_queue_snapshot :: "string \<Rightarrow> string \<Rightarrow> QueueClaim list \<Rightarrow> claim_stream \<Rightarrow> stream_result" where
  "on_queue_snapshot type i line st =
     (let key = stream_entityKey type i
      in notifyListeners (st\<lparr>cs_queueEntries := AList.update key (fold put_entry line []) (cs_queueEntries st),
           cs_queueByEntity := AList.delete key (cs_queueByEntity st)\<rparr>))"

datatype queue_change =
    QueueAppend QueueClaim
  | QueueAppendMany "QueueClaim list"
  | QueueRemove string
  | QueueRemoveMany "string list"

primrec change_line :: "queue_change \<Rightarrow> (string \<times> QueueClaim) list \<Rightarrow> (string \<times> QueueClaim) list" where
  "change_line (QueueAppend entry) line = put_entry entry line"
| "change_line (QueueAppendMany entries) line = fold put_entry entries line"
| "change_line (QueueRemove i) line = AList.delete i line"
| "change_line (QueueRemoveMany is) line = fold AList.delete is line"

definition on_queue_patch :: "string \<Rightarrow> string \<Rightarrow> queue_change \<Rightarrow> claim_stream \<Rightarrow> stream_result" where
  "on_queue_patch type i change st =
     (let key = stream_entityKey type i
      in case map_of (cs_queueEntries st) key of
           None \<Rightarrow> ([], st)
         | Some line \<Rightarrow> notifyListeners (st\<lparr>cs_queueEntries := AList.update key (change_line change line) (cs_queueEntries st),
             cs_queueByEntity := AList.delete key (cs_queueByEntity st)\<rparr>))"

definition on_heartbeat_ack :: "HeartbeatAck \<Rightarrow> claim_stream \<Rightarrow> stream_result" where
  "on_heartbeat_ack ack st = (case map_of (cs_pendingHeartbeats st) (ha_claimId ack) of
      None \<Rightarrow> ([], st)
    | Some p \<Rightarrow> (case (ha_status ack = ''held'', ha_expiresAt ack) of
          (True, Some expiresAt) \<Rightarrow> settleHeartbeat (ha_claimId ack) (BeatHeld expiresAt (ha_queueDepth ack)) st
        | _ \<Rightarrow> (case settleHeartbeat (ha_claimId ack) (BeatRejected (claimed ''claim_lost'')) st of (es, st1) \<Rightarrow>
            (case end_own (ha_claimId ack) (claimed ''claim_lost'') st1 of (es', st2) \<Rightarrow> (es' @ es, st2)))))"

definition on_disconnected :: "claim_stream \<Rightarrow> stream_result" where
  "on_disconnected st = andThen (notifyListeners (st\<lparr>cs_queueByEntity := [], cs_queueEntries := []\<rparr>))
     (for_each (\<lambda>claimId. settleHeartbeat claimId (BeatRejected ConnectionDown)) (map fst (cs_pendingHeartbeats st)))"

subsection \<open>Frames to the server\<close>

definition sendBegin :: "bool \<Rightarrow> string \<Rightarrow> OwnClaim \<Rightarrow> claim_stream \<Rightarrow> stream_result" where
  "sendBegin conn claimId claim st = (if cs_attached st \<and> conn then ([SendFrame (ClaimBegin claimId claim)], st) else ([], st))"

definition sendReorder :: "bool \<Rightarrow> string \<Rightarrow> string \<Rightarrow> QueueClaim list \<Rightarrow> claim_stream \<Rightarrow> stream_result" where
  "sendReorder conn entityType entityId order st =
     (if cs_attached st \<and> conn
      then ([SendFrame (ClaimReorder entityType entityId (map (\<lambda>i. (qc_heldBy i, qc_id i)) order))], st) else ([], st))"

definition sendAbandon :: "bool \<Rightarrow> string \<Rightarrow> OwnClaim \<Rightarrow> claim_stream \<Rightarrow> stream_result" where
  "sendAbandon conn claimId claim st =
     (if cs_attached st \<and> conn then ([SendFrame (ClaimAbandon claimId claim)], st)
      else ([], st\<lparr>cs_pendingAbandons := AList.update claimId claim (cs_pendingAbandons st)\<rparr>))"

text \<open>
  An invalid duration throws after the beat has been registered: the promise is rejected by
  the throw, nothing is sent, and the entry stays until its timer fires.
\<close>

definition sendHeartbeat :: "bool \<Rightarrow> string \<Rightarrow> OwnClaim \<Rightarrow> HeartbeatOptions \<Rightarrow> claim_stream \<Rightarrow> stream_result" where
  "sendHeartbeat conn claimId claim options st =
     (let p = cs_nextBeat st; st = st\<lparr>cs_nextBeat := p + 1\<rparr>
      in if \<not> (cs_attached st \<and> conn) then ([SettleBeat p (BeatRejected ConnectionDown)], st)
         else andThen (settleHeartbeat claimId (BeatRejected ConnectionDown) st)
           (\<lambda>st. let st = st\<lparr>cs_pendingHeartbeats := AList.update claimId p (cs_pendingHeartbeats st),
                    cs_timers := cs_timers st @ [(p, claimId)]\<rparr>
              in case ho_ttl options of
                   None \<Rightarrow> ([SendFrame (ClaimHeartbeat claimId claim None (ho_details options))], st)
                 | Some ttl \<Rightarrow> (case parseDurationMs ttl of
                       None \<Rightarrow> ([SettleBeat p BeatDurationInvalid], st)
                     | Some ms \<Rightarrow> ([SendFrame (ClaimHeartbeat claimId claim (Some ms) (ho_details options))], st))))"

definition no_heartbeat_options :: HeartbeatOptions where
  "no_heartbeat_options = \<lparr>ho_ttl = None, ho_details = None\<rparr>"

definition on_connected :: "bool \<Rightarrow> claim_stream \<Rightarrow> stream_result" where
  "on_connected conn st = andThen (andThen
     (for_each (\<lambda>(claimId, claim). sendAbandon conn claimId claim) (cs_pendingAbandons st) st)
     (\<lambda>st. ([], st\<lparr>cs_pendingAbandons := []\<rparr>)))
     (for_each (\<lambda>(claimId, claim, _). sendHeartbeat conn claimId claim no_heartbeat_options) (cs_own st))"

definition heartbeat_timeout :: "string \<Rightarrow> claim_stream \<Rightarrow> stream_result" where
  "heartbeat_timeout claimId = settleHeartbeat claimId (BeatRejected ConnectionDown)"

subsection \<open>Presence\<close>

record PresenceActivity =
  pa_id :: string
  pa_operation :: string
  pa_source :: string
  pa_model :: string
  pa_rowId :: "string option"
  pa_field :: "string option"
  pa_fieldNames :: "string list option"
  pa_startedAt :: int
  pa_expiresAt :: int

record PresenceSession =
  ps_participantId :: string
  ps_kind :: ParticipantKind
  ps_activities :: "PresenceActivity list"

definition presence_claimId :: "string \<Rightarrow> string" where
  "presence_claimId i = (if take 6 i = ''claim:'' then drop 6 i else i)"

definition observe_activity :: "int \<Rightarrow> PresenceSession \<Rightarrow> PresenceActivity \<Rightarrow> claim_stream \<Rightarrow> claim_stream" where
  "observe_activity now session activity st = (case pa_rowId activity of
      None \<Rightarrow> st
    | Some row \<Rightarrow>
        if pa_operation activity \<noteq> ''claim'' \<or> pa_source activity \<noteq> ''claim'' then st
        else observeForeignClaim now (ps_participantId session) \<lparr>wc_claimId = presence_claimId (pa_id activity),
          wc_entityType = pa_model activity, wc_entityId = row,
          wc_details = \<lparr>td_field = pa_field activity, td_fields = pa_fieldNames activity, td_meta = None\<rparr>,
          wc_description = Some ''claim'', wc_declaredAt = pa_startedAt activity, wc_expiresAt = pa_expiresAt activity\<rparr>
          (Some (ps_kind session)) None st)"

definition refreshPresenceClaims :: "int \<Rightarrow> PresenceSession list \<Rightarrow> claim_stream \<Rightarrow> stream_result" where
  "refreshPresenceClaims now others st =
     notifyListeners (fold (\<lambda>session. fold (observe_activity now session) (ps_activities session)) others (st\<lparr>cs_active := []\<rparr>))"

subsection \<open>The public surface\<close>

record ClaimOptions =
  co_ttl :: "duration option"
  co_queue :: "bool option"
  co_description :: "string option"
  co_reason :: "string option"

definition claimDescription :: "string option \<Rightarrow> jsval option \<Rightarrow> string option \<Rightarrow> string" where
  "claimDescription description meta reason =
     (case orElse description (orElse (descriptionFromMeta meta) reason) of None \<Rightarrow> ''editing'' | Some d \<Rightarrow> d)"

definition mintHandle :: "bool \<Rightarrow> string \<Rightarrow> EntityLocator \<Rightarrow> ClaimTargetDetails \<Rightarrow> string \<Rightarrow> rat option \<Rightarrow> bool option
    \<Rightarrow> claim_stream \<Rightarrow> stream_result" where
  "mintHandle conn claimId target details description estimatedMs queue st =
     (case entityOf (wireTarget target) of (entityType, entityId) \<Rightarrow>
        let claim = \<lparr>oc_entityType = entityType, oc_entityId = entityId, oc_details = subTarget (Some (details_source details)) None,
              oc_description = description, oc_estimatedMs = estimatedMs, oc_queue = queue\<rparr>;
            h = length (cs_handles st)
        in sendBegin conn claimId claim (st\<lparr>cs_own := AList.update claimId (claim, h) (cs_own st),
             cs_handles := cs_handles st @ [\<lparr>sh_claimId = claimId, sh_claim = claim, sh_revoked = False,
               sh_lifetime = createClaimLifetime\<rparr>]\<rparr>))"

text \<open>\<open>claim\<close>: \<open>None\<close> is the thrown \<open>duration_invalid\<close>, before anything is registered.\<close>

definition stream_claim :: "bool \<Rightarrow> string \<Rightarrow> EntityLocator \<Rightarrow> ClaimTargetSource \<Rightarrow> ClaimOptions \<Rightarrow> claim_stream
    \<Rightarrow> stream_result option" where
  "stream_claim conn claimId target source opts st =
     (let details = subTarget (Some source) None;
          description = claimDescription (co_description opts) (ts_meta source) (co_reason opts)
      in case co_ttl opts of
           None \<Rightarrow> Some (mintHandle conn claimId target details description None (co_queue opts) st)
         | Some ttl \<Rightarrow> map_option (\<lambda>ms. mintHandle conn claimId target details description (Some ms) (co_queue opts) st)
             (parseDurationMs ttl))"

definition revoke :: "bool \<Rightarrow> nat \<Rightarrow> claim_stream \<Rightarrow> stream_result" where
  "revoke conn h st =
     (let handle = cs_handles st ! h
      in if sh_revoked handle then ([], st)
         else andThen (andThen
           (end_handle h None (st\<lparr>cs_handles := (cs_handles st)[h := handle\<lparr>sh_revoked := True\<rparr>]\<rparr>))
           (\<lambda>st. ([], st\<lparr>cs_own := AList.delete (sh_claimId handle) (cs_own st)\<rparr>)))
           (sendAbandon conn (sh_claimId handle) (sh_claim handle)))"

definition handle_heartbeat :: "bool \<Rightarrow> nat \<Rightarrow> HeartbeatOptions \<Rightarrow> claim_stream \<Rightarrow> stream_result" where
  "handle_heartbeat conn h options st =
     sendHeartbeat conn (sh_claimId (cs_handles st ! h)) (sh_claim (cs_handles st ! h)) options st"

definition handle_onEnd :: "nat \<Rightarrow> nat \<Rightarrow> claim_stream \<Rightarrow> stream_result" where
  "handle_onEnd h listener st = (case lifetime_onEnd listener (sh_lifetime (cs_handles st ! h)) of (calls, lt) \<Rightarrow>
     (map (\<lambda>(l, r). CallOnEnd h l r) calls, st\<lparr>cs_handles := (cs_handles st)[h := (cs_handles st ! h)\<lparr>sh_lifetime := lt\<rparr>]\<rparr>))"

definition handle_offEnd :: "nat \<Rightarrow> nat \<Rightarrow> claim_stream \<Rightarrow> stream_result" where
  "handle_offEnd h listener st = ([], st\<lparr>cs_handles := (cs_handles st)[h := (cs_handles st ! h)\<lparr>sh_lifetime :=
     lifetime_off listener (sh_lifetime (cs_handles st ! h))\<rparr>]\<rparr>)"

text \<open>The line of an entity as it is shown: the entries in order, numbered from zero.\<close>

definition materialize :: "(string \<times> QueueClaim) list \<Rightarrow> QueueClaim list" where
  "materialize entries = map2 (\<lambda>entry position. entry\<lparr>qc_position := int position\<rparr>) (map snd entries) [0..<length entries]"

definition queueFor :: "string \<Rightarrow> string \<Rightarrow> claim_stream \<Rightarrow> QueueClaim list \<times> claim_stream" where
  "queueFor type i st =
     (let key = stream_entityKey type i
      in case map_of (cs_queueByEntity st) key of
           Some cached \<Rightarrow> (cached, st)
         | None \<Rightarrow> (case map_of (cs_queueEntries st) key of
               None \<Rightarrow> ([], st)
             | Some entries \<Rightarrow>
                 if entries = [] then ([], st)
                 else (materialize entries, st\<lparr>cs_queueByEntity := AList.update key (materialize entries) (cs_queueByEntity st)\<rparr>)))"

definition stream_attach :: "claim_stream \<Rightarrow> claim_stream" where
  "stream_attach st = st\<lparr>cs_attached := True\<rparr>"

definition stream_dispose :: "claim_stream \<Rightarrow> stream_result" where
  "stream_dispose st = andThen (andThen
     (for_each (\<lambda>claimId. settleHeartbeat claimId (BeatRejected ConnectionDown)) (map fst (cs_pendingHeartbeats st))
        (st\<lparr>cs_presence := False\<rparr>))
     (for_each (\<lambda>(_, _, h). end_handle h (Some ConnectionDown)) (cs_own st)))
     (\<lambda>st. ([], st\<lparr>cs_listeners := [], cs_rejectionListeners := [], cs_lostListeners := [], cs_active := [], cs_own := [],
        cs_queueByEntity := [], cs_queueEntries := [], cs_snapshot := [], cs_attached := False\<rparr>))"

definition onChange :: "nat \<Rightarrow> claim_stream \<Rightarrow> claim_stream" where
  "onChange listener st = st\<lparr>cs_listeners := List.insert listener (cs_listeners st)\<rparr>"

definition offChange :: "nat \<Rightarrow> claim_stream \<Rightarrow> claim_stream" where
  "offChange listener st = st\<lparr>cs_listeners := removeAll listener (cs_listeners st)\<rparr>"

definition onRejected :: "nat \<Rightarrow> claim_stream \<Rightarrow> claim_stream" where
  "onRejected listener st = st\<lparr>cs_rejectionListeners := List.insert listener (cs_rejectionListeners st)\<rparr>"

definition offRejected :: "nat \<Rightarrow> claim_stream \<Rightarrow> claim_stream" where
  "offRejected listener st = st\<lparr>cs_rejectionListeners := removeAll listener (cs_rejectionListeners st)\<rparr>"

definition onLost :: "nat \<Rightarrow> claim_stream \<Rightarrow> claim_stream" where
  "onLost listener st = st\<lparr>cs_lostListeners := List.insert listener (cs_lostListeners st)\<rparr>"

definition offLost :: "nat \<Rightarrow> claim_stream \<Rightarrow> claim_stream" where
  "offLost listener st = st\<lparr>cs_lostListeners := removeAll listener (cs_lostListeners st)\<rparr>"

subsection \<open>Steps\<close>

text \<open>
  What can happen to a stream. Claim ids are fresh: the caller's is generated per request and
  the default is a random UUID. A transport that emits \<open>connected\<close> reports itself connected.
  Frames arrive only while a transport is attached, presence changes only until the stream
  is disposed. The refresh at creation is a first presence step.
\<close>

inductive stream_step :: "claim_stream \<Rightarrow> stream_effect list \<Rightarrow> claim_stream \<Rightarrow> bool" where
  step_claim: "stream_claim conn claimId target source opts st = Some (es, st') \<Longrightarrow> claimId \<notin> sh_claimId ` set (cs_handles st)
    \<Longrightarrow> stream_step st es st'"
| step_revoke: "h < length (cs_handles st) \<Longrightarrow> revoke conn h st = (es, st') \<Longrightarrow> stream_step st es st'"
| step_heartbeat: "h < length (cs_handles st) \<Longrightarrow> handle_heartbeat conn h options st = (es, st') \<Longrightarrow> stream_step st es st'"
| step_onEnd: "h < length (cs_handles st) \<Longrightarrow> handle_onEnd h l st = (es, st') \<Longrightarrow> stream_step st es st'"
| step_offEnd: "h < length (cs_handles st) \<Longrightarrow> handle_offEnd h l st = (es, st') \<Longrightarrow> stream_step st es st'"
| step_rejected: "cs_attached st \<Longrightarrow> on_rejected now rejection st = (es, st') \<Longrightarrow> stream_step st es st'"
| step_lost: "cs_attached st \<Longrightarrow> on_lost claimId st = (es, st') \<Longrightarrow> stream_step st es st'"
| step_snapshot: "cs_attached st \<Longrightarrow> on_queue_snapshot type i line st = (es, st') \<Longrightarrow> stream_step st es st'"
| step_patch: "cs_attached st \<Longrightarrow> on_queue_patch type i change st = (es, st') \<Longrightarrow> stream_step st es st'"
| step_ack: "cs_attached st \<Longrightarrow> on_heartbeat_ack ack st = (es, st') \<Longrightarrow> stream_step st es st'"
| step_disconnected: "cs_attached st \<Longrightarrow> on_disconnected st = (es, st') \<Longrightarrow> stream_step st es st'"
| step_connected: "cs_attached st \<Longrightarrow> on_connected True st = (es, st') \<Longrightarrow> stream_step st es st'"
| step_timeout: "(p, claimId) \<in> set (cs_timers st) \<Longrightarrow> heartbeat_timeout claimId st = (es, st') \<Longrightarrow> stream_step st es st'"
| step_presence: "cs_presence st \<Longrightarrow> refreshPresenceClaims now others st = (es, st') \<Longrightarrow> stream_step st es st'"
| step_read: "queueFor type i st = (line, st') \<Longrightarrow> stream_step st [] st'"
| step_reorder: "sendReorder conn type i order st = (es, st') \<Longrightarrow> stream_step st es st'"
| step_listen: "st' \<in> {onChange l st, offChange l st, onRejected l st, offRejected l st, onLost l st, offLost l st, stream_attach st}
    \<Longrightarrow> stream_step st [] st'"
| step_dispose: "stream_dispose st = (es, st') \<Longrightarrow> stream_step st es st'"

definition stream_init :: "claim_stream \<Rightarrow> bool" where
  "stream_init st \<longleftrightarrow> (\<exists>transport presence. st = createClaimStream transport presence)"

abbreviation stream_run :: "stream_effect list \<Rightarrow> claim_stream \<Rightarrow> bool" where
  "stream_run \<equiv> run stream_init stream_step"

subsection \<open>Sequencing\<close>

lemma fst_andThen [simp]: "fst (andThen r f) = fst r @ fst (f (snd r))"
  by (simp add: andThen_def split_def)

lemma snd_andThen [simp]: "snd (andThen r f) = snd (f (snd r))"
  by (simp add: andThen_def split_def)

lemma for_each_frame:
  "(\<And>x st. x \<in> set xs \<Longrightarrow> g (snd (f x st)) = g st) \<Longrightarrow> g (snd (for_each f xs st)) = g st"
  by (induction xs arbitrary: st) auto

lemma for_each_effects:
  "(\<And>x st. x \<in> set xs \<Longrightarrow> list_all P (fst (f x st))) \<Longrightarrow> list_all P (fst (for_each f xs st))"
  by (induction xs arbitrary: st) auto

text \<open>
  An invariant of the effects and the state is kept by a function when it is kept at every
  state; sequencing and loops inherit it.
\<close>

definition keeps :: "(stream_effect list \<Rightarrow> claim_stream \<Rightarrow> bool) \<Rightarrow> (claim_stream \<Rightarrow> stream_result) \<Rightarrow> bool" where
  "keeps J f \<longleftrightarrow> (\<forall>ls st. J ls st \<longrightarrow> J (ls @ fst (f st)) (snd (f st)))"

lemma keepsI: "(\<And>ls st. J ls st \<Longrightarrow> J (ls @ fst (f st)) (snd (f st))) \<Longrightarrow> keeps J f"
  by (simp add: keeps_def)

lemma keepsD: "keeps J f \<Longrightarrow> J ls st \<Longrightarrow> f st = (es, st') \<Longrightarrow> J (ls @ es) st'"
  by (metis fst_conv keeps_def snd_conv)

lemma keeps_run: "keeps J f \<Longrightarrow> J ls st \<Longrightarrow> J (ls @ fst (f st)) (snd (f st))"
  by (simp add: keeps_def)

lemma keeps_andThen: "keeps J f \<Longrightarrow> keeps J g \<Longrightarrow> keeps J (\<lambda>st. andThen (f st) g)"
  by (simp add: keeps_def flip: append_assoc)

lemma keeps_for_each: "(\<And>x. x \<in> set xs \<Longrightarrow> keeps J (f x)) \<Longrightarrow> keeps J (for_each f xs)"
proof (induction xs)
  case (Cons x xs)
  then have "keeps J (f x)" "keeps J (for_each f xs)" by simp_all
  from keeps_andThen [OF this] show ?case by (simp add: keeps_def)
qed (simp add: keeps_def)

subsection \<open>What each function leaves alone\<close>

lemma settle_frame [simp]:
  "cs_handles (snd (settleHeartbeat c r st)) = cs_handles st" "cs_own (snd (settleHeartbeat c r st)) = cs_own st"
  "cs_pendingAbandons (snd (settleHeartbeat c r st)) = cs_pendingAbandons st"
  "cs_queueByEntity (snd (settleHeartbeat c r st)) = cs_queueByEntity st"
  "cs_queueEntries (snd (settleHeartbeat c r st)) = cs_queueEntries st"
  "cs_attached (snd (settleHeartbeat c r st)) = cs_attached st" "cs_nextBeat (snd (settleHeartbeat c r st)) = cs_nextBeat st"
  by (simp_all add: settleHeartbeat_def split: option.splits)

lemma notify_frame [simp]:
  "cs_handles (snd (notifyListeners st)) = cs_handles st" "cs_own (snd (notifyListeners st)) = cs_own st"
  "cs_pendingAbandons (snd (notifyListeners st)) = cs_pendingAbandons st"
  "cs_queueByEntity (snd (notifyListeners st)) = cs_queueByEntity st"
  "cs_queueEntries (snd (notifyListeners st)) = cs_queueEntries st"
  "cs_pendingHeartbeats (snd (notifyListeners st)) = cs_pendingHeartbeats st" "cs_timers (snd (notifyListeners st)) = cs_timers st"
  "cs_attached (snd (notifyListeners st)) = cs_attached st" "cs_nextBeat (snd (notifyListeners st)) = cs_nextBeat st"
  by (simp_all add: notifyListeners_def)

lemma observe_frame [simp]:
  "cs_handles (observeForeignClaim n b c k a st) = cs_handles st" "cs_own (observeForeignClaim n b c k a st) = cs_own st"
  "cs_pendingAbandons (observeForeignClaim n b c k a st) = cs_pendingAbandons st"
  "cs_queueByEntity (observeForeignClaim n b c k a st) = cs_queueByEntity st"
  "cs_queueEntries (observeForeignClaim n b c k a st) = cs_queueEntries st"
  "cs_pendingHeartbeats (observeForeignClaim n b c k a st) = cs_pendingHeartbeats st"
  "cs_timers (observeForeignClaim n b c k a st) = cs_timers st" "cs_nextBeat (observeForeignClaim n b c k a st) = cs_nextBeat st"
  by (simp_all add: observeForeignClaim_def)

lemma end_handle_frame [simp]:
  "cs_own (snd (end_handle h r st)) = cs_own st" "cs_pendingAbandons (snd (end_handle h r st)) = cs_pendingAbandons st"
  "cs_queueByEntity (snd (end_handle h r st)) = cs_queueByEntity st" "cs_queueEntries (snd (end_handle h r st)) = cs_queueEntries st"
  "cs_pendingHeartbeats (snd (end_handle h r st)) = cs_pendingHeartbeats st" "cs_timers (snd (end_handle h r st)) = cs_timers st"
  "cs_attached (snd (end_handle h r st)) = cs_attached st" "cs_nextBeat (snd (end_handle h r st)) = cs_nextBeat st"
  "length (cs_handles (snd (end_handle h r st))) = length (cs_handles st)"
  by (simp_all add: end_handle_def split_def)

lemma end_own_frame [simp]:
  "cs_pendingAbandons (snd (end_own c e st)) = cs_pendingAbandons st"
  "cs_queueByEntity (snd (end_own c e st)) = cs_queueByEntity st" "cs_queueEntries (snd (end_own c e st)) = cs_queueEntries st"
  "cs_pendingHeartbeats (snd (end_own c e st)) = cs_pendingHeartbeats st" "cs_timers (snd (end_own c e st)) = cs_timers st"
  "cs_attached (snd (end_own c e st)) = cs_attached st" "cs_nextBeat (snd (end_own c e st)) = cs_nextBeat st"
  "cs_own (snd (end_own c e st)) = AList.delete c (cs_own st)"
  by (simp_all add: end_own_def split: option.splits prod.splits)

lemma sendHeartbeat_frame [simp]:
  "cs_handles (snd (sendHeartbeat conn c cl opt st)) = cs_handles st" "cs_own (snd (sendHeartbeat conn c cl opt st)) = cs_own st"
  "cs_pendingAbandons (snd (sendHeartbeat conn c cl opt st)) = cs_pendingAbandons st"
  "cs_queueByEntity (snd (sendHeartbeat conn c cl opt st)) = cs_queueByEntity st"
  "cs_queueEntries (snd (sendHeartbeat conn c cl opt st)) = cs_queueEntries st"
  by (simp_all add: sendHeartbeat_def Let_def split: option.splits)

lemma sendAbandon_frame [simp]:
  "cs_handles (snd (sendAbandon conn c cl st)) = cs_handles st" "cs_own (snd (sendAbandon conn c cl st)) = cs_own st"
  "cs_queueByEntity (snd (sendAbandon conn c cl st)) = cs_queueByEntity st"
  "cs_queueEntries (snd (sendAbandon conn c cl st)) = cs_queueEntries st"
  "cs_pendingHeartbeats (snd (sendAbandon conn c cl st)) = cs_pendingHeartbeats st"
  "cs_timers (snd (sendAbandon conn c cl st)) = cs_timers st" "cs_attached (snd (sendAbandon conn c cl st)) = cs_attached st"
  "cs_nextBeat (snd (sendAbandon conn c cl st)) = cs_nextBeat st"
  by (simp_all add: sendAbandon_def)

lemma sendBegin_state [simp]: "snd (sendBegin conn c cl st) = st"
  by (simp add: sendBegin_def)

lemma sendReorder_state [simp]: "snd (sendReorder conn t i xs st) = st"
  by (simp add: sendReorder_def)

lemma observe_activity_frame [simp]:
  "cs_handles (observe_activity n s a st) = cs_handles st" "cs_own (observe_activity n s a st) = cs_own st"
  "cs_pendingAbandons (observe_activity n s a st) = cs_pendingAbandons st"
  "cs_queueByEntity (observe_activity n s a st) = cs_queueByEntity st" "cs_queueEntries (observe_activity n s a st) = cs_queueEntries st"
  "cs_pendingHeartbeats (observe_activity n s a st) = cs_pendingHeartbeats st"
  "cs_timers (observe_activity n s a st) = cs_timers st" "cs_nextBeat (observe_activity n s a st) = cs_nextBeat st"
  by (simp_all add: observe_activity_def split: option.splits)

lemma fold_frame: "(\<And>x st. g (f x st) = g st) \<Longrightarrow> g (fold f xs st) = g st"
  by (induction xs arbitrary: st) auto

lemma refresh_frame [simp]:
  "cs_handles (snd (refreshPresenceClaims n xs st)) = cs_handles st" "cs_own (snd (refreshPresenceClaims n xs st)) = cs_own st"
  "cs_pendingAbandons (snd (refreshPresenceClaims n xs st)) = cs_pendingAbandons st"
  "cs_queueByEntity (snd (refreshPresenceClaims n xs st)) = cs_queueByEntity st"
  "cs_queueEntries (snd (refreshPresenceClaims n xs st)) = cs_queueEntries st"
  "cs_pendingHeartbeats (snd (refreshPresenceClaims n xs st)) = cs_pendingHeartbeats st"
  "cs_timers (snd (refreshPresenceClaims n xs st)) = cs_timers st" "cs_nextBeat (snd (refreshPresenceClaims n xs st)) = cs_nextBeat st"
  by (simp_all add: refreshPresenceClaims_def fold_frame [where g = cs_handles] fold_frame [where g = cs_own]
      fold_frame [where g = cs_pendingAbandons] fold_frame [where g = cs_queueByEntity] fold_frame [where g = cs_queueEntries]
      fold_frame [where g = cs_pendingHeartbeats] fold_frame [where g = cs_timers] fold_frame [where g = cs_nextBeat])

lemma mint_frame [simp]:
  "cs_pendingAbandons (snd (mintHandle conn c t d desc ms q st)) = cs_pendingAbandons st"
  "cs_queueByEntity (snd (mintHandle conn c t d desc ms q st)) = cs_queueByEntity st"
  "cs_queueEntries (snd (mintHandle conn c t d desc ms q st)) = cs_queueEntries st"
  "cs_pendingHeartbeats (snd (mintHandle conn c t d desc ms q st)) = cs_pendingHeartbeats st"
  "cs_timers (snd (mintHandle conn c t d desc ms q st)) = cs_timers st" "cs_nextBeat (snd (mintHandle conn c t d desc ms q st)) = cs_nextBeat st"
  by (simp_all add: mintHandle_def Let_def split_def)

lemma revoke_frame [simp]:
  "cs_queueByEntity (snd (revoke conn h st)) = cs_queueByEntity st" "cs_queueEntries (snd (revoke conn h st)) = cs_queueEntries st"
  "cs_pendingHeartbeats (snd (revoke conn h st)) = cs_pendingHeartbeats st" "cs_timers (snd (revoke conn h st)) = cs_timers st"
  "cs_nextBeat (snd (revoke conn h st)) = cs_nextBeat st"
  by (simp_all add: revoke_def Let_def)

lemma stream_claim_mints:
  assumes "stream_claim conn c target source opts st = Some (es, st')"
  shows "\<exists>ms. (es, st') = mintHandle conn c target (subTarget (Some source) None)
     (claimDescription (co_description opts) (ts_meta source) (co_reason opts)) ms (co_queue opts) st"
  using assms by (auto simp: stream_claim_def Let_def simp del: subTarget.simps split: option.splits) metis+

end
