(* ===== verification/ClaimStreamProperties.thy ===== *)
theory ClaimStreamProperties
  imports ClaimStream
begin

section \<open>Properties of the claim stream\<close>

text \<open>
  Invariants of the runs of the claim stream: a handle is live exactly while the stream owns
  its grant and is released once; a heartbeat is settled once; and the cached wait lines
  are those that the queue frames describe.
\<close>

subsection \<open>Handles, grants and releases\<close>

abbreviation lifetime_of :: "claim_stream \<Rightarrow> nat \<Rightarrow> claim_lifetime" where
  "lifetime_of st h \<equiv> sh_lifetime (cs_handles st ! h)"

definition handles_ok :: "claim_stream \<Rightarrow> bool" where
  "handles_ok st \<longleftrightarrow> distinct (map sh_claimId (cs_handles st)) \<and> distinct (map fst (cs_own st))
     \<and> (\<forall>h < length (cs_handles st). lt_ended (lifetime_of st h) \<longrightarrow> lt_listeners (lifetime_of st h) = [])
     \<and> (\<forall>(c, claim, h) \<in> set (cs_own st). h < length (cs_handles st) \<and> sh_claimId (cs_handles st ! h) = c
          \<and> sh_claim (cs_handles st ! h) = claim \<and> \<not> sh_revoked (cs_handles st ! h))
     \<and> (\<forall>h < length (cs_handles st). \<not> lt_ended (lifetime_of st h) \<longrightarrow>
          (sh_claimId (cs_handles st ! h), sh_claim (cs_handles st ! h), h) \<in> set (cs_own st))"

definition owned_live :: "claim_stream \<Rightarrow> bool" where
  "owned_live st \<longleftrightarrow> (\<forall>(c, claim, h) \<in> set (cs_own st). \<not> lt_ended (lifetime_of st h))"

definition ends_ok :: "stream_effect list \<Rightarrow> claim_stream \<Rightarrow> bool" where
  "ends_ok ls st \<longleftrightarrow> (\<forall>h l r. CallOnEnd h l r \<in> set ls \<longrightarrow>
     h < length (cs_handles st) \<and> lt_ended (lifetime_of st h) \<and> lt_reason (lifetime_of st h) = r)"

fun abandoned :: "stream_effect list \<Rightarrow> string list" where
  "abandoned [] = []"
| "abandoned (SendFrame (ClaimAbandon c _) # es) = c # abandoned es"
| "abandoned (_ # es) = abandoned es"

definition released :: "claim_stream \<Rightarrow> string set" where
  "released st = sh_claimId ` {handle \<in> set (cs_handles st). sh_revoked handle}"

definition releases_ok :: "stream_effect list \<Rightarrow> claim_stream \<Rightarrow> bool" where
  "releases_ok ls st \<longleftrightarrow> distinct (map fst (cs_pendingAbandons st))
     \<and> (\<forall>c. count_list (abandoned ls) c + (if c \<in> fst ` set (cs_pendingAbandons st) then 1 else 0) = (if c \<in> released st then 1 else 0))"

definition grants_inv :: "stream_effect list \<Rightarrow> claim_stream \<Rightarrow> bool" where
  "grants_inv ls st \<longleftrightarrow> handles_ok st \<and> owned_live st \<and> ends_ok ls st \<and> releases_ok ls st"

fun grant_effect :: "stream_effect \<Rightarrow> bool" where
  "grant_effect (CallOnEnd _ _ _) = True"
| "grant_effect (SendFrame (ClaimAbandon _ _)) = True"
| "grant_effect _ = False"

lemma abandoned_append [simp]: "abandoned (xs @ ys) = abandoned xs @ abandoned ys"
  by (induction xs rule: abandoned.induct) auto

lemma abandoned_quiet: "list_all (\<lambda>e. \<not> grant_effect e) es \<Longrightarrow> abandoned es = []"
  by (induction es rule: abandoned.induct) auto

lemma grants_frame:
  assumes "grants_inv ls st" and "cs_handles st' = cs_handles st" "cs_own st' = cs_own st" "cs_pendingAbandons st' = cs_pendingAbandons st"
    and "list_all (\<lambda>e. \<not> grant_effect e) es"
  shows "grants_inv (ls @ es) st'"
proof -
  have "\<not> (CallOnEnd h l r \<in> set es)" for h l r using assms(5) by (auto simp: list_all_iff)
  with assms show ?thesis
    by (auto simp: grants_inv_def handles_ok_def owned_live_def ends_ok_def releases_ok_def released_def abandoned_quiet)
qed

lemma keeps_grants_frame:
  assumes "\<And>st. cs_handles (snd (f st)) = cs_handles st" "\<And>st. cs_own (snd (f st)) = cs_own st"
    and "\<And>st. cs_pendingAbandons (snd (f st)) = cs_pendingAbandons st" "\<And>st. list_all (\<lambda>e. \<not> grant_effect e) (fst (f st))"
  shows "keeps grants_inv f"
  by (rule keepsI, erule grants_frame) (rule assms)+

text \<open>A step that ends handle \<open>h\<close> and drops it from the index of own grants.\<close>

lemma handle_finished:
  assumes ok: "handles_ok st" "owned_live st" and h: "h < length (cs_handles st)"
    and new: "sh_claimId H = sh_claimId (cs_handles st ! h)" "sh_claim H = sh_claim (cs_handles st ! h)"
      "lt_ended (sh_lifetime H)" "lt_listeners (sh_lifetime H) = []"
    and st': "cs_handles st' = (cs_handles st)[h := H]" "cs_own st' = AList.delete (sh_claimId (cs_handles st ! h)) (cs_own st)"
  shows "handles_ok st' \<and> owned_live st'"
proof -
  have ids: "map sh_claimId ((cs_handles st)[h := H]) = map sh_claimId (cs_handles st)"
    by (rule nth_equalityI) (use new(1) h in \<open>auto simp: nth_list_update\<close>)
  have inj: "k = h" if "k < length (cs_handles st)" "sh_claimId (cs_handles st ! k) = sh_claimId (cs_handles st ! h)" for k
    using nth_eq_iff_index_eq [of "map sh_claimId (cs_handles st)" k h] ok(1) that h by (simp add: handles_ok_def)
  have own: "x \<in> set (AList.delete c (cs_own st)) \<longleftrightarrow> x \<in> set (cs_own st) \<and> fst x \<noteq> c" for x c
    by (auto simp: AList.delete_eq)
  have entry: "k < length (cs_handles st) \<and> sh_claimId (cs_handles st ! k) = c \<and> sh_claim (cs_handles st ! k) = claim
      \<and> \<not> sh_revoked (cs_handles st ! k)" if "(c, claim, k) \<in> set (cs_own st)" for c claim k
    using ok(1) that unfolding handles_ok_def by blast
  have keep: "k \<noteq> h" if "(c, claim, k) \<in> set (cs_own st)" "c \<noteq> sh_claimId (cs_handles st ! h)" for c claim k
    using entry [OF that(1)] that(2) by blast
  have "handles_ok st'"
    unfolding handles_ok_def st' ids
  proof (intro conjI allI impI ballI)
    show "distinct (map sh_claimId (cs_handles st))" using ok(1) by (simp add: handles_ok_def)
    show "distinct (map fst (AList.delete (sh_claimId (cs_handles st ! h)) (cs_own st)))"
      using ok(1) by (simp add: handles_ok_def AList.distinct_delete)
  next
    fix k assume "k < length ((cs_handles st)[h := H])" "lt_ended (sh_lifetime ((cs_handles st)[h := H] ! k))"
    with ok(1) new(4) h show "lt_listeners (sh_lifetime ((cs_handles st)[h := H] ! k)) = []"
      by (cases "k = h") (simp_all add: handles_ok_def)
  next
    fix x assume "x \<in> set (AList.delete (sh_claimId (cs_handles st ! h)) (cs_own st))"
    then obtain c claim k where x: "x = (c, claim, k)" "(c, claim, k) \<in> set (cs_own st)" "c \<noteq> sh_claimId (cs_handles st ! h)"
      unfolding own by (cases x) auto
    from entry [OF x(2)] keep [OF x(2,3)] show "case x of (c, claim, k) \<Rightarrow> k < length ((cs_handles st)[h := H])
        \<and> sh_claimId ((cs_handles st)[h := H] ! k) = c \<and> sh_claim ((cs_handles st)[h := H] ! k) = claim
        \<and> \<not> sh_revoked ((cs_handles st)[h := H] ! k)"
      by (simp add: x(1))
  next
    fix k assume k: "k < length ((cs_handles st)[h := H])" "\<not> lt_ended (sh_lifetime ((cs_handles st)[h := H] ! k))"
    then have ne: "k \<noteq> h" using new(3) h by auto
    with k ok(1) have "(sh_claimId (cs_handles st ! k), sh_claim (cs_handles st ! k), k) \<in> set (cs_own st)"
      by (simp add: handles_ok_def)
    with ne inj k(1) show "(sh_claimId ((cs_handles st)[h := H] ! k), sh_claim ((cs_handles st)[h := H] ! k), k)
        \<in> set (AList.delete (sh_claimId (cs_handles st ! h)) (cs_own st))"
      unfolding own by auto
  qed
  moreover have "owned_live st'"
    unfolding owned_live_def st'
  proof (intro ballI)
    fix x assume "x \<in> set (AList.delete (sh_claimId (cs_handles st ! h)) (cs_own st))"
    then obtain c claim k where x: "x = (c, claim, k)" "(c, claim, k) \<in> set (cs_own st)" "c \<noteq> sh_claimId (cs_handles st ! h)"
      unfolding own by (cases x) auto
    have "\<not> lt_ended (lifetime_of st k)" using ok(2) x(2) unfolding owned_live_def by blast
    with keep [OF x(2,3)] show "case x of (c, claim, k) \<Rightarrow> \<not> lt_ended (sh_lifetime ((cs_handles st)[h := H] ! k))"
      by (simp add: x(1))
  qed
  ultimately show ?thesis ..
qed

lemma end_handle_handles:
  "h < length (cs_handles st) \<Longrightarrow> cs_handles (snd (end_handle h r st)) =
     (cs_handles st)[h := (cs_handles st ! h)\<lparr>sh_lifetime := snd (lifetime_end r (lifetime_of st h))\<rparr>]"
  by (simp add: end_handle_def split_def)

lemma lifetime_end_ended [simp]: "lt_ended (snd (lifetime_end r lt))"
  by (simp add: lifetime_end_def)

lemma lifetime_end_listeners: "(lt_ended lt \<longrightarrow> lt_listeners lt = []) \<Longrightarrow> lt_listeners (snd (lifetime_end r lt)) = []"
  by (simp add: lifetime_end_def)

lemma end_handle_released:
  "h < length (cs_handles st) \<Longrightarrow> released (snd (end_handle h r st)) = released st"
proof -
  assume h: "h < length (cs_handles st)"
  have "map (\<lambda>H. (sh_claimId H, sh_revoked H)) (cs_handles (snd (end_handle h r st))) = map (\<lambda>H. (sh_claimId H, sh_revoked H)) (cs_handles st)"
    by (rule nth_equalityI) (use h in \<open>auto simp: end_handle_handles nth_list_update\<close>)
  moreover have "released s = fst ` {p \<in> set (map (\<lambda>H. (sh_claimId H, sh_revoked H)) (cs_handles s)). snd p}" for s
    by (force simp: released_def)
  ultimately show ?thesis by metis
qed

lemma end_handle_ends:
  assumes "ends_ok ls st" and h: "h < length (cs_handles st)"
  shows "ends_ok (ls @ fst (end_handle h r st)) (snd (end_handle h r st))"
proof -
  have "fst (end_handle h r st) = map (\<lambda>(l, r). CallOnEnd h l r) (fst (lifetime_end r (lifetime_of st h)))"
    by (simp add: end_handle_def split_def)
  then show ?thesis
    using assms by (auto simp: ends_ok_def end_handle_handles [OF h] nth_list_update lifetime_end_def split: if_splits)
qed

lemma end_handle_releases:
  assumes "releases_ok ls st" and h: "h < length (cs_handles st)"
  shows "releases_ok (ls @ fst (end_handle h r st)) (snd (end_handle h r st))"
proof -
  have "abandoned (map (\<lambda>(l, r). CallOnEnd h l r) xs) = []" for xs :: "(nat \<times> claim_error option) list"
    by (induction xs) auto
  then have "abandoned (fst (end_handle h r st)) = []" by (simp add: end_handle_def split_def)
  then show ?thesis using assms end_handle_released [OF h] by (simp add: releases_ok_def)
qed

lemma end_own_grants: "keeps grants_inv (end_own c e)"
proof (rule keepsI)
  fix ls st assume J: "grants_inv ls st"
  show "grants_inv (ls @ fst (end_own c e st)) (snd (end_own c e st))"
  proof (cases "map_of (cs_own st) c")
    case None
    then have "AList.delete c (cs_own st) = cs_own st" by (simp add: AList.delete_id map_of_eq_None_iff)
    with None J show ?thesis by (simp add: end_own_def)
  next
    case (Some p)
    obtain claim h where p: "p = (claim, h)" by fastforce
    from map_of_SomeD [OF Some] p have own: "(c, claim, h) \<in> set (cs_own st)" by simp
    have ok: "handles_ok st" "owned_live st" "ends_ok ls st" "releases_ok ls st" using J by (auto simp: grants_inv_def)
    have h: "h < length (cs_handles st)" "sh_claimId (cs_handles st ! h) = c" using ok(1) own by (auto simp: handles_ok_def)
    let ?st = "snd (end_handle h (Some e) st)"
    have eff: "fst (end_own c e st) = fst (end_handle h (Some e) st)" "snd (end_own c e st) = ?st\<lparr>cs_own := AList.delete c (cs_own st)\<rparr>"
      using Some p by (simp_all add: end_own_def)
    have "handles_ok (snd (end_own c e st)) \<and> owned_live (snd (end_own c e st))"
      by (rule handle_finished [OF ok(1,2) h(1)])
        (use ok(1) h in \<open>auto simp: eff end_handle_handles handles_ok_def intro!: lifetime_end_listeners\<close>)
    moreover have "ends_ok (ls @ fst (end_own c e st)) (snd (end_own c e st))"
      using end_handle_ends [OF ok(3) h(1), of "Some e"] by (simp add: eff ends_ok_def)
    moreover have "releases_ok (ls @ fst (end_own c e st)) (snd (end_own c e st))"
      using end_handle_releases [OF ok(4) h(1), of "Some e"] by (simp add: eff releases_ok_def released_def)
    ultimately show ?thesis by (simp add: grants_inv_def)
  qed
qed

lemma claim_ids_inj:
  "distinct (map sh_claimId hs) \<Longrightarrow> H \<in> set hs \<Longrightarrow> K \<in> set hs \<Longrightarrow> sh_claimId H = sh_claimId K \<Longrightarrow> H = K"
  by (metis distinct_map inj_onD)

lemma sendAbandon_releases:
  assumes ok: "releases_ok ls st" and new: "c \<notin> released st" "released st' = insert c (released st)"
    and st': "cs_pendingAbandons st' = cs_pendingAbandons st"
  shows "releases_ok (ls @ fst (sendAbandon conn c claim st')) (snd (sendAbandon conn c claim st'))"
proof -
  have counts: "count_list (abandoned ls) d + (if d \<in> fst ` set (cs_pendingAbandons st) then 1 else 0) = (if d \<in> released st then 1 else 0)" for d
    using ok unfolding releases_ok_def by blast
  have zero: "count_list (abandoned ls) c = 0" "c \<notin> fst ` set (cs_pendingAbandons st)"
    using counts [of c] new(1) by (auto split: if_splits)
  have rel: "released (snd (sendAbandon conn c claim st')) = insert c (released st)"
    by (simp add: released_def [of "snd _"] new(2) [symmetric]) (simp add: released_def)
  have dist: "distinct (map fst (cs_pendingAbandons st))" using ok by (simp add: releases_ok_def)
  show ?thesis
  proof (cases "cs_attached st' \<and> conn")
    case True
    then have pend: "cs_pendingAbandons (snd (sendAbandon conn c claim st')) = cs_pendingAbandons st"
      and eff: "fst (sendAbandon conn c claim st') = [SendFrame (ClaimAbandon c claim)]" by (auto simp: sendAbandon_def st')
    have "count_list (abandoned (ls @ [SendFrame (ClaimAbandon c claim)])) d + (if d \<in> fst ` set (cs_pendingAbandons st) then 1 else 0) =
        (if d \<in> insert c (released st) then 1 else 0)" for d
      using counts [of d] zero by (cases "d = c") auto
    with dist show ?thesis unfolding releases_ok_def rel pend eff by blast
  next
    case False
    then have pend: "cs_pendingAbandons (snd (sendAbandon conn c claim st')) = AList.update c claim (cs_pendingAbandons st)"
      and eff: "fst (sendAbandon conn c claim st') = []" by (auto simp: sendAbandon_def st')
    have "count_list (abandoned (ls @ [])) d + (if d \<in> fst ` set (AList.update c claim (cs_pendingAbandons st)) then 1 else 0) =
        (if d \<in> insert c (released st) then 1 else 0)" for d
      using counts [of d] zero by (cases "d = c") (auto simp: dom_update)
    with dist show ?thesis unfolding releases_ok_def rel pend eff by (simp add: distinct_update)
  qed
qed

lemma revoke_grants:
  assumes J: "grants_inv ls st" and h: "h < length (cs_handles st)"
  shows "grants_inv (ls @ fst (revoke conn h st)) (snd (revoke conn h st))"
proof (cases "sh_revoked (cs_handles st ! h)")
  case True
  with J show ?thesis by (simp add: revoke_def Let_def)
next
  case False
  let ?H = "cs_handles st ! h"
  let ?st0 = "st\<lparr>cs_handles := (cs_handles st)[h := ?H\<lparr>sh_revoked := True\<rparr>]\<rparr>"
  let ?st1 = "(snd (end_handle h None ?st0))\<lparr>cs_own := AList.delete (sh_claimId ?H) (cs_own st)\<rparr>"
  have ok: "handles_ok st" "owned_live st" "ends_ok ls st" "releases_ok ls st" using J by (auto simp: grants_inv_def)
  have eff: "fst (revoke conn h st) = fst (end_handle h None ?st0) @ fst (sendAbandon conn (sh_claimId ?H) (sh_claim ?H) ?st1)"
      "snd (revoke conn h st) = snd (sendAbandon conn (sh_claimId ?H) (sh_claim ?H) ?st1)"
    using False by (simp_all add: revoke_def Let_def)
  have h0: "h < length (cs_handles ?st0)" using h by simp
  have hs: "cs_handles ?st1 = (cs_handles st)[h := ?H\<lparr>sh_revoked := True, sh_lifetime := snd (lifetime_end None (sh_lifetime ?H))\<rparr>]"
    using end_handle_handles [OF h0] h by simp
  have "handles_ok ?st1 \<and> owned_live ?st1"
    by (rule handle_finished [OF ok(1,2) h]) (use ok(1) h hs in \<open>auto simp: handles_ok_def intro!: lifetime_end_listeners\<close>)
  then have a: "handles_ok (snd (revoke conn h st)) \<and> owned_live (snd (revoke conn h st))"
    unfolding eff by (simp add: handles_ok_def owned_live_def)
  have "ends_ok ls ?st0" using ok(3) h by (auto simp: ends_ok_def nth_list_update)
  from end_handle_ends [OF this h0, of None] have "ends_ok (ls @ fst (end_handle h None ?st0)) ?st1" by (simp add: ends_ok_def)
  then have b: "ends_ok (ls @ fst (revoke conn h st)) (snd (revoke conn h st))"
    unfolding eff by (auto simp: ends_ok_def sendAbandon_def split: if_splits)
  have fresh: "sh_claimId ?H \<notin> released st"
    using False h ok(1) claim_ids_inj [of "cs_handles st" ?H] unfolding released_def handles_ok_def
    by (smt (verit) imageE mem_Collect_eq nth_mem)
  have "set (cs_handles ?st1) = insert (?H\<lparr>sh_revoked := True, sh_lifetime := snd (lifetime_end None (sh_lifetime ?H))\<rparr>) (set (cs_handles st) - {?H})"
    unfolding hs using h ok(1) by (intro set_update_distinct) (auto simp: handles_ok_def distinct_map)
  then have "{K \<in> set (cs_handles ?st1). sh_revoked K} = insert (?H\<lparr>sh_revoked := True,
      sh_lifetime := snd (lifetime_end None (sh_lifetime ?H))\<rparr>) {K \<in> set (cs_handles st). sh_revoked K}"
    using False by auto
  then have rel: "released ?st1 = insert (sh_claimId ?H) (released st)" by (simp add: released_def)
  have quiet: "abandoned (fst (end_handle h None ?st0)) = []"
  proof -
    have "abandoned (map (\<lambda>(l, r). CallOnEnd h l r) xs) = []" for xs :: "(nat \<times> claim_error option) list" by (induction xs) auto
    then show ?thesis by (simp add: end_handle_def split_def)
  qed
  have "releases_ok (ls @ fst (end_handle h None ?st0)) st" using ok(4) quiet by (simp add: releases_ok_def)
  from sendAbandon_releases [OF this fresh rel] have c: "releases_ok (ls @ fst (revoke conn h st)) (snd (revoke conn h st))"
    unfolding eff by simp
  from a b c show ?thesis by (simp add: grants_inv_def)
qed

lemma mint_grants:
  assumes J: "grants_inv ls st" and new: "c \<notin> sh_claimId ` set (cs_handles st)"
  shows "grants_inv (ls @ fst (mintHandle conn c t d desc ms q st)) (snd (mintHandle conn c t d desc ms q st))"
proof -
  obtain ty i where t: "entityOf t = (ty, i)" by fastforce
  define cl where "cl = \<lparr>oc_entityType = ty, oc_entityId = i, oc_details = subTarget (Some (details_source d)) None,
     oc_description = desc, oc_estimatedMs = ms, oc_queue = q\<rparr>"
  let ?H = "\<lparr>sh_claimId = c, sh_claim = cl, sh_revoked = False, sh_lifetime = createClaimLifetime\<rparr>"
  let ?st = "snd (mintHandle conn c t d desc ms q st)"
  let ?n = "length (cs_handles st)"
  have ok: "handles_ok st" "owned_live st" "ends_ok ls st" "releases_ok ls st" using J by (auto simp: grants_inv_def)
  have entry: "k < ?n \<and> sh_claimId (cs_handles st ! k) = c' \<and> sh_claim (cs_handles st ! k) = claim
      \<and> \<not> sh_revoked (cs_handles st ! k)" if "(c', claim, k) \<in> set (cs_own st)" for c' claim k
    using ok(1) that unfolding handles_ok_def by blast
  have absent: "c \<notin> fst ` set (cs_own st)"
  proof
    assume "c \<in> fst ` set (cs_own st)"
    then obtain claim k where "(c, claim, k) \<in> set (cs_own st)" by auto
    from entry [OF this] new show False by (metis imageI nth_mem)
  qed
  have upd: "AList.update c v xs = xs @ [(c, v)]" if "c \<notin> fst ` set xs" for v and xs :: "(string \<times> (OwnClaim \<times> nat)) list"
    using that by (induction xs) auto
  have st: "cs_handles ?st = cs_handles st @ [?H]" "cs_own ?st = cs_own st @ [(c, cl, ?n)]" "cs_pendingAbandons ?st = cs_pendingAbandons st"
    using upd [OF absent] by (simp_all add: mintHandle_def t Let_def cl_def)
  have eff: "list_all (\<lambda>e. \<not> grant_effect e) (fst (mintHandle conn c t d desc ms q st))"
    by (simp add: mintHandle_def t Let_def sendBegin_def)
  have "handles_ok ?st"
    unfolding handles_ok_def st
  proof (intro conjI allI impI ballI)
    show "distinct (map sh_claimId (cs_handles st @ [?H]))" using ok(1) new by (simp add: handles_ok_def)
    show "distinct (map fst (cs_own st @ [(c, cl, ?n)]))" using ok(1) absent by (simp add: handles_ok_def)
  next
    fix k assume "k < length (cs_handles st @ [?H])" "lt_ended (sh_lifetime ((cs_handles st @ [?H]) ! k))"
    with ok(1) show "lt_listeners (sh_lifetime ((cs_handles st @ [?H]) ! k)) = []"
      by (cases "k < ?n") (auto simp: handles_ok_def nth_append createClaimLifetime_def)
  next
    fix x assume "x \<in> set (cs_own st @ [(c, cl, ?n)])"
    then consider "x = (c, cl, ?n)" | c' claim k where "x = (c', claim, k)" "(c', claim, k) \<in> set (cs_own st)" by (metis Un_iff list.set(1,2) prod_cases3 set_append singletonD insertE empty_iff)
    then show "case x of (c', claim, k) \<Rightarrow> k < length (cs_handles st @ [?H]) \<and> sh_claimId ((cs_handles st @ [?H]) ! k) = c'
        \<and> sh_claim ((cs_handles st @ [?H]) ! k) = claim \<and> \<not> sh_revoked ((cs_handles st @ [?H]) ! k)"
    proof cases
      case 2
      with entry [OF 2(2)] show ?thesis by (simp add: nth_append)
    qed simp
  next
    fix k assume "k < length (cs_handles st @ [?H])" "\<not> lt_ended (sh_lifetime ((cs_handles st @ [?H]) ! k))"
    with ok(1) show "(sh_claimId ((cs_handles st @ [?H]) ! k), sh_claim ((cs_handles st @ [?H]) ! k), k) \<in> set (cs_own st @ [(c, cl, ?n)])"
      by (cases "k < ?n") (simp_all add: handles_ok_def nth_append less_Suc_eq)
  qed
  moreover have "owned_live ?st"
    unfolding owned_live_def st
  proof
    fix x assume "x \<in> set (cs_own st @ [(c, cl, ?n)])"
    then consider "x = (c, cl, ?n)" | c' claim k where "x = (c', claim, k)" "(c', claim, k) \<in> set (cs_own st)" by (metis Un_iff list.set(1,2) prod_cases3 set_append singletonD insertE empty_iff)
    then show "case x of (c', claim, k) \<Rightarrow> \<not> lt_ended (sh_lifetime ((cs_handles st @ [?H]) ! k))"
    proof cases
      case 2
      then have "\<not> lt_ended (lifetime_of st k)" using ok(2) unfolding owned_live_def by blast
      with 2 entry [OF 2(2)] show ?thesis by (simp add: nth_append)
    qed (simp add: createClaimLifetime_def)
  qed
  moreover have "ends_ok ls ?st" using ok(3) by (simp add: ends_ok_def st nth_append less_Suc_eq)
  moreover have "releases_ok ls ?st"
  proof -
    have "{H \<in> set (cs_handles st @ [?H]). sh_revoked H} = {H \<in> set (cs_handles st). sh_revoked H}" by auto
    then have "released ?st = released st" unfolding released_def st by simp
    with ok(4) show ?thesis unfolding releases_ok_def st by simp
  qed
  ultimately have "grants_inv ls ?st" by (simp add: grants_inv_def)
  from grants_frame [OF this refl refl refl eff] show ?thesis .
qed

text \<open>Registering and removing listeners of a lifetime.\<close>

lemma listener_grants:
  assumes J: "grants_inv ls st" and h: "h < length (cs_handles st)"
    and lt: "lt_ended lt = lt_ended (lifetime_of st h)" "lt_reason lt = lt_reason (lifetime_of st h)"
      "lt_ended lt \<Longrightarrow> lt_listeners lt = []"
    and st': "st' = st\<lparr>cs_handles := (cs_handles st)[h := (cs_handles st ! h)\<lparr>sh_lifetime := lt\<rparr>]\<rparr>"
    and es: "\<forall>e \<in> set es. \<exists>l. e = CallOnEnd h l (lt_reason (lifetime_of st h)) \<and> lt_ended (lifetime_of st h)"
  shows "grants_inv (ls @ es) st'"
proof -
  have at: "sh_claimId (cs_handles st' ! k) = sh_claimId (cs_handles st ! k)" "sh_claim (cs_handles st' ! k) = sh_claim (cs_handles st ! k)"
      "sh_revoked (cs_handles st' ! k) = sh_revoked (cs_handles st ! k)" "lt_ended (lifetime_of st' k) = lt_ended (lifetime_of st k)"
      "lt_reason (lifetime_of st' k) = lt_reason (lifetime_of st k)" for k
    using h lt by (cases "k = h"; simp add: st')+
  have len: "length (cs_handles st') = length (cs_handles st)" "cs_own st' = cs_own st" "cs_pendingAbandons st' = cs_pendingAbandons st"
    by (simp_all add: st')
  have ids: "map (\<lambda>H. (sh_claimId H, sh_revoked H)) (cs_handles st') = map (\<lambda>H. (sh_claimId H, sh_revoked H)) (cs_handles st)"
    by (rule nth_equalityI) (simp_all add: at len)
  have rel: "released s = fst ` {p \<in> set (map (\<lambda>H. (sh_claimId H, sh_revoked H)) (cs_handles s)). snd p}" for s
    by (force simp: released_def)
  have "map sh_claimId (cs_handles st') = map sh_claimId (cs_handles st)" by (rule nth_equalityI) (simp_all add: at len)
  moreover have "lt_listeners (lifetime_of st' k) = []" if "k < length (cs_handles st)" "lt_ended (lifetime_of st k)" for k
    using J that h lt(1,3) by (cases "k = h") (auto simp: st' grants_inv_def handles_ok_def)
  ultimately have "handles_ok st'" "owned_live st'"
    using J by (simp_all add: grants_inv_def handles_ok_def owned_live_def at len)
  moreover have "ends_ok (ls @ es) st'" using J es h by (fastforce simp: grants_inv_def ends_ok_def at len)
  moreover have "abandoned es = []" using es by (induction es rule: abandoned.induct) auto
  then have "releases_ok (ls @ es) st'"
    using J rel [of st] rel [of st'] unfolding ids by (simp add: grants_inv_def releases_ok_def len)
  ultimately show ?thesis by (simp add: grants_inv_def)
qed

lemma connected_grants:
  assumes J: "grants_inv ls st" and at: "cs_attached st"
  shows "grants_inv (ls @ fst (on_connected True st)) (snd (on_connected True st))"
proof -
  have sent: "for_each (\<lambda>(c, cl). sendAbandon True c cl) xs st = (map (\<lambda>(c, cl). SendFrame (ClaimAbandon c cl)) xs, st)" for xs
    by (induction xs) (auto simp: sendAbandon_def at andThen_def)
  let ?es = "map (\<lambda>(c, cl). SendFrame (ClaimAbandon c cl)) (cs_pendingAbandons st)"
  let ?st = "st\<lparr>cs_pendingAbandons := []\<rparr>"
  have ab: "abandoned (map (\<lambda>(c, cl). SendFrame (ClaimAbandon c cl)) xs) = map fst xs" for xs by (induction xs) auto
  have count: "count_list xs c = (if c \<in> set xs then 1 else 0)" if "distinct xs" for xs :: "string list" and c
    using that by (induction xs) auto
  have "releases_ok (ls @ ?es) ?st"
    using J by (auto simp: grants_inv_def releases_ok_def released_def ab count split: if_splits)
  moreover have "ends_ok (ls @ ?es) ?st" using J by (auto simp: grants_inv_def ends_ok_def)
  ultimately have "grants_inv (ls @ ?es) ?st"
    using J by (simp add: grants_inv_def handles_ok_def owned_live_def)
  moreover have "keeps grants_inv (for_each (\<lambda>(claimId, claim, _). sendHeartbeat True claimId claim no_heartbeat_options) (cs_own st))"
  proof (rule keeps_for_each, rule keepsI, clarify)
    fix c cl h ls' st' assume "grants_inv ls' st'"
    then show "grants_inv (ls' @ fst (sendHeartbeat True c cl no_heartbeat_options st')) (snd (sendHeartbeat True c cl no_heartbeat_options st'))"
      by (rule grants_frame) (simp_all add: sendHeartbeat_def settleHeartbeat_def Let_def split: option.splits)
  qed
  ultimately have "grants_inv ((ls @ ?es) @ fst (for_each (\<lambda>(claimId, claim, _). sendHeartbeat True claimId claim no_heartbeat_options) (cs_own st) ?st))
      (snd (for_each (\<lambda>(claimId, claim, _). sendHeartbeat True claimId claim no_heartbeat_options) (cs_own st) ?st))"
    unfolding keeps_def by blast
  then show ?thesis by (simp add: on_connected_def sent)
qed

text \<open>The loop of \<open>dispose\<close> that ends the lifetimes of a list of handles.\<close>

lemma end_all:
  assumes "\<forall>(c, cl, h) \<in> set xs. h < length (cs_handles st)" and "ends_ok ls st" and "releases_ok ls st"
    and "distinct (map sh_claimId (cs_handles st))"
    and "\<forall>h < length (cs_handles st). lt_ended (lifetime_of st h) \<longrightarrow> lt_listeners (lifetime_of st h) = []"
  shows "let r = for_each (\<lambda>(_, _, h). end_handle h (Some e)) xs st in
      length (cs_handles (snd r)) = length (cs_handles st) \<and> ends_ok (ls @ fst r) (snd r) \<and> releases_ok (ls @ fst r) (snd r)
    \<and> distinct (map sh_claimId (cs_handles (snd r)))
    \<and> (\<forall>h < length (cs_handles st). (lt_ended (lifetime_of (snd r) h) \<longleftrightarrow> lt_ended (lifetime_of st h) \<or> h \<in> snd ` snd ` set xs)
         \<and> (lt_ended (lifetime_of (snd r) h) \<longrightarrow> lt_listeners (lifetime_of (snd r) h) = []))"
  using assms
proof (induction xs arbitrary: st ls)
  case (Cons x xs)
  obtain c cl k where x: "x = (c, cl, k)" by (cases x) auto
  let ?r = "end_handle k (Some e) st"
  have k: "k < length (cs_handles st)" using Cons.prems(1) x by simp
  have hs: "cs_handles (snd ?r) ! h = (if h = k then (cs_handles st ! k)\<lparr>sh_lifetime := snd (lifetime_end (Some e) (lifetime_of st k))\<rparr>
      else cs_handles st ! h)" for h
    using k by (simp add: end_handle_handles)
  have ids: "map sh_claimId (cs_handles (snd ?r)) = map sh_claimId (cs_handles st)"
    by (rule nth_equalityI) (simp_all add: hs)
  have "\<forall>h < length (cs_handles (snd ?r)). lt_ended (lifetime_of (snd ?r) h) \<longrightarrow> lt_listeners (lifetime_of (snd ?r) h) = []"
    using Cons.prems(5) k by (simp add: hs lifetime_end_listeners)
  note IH = Cons.IH [OF _ end_handle_ends [OF Cons.prems(2) k] end_handle_releases [OF Cons.prems(3) k], of "Some e", unfolded ids,
      OF _ Cons.prems(4) this]
  have "\<forall>(c, cl, h) \<in> set xs. h < length (cs_handles (snd ?r))" using Cons.prems(1) by simp
  from IH [OF this] show ?case by (auto simp: x Let_def hs)
qed (auto simp: Let_def)

lemma settle_all_frame:
  "cs_handles (snd (for_each (\<lambda>c. settleHeartbeat c r) xs st)) = cs_handles st"
  "cs_own (snd (for_each (\<lambda>c. settleHeartbeat c r) xs st)) = cs_own st"
  "cs_pendingAbandons (snd (for_each (\<lambda>c. settleHeartbeat c r) xs st)) = cs_pendingAbandons st"
  "cs_queueByEntity (snd (for_each (\<lambda>c. settleHeartbeat c r) xs st)) = cs_queueByEntity st"
  "cs_queueEntries (snd (for_each (\<lambda>c. settleHeartbeat c r) xs st)) = cs_queueEntries st"
  "cs_nextBeat (snd (for_each (\<lambda>c. settleHeartbeat c r) xs st)) = cs_nextBeat st"
  "list_all (\<lambda>e. \<not> grant_effect e) (fst (for_each (\<lambda>c. settleHeartbeat c r) xs st))"
  by (auto intro!: for_each_frame for_each_effects simp: settleHeartbeat_def split: option.splits)

lemma dispose_grants:
  assumes J: "grants_inv ls st"
  shows "grants_inv (ls @ fst (stream_dispose st)) (snd (stream_dispose st))"
proof -
  let ?a = "for_each (\<lambda>c. settleHeartbeat c (BeatRejected ConnectionDown)) (map fst (cs_pendingHeartbeats st)) (st\<lparr>cs_presence := False\<rparr>)"
  let ?b = "for_each (\<lambda>(_, _, h). end_handle h (Some ConnectionDown)) (cs_own st) (snd ?a)"
  have "grants_inv (ls @ fst ?a) (snd ?a)" by (rule grants_frame [OF J]) (simp_all add: settle_all_frame)
  then have ok: "handles_ok (snd ?a)" "ends_ok (ls @ fst ?a) (snd ?a)" "releases_ok (ls @ fst ?a) (snd ?a)" by (auto simp: grants_inv_def)
  have own: "cs_own (snd ?a) = cs_own st" by (simp add: settle_all_frame)
  have "\<forall>(c, cl, h) \<in> set (cs_own st). h < length (cs_handles (snd ?a))"
    using ok(1) unfolding handles_ok_def own by blast
  from end_all [OF this ok(2,3), of ConnectionDown] ok(1)
  have b: "length (cs_handles (snd ?b)) = length (cs_handles (snd ?a))" "ends_ok ((ls @ fst ?a) @ fst ?b) (snd ?b)"
      "releases_ok ((ls @ fst ?a) @ fst ?b) (snd ?b)" "distinct (map sh_claimId (cs_handles (snd ?b)))"
    and ended: "\<And>h. h < length (cs_handles (snd ?a)) \<Longrightarrow> (lt_ended (lifetime_of (snd ?b) h) \<longleftrightarrow> lt_ended (lifetime_of (snd ?a) h) \<or> h \<in> snd ` snd ` set (cs_own st))
      \<and> (lt_ended (lifetime_of (snd ?b) h) \<longrightarrow> lt_listeners (lifetime_of (snd ?b) h) = [])"
    by (simp_all add: handles_ok_def Let_def)
  have all: "lt_ended (lifetime_of (snd ?b) h)" if "h < length (cs_handles (snd ?a))" for h
  proof (cases "lt_ended (lifetime_of (snd ?a) h)")
    case False
    with ok(1) that have "(sh_claimId (cs_handles (snd ?a) ! h), sh_claim (cs_handles (snd ?a) ! h), h) \<in> set (cs_own st)"
      unfolding handles_ok_def own by blast
    then have "h \<in> snd ` snd ` set (cs_own st)" by (metis image_eqI snd_conv)
    with ended [OF that] show ?thesis by blast
  qed (use ended [OF that] in blast)
  have st': "cs_handles (snd (stream_dispose st)) = cs_handles (snd ?b)" "cs_own (snd (stream_dispose st)) = []"
      "cs_pendingAbandons (snd (stream_dispose st)) = cs_pendingAbandons (snd ?b)" "fst (stream_dispose st) = fst ?a @ fst ?b"
    by (simp_all add: stream_dispose_def)
  have "handles_ok (snd (stream_dispose st))" using b(1,4) ended all unfolding handles_ok_def st' by simp
  moreover have "owned_live (snd (stream_dispose st))" by (simp add: owned_live_def st')
  moreover have "ends_ok (ls @ fst (stream_dispose st)) (snd (stream_dispose st))" using b(2) unfolding ends_ok_def st' by simp
  moreover have "releases_ok (ls @ fst (stream_dispose st)) (snd (stream_dispose st))"
    using b(3) unfolding releases_ok_def released_def st' by simp
  ultimately show ?thesis by (simp add: grants_inv_def)
qed

lemma quiet_effects [simp]:
  "list_all (\<lambda>e. \<not> grant_effect e) (fst (settleHeartbeat c r st))" "list_all (\<lambda>e. \<not> grant_effect e) (fst (notifyListeners st))"
  "list_all (\<lambda>e. \<not> grant_effect e) (fst (sendHeartbeat conn c cl opt st))" "list_all (\<lambda>e. \<not> grant_effect e) (fst (sendReorder conn t i xs st))"
  "list_all (\<lambda>e. \<not> grant_effect e) (fst (refreshPresenceClaims n ps st))"
  by (simp_all add: settleHeartbeat_def notifyListeners_def sendHeartbeat_def sendReorder_def refreshPresenceClaims_def Let_def
      list_all_iff split: option.splits)

lemma rejected_grants: "keeps grants_inv (on_rejected now rejection)"
proof (cases "rj_claimId rejection = []")
  case False
  have tell: "keeps grants_inv (\<lambda>st. (map (\<lambda>l. CallOnRejected l rejection) (cs_rejectionListeners st), st))"
    by (rule keeps_grants_frame) (simp_all add: list_all_iff)
  have seed: "keeps grants_inv (\<lambda>st. case (rj_heldBy rejection, rj_heldByClaim rejection) of
             (Some heldBy, Some summary) \<Rightarrow>
               if rj_reason rejection = Some Conflict \<and> heldBy \<noteq> []
               then notifyListeners (observeForeignClaim now heldBy summary (rj_heldByKind rejection) None st)
               else ([], st)
           | _ \<Rightarrow> ([], st))"
    by (rule keeps_grants_frame) (simp_all split: option.splits)
  from keeps_andThen [OF keeps_andThen [OF end_own_grants seed] tell] False show ?thesis by (simp add: keeps_def on_rejected_def)
qed (simp add: keeps_def on_rejected_def)

lemma lost_grants: "keeps grants_inv (on_lost claimId)"
proof -
  have "keeps grants_inv (\<lambda>st. (map (\<lambda>l. CallOnLost l claimId) (cs_lostListeners st), st))"
    by (rule keeps_grants_frame) (simp_all add: list_all_iff)
  from keeps_andThen [OF end_own_grants this] show ?thesis by (simp add: keeps_def on_lost_def)
qed

lemma ack_grants: "keeps grants_inv (on_heartbeat_ack ack)"
proof (rule keepsI)
  fix ls st assume J: "grants_inv ls st"
  have settled: "grants_inv ls' (snd (settleHeartbeat (ha_claimId ack) r st))" if "grants_inv ls' st" for ls' r
    using grants_frame [OF that, of "snd (settleHeartbeat (ha_claimId ack) r st)" "[]"] by simp
  let ?s = "settleHeartbeat (ha_claimId ack) (BeatRejected (claimed ''claim_lost'')) st"
  have "grants_inv (ls @ fst (end_own (ha_claimId ack) (claimed ''claim_lost'') (snd ?s))) (snd (end_own (ha_claimId ack) (claimed ''claim_lost'') (snd ?s)))"
    using end_own_grants settled [OF J] unfolding keeps_def by blast
  then have lost: "grants_inv ((ls @ fst (end_own (ha_claimId ack) (claimed ''claim_lost'') (snd ?s))) @ fst ?s)
      (snd (end_own (ha_claimId ack) (claimed ''claim_lost'') (snd ?s)))"
    by (rule grants_frame) simp_all
  have held: "grants_inv (ls @ fst (settleHeartbeat (ha_claimId ack) r st)) (snd (settleHeartbeat (ha_claimId ack) r st))" for r
    by (rule grants_frame [OF J]) simp_all
  show "grants_inv (ls @ fst (on_heartbeat_ack ack st)) (snd (on_heartbeat_ack ack st))"
    using J lost held by (simp add: on_heartbeat_ack_def split_def split: option.splits bool.splits)
qed

lemma disconnected_grants: "keeps grants_inv on_disconnected"
  by (rule keeps_grants_frame) (simp_all add: on_disconnected_def settle_all_frame)

lemma grants_step:
  assumes J: "grants_inv ls st" and step: "stream_step st es st'"
  shows "grants_inv (ls @ es) st'"
proof -
  have quiet: "grants_inv (ls @ es) st'" if "cs_handles st' = cs_handles st" "cs_own st' = cs_own st"
      "cs_pendingAbandons st' = cs_pendingAbandons st" "list_all (\<lambda>e. \<not> grant_effect e) es"
    using grants_frame [OF J that] .
  from step show ?thesis
  proof cases
    case (step_claim conn c target source opts)
    from stream_claim_mints [OF step_claim(1)] mint_grants [OF J step_claim(2)] show ?thesis by (metis fst_conv snd_conv)
  next
    case (step_revoke h conn)
    then show ?thesis using revoke_grants [OF J, of h conn] by simp
  next
    case (step_heartbeat h conn options)
    then show ?thesis
      using sendHeartbeat_frame [of conn "sh_claimId (cs_handles st ! h)" "sh_claim (cs_handles st ! h)" options st]
        quiet_effects(3) [of conn "sh_claimId (cs_handles st ! h)" "sh_claim (cs_handles st ! h)" options st]
      by (intro quiet) (auto simp: handle_heartbeat_def)
  next
    case (step_onEnd h l)
    then show ?thesis
      by (intro listener_grants [OF J, of h "snd (lifetime_onEnd l (lifetime_of st h))"])
        (use J in \<open>auto simp: handle_onEnd_def lifetime_onEnd_def grants_inv_def handles_ok_def split: if_splits\<close>)
  next
    case (step_offEnd h l)
    then show ?thesis
      by (intro listener_grants [OF J, of h "lifetime_off l (lifetime_of st h)"])
        (use J in \<open>auto simp: handle_offEnd_def lifetime_off_def grants_inv_def handles_ok_def\<close>)
  next
    case (step_rejected now rejection)
    then show ?thesis using keepsD [OF rejected_grants J] by blast
  next
    case (step_lost c)
    then show ?thesis using keepsD [OF lost_grants J] by blast
  next
    case (step_snapshot type i line)
    then show ?thesis by (intro quiet) (auto simp: on_queue_snapshot_def Let_def notifyListeners_def list_all_iff)
  next
    case (step_patch type i change)
    then show ?thesis by (intro quiet) (auto simp: on_queue_patch_def Let_def notifyListeners_def list_all_iff split: option.splits)
  next
    case (step_ack ack)
    then show ?thesis using keepsD [OF ack_grants J] by blast
  next
    case step_disconnected
    then show ?thesis using keepsD [OF disconnected_grants J] by blast
  next
    case step_connected
    then show ?thesis using connected_grants [OF J] by simp
  next
    case (step_timeout p c)
    then show ?thesis by (intro quiet) (auto simp: heartbeat_timeout_def settleHeartbeat_def split: option.splits)
  next
    case (step_presence now others)
    then show ?thesis
      using refresh_frame [of now others st] quiet_effects(5) [of now others st] by (intro quiet) auto
  next
    case (step_read type i line)
    then show ?thesis by (intro quiet) (auto simp: queueFor_def Let_def split: option.splits if_splits)
  next
    case (step_reorder conn type i order)
    then show ?thesis by (intro quiet) (auto simp: sendReorder_def split: if_splits)
  next
    case (step_listen l)
    then show ?thesis
      by (intro quiet) (auto simp: onChange_def offChange_def onRejected_def offRejected_def onLost_def offLost_def stream_attach_def)
  next
    case step_dispose
    then show ?thesis using dispose_grants [OF J] by simp
  qed
qed

interpretation grants: run_invariant stream_init stream_step grants_inv
proof
  show "grants_inv [] s" if "stream_init s" for s
    using that by (auto simp: stream_init_def createClaimStream_def grants_inv_def handles_ok_def owned_live_def ends_ok_def
        releases_ok_def released_def)
qed (rule grants_step)

subsection \<open>Heartbeats\<close>

fun settles :: "nat \<Rightarrow> stream_effect list \<Rightarrow> beat_outcome list" where
  "settles p [] = []"
| "settles p (SettleBeat q r # es) = (if q = p then r # settles p es else settles p es)"
| "settles p (_ # es) = settles p es"

text \<open>
  What has happened to a promise: nothing while it is pending, one settlement afterwards. The
  beat with an invalid duration was rejected when it was made, and a later attempt to
  settle it has no effect.
\<close>

definition beat_ok :: "bool \<Rightarrow> beat_outcome list \<Rightarrow> bool" where
  "beat_ok pending rs \<longleftrightarrow> (if pending then rs \<in> {[], [BeatDurationInvalid]} else \<exists>r. rs = [r] \<or> rs = [BeatDurationInvalid, r])"

definition beats_inv :: "stream_effect list \<Rightarrow> claim_stream \<Rightarrow> bool" where
  "beats_inv ls st \<longleftrightarrow> distinct (map fst (cs_pendingHeartbeats st)) \<and> distinct (map snd (cs_pendingHeartbeats st))
     \<and> set (cs_timers st) = (\<lambda>(c, p). (p, c)) ` set (cs_pendingHeartbeats st)
     \<and> (\<forall>p \<in> snd ` set (cs_pendingHeartbeats st). p < cs_nextBeat st) \<and> (\<forall>p \<ge> cs_nextBeat st. settles p ls = [])
     \<and> (\<forall>p < cs_nextBeat st. beat_ok (p \<in> snd ` set (cs_pendingHeartbeats st)) (settles p ls))"

lemma settles_append [simp]: "settles p (xs @ ys) = settles p xs @ settles p ys"
  by (induction p xs rule: settles.induct) auto

lemma settles_quiet: "\<forall>q r. SettleBeat q r \<notin> set es \<Longrightarrow> settles p es = []"
  by (induction p es rule: settles.induct) auto

lemma beats_frame:
  assumes "beats_inv ls st" "cs_pendingHeartbeats st' = cs_pendingHeartbeats st" "cs_timers st' = cs_timers st" "cs_nextBeat st' = cs_nextBeat st"
    "\<forall>q r. SettleBeat q r \<notin> set es"
  shows "beats_inv (ls @ es) st'"
  using assms by (simp add: beats_inv_def settles_quiet)

lemma beats_reorder: "(\<And>p. settles p ls = settles p ls') \<Longrightarrow> beats_inv ls st \<longleftrightarrow> beats_inv ls' st"
  by (simp add: beats_inv_def)

lemma settle_beats: "keeps beats_inv (settleHeartbeat c r)"
proof (rule keepsI)
  fix ls st assume J: "beats_inv ls st"
  show "beats_inv (ls @ fst (settleHeartbeat c r st)) (snd (settleHeartbeat c r st))"
  proof (cases "map_of (cs_pendingHeartbeats st) c")
    case None
    with J show ?thesis by (simp add: settleHeartbeat_def)
  next
    case (Some p)
    let ?xs = "cs_pendingHeartbeats st"
    let ?st = "snd (settleHeartbeat c r st)"
    have d: "distinct (map fst ?xs)" "distinct (map snd ?xs)" using J by (auto simp: beats_inv_def)
    have mem: "(c, p) \<in> set ?xs" using Some by (rule map_of_SomeD)
    have rest: "set (AList.delete c ?xs) = set ?xs - {(c, p)}"
      using d(1) mem by (auto simp: AList.delete_eq) (metis Some map_of_is_SomeI option.inject)
    have other: "q \<noteq> p" if "(d, q) \<in> set ?xs" "(d, q) \<noteq> (c, p)" for d q
      using d(2) mem that by (metis distinct_map inj_onD snd_conv)
    have ps: "snd ` set (AList.delete c ?xs) = snd ` set ?xs - {p}" unfolding rest using other mem by force
    have st: "cs_pendingHeartbeats ?st = AList.delete c ?xs" "cs_timers ?st = filter (\<lambda>(q, _). q \<noteq> p) (cs_timers st)"
        "cs_nextBeat ?st = cs_nextBeat st" "fst (settleHeartbeat c r st) = [SettleBeat p r]"
      using Some by (simp_all add: settleHeartbeat_def)
    have "set (filter (\<lambda>(q, _). q \<noteq> p) (cs_timers st)) = (\<lambda>(c, p). (p, c)) ` set (AList.delete c ?xs)"
      using J other unfolding beats_inv_def rest by fastforce
    moreover have "distinct (map snd (AList.delete c ?xs))" using d(2) by (simp add: AList.delete_eq distinct_map_filter)
    moreover have "distinct (map fst (AList.delete c ?xs))" using d(1) by (simp add: AList.distinct_delete)
    moreover have "p < cs_nextBeat st" using J mem by (force simp: beats_inv_def)
    moreover have "beat_ok (q \<in> snd ` set ?xs - {p}) (settles q (ls @ [SettleBeat p r]))" if "q < cs_nextBeat st" for q
    proof -
      have "beat_ok (q \<in> snd ` set ?xs) (settles q ls)" using J that unfolding beats_inv_def by blast
      moreover have "p \<in> snd ` set ?xs" using mem by force
      moreover have "beat_ok True rs \<Longrightarrow> beat_ok False (rs @ [r])" for rs by (auto simp: beat_ok_def)
      ultimately show ?thesis by (cases "q = p") simp_all
    qed
    ultimately show ?thesis
      using J unfolding beats_inv_def st ps by auto
  qed
qed

lemma settle_absent: "c \<notin> fst ` set (cs_pendingHeartbeats (snd (settleHeartbeat c r st)))"
  by (auto simp: settleHeartbeat_def AList.delete_eq map_of_eq_None_iff image_iff split: option.splits)

text \<open>A new promise under a claim that has none pending.\<close>

lemma register_beat:
  assumes J: "beats_inv ls st" and fresh: "cs_nextBeat st' = Suc (cs_nextBeat st)" "c \<notin> fst ` set (cs_pendingHeartbeats st)"
    and st': "cs_pendingHeartbeats st' = AList.update c (cs_nextBeat st) (cs_pendingHeartbeats st)"
      "cs_timers st' = cs_timers st @ [(cs_nextBeat st, c)]"
    and es: "\<forall>q r. SettleBeat q r \<in> set es \<longrightarrow> q = cs_nextBeat st" "settles (cs_nextBeat st) es \<in> {[], [BeatDurationInvalid]}"
  shows "beats_inv (ls @ es) st'"
proof -
  have upd: "AList.update c p xs = xs @ [(c, p)]" if "c \<notin> fst ` set xs" for p and xs :: "(string \<times> nat) list"
    using that by (induction xs) auto
  let ?p = "cs_nextBeat st"
  let ?xs = "cs_pendingHeartbeats st"
  have below: "\<forall>p \<in> snd ` set ?xs. p < ?p" using J unfolding beats_inv_def by blast
  have quiet: "settles q es = []" if "q \<noteq> ?p" for q
  proof -
    have "settles q es = []" if "\<forall>p r. SettleBeat p r \<in> set es \<longrightarrow> p \<noteq> q" for es
      using that by (induction q es rule: settles.induct) auto
    then show ?thesis using es(1) that by blast
  qed
  have "beat_ok (q \<in> snd ` set (?xs @ [(c, ?p)])) (settles q (ls @ es))" if "q < Suc ?p" for q
  proof (cases "q = ?p")
    case True
    have "settles ?p ls = []" using J unfolding beats_inv_def by blast
    with True es(2) show ?thesis by (auto simp: beat_ok_def)
  next
    case False
    with that have "beat_ok (q \<in> snd ` set ?xs) (settles q ls)" using J unfolding beats_inv_def by simp
    with False quiet [OF False] show ?thesis by simp
  qed
  moreover have "settles q (ls @ es) = []" if "q \<ge> Suc ?p" for q
    using J that quiet [of q] unfolding beats_inv_def by simp
  ultimately show ?thesis
    using J below fresh upd [OF fresh(2)] unfolding beats_inv_def st' by (auto simp: less_Suc_eq)
qed

lemma send_beats: "keeps beats_inv (sendHeartbeat conn c cl options)"
proof (rule keepsI)
  fix ls st assume J: "beats_inv ls st"
  let ?p = "cs_nextBeat st"
  show "beats_inv (ls @ fst (sendHeartbeat conn c cl options st)) (snd (sendHeartbeat conn c cl options st))"
  proof (cases "cs_attached st \<and> conn")
    case False
    have "beat_ok (?p \<in> snd ` set (cs_pendingHeartbeats st)) (settles ?p (ls @ [SettleBeat ?p r]))" for r
    proof -
      have "settles ?p ls = []" "?p \<notin> snd ` set (cs_pendingHeartbeats st)" using J unfolding beats_inv_def by force+
      then show ?thesis by (simp add: beat_ok_def)
    qed
    moreover have "sendHeartbeat conn c cl options st = ([SettleBeat ?p (BeatRejected ConnectionDown)], st\<lparr>cs_nextBeat := Suc ?p\<rparr>)"
      using False by (auto simp: sendHeartbeat_def Let_def)
    ultimately show ?thesis using J by (auto simp: beats_inv_def less_Suc_eq)
  next
    case True
    let ?st0 = "snd (settleHeartbeat c (BeatRejected ConnectionDown) st)"
    let ?es0 = "fst (settleHeartbeat c (BeatRejected ConnectionDown) st)"
    have shift: "settleHeartbeat c r (st\<lparr>cs_nextBeat := n\<rparr>) = (fst (settleHeartbeat c r st), (snd (settleHeartbeat c r st))\<lparr>cs_nextBeat := n\<rparr>)" for r n
      by (simp add: settleHeartbeat_def split: option.splits)
    have J0: "beats_inv (ls @ ?es0) ?st0" using J settle_beats unfolding keeps_def by blast
    obtain es where r: "fst (sendHeartbeat conn c cl options st) = ?es0 @ es"
        "\<forall>q r. SettleBeat q r \<in> set es \<longrightarrow> q = cs_nextBeat ?st0" "settles (cs_nextBeat ?st0) es \<in> {[], [BeatDurationInvalid]}"
        "cs_pendingHeartbeats (snd (sendHeartbeat conn c cl options st)) = AList.update c (cs_nextBeat ?st0) (cs_pendingHeartbeats ?st0)"
        "cs_timers (snd (sendHeartbeat conn c cl options st)) = cs_timers ?st0 @ [(cs_nextBeat ?st0, c)]"
        "cs_nextBeat (snd (sendHeartbeat conn c cl options st)) = Suc (cs_nextBeat ?st0)"
      using True by (simp add: sendHeartbeat_def shift Let_def split: option.splits)
    from register_beat [OF J0 r(6) settle_absent r(4,5,2,3)] show ?thesis by (simp add: r(1))
  qed
qed

lemma settle_all_clears:
  "set (map fst (cs_pendingHeartbeats (snd (for_each (\<lambda>c. settleHeartbeat c r) xs st)))) \<subseteq> set (map fst (cs_pendingHeartbeats st)) - set xs"
proof (induction xs arbitrary: st)
  case (Cons x xs)
  have "set (map fst (cs_pendingHeartbeats (snd (settleHeartbeat x r st)))) \<subseteq> set (map fst (cs_pendingHeartbeats st)) - {x}"
    using settle_absent [of x r st] by (auto simp: settleHeartbeat_def AList.delete_eq split: option.splits)
  with Cons [of "snd (settleHeartbeat x r st)"] show ?case by auto
qed auto

lemma none_pending_after:
  "cs_pendingHeartbeats (snd (on_disconnected st)) = []" "cs_pendingHeartbeats (snd (stream_dispose st)) = []"
proof -
  have all: "cs_pendingHeartbeats (snd (for_each (\<lambda>c. settleHeartbeat c r) xs s)) = []" if "map fst (cs_pendingHeartbeats s) = xs" for s r xs
    using settle_all_clears [of r xs s] that by auto
  show "cs_pendingHeartbeats (snd (on_disconnected st)) = []" unfolding on_disconnected_def snd_andThen by (rule all) simp
  have "cs_pendingHeartbeats (snd (for_each (\<lambda>(_, _, h). end_handle h e) xs s)) = cs_pendingHeartbeats s" for e s and xs :: "(string \<times> OwnClaim \<times> nat) list"
    by (rule for_each_frame) auto
  then show "cs_pendingHeartbeats (snd (stream_dispose st)) = []"
    unfolding stream_dispose_def snd_andThen by (simp add: all)
qed

lemma keeps_beats_frame:
  assumes "\<And>st. cs_pendingHeartbeats (snd (f st)) = cs_pendingHeartbeats st" "\<And>st. cs_timers (snd (f st)) = cs_timers st"
    and "\<And>st. cs_nextBeat (snd (f st)) = cs_nextBeat st" "\<And>st q r. SettleBeat q r \<notin> set (fst (f st))"
  shows "keeps beats_inv f"
  by (rule keepsI, erule beats_frame) (simp_all add: assms)

lemma no_settles [simp]:
  "SettleBeat q r \<notin> set (fst (end_handle h e st))" "SettleBeat q r \<notin> set (fst (end_own c err st))"
  "SettleBeat q r \<notin> set (fst (notifyListeners st))" "SettleBeat q r \<notin> set (fst (sendAbandon conn c cl st))"
  "SettleBeat q r \<notin> set (fst (sendBegin conn c cl st))" "SettleBeat q r \<notin> set (fst (sendReorder conn t i xs st))"
  "SettleBeat q r \<notin> set (fst (refreshPresenceClaims n ps st))" "SettleBeat q r \<notin> set (fst (mintHandle conn c tgt d desc ms b st))"
  "SettleBeat q r \<notin> set (fst (revoke conn h st))"
  by (auto simp: mintHandle_def revoke_def Let_def end_handle_def end_own_def notifyListeners_def sendAbandon_def sendBegin_def sendReorder_def refreshPresenceClaims_def
      split: option.splits prod.splits)

lemma disconnected_beats: "keeps beats_inv on_disconnected"
proof (rule keepsI)
  fix ls st assume J: "beats_inv ls st"
  let ?n = "notifyListeners (st\<lparr>cs_queueByEntity := [], cs_queueEntries := []\<rparr>)"
  have "beats_inv (ls @ fst ?n) (snd ?n)" by (rule beats_frame [OF J]) simp_all
  moreover have "keeps beats_inv (for_each (\<lambda>c. settleHeartbeat c (BeatRejected ConnectionDown)) (map fst (cs_pendingHeartbeats st)))"
    by (rule keeps_for_each) (rule settle_beats)
  ultimately show "beats_inv (ls @ fst (on_disconnected st)) (snd (on_disconnected st))"
    by (simp add: on_disconnected_def flip: append_assoc) (rule keeps_run)
qed

lemma connected_beats: "keeps beats_inv (on_connected conn)"
proof (rule keepsI)
  fix ls st assume J: "beats_inv ls st"
  have a: "keeps beats_inv (for_each (\<lambda>(c, cl). sendAbandon conn c cl) xs)" for xs
    by (rule keeps_for_each) (auto intro: keeps_beats_frame)
  have b: "keeps beats_inv (\<lambda>st. ([], st\<lparr>cs_pendingAbandons := []\<rparr>))" by (rule keeps_beats_frame) simp_all
  have c: "keeps beats_inv (for_each (\<lambda>(c, cl, _). sendHeartbeat conn c cl no_heartbeat_options) xs)" for xs :: "(string \<times> OwnClaim \<times> nat) list"
    by (rule keeps_for_each) (auto intro: send_beats)
  let ?own = "\<lambda>st. for_each (\<lambda>(c, cl, _). sendHeartbeat conn c cl no_heartbeat_options) (cs_own st) st"
  have "keeps beats_inv ?own" using c unfolding keeps_def by blast
  from keeps_andThen [OF keeps_andThen [OF a b] this, of "cs_pendingAbandons st"] J
  have "beats_inv (ls @ fst (on_connected' st)) (snd (on_connected' st))"
    if "on_connected' = (\<lambda>s. andThen (andThen (for_each (\<lambda>(c, cl). sendAbandon conn c cl) (cs_pendingAbandons st) s) (\<lambda>st. ([], st\<lparr>cs_pendingAbandons := []\<rparr>))) ?own)" for on_connected'
    unfolding that keeps_def by blast
  moreover have "cs_own (snd (for_each (\<lambda>(c, cl). sendAbandon conn c cl) xs s)) = cs_own s" for xs s
    by (rule for_each_frame) auto
  ultimately show "beats_inv (ls @ fst (on_connected conn st)) (snd (on_connected conn st))"
    by (simp add: on_connected_def)
qed

lemma dispose_beats: "keeps beats_inv stream_dispose"
proof (rule keepsI)
  fix ls st assume J: "beats_inv ls st"
  let ?s0 = "st\<lparr>cs_presence := False\<rparr>"
  let ?a = "for_each (\<lambda>c. settleHeartbeat c (BeatRejected ConnectionDown)) (map fst (cs_pendingHeartbeats st)) ?s0"
  let ?b = "for_each (\<lambda>(_, _, h). end_handle h (Some ConnectionDown)) (cs_own st) (snd ?a)"
  have "beats_inv ls ?s0" using beats_frame [OF J, of ?s0 "[]"] by simp
  then have "beats_inv (ls @ fst ?a) (snd ?a)" by (rule keeps_run [OF keeps_for_each [OF settle_beats]])
  moreover have "keeps beats_inv (for_each (\<lambda>(_, _, h). end_handle h (Some ConnectionDown)) xs)" for xs :: "(string \<times> OwnClaim \<times> nat) list"
    by (rule keeps_for_each) (auto intro: keeps_beats_frame)
  ultimately have "beats_inv ((ls @ fst ?a) @ fst ?b) (snd ?b)" unfolding keeps_def by blast
  from beats_frame [OF this, of "snd (stream_dispose st)" "[]"] show "beats_inv (ls @ fst (stream_dispose st)) (snd (stream_dispose st))"
    by (simp add: stream_dispose_def)
qed

lemma ack_beats: "keeps beats_inv (on_heartbeat_ack ack)"
proof (rule keepsI)
  fix ls st assume J: "beats_inv ls st"
  let ?c = "ha_claimId ack"
  let ?s = "settleHeartbeat ?c (BeatRejected (claimed ''claim_lost'')) st"
  let ?e = "end_own ?c (claimed ''claim_lost'') (snd ?s)"
  have settled: "beats_inv (ls @ fst (settleHeartbeat ?c r st)) (snd (settleHeartbeat ?c r st))" for r
    by (rule keeps_run [OF settle_beats J])
  have quiet: "settles p (fst ?e) = []" for p by (rule settles_quiet) simp
  have "beats_inv ((ls @ fst ?s) @ fst ?e) (snd ?e)" by (rule beats_frame [OF settled]) simp_all
  then have "beats_inv (ls @ fst ?e @ fst ?s) (snd ?e)" by (rule beats_reorder [THEN iffD1, rotated]) (simp add: quiet)
  with J settled show "beats_inv (ls @ fst (on_heartbeat_ack ack st)) (snd (on_heartbeat_ack ack st))"
    by (simp add: on_heartbeat_ack_def split_def split: option.splits bool.splits)
qed

lemma beats_step:
  assumes J: "beats_inv ls st" and step: "stream_step st es st'"
  shows "beats_inv (ls @ es) st'"
proof -
  have quiet: "beats_inv (ls @ es) st'" if "cs_pendingHeartbeats st' = cs_pendingHeartbeats st" "cs_timers st' = cs_timers st"
      "cs_nextBeat st' = cs_nextBeat st" "\<forall>q r. SettleBeat q r \<notin> set es"
    using beats_frame [OF J that] .
  from step show ?thesis
  proof cases
    case (step_claim conn c target source opts)
    from stream_claim_mints [OF step_claim(1)] obtain ms where m: "(es, st') = mintHandle conn c target (subTarget (Some source) None)
      (claimDescription (co_description opts) (ts_meta source) (co_reason opts)) ms (co_queue opts) st" ..
    have "beats_inv (ls @ fst (mintHandle conn c target d desc ms q st)) (snd (mintHandle conn c target d desc ms q st))" for d desc q
      by (rule beats_frame [OF J]) simp_all
    then show ?thesis by (metis m fst_conv snd_conv)
  next
    case (step_revoke h conn)
    have "beats_inv (ls @ fst (revoke conn h st)) (snd (revoke conn h st))" by (rule beats_frame [OF J]) simp_all
    then show ?thesis using step_revoke by simp
  next
    case (step_heartbeat h conn options)
    then show ?thesis using keepsD [OF send_beats J] by (simp add: handle_heartbeat_def)
  next
    case (step_onEnd h l)
    then show ?thesis by (intro quiet) (auto simp: handle_onEnd_def split: prod.splits)
  next
    case (step_offEnd h l)
    then show ?thesis by (intro quiet) (auto simp: handle_offEnd_def)
  next
    case (step_rejected now rejection)
    have "keeps beats_inv (on_rejected now rejection)"
      by (rule keeps_beats_frame) (auto simp: on_rejected_def split: option.splits if_splits)
    from keepsD [OF this J step_rejected(2)] show ?thesis .
  next
    case (step_lost c)
    have "keeps beats_inv (on_lost c)" by (rule keeps_beats_frame) (auto simp: on_lost_def)
    from keepsD [OF this J step_lost(2)] show ?thesis .
  next
    case (step_snapshot type i line)
    then show ?thesis by (intro quiet) (auto simp: on_queue_snapshot_def Let_def notifyListeners_def)
  next
    case (step_patch type i change)
    then show ?thesis by (intro quiet) (auto simp: on_queue_patch_def Let_def notifyListeners_def split: option.splits)
  next
    case (step_ack ack)
    from keepsD [OF ack_beats J step_ack(2)] show ?thesis .
  next
    case step_disconnected
    then show ?thesis using keepsD [OF disconnected_beats J] by blast
  next
    case step_connected
    then show ?thesis using keepsD [OF connected_beats J] by blast
  next
    case (step_timeout p c)
    then show ?thesis using keepsD [OF settle_beats J] by (simp add: heartbeat_timeout_def)
  next
    case (step_presence now others)
    have "keeps beats_inv (refreshPresenceClaims now others)" by (rule keeps_beats_frame) auto
    from keepsD [OF this J step_presence(2)] show ?thesis .
  next
    case (step_read type i line)
    then show ?thesis by (intro quiet) (auto simp: queueFor_def Let_def split: option.splits if_splits)
  next
    case (step_reorder conn type i order)
    then show ?thesis by (intro quiet) (auto simp: sendReorder_def split: if_splits)
  next
    case (step_listen l)
    then show ?thesis
      by (intro quiet) (auto simp: onChange_def offChange_def onRejected_def offRejected_def onLost_def offLost_def stream_attach_def)
  next
    case step_dispose
    then show ?thesis using keepsD [OF dispose_beats J] by blast
  qed
qed

interpretation beats: run_invariant stream_init stream_step beats_inv
proof
  show "beats_inv [] s" if "stream_init s" for s using that by (auto simp: stream_init_def createClaimStream_def beats_inv_def)
qed (rule beats_step)

subsection \<open>Wait lines\<close>

definition line_ok :: "(string \<times> QueueClaim) list \<Rightarrow> bool" where
  "line_ok entries \<longleftrightarrow> distinct (map fst entries) \<and> (\<forall>(k, e) \<in> set entries. qc_id e = k)"

definition queue_inv :: "stream_effect list \<Rightarrow> claim_stream \<Rightarrow> bool" where
  "queue_inv ls st \<longleftrightarrow>
     (\<forall>key line. map_of (cs_queueByEntity st) key = Some line \<longrightarrow>
        (\<exists>entries. map_of (cs_queueEntries st) key = Some entries \<and> entries \<noteq> [] \<and> line = materialize entries))
   \<and> (\<forall>key entries. map_of (cs_queueEntries st) key = Some entries \<longrightarrow> line_ok entries)"

lemma line_ok_put: "line_ok entries \<Longrightarrow> line_ok (put_entry entry entries)"
proof -
  have "set (AList.update k v xs) \<subseteq> insert (k, v) (set xs)" for k v and xs :: "(string \<times> QueueClaim) list"
    by (induction xs) auto
  from this [of "qc_id entry" entry entries] show "line_ok entries \<Longrightarrow> line_ok (put_entry entry entries)"
    by (auto simp: line_ok_def put_entry_def publicQueueClaim_def distinct_update)
qed

lemma line_ok_fold_put: "line_ok line \<Longrightarrow> line_ok (fold put_entry entries line)"
  by (induction entries arbitrary: line) (auto intro: line_ok_put)

lemma line_ok_delete: "line_ok line \<Longrightarrow> line_ok (AList.delete i line)"
  by (auto simp: line_ok_def AList.delete_eq distinct_map_filter)

lemma line_ok_change: "line_ok line \<Longrightarrow> line_ok (change_line change line)"
proof (cases change)
  case (QueueRemoveMany ids)
  assume "line_ok line"
  then have "line_ok (fold AList.delete ids line)" by (induction ids arbitrary: line) (auto intro: line_ok_delete)
  then show ?thesis by (simp add: QueueRemoveMany)
qed (auto intro: line_ok_put line_ok_fold_put line_ok_delete)

lemma queue_frame:
  "queue_inv ls st \<Longrightarrow> cs_queueByEntity st' = cs_queueByEntity st \<Longrightarrow> cs_queueEntries st' = cs_queueEntries st \<Longrightarrow> queue_inv ls' st'"
  by (simp add: queue_inv_def)

lemma map_of_update: "map_of (AList.update k v xs) q = (if q = k then Some v else map_of xs q)"
  by (simp add: update_conv)

lemma map_of_delete: "map_of (AList.delete k xs) q = (if q = k then None else map_of xs q)"
  by (simp add: AList.delete_conv')

lemma set_line_queue:
  assumes "queue_inv ls st" and "line_ok line" and "cs_queueEntries st' = AList.update key line (cs_queueEntries st)"
    and "cs_queueByEntity st' = AList.delete key (cs_queueByEntity st)"
  shows "queue_inv ls' st'"
  using assms by (auto simp: queue_inv_def map_of_update map_of_delete split: if_splits)

lemma snapshot_queue:
  assumes "queue_inv ls st"
  shows "queue_inv ls' (snd (on_queue_snapshot type i line st))"
proof (rule set_line_queue [OF assms])
  show "line_ok (fold put_entry line [])" by (rule line_ok_fold_put) (simp add: line_ok_def)
qed (simp_all add: on_queue_snapshot_def Let_def)

lemma patch_queue:
  assumes J: "queue_inv ls st"
  shows "queue_inv ls' (snd (on_queue_patch type i change st))"
proof (cases "map_of (cs_queueEntries st) (stream_entityKey type i)")
  case None
  with J show ?thesis by (simp add: on_queue_patch_def Let_def queue_inv_def)
next
  case (Some line)
  then have "line_ok (change_line change line)" using J by (intro line_ok_change) (auto simp: queue_inv_def)
  then show ?thesis by (rule set_line_queue [OF J]) (simp_all add: on_queue_patch_def Let_def Some)
qed

lemma read_queue: "queue_inv ls st \<Longrightarrow> queue_inv ls' (snd (queueFor type i st))"
  by (auto simp: queueFor_def Let_def queue_inv_def map_of_update split: option.splits if_splits)

lemma queue_step:
  assumes J: "queue_inv ls st" and step: "stream_step st es st'"
  shows "queue_inv (ls @ es) st'"
proof -
  have quiet: "queue_inv (ls @ es) st'" if "cs_queueByEntity st' = cs_queueByEntity st" "cs_queueEntries st' = cs_queueEntries st"
    using queue_frame [OF J that] .
  have cleared: "queue_inv (ls @ es) st'" if "cs_queueByEntity st' = []" "cs_queueEntries st' = []"
    using that by (simp add: queue_inv_def)
  from step show ?thesis
  proof cases
    case (step_claim conn c target source opts)
    from stream_claim_mints [OF step_claim(1)] show ?thesis by (intro quiet) (metis mint_frame(2,3) snd_conv)+
  next
    case (step_revoke h conn)
    then show ?thesis using revoke_frame(1,2) [of conn h st] by (intro quiet) auto
  next
    case (step_heartbeat h conn options)
    then show ?thesis
      using sendHeartbeat_frame(4,5) [of conn "sh_claimId (cs_handles st ! h)" "sh_claim (cs_handles st ! h)" options st]
      by (intro quiet) (auto simp: handle_heartbeat_def)
  next
    case (step_onEnd h l)
    then show ?thesis by (intro quiet) (auto simp: handle_onEnd_def split: prod.splits)
  next
    case (step_offEnd h l)
    then show ?thesis by (intro quiet) (auto simp: handle_offEnd_def)
  next
    case (step_rejected now rejection)
    have "cs_queueByEntity (snd (on_rejected now rejection st)) = cs_queueByEntity st" "cs_queueEntries (snd (on_rejected now rejection st)) = cs_queueEntries st"
      by (auto simp: on_rejected_def split: option.splits)
    then show ?thesis using step_rejected(2) by (intro quiet) auto
  next
    case (step_lost c)
    have "cs_queueByEntity (snd (on_lost c st)) = cs_queueByEntity st" "cs_queueEntries (snd (on_lost c st)) = cs_queueEntries st"
      by (simp_all add: on_lost_def)
    then show ?thesis using step_lost(2) by (intro quiet) auto
  next
    case (step_snapshot type i line)
    then show ?thesis using snapshot_queue [OF J, of "ls @ es" type i line] by simp
  next
    case (step_patch type i change)
    then show ?thesis using patch_queue [OF J, of "ls @ es" type i change] by simp
  next
    case (step_ack ack)
    have "cs_queueByEntity (snd (on_heartbeat_ack ack st)) = cs_queueByEntity st" "cs_queueEntries (snd (on_heartbeat_ack ack st)) = cs_queueEntries st"
      by (auto simp: on_heartbeat_ack_def split_def split: option.splits bool.splits)
    then show ?thesis using step_ack(2) by (intro quiet) auto
  next
    case step_disconnected
    have "cs_queueByEntity (snd (on_disconnected st)) = []" "cs_queueEntries (snd (on_disconnected st)) = []"
      by (simp_all add: on_disconnected_def settle_all_frame)
    then show ?thesis using step_disconnected(2) by (intro cleared) auto
  next
    case step_connected
    have "cs_queueByEntity (snd (for_each (\<lambda>(c, cl). sendAbandon b c cl) xs s)) = cs_queueByEntity s"
        "cs_queueEntries (snd (for_each (\<lambda>(c, cl). sendAbandon b c cl) xs s)) = cs_queueEntries s"
        "cs_queueByEntity (snd (for_each (\<lambda>(c, cl, _). sendHeartbeat b c cl no_heartbeat_options) ys s)) = cs_queueByEntity s"
        "cs_queueEntries (snd (for_each (\<lambda>(c, cl, _). sendHeartbeat b c cl no_heartbeat_options) ys s)) = cs_queueEntries s"
      for b s xs and ys :: "(string \<times> OwnClaim \<times> nat) list"
      by (rule for_each_frame; clarsimp)+
    then have "cs_queueByEntity (snd (on_connected True st)) = cs_queueByEntity st" "cs_queueEntries (snd (on_connected True st)) = cs_queueEntries st"
      by (simp_all add: on_connected_def)
    then show ?thesis using step_connected(2) by (intro quiet) auto
  next
    case (step_timeout p c)
    then show ?thesis by (intro quiet) (auto simp: heartbeat_timeout_def settleHeartbeat_def split: option.splits)
  next
    case (step_presence now others)
    then show ?thesis using refresh_frame(4,5) [of now others st] by (intro quiet) auto
  next
    case (step_read type i line)
    then show ?thesis using read_queue [OF J, of "ls @ es" type i] by simp
  next
    case (step_reorder conn type i order)
    then show ?thesis by (intro quiet) (auto simp: sendReorder_def split: if_splits)
  next
    case (step_listen l)
    then show ?thesis
      by (intro quiet) (auto simp: onChange_def offChange_def onRejected_def offRejected_def onLost_def offLost_def stream_attach_def)
  next
    case step_dispose
    then show ?thesis by (intro cleared) (auto simp: stream_dispose_def andThen_def split: prod.splits)
  qed
qed

interpretation queues: run_invariant stream_init stream_step queue_inv
proof
  show "queue_inv [] s" if "stream_init s" for s using that by (auto simp: stream_init_def createClaimStream_def queue_inv_def)
qed (rule queue_step)

definition renumber :: "QueueClaim list \<Rightarrow> QueueClaim list" where
  "renumber line = map2 (\<lambda>entry position. entry\<lparr>qc_position := int position\<rparr>) line [0..<length line]"

definition strip :: "QueueClaim \<Rightarrow> QueueClaim" where
  "strip entry = entry\<lparr>qc_position := 0\<rparr>"

lemma renumber_strip: "map strip xs = map strip ys \<Longrightarrow> renumber xs = renumber ys"
proof -
  assume eq: "map strip xs = map strip ys"
  then have len: "length xs = length ys" by (metis length_map)
  have pos: "e\<lparr>qc_position := n\<rparr> = (strip e)\<lparr>qc_position := n\<rparr>" for e :: QueueClaim and n by (simp add: strip_def)
  show "renumber xs = renumber ys"
  proof (rule nth_equalityI)
    fix n assume "n < length (renumber xs)"
    then have n: "n < length xs" "n < length ys" by (simp_all add: renumber_def len)
    have "strip (xs ! n) = strip (ys ! n)" using eq n by (metis nth_map)
    then have "(xs ! n)\<lparr>qc_position := int n\<rparr> = (ys ! n)\<lparr>qc_position := int n\<rparr>" by (metis pos)
    with n show "renumber xs ! n = renumber ys ! n" by (simp add: renumber_def)
  qed (simp add: renumber_def len)
qed

lemma strip_renumber: "map strip (renumber xs) = map strip xs"
  by (rule nth_equalityI) (simp_all add: renumber_def strip_def)

lemma strip_filter: "map strip (filter (\<lambda>e. qc_id e \<noteq> i) xs) = filter (\<lambda>e. qc_id e \<noteq> i) (map strip xs)"
  by (induction xs) (auto simp: strip_def)

lemma queueFor_value:
  assumes "queue_inv ls st"
  shows "fst (queueFor type i st) =
     renumber (map snd (case map_of (cs_queueEntries st) (stream_entityKey type i) of None \<Rightarrow> [] | Some entries \<Rightarrow> entries))"
proof (cases "map_of (cs_queueByEntity st) (stream_entityKey type i)")
  case None
  then show ?thesis by (auto simp: queueFor_def Let_def materialize_def renumber_def split: option.splits)
next
  case (Some line)
  with assms obtain entries where "map_of (cs_queueEntries st) (stream_entityKey type i) = Some entries" "line = materialize entries"
    unfolding queue_inv_def by blast
  with Some show ?thesis by (simp add: queueFor_def Let_def materialize_def renumber_def)
qed

lemma snapshot_entries:
  "map_of (cs_queueEntries (snd (on_queue_snapshot type i line st))) q =
     (if q = stream_entityKey type i then Some (fold put_entry line []) else map_of (cs_queueEntries st) q)"
  by (simp add: on_queue_snapshot_def Let_def map_of_update)

lemma patch_entries:
  "map_of (cs_queueEntries (snd (on_queue_patch type i change st))) q =
     (if q = stream_entityKey type i then map_option (change_line change) (map_of (cs_queueEntries st) q) else map_of (cs_queueEntries st) q)"
  by (auto simp: on_queue_patch_def Let_def map_of_update split: option.splits)

lemma put_new: "qc_id e \<notin> fst ` set es \<Longrightarrow> put_entry e es = es @ [(qc_id e, e)]"
  by (induction es) (auto simp: put_entry_def publicQueueClaim_def)

lemma put_all_new:
  "distinct (map qc_id xs) \<Longrightarrow> qc_id ` set xs \<inter> fst ` set es = {} \<Longrightarrow> fold put_entry xs es = es @ map (\<lambda>e. (qc_id e, e)) xs"
  by (induction xs arbitrary: es) (auto simp: put_new)

lemma shown_ids: "line_ok es \<Longrightarrow> qc_id ` set (renumber (map snd es)) = fst ` set es"
proof -
  assume ok: "line_ok es"
  have "map qc_id (renumber xs) = map qc_id xs" for xs by (rule nth_equalityI) (simp_all add: renumber_def)
  then have "qc_id ` set (renumber (map snd es)) = qc_id ` set (map snd es)" by (metis set_map)
  also have "\<dots> = fst ` set es" using ok by (force simp: line_ok_def image_iff)
  finally show ?thesis .
qed

lemma shown_after_snapshot:
  assumes "queue_inv ls st" and "distinct (map qc_id line)"
  shows "fst (queueFor type i (snd (on_queue_snapshot type i line st))) = renumber line"
  using put_all_new [OF assms(2), of "[]"]
  by (simp add: queueFor_value [OF snapshot_queue [OF assms(1)]] snapshot_entries comp_def)

lemma shown_after_append:
  assumes J: "queue_inv ls st" and "map_of (cs_queueEntries st) (stream_entityKey type i) \<noteq> None"
    and new: "qc_id entry \<notin> qc_id ` set (fst (queueFor type i st))"
  shows "fst (queueFor type i (snd (on_queue_patch type i (QueueAppend entry) st))) = renumber (fst (queueFor type i st) @ [entry])"
proof -
  obtain es where es: "map_of (cs_queueEntries st) (stream_entityKey type i) = Some es" using assms(2) by blast
  then have ok: "line_ok es" using J by (simp add: queue_inv_def)
  have shown: "fst (queueFor type i st) = renumber (map snd es)" by (simp add: queueFor_value [OF J] es)
  from new have "put_entry entry es = es @ [(qc_id entry, entry)]" unfolding shown shown_ids [OF ok] by (rule put_new)
  then have "fst (queueFor type i (snd (on_queue_patch type i (QueueAppend entry) st))) = renumber (map snd es @ [entry])"
    by (simp add: queueFor_value [OF patch_queue [OF J]] patch_entries es)
  also have "\<dots> = renumber (renumber (map snd es) @ [entry])" by (rule renumber_strip) (simp add: strip_renumber del: map_map)
  finally show ?thesis by (simp add: shown)
qed

lemma shown_after_remove:
  assumes J: "queue_inv ls st" and "map_of (cs_queueEntries st) (stream_entityKey type i) \<noteq> None"
  shows "fst (queueFor type i (snd (on_queue_patch type i (QueueRemove k) st))) = renumber (filter (\<lambda>e. qc_id e \<noteq> k) (fst (queueFor type i st)))"
proof -
  obtain es where es: "map_of (cs_queueEntries st) (stream_entityKey type i) = Some es" using assms(2) by blast
  then have "line_ok es" using J by (simp add: queue_inv_def)
  then have "map snd (AList.delete k es) = filter (\<lambda>e. qc_id e \<noteq> k) (map snd es)"
    by (induction es) (auto simp: line_ok_def AList.delete_eq)
  then have "fst (queueFor type i (snd (on_queue_patch type i (QueueRemove k) st))) = renumber (filter (\<lambda>e. qc_id e \<noteq> k) (map snd es))"
    by (simp add: queueFor_value [OF patch_queue [OF J]] patch_entries es)
  also have "\<dots> = renumber (filter (\<lambda>e. qc_id e \<noteq> k) (renumber (map snd es)))"
    by (rule renumber_strip) (simp add: strip_filter strip_renumber del: map_map)
  finally show ?thesis by (simp add: queueFor_value [OF J] es)
qed

lemma shown_after_read:
  assumes J: "queue_inv ls st"
  shows "fst (queueFor type' i' (snd (queueFor type i st))) = fst (queueFor type' i' st)"
proof -
  have "cs_queueEntries (snd (queueFor type i st)) = cs_queueEntries st"
    by (simp add: queueFor_def Let_def split: option.splits)
  then show ?thesis by (simp add: queueFor_value [OF J] queueFor_value [OF read_queue [OF J]])
qed

lemma shown_elsewhere:
  assumes J: "queue_inv ls st" and "stream_entityKey type' i' \<noteq> stream_entityKey type i"
  shows "fst (queueFor type' i' (snd (on_queue_snapshot type i line st))) = fst (queueFor type' i' st)
    \<and> fst (queueFor type' i' (snd (on_queue_patch type i change st))) = fst (queueFor type' i' st)"
  using assms(2) by (simp add: queueFor_value [OF J] queueFor_value [OF snapshot_queue [OF J]] queueFor_value [OF patch_queue [OF J]]
      snapshot_entries patch_entries)

subsection \<open>An example run\<close>

text \<open>A claim is taken, beaten once, the connection drops, and the claim is released while it is down.\<close>

definition demo_entry :: "string \<Rightarrow> QueueClaim" where
  "demo_entry i = \<lparr>qc_id = i, qc_target = StreamLocator ''tasks'' ''t1'', qc_details = no_details, qc_description = ''editing'',
     qc_heldBy = None, qc_participantKind = None, qc_position = 0, qc_expiresAt = 9\<rparr>"

definition demo_claim :: stream_result where
  "demo_claim = the (stream_claim True ''c1'' (StreamLocator ''tasks'' ''t1'') \<lparr>ts_field = None, ts_fields = None, ts_meta = None\<rparr>
     \<lparr>co_ttl = Some (DurationText ''1.5m''), co_queue = None, co_description = None, co_reason = None\<rparr> (createClaimStream True False))"

definition demo_beat :: stream_result where
  "demo_beat = handle_heartbeat True 0 no_heartbeat_options (snd demo_claim)"

definition demo_drop :: stream_result where
  "demo_drop = on_disconnected (snd demo_beat)"

definition demo_release :: stream_result where
  "demo_release = revoke False 0 (snd demo_drop)"

definition demo_log :: "stream_effect list" where
  "demo_log = ((([] @ fst demo_claim) @ fst demo_beat) @ fst demo_drop) @ fst demo_release"

lemmas demo_defs = demo_release_def demo_drop_def demo_beat_def demo_claim_def stream_claim_def mintHandle_def sendBegin_def
  createClaimStream_def handle_heartbeat_def sendHeartbeat_def settleHeartbeat_def on_disconnected_def notifyListeners_def revoke_def
  end_handle_def lifetime_end_def createClaimLifetime_def sendAbandon_def andThen_def wireTarget_def no_heartbeat_options_def
  demo_log_def Let_def

lemma demo_duration: "parseDurationMs (DurationText ''1.5m'') = Some 90000"
  by code_simp

lemma demo_facts:
  "cs_handles (snd demo_claim) \<noteq> []" "cs_attached (snd demo_claim)" "cs_attached (snd demo_beat)" "cs_handles (snd demo_drop) \<noteq> []"
  "cs_nextBeat (snd demo_release) = 1" "length (cs_handles (snd demo_release)) = 1"
  "sh_claimId (cs_handles (snd demo_release) ! 0) = ''c1''" "sh_revoked (cs_handles (snd demo_release) ! 0)"
  "fst ` set (cs_pendingAbandons (snd demo_release)) = {''c1''}" "settles 0 demo_log = [BeatRejected ConnectionDown]"
  "abandoned demo_log = []" "cs_attached (snd demo_release)"
  by (simp_all add: demo_defs demo_duration)

lemma demo_run: "stream_run demo_log (snd demo_release)"
proof -
  have "stream_run ([] @ fst demo_claim) (snd demo_claim)"
  proof (rule run_step [OF run_init])
    show "stream_init (createClaimStream True False)" by (auto simp: stream_init_def)
    show "stream_step (createClaimStream True False) (fst demo_claim) (snd demo_claim)"
    proof (rule step_claim)
      show "stream_claim True ''c1'' (StreamLocator ''tasks'' ''t1'') \<lparr>ts_field = None, ts_fields = None, ts_meta = None\<rparr>
          \<lparr>co_ttl = Some (DurationText ''1.5m''), co_queue = None, co_description = None, co_reason = None\<rparr> (createClaimStream True False)
        = Some (fst demo_claim, snd demo_claim)"
        by (simp add: demo_claim_def stream_claim_def demo_duration Let_def)
    qed (simp add: createClaimStream_def)
  qed
  from run_step [OF this step_heartbeat [of 0]] have "stream_run (([] @ fst demo_claim) @ fst demo_beat) (snd demo_beat)"
    using demo_facts(1) by (simp add: demo_beat_def)
  from run_step [OF this step_disconnected] have "stream_run ((([] @ fst demo_claim) @ fst demo_beat) @ fst demo_drop) (snd demo_drop)"
    using demo_facts(3) by (simp add: demo_drop_def)
  from run_step [OF this step_revoke [of 0]] show ?thesis
    using demo_facts(4) by (simp add: demo_release_def demo_log_def)
qed

subsection \<open>Properties\<close>





text \<open>
  The wait line that is shown is the one the frames describe, although it is cached: a
  snapshot shows its entries in order; an appended waiter appears once, at the end; a removed
  one leaves and the others move up; positions count from zero; reading changes nothing that
  is shown; and a frame for one row leaves the lines of the others alone.
\<close>

theorem queue_line_follows_frames:
  assumes "stream_run ls st" and "distinct (map qc_id line)"
  shows "fst (queueFor type i (snd (on_queue_snapshot type i line st))) = renumber line
    \<and> (map_of (cs_queueEntries st) (stream_entityKey type i) \<noteq> None \<longrightarrow>
        (qc_id entry \<notin> qc_id ` set (fst (queueFor type i st)) \<longrightarrow>
          fst (queueFor type i (snd (on_queue_patch type i (QueueAppend entry) st))) = renumber (fst (queueFor type i st) @ [entry]))
      \<and> fst (queueFor type i (snd (on_queue_patch type i (QueueRemove k) st)))
          = renumber (filter (\<lambda>e. qc_id e \<noteq> k) (fst (queueFor type i st))))
    \<and> fst (queueFor type' i' (snd (queueFor type i st))) = fst (queueFor type' i' st)
    \<and> (stream_entityKey type' i' \<noteq> stream_entityKey type i \<longrightarrow>
        fst (queueFor type' i' (snd (on_queue_snapshot type i line st))) = fst (queueFor type' i' st)
      \<and> fst (queueFor type' i' (snd (on_queue_patch type i change st))) = fst (queueFor type' i' st))"
proof -
  have J: "queue_inv ls st" using queues.holds [OF assms(1)] .
  have "(qc_id entry \<notin> qc_id ` set (fst (queueFor type i st)) \<longrightarrow>
        fst (queueFor type i (snd (on_queue_patch type i (QueueAppend entry) st))) = renumber (fst (queueFor type i st) @ [entry]))
      \<and> fst (queueFor type i (snd (on_queue_patch type i (QueueRemove k) st)))
          = renumber (filter (\<lambda>e. qc_id e \<noteq> k) (fst (queueFor type i st)))"
    if "map_of (cs_queueEntries st) (stream_entityKey type i) \<noteq> None"
    using that shown_after_append [OF J] shown_after_remove [OF J] by blast
  then show ?thesis
    using shown_after_snapshot [OF J assms(2)] shown_after_read [OF J] shown_elsewhere [OF J] by blast
qed

theorem queue_line_follows_frames_witness:
  "fst (queueFor ''tasks'' ''t1'' (snd (on_queue_snapshot ''tasks'' ''t1'' [demo_entry ''a'', demo_entry ''b''] (snd demo_release)))) =
     [demo_entry ''a'', (demo_entry ''b'')\<lparr>qc_position := 1\<rparr>]"
  using queue_line_follows_frames [OF demo_run, of "[demo_entry ''a'', demo_entry ''b'']" "''tasks''" "''t1''"]
  by (simp add: demo_entry_def renumber_def)

end
