(* ===== verification/ClaimGrant.thy ===== *)
theory ClaimGrant
  imports ClaimStream
begin

section \<open>Waiting for a claim and keeping it\<close>

text \<open>
  Model of \<open>packages/transaction/src/claims/awaitGrant.ts\<close> (the wait for a grant over a socket),
  \<open>packages/transaction/src/transport/http/claimWait.ts\<close> (the same wait by polling) and
  \<open>packages/transaction/src/claims/heartbeat.ts\<close> (the loop that keeps a lease alive).

  The promise of a wait is settled by the first call of its resolving functions; later calls
  have no effect, as in the language. Error messages and log lines are left out.
\<close>

subsection \<open>The wait over a socket\<close>

record ClaimGrantInfo =
  gi_waited :: bool
  gi_fenceToken :: "int option"
  gi_readAt :: "int option"

record grant_options =
  go_timeoutMs :: "int option"
  go_maxQueueDepth :: "int option"
  go_signal :: "bool option"
  go_onQueued :: bool
  go_onGranted :: bool
  go_onFailed :: bool

text \<open>\<open>go_signal\<close> is \<open>None\<close> without a signal, otherwise whether it is aborted at the start.\<close>

datatype grant_frame =
    FAcquired string "int option" "int option"
  | FGranted string "int option" "int option"
  | FQueued string "int option"
  | FRejected ClaimRejection
  | FLost string

datatype grant_event = GFrame grant_frame | GAbort | GTimeout

datatype wait_effect =
    HookQueued int
  | HookGranted ClaimGrantInfo
  | HookFailed claim_error
  | SettleGrant "claim_error + ClaimGrantInfo"

record grant_wait =
  gw_subscribed :: bool
  gw_abortListener :: bool
  gw_timer :: bool
  gw_outcome :: "(claim_error + ClaimGrantInfo) option"

type_synonym grant_result = "wait_effect list \<times> grant_wait"

definition settle_promise :: "claim_error + ClaimGrantInfo \<Rightarrow> grant_wait \<Rightarrow> grant_wait" where
  "settle_promise r st = st\<lparr>gw_outcome := (case gw_outcome st of None \<Rightarrow> Some r | Some r' \<Rightarrow> Some r')\<rparr>"

definition release_all :: "grant_wait \<Rightarrow> grant_wait" where
  "release_all st = st\<lparr>gw_subscribed := False, gw_abortListener := False, gw_timer := False\<rparr>"

definition grant_fail :: "grant_options \<Rightarrow> claim_error \<Rightarrow> grant_wait \<Rightarrow> grant_result" where
  "grant_fail opts err st =
     ((if go_onFailed opts then [HookFailed err] else []) @ [SettleGrant (Inl err)], settle_promise (Inl err) (release_all st))"

definition grant_ok :: "grant_options \<Rightarrow> ClaimGrantInfo \<Rightarrow> grant_wait \<Rightarrow> grant_result" where
  "grant_ok opts info st =
     ((if go_onGranted opts then [HookGranted info] else []) @ [SettleGrant (Inr info)], settle_promise (Inr info) (release_all st))"

definition grant_abort :: "grant_options \<Rightarrow> grant_wait \<Rightarrow> grant_result" where
  "grant_abort opts = grant_fail opts (claimed ''claim_wait_aborted'')"

text \<open>
  \<open>aborts position\<close> says whether the caller's \<open>onQueued\<close> hook aborts the signal when it is told
  \<open>position\<close>; the abort handler then runs inside the hook.
\<close>

definition on_queued :: "(int \<Rightarrow> bool) \<Rightarrow> grant_options \<Rightarrow> int option \<Rightarrow> grant_wait \<Rightarrow> grant_result" where
  "on_queued aborts opts pos st =
     (let position = (case pos of None \<Rightarrow> 0 | Some n \<Rightarrow> n);
          hook = (if go_onQueued opts then [HookQueued position] else []);
          (es, st1) = (if go_onQueued opts \<and> aborts position \<and> gw_abortListener st then grant_abort opts st else ([], st));
          (es', st2) = (case go_maxQueueDepth opts of
              Some m \<Rightarrow> if m \<le> position then grant_fail opts (claimed ''queue_too_deep'') st1 else ([], st1)
            | None \<Rightarrow> ([], st1))
      in (hook @ es @ es', st2))"

fun on_frame :: "(int \<Rightarrow> bool) \<Rightarrow> string \<Rightarrow> grant_options \<Rightarrow> grant_frame \<Rightarrow> grant_wait \<Rightarrow> grant_result" where
  "on_frame aborts claimId opts (FAcquired c fence readAt) st =
     (if c = claimId then grant_ok opts \<lparr>gi_waited = False, gi_fenceToken = fence, gi_readAt = readAt\<rparr> st else ([], st))"
| "on_frame aborts claimId opts (FGranted c fence readAt) st =
     (if c = claimId then grant_ok opts \<lparr>gi_waited = True, gi_fenceToken = fence, gi_readAt = readAt\<rparr> st else ([], st))"
| "on_frame aborts claimId opts (FQueued c pos) st = (if c \<noteq> claimId then ([], st) else on_queued aborts opts pos st)"
| "on_frame aborts claimId opts (FRejected rejection) st =
     (if rj_claimId rejection \<noteq> claimId then ([], st) else grant_fail opts (claimAdmissionError rejection) st)"
| "on_frame aborts claimId opts (FLost c) st = (if c = claimId then grant_fail opts (claimed ''claim_lost'') st else ([], st))"

definition awaitClaimGrant :: "grant_options \<Rightarrow> grant_result" where
  "awaitClaimGrant opts =
     (let st = \<lparr>gw_subscribed = True, gw_abortListener = False, gw_timer = False, gw_outcome = None\<rparr>
      in if go_signal opts = Some True then grant_abort opts st
         else ([], st\<lparr>gw_abortListener := (go_signal opts \<noteq> None), gw_timer := (go_timeoutMs opts \<noteq> None)\<rparr>))"

text \<open>An event reaches the wait only while its handler is registered.\<close>

definition deliver :: "(int \<Rightarrow> bool) \<Rightarrow> string \<Rightarrow> grant_options \<Rightarrow> grant_event \<Rightarrow> grant_wait \<Rightarrow> grant_result" where
  "deliver aborts claimId opts ev st = (case ev of
      GFrame f \<Rightarrow> if gw_subscribed st then on_frame aborts claimId opts f st else ([], st)
    | GAbort \<Rightarrow> if gw_abortListener st then grant_abort opts st else ([], st)
    | GTimeout \<Rightarrow> if gw_timer st then grant_fail opts (claimed ''grant_timeout'') st else ([], st))"

fun deliver_all :: "(int \<Rightarrow> bool) \<Rightarrow> string \<Rightarrow> grant_options \<Rightarrow> grant_event list \<Rightarrow> grant_wait \<Rightarrow> grant_result" where
  "deliver_all aborts claimId opts [] st = ([], st)"
| "deliver_all aborts claimId opts (ev # evs) st =
     (case deliver aborts claimId opts ev st of (es, st1) \<Rightarrow>
        (case deliver_all aborts claimId opts evs st1 of (es', st2) \<Rightarrow> (es @ es', st2)))"

subsection \<open>The heartbeat loop\<close>

datatype heartbeat_spec = HeartbeatTrue | HeartbeatEvery duration

definition heartbeatCadenceMs :: "rat \<Rightarrow> heartbeat_spec \<Rightarrow> rat option" where
  "heartbeatCadenceMs ttlMs heartbeat = (case heartbeat of
      HeartbeatTrue \<Rightarrow> Some (max (of_int \<lfloor>ttlMs / 3\<rfloor>) 1000)
    | HeartbeatEvery d \<Rightarrow> parseDurationMs d)"

record beat_loop =
  bl_stopped :: bool
  bl_inFlight :: bool
  bl_interval :: bool

datatype loop_effect = Beat | BeatAnswered | LostHook claim_error

definition startClaimHeartbeatLoop :: beat_loop where
  "startClaimHeartbeatLoop = \<lparr>bl_stopped = False, bl_inFlight = False, bl_interval = True\<rparr>"

definition loop_stop :: "beat_loop \<Rightarrow> beat_loop" where
  "loop_stop st = (if bl_stopped st then st else st\<lparr>bl_stopped := True, bl_interval := False\<rparr>)"

definition loop_tick :: "beat_loop \<Rightarrow> loop_effect list \<times> beat_loop" where
  "loop_tick st = (if bl_stopped st \<or> bl_inFlight st then ([], st) else ([Beat], st\<lparr>bl_inFlight := True\<rparr>))"

fun isClaimedError :: "claim_error \<Rightarrow> bool" where
  "isClaimedError (Claimed _ _ _) = True"
| "isClaimedError _ = False"

definition loop_failed :: "bool \<Rightarrow> claim_error \<Rightarrow> beat_loop \<Rightarrow> loop_effect list \<times> beat_loop" where
  "loop_failed hasOnLost err st =
     (if bl_stopped st then ([], st\<lparr>bl_inFlight := False\<rparr>)
      else if isClaimedError err
      then ((if hasOnLost then [LostHook err] else []), (loop_stop st)\<lparr>bl_inFlight := False\<rparr>)
      else ([], st\<lparr>bl_inFlight := False\<rparr>))"

definition loop_beaten :: "beat_loop \<Rightarrow> loop_effect list \<times> beat_loop" where
  "loop_beaten st = ([], st\<lparr>bl_inFlight := False\<rparr>)"

text \<open>The interval fires while it is set; a beat is answered while it is in flight; the caller may stop the loop
  at any time. That a beat is answered is part of the label of the step.\<close>

inductive loop_step :: "bool \<Rightarrow> beat_loop \<Rightarrow> loop_effect list \<Rightarrow> beat_loop \<Rightarrow> bool" for hasOnLost where
  loop_step_tick: "bl_interval st \<Longrightarrow> loop_tick st = (es, st') \<Longrightarrow> loop_step hasOnLost st es st'"
| loop_step_beaten: "bl_inFlight st \<Longrightarrow> loop_beaten st = (es, st') \<Longrightarrow> loop_step hasOnLost st (BeatAnswered # es) st'"
| loop_step_failed: "bl_inFlight st \<Longrightarrow> loop_failed hasOnLost err st = (es, st') \<Longrightarrow> loop_step hasOnLost st (BeatAnswered # es) st'"
| loop_step_stop: "loop_step hasOnLost st [] (loop_stop st)"

subsection \<open>The wait by polling\<close>

definition GRANT_POLL_FIRST_MS :: rat where
  "GRANT_POLL_FIRST_MS = 250"

datatype ticket_status = TicketActive "int option" | TicketQueued | TicketOther

datatype poll_error = PollNotFound | PollClaimLost | PollOther nat

datatype wait_error = QueueTooDeep | WaitAborted | GrantTimeout | WaitLost | Thrown poll_error

record wait_options =
  wa_maxDepth :: "int option"
  wa_timeoutMs :: "rat option"
  wa_leaseWindowMs :: rat

definition GRANT_POLL_INTERVAL_MS :: rat where
  "GRANT_POLL_INTERVAL_MS = 1000"

definition wait_deadline :: "wait_options \<Rightarrow> rat \<Rightarrow> rat option" where
  "wait_deadline opts now = map_option (\<lambda>ms. now + ms) (wa_timeoutMs opts)"

definition heartbeat_interval :: "wait_options \<Rightarrow> rat" where
  "heartbeat_interval opts = the (heartbeatCadenceMs (wa_leaseWindowMs opts) HeartbeatTrue)"

record wait_state =
  wt_delay :: rat
  wt_acknowledgedAliveUntil :: rat
  wt_nextHeartbeatAt :: rat

text \<open>
  What one turn of the loop observes: the clock and the signal before the sleep, the signal
  after it, the answers of the server and the clock when each is handled.
\<close>

record poll_turn =
  pt_abortedBefore :: bool
  pt_now :: rat
  pt_abortedAfter :: bool
  pt_random :: rat
  pt_retrieved :: "poll_error + ticket_status"
  pt_retrievedAt :: rat
  pt_beat :: "poll_error + bool"
  pt_beatAt :: rat

text \<open>A turn ends the wait, with whether the ticket was released first, or goes on.\<close>

datatype turn_result = TurnDone "wait_error + int option" bool | TurnNext wait_state

definition rejectAndLeave :: "wait_error \<Rightarrow> turn_result" where
  "rejectAndLeave err = TurnDone (Inl err) True"

definition turn_beat :: "wait_options \<Rightarrow> poll_turn \<Rightarrow> wait_state \<Rightarrow> turn_result" where
  "turn_beat opts t st =
     (if pt_retrievedAt t < wt_nextHeartbeatAt st then TurnNext st
      else (case pt_beat t of
          Inl PollClaimLost \<Rightarrow>
            if pt_beatAt t < wt_acknowledgedAliveUntil st then TurnNext (st\<lparr>wt_delay := GRANT_POLL_FIRST_MS\<rparr>)
            else rejectAndLeave WaitLost
        | Inl e \<Rightarrow> TurnDone (Inl (Thrown e)) False
        | Inr held \<Rightarrow> TurnNext (st\<lparr>wt_acknowledgedAliveUntil := pt_beatAt t + wa_leaseWindowMs opts,
            wt_nextHeartbeatAt := pt_beatAt t + heartbeat_interval opts,
            wt_delay := (if held then GRANT_POLL_FIRST_MS else wt_delay st)\<rparr>)))"

definition turn_polled :: "wait_options \<Rightarrow> poll_turn \<Rightarrow> wait_state \<Rightarrow> turn_result" where
  "turn_polled opts t st = (case pt_retrieved t of
      Inl e \<Rightarrow>
        if e \<noteq> PollNotFound \<or> wt_acknowledgedAliveUntil st \<le> pt_retrievedAt t then TurnDone (Inl (Thrown e)) False
        else turn_beat opts t (st\<lparr>wt_delay := GRANT_POLL_FIRST_MS\<rparr>)
    | Inr (TicketActive fence) \<Rightarrow> TurnDone (Inr fence) False
    | Inr TicketOther \<Rightarrow>
        if pt_retrievedAt t < wt_acknowledgedAliveUntil st then TurnNext (st\<lparr>wt_delay := GRANT_POLL_FIRST_MS\<rparr>)
        else rejectAndLeave WaitLost
    | Inr TicketQueued \<Rightarrow> turn_beat opts t st)"

definition wait_turn :: "wait_options \<Rightarrow> rat option \<Rightarrow> poll_turn \<Rightarrow> wait_state \<Rightarrow> turn_result" where
  "wait_turn opts deadline t st =
     (if pt_abortedBefore t then rejectAndLeave WaitAborted
      else if (case deadline of None \<Rightarrow> False | Some d \<Rightarrow> d \<le> pt_now t) then rejectAndLeave GrantTimeout
      else if pt_abortedAfter t then rejectAndLeave WaitAborted
      else turn_polled opts t (st\<lparr>wt_delay := GRANT_POLL_INTERVAL_MS * (85 / 100 + pt_random t * (3 / 10))\<rparr>))"

text \<open>The sleep of a turn: the delay, cut at the deadline.\<close>

definition sleep_ms :: "rat option \<Rightarrow> rat \<Rightarrow> wait_state \<Rightarrow> rat" where
  "sleep_ms deadline now st = (case deadline of None \<Rightarrow> wt_delay st | Some d \<Rightarrow> min (wt_delay st) (max 0 (d - now)))"

fun wait_turns :: "wait_options \<Rightarrow> rat option \<Rightarrow> poll_turn list \<Rightarrow> wait_state \<Rightarrow> turn_result" where
  "wait_turns opts deadline [] st = TurnNext st"
| "wait_turns opts deadline (t # ts) st = (case wait_turn opts deadline t st of TurnDone r l \<Rightarrow> TurnDone r l | TurnNext st' \<Rightarrow> wait_turns opts deadline ts st')"

definition awaitClaimGrantOverHttp :: "wait_options \<Rightarrow> int \<Rightarrow> rat \<Rightarrow> poll_turn list \<Rightarrow> turn_result" where
  "awaitClaimGrantOverHttp opts position now turns =
     (if (case wa_maxDepth opts of None \<Rightarrow> False | Some m \<Rightarrow> m \<le> position) then rejectAndLeave QueueTooDeep
      else wait_turns opts (wait_deadline opts now) turns \<lparr>wt_delay = GRANT_POLL_FIRST_MS, wt_acknowledgedAliveUntil = now + wa_leaseWindowMs opts,
        wt_nextHeartbeatAt = now + heartbeat_interval opts\<rparr>)"

subsection \<open>Which event decides a wait\<close>

text \<open>The specification of the wait: what each event means for a wait that is still open.\<close>

fun decides :: "(int \<Rightarrow> bool) \<Rightarrow> string \<Rightarrow> grant_options \<Rightarrow> grant_event \<Rightarrow> (claim_error + ClaimGrantInfo) option" where
  "decides aborts claimId opts (GFrame (FAcquired c fence readAt)) =
     (if c = claimId then Some (Inr \<lparr>gi_waited = False, gi_fenceToken = fence, gi_readAt = readAt\<rparr>) else None)"
| "decides aborts claimId opts (GFrame (FGranted c fence readAt)) =
     (if c = claimId then Some (Inr \<lparr>gi_waited = True, gi_fenceToken = fence, gi_readAt = readAt\<rparr>) else None)"
| "decides aborts claimId opts (GFrame (FQueued c pos)) =
     (let position = (case pos of None \<Rightarrow> 0 | Some n \<Rightarrow> n)
      in if c \<noteq> claimId then None
         else if go_onQueued opts \<and> aborts position \<and> go_signal opts \<noteq> None then Some (Inl (claimed ''claim_wait_aborted''))
         else if (case go_maxQueueDepth opts of None \<Rightarrow> False | Some m \<Rightarrow> m \<le> position) then Some (Inl (claimed ''queue_too_deep''))
         else None)"
| "decides aborts claimId opts (GFrame (FRejected rejection)) =
     (if rj_claimId rejection = claimId then Some (Inl (claimAdmissionError rejection)) else None)"
| "decides aborts claimId opts (GFrame (FLost c)) = (if c = claimId then Some (Inl (claimed ''claim_lost'')) else None)"
| "decides aborts claimId opts GAbort = (if go_signal opts \<noteq> None then Some (Inl (claimed ''claim_wait_aborted'')) else None)"
| "decides aborts claimId opts GTimeout = (if go_timeoutMs opts \<noteq> None then Some (Inl (claimed ''grant_timeout'')) else None)"

fun first_decision :: "(int \<Rightarrow> bool) \<Rightarrow> string \<Rightarrow> grant_options \<Rightarrow> grant_event list \<Rightarrow> (claim_error + ClaimGrantInfo) option" where
  "first_decision aborts claimId opts [] = None"
| "first_decision aborts claimId opts (ev # evs) =
     (case decides aborts claimId opts ev of Some r \<Rightarrow> Some r | None \<Rightarrow> first_decision aborts claimId opts evs)"

definition wait_open :: "grant_options \<Rightarrow> grant_wait" where
  "wait_open opts = \<lparr>gw_subscribed = True, gw_abortListener = (go_signal opts \<noteq> None), gw_timer = (go_timeoutMs opts \<noteq> None), gw_outcome = None\<rparr>"

definition wait_closed :: "claim_error + ClaimGrantInfo \<Rightarrow> grant_wait" where
  "wait_closed r = \<lparr>gw_subscribed = False, gw_abortListener = False, gw_timer = False, gw_outcome = Some r\<rparr>"

text \<open>The effects other than reports of a place in the line.\<close>

fun is_queued_hook :: "wait_effect \<Rightarrow> bool" where
  "is_queued_hook (HookQueued _) = True"
| "is_queued_hook _ = False"

definition visible :: "wait_effect list \<Rightarrow> wait_effect list" where
  "visible es = filter (\<lambda>e. \<not> is_queued_hook e) es"

definition hooks_ok :: "grant_options \<Rightarrow> claim_error + ClaimGrantInfo \<Rightarrow> wait_effect list \<Rightarrow> bool" where
  "hooks_ok opts r es \<longleftrightarrow> (case r of
      Inr info \<Rightarrow> visible es = (if go_onGranted opts then [HookGranted info] else []) @ [SettleGrant (Inr info)]
    | Inl err \<Rightarrow> (\<exists>rest. visible es = (if go_onFailed opts then [HookFailed err] else []) @ [SettleGrant (Inl err)] @ rest
        \<and> (rest = [] \<or> err = claimed ''claim_wait_aborted'' \<and> rest =
             (if go_onFailed opts then [HookFailed (claimed ''queue_too_deep'')] else []) @ [SettleGrant (Inl (claimed ''queue_too_deep''))])))"

lemma visible_append [simp]: "visible (xs @ ys) = visible xs @ visible ys"
  by (simp add: visible_def)

lemma deliver_open:
  "(case decides aborts claimId opts ev of
      None \<Rightarrow> snd (deliver aborts claimId opts ev (wait_open opts)) = wait_open opts
        \<and> visible (fst (deliver aborts claimId opts ev (wait_open opts))) = []
    | Some r \<Rightarrow> snd (deliver aborts claimId opts ev (wait_open opts)) = wait_closed r
        \<and> hooks_ok opts r (fst (deliver aborts claimId opts ev (wait_open opts))))"
proof (cases "(aborts, claimId, opts, ev)" rule: decides.cases)
  case (3 aborts claimId opts c pos)
  then show ?thesis
    by (cases pos; cases "go_maxQueueDepth opts")
      (auto simp: deliver_def on_queued_def grant_fail_def grant_abort_def settle_promise_def release_all_def wait_open_def
        wait_closed_def hooks_ok_def visible_def Let_def)
qed (auto simp: deliver_def grant_fail_def grant_ok_def grant_abort_def settle_promise_def release_all_def wait_open_def
    wait_closed_def hooks_ok_def visible_def)

lemma deliver_closed: "deliver aborts claimId opts ev (wait_closed r) = ([], wait_closed r)"
  by (auto simp: deliver_def wait_closed_def split: grant_event.splits)

lemma deliver_all_closed: "deliver_all aborts claimId opts evs (wait_closed r) = ([], wait_closed r)"
  by (induction evs) (auto simp: deliver_closed)

lemma deliver_all_open:
  "(case first_decision aborts claimId opts evs of
      None \<Rightarrow> snd (deliver_all aborts claimId opts evs (wait_open opts)) = wait_open opts
        \<and> visible (fst (deliver_all aborts claimId opts evs (wait_open opts))) = []
    | Some r \<Rightarrow> snd (deliver_all aborts claimId opts evs (wait_open opts)) = wait_closed r
        \<and> hooks_ok opts r (fst (deliver_all aborts claimId opts evs (wait_open opts))))"
proof (induction evs)
  case (Cons ev evs)
  obtain es st where d: "deliver aborts claimId opts ev (wait_open opts) = (es, st)" by fastforce
  show ?case
  proof (cases "decides aborts claimId opts ev")
    case None
    with deliver_open [of aborts claimId opts ev] d have st: "st = wait_open opts" "visible es = []" by simp_all
    have "hooks_ok opts r (es @ xs) = hooks_ok opts r xs" for r xs unfolding hooks_ok_def visible_append st(2) append_Nil ..
    with Cons None d st show ?thesis by (simp add: split_def split: option.splits)
  next
    case (Some r)
    with deliver_open [of aborts claimId opts ev] d have "st = wait_closed r" "hooks_ok opts r es" by simp_all
    with Some d show ?thesis by (simp add: deliver_all_closed)
  qed
qed (simp add: visible_def)

subsection \<open>The loop never overlaps its beats\<close>

definition loop_inv :: "loop_effect list \<Rightarrow> beat_loop \<Rightarrow> bool" where
  "loop_inv ls st \<longleftrightarrow> count_list ls Beat = count_list ls BeatAnswered + (if bl_inFlight st then 1 else 0)
     \<and> bl_interval st = (\<not> bl_stopped st) \<and> (\<forall>e. LostHook e \<in> set ls \<longrightarrow> bl_stopped st)
     \<and> (\<forall>pre e post. ls = pre @ LostHook e # post \<longrightarrow> Beat \<notin> set post \<and> (\<forall>e'. LostHook e' \<notin> set (pre @ post)))"

lemma after_append:
  assumes "ls @ [x] = pre @ y # post"
  shows "(x = y \<and> post = [] \<and> pre = ls) \<or> (\<exists>post'. post = post' @ [x] \<and> ls = pre @ y # post')"
  using assms by (cases post rule: rev_cases) auto

lemma loop_inv_step:
  assumes J: "loop_inv ls st" and step: "loop_step hasOnLost st es st'"
  shows "loop_inv (ls @ es) st'"
proof -
  have quiet: "loop_inv (ls @ [x]) s" if "count_list (ls @ [x]) Beat = count_list (ls @ [x]) BeatAnswered + (if bl_inFlight s then 1 else 0)"
      "bl_interval s = (\<not> bl_stopped s)" "bl_stopped st \<longrightarrow> bl_stopped s" "x = BeatAnswered \<or> x = Beat \<and> \<not> bl_stopped st" for x s
    unfolding loop_inv_def
  proof (intro conjI allI impI)
    fix e assume "LostHook e \<in> set (ls @ [x])"
    then have "LostHook e \<in> set ls" using that(4) by auto
    then show "bl_stopped s" using J that(3) unfolding loop_inv_def by blast
  next
    fix pre e post assume "ls @ [x] = pre @ LostHook e # post"
    with after_append [OF this] that(4) obtain post' where p: "post = post' @ [x]" "ls = pre @ LostHook e # post'" by auto
    then have "Beat \<notin> set post'" "\<forall>e'. LostHook e' \<notin> set (pre @ post')" "bl_stopped st" using J unfolding loop_inv_def by auto
    with p(1) that(4) show "Beat \<notin> set post" "\<And>e'. LostHook e' \<notin> set (pre @ post)" by auto
  qed (use that in auto)
  have interval: "bl_interval st = (\<not> bl_stopped st)" and counts: "count_list ls Beat = count_list ls BeatAnswered + (if bl_inFlight st then 1 else 0)"
    using J unfolding loop_inv_def by blast+
  from step show ?thesis
  proof cases
    case loop_step_tick
    show ?thesis
    proof (cases "bl_stopped st \<or> bl_inFlight st")
      case True
      then show ?thesis using loop_step_tick(2) J by (simp add: loop_tick_def)
    next
      case False
      then have "es = [Beat]" "st' = st\<lparr>bl_inFlight := True\<rparr>" using loop_step_tick(2) by (simp_all add: loop_tick_def)
      with False counts interval show ?thesis using quiet [of Beat st'] by simp
    qed
  next
    case (loop_step_beaten es')
    then have "es = [BeatAnswered]" "st' = st\<lparr>bl_inFlight := False\<rparr>" by (simp_all add: loop_beaten_def)
    with loop_step_beaten(2) counts interval show ?thesis using quiet [of BeatAnswered st'] by simp
  next
    case (loop_step_failed err es')
    let ?s = "st\<lparr>bl_inFlight := False\<rparr>"
    have answered: "loop_inv (ls @ [BeatAnswered]) s" if "bl_inFlight s = False" "bl_interval s = (\<not> bl_stopped s)" "bl_stopped st \<longrightarrow> bl_stopped s" for s
      using counts loop_step_failed(2) that by (intro quiet) simp_all
    show ?thesis
    proof (cases "bl_stopped st \<or> \<not> isClaimedError err \<or> \<not> hasOnLost")
      case True
      then have "es' = [] \<and> bl_inFlight st' = False \<and> bl_interval st' = (\<not> bl_stopped st') \<and> (bl_stopped st \<longrightarrow> bl_stopped st')"
        using loop_step_failed(3) interval unfolding loop_failed_def loop_stop_def by (auto split: if_splits)
      then show ?thesis using answered [of st'] loop_step_failed(1) by simp
    next
      case False
      then have r: "es = [BeatAnswered, LostHook err]" "st' = st\<lparr>bl_stopped := True, bl_interval := False, bl_inFlight := False\<rparr>"
        using loop_step_failed by (auto simp: loop_failed_def loop_stop_def)
      have none: "LostHook e \<notin> set ls" for e using False J unfolding loop_inv_def by blast
      have b: "loop_inv (ls @ [BeatAnswered]) st'" by (rule answered) (simp_all add: r(2))
      have "loop_inv ((ls @ [BeatAnswered]) @ [LostHook err]) st'"
        unfolding loop_inv_def
      proof (intro conjI allI impI)
        fix pre e post assume eq: "(ls @ [BeatAnswered]) @ [LostHook err] = pre @ LostHook e # post"
        have "post = [] \<and> pre = ls @ [BeatAnswered]"
          using after_append [OF eq] none after_append [of ls BeatAnswered pre "LostHook e"] by (metis in_set_conv_decomp loop_effect.distinct(5))
        with none show "Beat \<notin> set post" "\<And>e'. LostHook e' \<notin> set (pre @ post)" by auto
      qed (use b r(2) in \<open>auto simp: loop_inv_def [of "ls @ [BeatAnswered]"]\<close>)
      then show ?thesis by (simp add: r(1))
    qed
  next
    case loop_step_stop
    then show ?thesis using J by (auto simp: loop_stop_def loop_inv_def)
  qed
qed

interpretation beat_loop_runs: run_invariant "\<lambda>st. st = startClaimHeartbeatLoop" "loop_step hasOnLost" loop_inv for hasOnLost
proof
  show "loop_inv [] s" if "s = startClaimHeartbeatLoop" for s using that by (simp add: loop_inv_def startClaimHeartbeatLoop_def)
qed (rule loop_inv_step)

subsection \<open>Outcomes of the polling wait\<close>

lemma turn_beat_done:
  "turn_beat opts t st = TurnDone r l \<Longrightarrow>
     (r = Inl WaitLost \<and> l \<and> wt_acknowledgedAliveUntil st \<le> pt_beatAt t) \<or> (\<exists>e. r = Inl (Thrown e) \<and> \<not> l)"
  by (auto simp: turn_beat_def rejectAndLeave_def split: if_splits sum.splits poll_error.splits)

lemma wait_turn_done:
  assumes "wait_turn opts deadline t st = TurnDone r l"
  shows "(\<forall>fence. r = Inr fence \<longrightarrow> pt_retrieved t = Inr (TicketActive fence))
    \<and> (l \<longleftrightarrow> (\<exists>e. r = Inl e \<and> (\<forall>e'. e \<noteq> Thrown e')))
    \<and> (r = Inl WaitLost \<longrightarrow> wt_acknowledgedAliveUntil st \<le> max (pt_retrievedAt t) (pt_beatAt t))
    \<and> (r = Inl GrantTimeout \<longrightarrow> (\<exists>d. deadline = Some d \<and> d \<le> pt_now t))
    \<and> (r = Inl WaitAborted \<longrightarrow> pt_abortedBefore t \<or> pt_abortedAfter t)"
proof (cases "pt_abortedBefore t \<or> (case deadline of None \<Rightarrow> False | Some d \<Rightarrow> d \<le> pt_now t) \<or> pt_abortedAfter t")
  case True
  with assms show ?thesis by (auto simp: wait_turn_def rejectAndLeave_def split: if_splits option.splits)
next
  case False
  let ?st = "st\<lparr>wt_delay := GRANT_POLL_INTERVAL_MS * (85 / 100 + pt_random t * (3 / 10))\<rparr>"
  have polled: "turn_polled opts t ?st = TurnDone r l" using assms False by (simp add: wait_turn_def)
  show ?thesis
  proof (cases "pt_retrieved t")
    case (Inl e)
    then show ?thesis using polled turn_beat_done [of opts t "?st\<lparr>wt_delay := GRANT_POLL_FIRST_MS\<rparr>" r l]
      by (auto simp: turn_polled_def split: if_splits)
  next
    case (Inr s)
    then show ?thesis using polled turn_beat_done [of opts t ?st r l]
      by (cases s) (auto simp: turn_polled_def rejectAndLeave_def split: if_splits)
  qed
qed

lemma wait_turns_done:
  "wait_turns opts deadline ts st = TurnDone r l \<Longrightarrow>
     \<exists>us t vs st'. ts = us @ t # vs \<and> wait_turns opts deadline us st = TurnNext st' \<and> wait_turn opts deadline t st' = TurnDone r l"
proof (induction ts arbitrary: st)
  case (Cons t ts)
  show ?case
  proof (cases "wait_turn opts deadline t st")
    case (TurnDone r' l')
    with Cons.prems show ?thesis by (intro exI [of _ "[]"]) auto
  next
    case (TurnNext st1)
    with Cons obtain us t' vs st' where "ts = us @ t' # vs" "wait_turns opts deadline us st1 = TurnNext st'" "wait_turn opts deadline t' st' = TurnDone r l" by fastforce
    with TurnNext show ?thesis by (intro exI [of _ "t # us"]) auto
  qed
qed simp

lemma wait_turns_deadline:
  "deadline = Some d \<Longrightarrow> t \<in> set ts \<Longrightarrow> d \<le> pt_now t \<Longrightarrow> \<exists>r l. wait_turns opts deadline ts st = TurnDone r l"
proof (induction ts arbitrary: st)
  case (Cons t' ts)
  show ?case
  proof (cases "wait_turn opts deadline t' st")
    case (TurnNext st1)
    then have "t' \<noteq> t" using Cons.prems by (auto simp: wait_turn_def rejectAndLeave_def split: if_splits)
    with Cons TurnNext show ?thesis by auto
  qed auto
qed simp

lemma wait_turns_outcome:
  assumes "wait_turns opts deadline turns st0 = TurnDone r released"
  shows "(\<forall>fence. r = Inr fence \<longrightarrow> (\<exists>t \<in> set turns. pt_retrieved t = Inr (TicketActive fence)))
      \<and> (released \<longleftrightarrow> (\<exists>e. r = Inl e \<and> (\<forall>e'. e \<noteq> Thrown e')))
      \<and> (r = Inl WaitLost \<longrightarrow> (\<exists>us t vs st. turns = us @ t # vs \<and> wait_turns opts deadline us st0 = TurnNext st
          \<and> wt_acknowledgedAliveUntil st \<le> max (pt_retrievedAt t) (pt_beatAt t)))"
proof -
  obtain us t vs st where u: "turns = us @ t # vs" "wait_turns opts deadline us st0 = TurnNext st" "wait_turn opts deadline t st = TurnDone r released"
    using wait_turns_done [OF assms] by blast
  have "t \<in> set turns" by (simp add: u(1))
  with wait_turn_done [OF u(3)] u(1,2) show ?thesis by blast
qed

lemma sleep_within: "deadline = Some d \<Longrightarrow> now + sleep_ms deadline now st \<le> max now d"
  by (simp add: sleep_ms_def)

subsection \<open>Properties\<close>


text \<open>
  The heartbeat loop of a held claim never has two beats in flight, reports a lost lease at
  most once, and sends no beat after that or after it was stopped. A transient failure
  does not stop it: the next tick beats again.
\<close>

theorem heartbeat_loop_safe:
  assumes "run (\<lambda>st. st = startClaimHeartbeatLoop) (loop_step hasOnLost) ls st"
  shows "count_list ls BeatAnswered \<le> count_list ls Beat \<and> count_list ls Beat \<le> count_list ls BeatAnswered + 1
    \<and> (\<forall>pre e post. ls = pre @ LostHook e # post \<longrightarrow> Beat \<notin> set post \<and> (\<forall>e'. LostHook e' \<notin> set (pre @ post)))
    \<and> (bl_stopped st \<longrightarrow> fst (loop_tick st) = [])
    \<and> (bl_inFlight st \<and> \<not> bl_stopped st \<and> \<not> isClaimedError err \<longrightarrow>
        (let st' = snd (loop_failed hasOnLost err st) in bl_interval st' \<and> fst (loop_tick st') = [Beat]))"
proof -
  have J: "loop_inv ls st" using beat_loop_runs.holds [OF assms] .
  then have "bl_inFlight st \<and> \<not> bl_stopped st \<and> \<not> isClaimedError err \<Longrightarrow>
      bl_interval (snd (loop_failed hasOnLost err st)) \<and> fst (loop_tick (snd (loop_failed hasOnLost err st))) = [Beat]"
    by (simp add: loop_failed_def loop_tick_def loop_inv_def)
  with J show ?thesis unfolding loop_inv_def by (auto simp: loop_tick_def Let_def)
qed

theorem heartbeat_loop_safe_witness:
  "fst (loop_tick (snd (loop_failed True ConnectionDown (snd (loop_tick startClaimHeartbeatLoop))))) = [Beat]"
proof -
  have "run (\<lambda>st. st = startClaimHeartbeatLoop) (loop_step True) ([] @ fst (loop_tick startClaimHeartbeatLoop)) (snd (loop_tick startClaimHeartbeatLoop))"
  proof (rule run_step)
    show "run (\<lambda>st. st = startClaimHeartbeatLoop) (loop_step True) [] startClaimHeartbeatLoop" by (rule run_init) (rule refl)
    show "loop_step True startClaimHeartbeatLoop (fst (loop_tick startClaimHeartbeatLoop)) (snd (loop_tick startClaimHeartbeatLoop))"
      by (rule loop_step_tick) (simp_all add: startClaimHeartbeatLoop_def)
  qed
  from heartbeat_loop_safe [OF this, of ConnectionDown] show ?thesis
    by (simp add: loop_tick_def startClaimHeartbeatLoop_def Let_def)
qed

text \<open>
  The polling wait reports a grant only when the server showed the ticket as the holder's; gives
  a queued ticket up as lost only after the last acknowledgement of the server has run out;
  and whenever it gives up itself it releases the ticket first. With a deadline it is
  over at the first turn at or after it, and no sleep runs past it.
\<close>

theorem polling_wait_outcomes:
  assumes "wait_deadline opts now = Some d \<longrightarrow> (\<exists>t \<in> set turns. d \<le> pt_now t)"
  shows "(\<forall>r released. awaitClaimGrantOverHttp opts position now turns = TurnDone r released \<longrightarrow>
        (\<forall>fence. r = Inr fence \<longrightarrow> (\<exists>t \<in> set turns. pt_retrieved t = Inr (TicketActive fence)))
      \<and> (released \<longleftrightarrow> (\<exists>e. r = Inl e \<and> (\<forall>e'. e \<noteq> Thrown e')))
      \<and> (r = Inl WaitLost \<longrightarrow> (\<exists>us t vs st. turns = us @ t # vs
          \<and> awaitClaimGrantOverHttp opts position now us = TurnNext st
          \<and> wt_acknowledgedAliveUntil st \<le> max (pt_retrievedAt t) (pt_beatAt t))))
    \<and> (wait_deadline opts now = Some d \<longrightarrow> (\<exists>r released. awaitClaimGrantOverHttp opts position now turns = TurnDone r released)
        \<and> now + sleep_ms (wait_deadline opts now) now st' \<le> max now d)"
proof (cases "case wa_maxDepth opts of None \<Rightarrow> False | Some m \<Rightarrow> m \<le> position")
  case True
  then have "awaitClaimGrantOverHttp opts position now ts = TurnDone (Inl QueueTooDeep) True" for ts
    by (simp add: awaitClaimGrantOverHttp_def rejectAndLeave_def)
  then show ?thesis using sleep_within [of "wait_deadline opts now" d now st'] by (simp, intro impI exI [of _ True] TrueI)
next
  case False
  let ?st = "\<lparr>wt_delay = GRANT_POLL_FIRST_MS, wt_acknowledgedAliveUntil = now + wa_leaseWindowMs opts,
        wt_nextHeartbeatAt = now + heartbeat_interval opts\<rparr>"
  have eq: "awaitClaimGrantOverHttp opts position now ts = wait_turns opts (wait_deadline opts now) ts ?st" for ts
    using False by (simp add: awaitClaimGrantOverHttp_def)
  show ?thesis
    unfolding eq
  proof (intro conjI allI impI)
    fix r released assume over: "wait_turns opts (wait_deadline opts now) turns ?st = TurnDone r released"
    note outcome = wait_turns_outcome [OF over]
    show "\<exists>t \<in> set turns. pt_retrieved t = Inr (TicketActive fence)" if "r = Inr fence" for fence using outcome that by simp
    show "released \<longleftrightarrow> (\<exists>e. r = Inl e \<and> (\<forall>e'. e \<noteq> Thrown e'))" using outcome by simp
    show "\<exists>us t vs st. turns = us @ t # vs \<and> wait_turns opts (wait_deadline opts now) us ?st = TurnNext st
        \<and> wt_acknowledgedAliveUntil st \<le> max (pt_retrievedAt t) (pt_beatAt t)" if "r = Inl WaitLost" using outcome that by simp
  next
    assume d: "wait_deadline opts now = Some d"
    with assms obtain t where "t \<in> set turns" "d \<le> pt_now t" by blast
    then show "\<exists>r released. wait_turns opts (wait_deadline opts now) turns ?st = TurnDone r released" by (rule wait_turns_deadline [OF d])
    show "now + sleep_ms (wait_deadline opts now) now st' \<le> max now d" using d by (rule sleep_within)
  qed
qed

definition wait_example :: wait_options where
  "wait_example = \<lparr>wa_maxDepth = Some 3, wa_timeoutMs = Some 5000, wa_leaseWindowMs = 30000\<rparr>"

definition turn_example :: "rat \<Rightarrow> poll_turn" where
  "turn_example t = \<lparr>pt_abortedBefore = False, pt_now = t, pt_abortedAfter = False, pt_random = 1 / 2, pt_retrieved = Inr TicketQueued,
     pt_retrievedAt = t, pt_beat = Inr False, pt_beatAt = t\<rparr>"

theorem polling_wait_outcomes_witness:
  "\<exists>r released. awaitClaimGrantOverHttp wait_example 0 0 [turn_example 250, turn_example 5000] = TurnDone r released"
  using polling_wait_outcomes [of wait_example 0 5000 "[turn_example 250, turn_example 5000]" 0] by (simp add: wait_example_def turn_example_def wait_deadline_def)

end
