(* ===== verification/UndoReplay.thy ===== *)
theory UndoReplay
  imports FailureHandling
begin

section \<open>Replaying an undo without clobbering collaborators\<close>

text \<open>
  Model of \<open>packages/humans/src/local/mutators/undoApply.ts\<close>, \<open>inverseOp.ts\<close>, of the helpers of
  \<open>UndoManager.ts\<close> that derive and expand the operations of an entry, and of
  \<open>packages/humans/src/local/transactions/operations/undo.ts\<close>.

  The marker \<open>MISSING\<close> for an absent property is \<open>None\<close>. A patch is the identifier of its row and
  the other properties. The pool maps an identifier to the properties \<open>toJSON\<close> returns.
\<close>

subsection \<open>Operations\<close>

type_synonym js_props = "(string \<times> jsval) list"

datatype merge_domain = MergeText | MergeCounter

datatype InverseOp =
    OpCreate string js_props
  | OpUpdate string string js_props
  | OpDelete string string
  | OpCreateMany string "js_props list"
  | OpUpdateMany string "(string \<times> js_props) list"
  | OpDeleteMany string "string list"
  | OpReverse string string string merge_domain string js_props

record UndoEntry =
  ue_inverses :: "InverseOp list"
  ue_forwards :: "InverseOp list"

primrec op_modelKey :: "InverseOp \<Rightarrow> string" where
  "op_modelKey (OpCreate m _) = m"
| "op_modelKey (OpUpdate m _ _) = m"
| "op_modelKey (OpDelete m _) = m"
| "op_modelKey (OpCreateMany m _) = m"
| "op_modelKey (OpUpdateMany m _) = m"
| "op_modelKey (OpDeleteMany m _) = m"
| "op_modelKey (OpReverse m _ _ _ _ _) = m"

subsection \<open>Merging a value\<close>

fun deepEqualM :: "jsval option \<Rightarrow> jsval option \<Rightarrow> bool" where
  "deepEqualM None None = True"
| "deepEqualM (Some a) (Some b) = deepEqual a b"
| "deepEqualM _ _ = False"

fun object_props :: "jsval option \<Rightarrow> js_props option" where
  "object_props (Some (VObj True _ ps)) = Some ps"
| "object_props _ = None"

text \<open>The keys of a JavaScript \<open>Set\<close> built from a list: first occurrences, in order.\<close>

definition js_set :: "string list \<Rightarrow> string list" where
  "js_set ks = rev (remdups (rev ks))"

definition value_measure :: "jsval option \<Rightarrow> nat" where
  "value_measure v = (case v of None \<Rightarrow> 0 | Some x \<Rightarrow> Suc (size x))"

lemma object_props_Some: "object_props v = Some ps \<longleftrightarrow> (\<exists>s. v = Some (VObj True s ps))"
  by (cases v rule: object_props.cases) auto

lemma own_smaller: "object_props v = Some ps \<Longrightarrow> value_measure (map_of ps k) < value_measure v"
proof -
  assume "object_props v = Some ps"
  then obtain s where v: "v = Some (VObj True s ps)" by (auto simp: object_props_Some)
  have "size x < size (VObj True s ps)" if "(k, x) \<in> set ps" for x
    using that by (induction ps) (auto simp: )
  then show ?thesis by (auto simp: v value_measure_def dest: map_of_SomeD split: option.splits)
qed

function replayValue :: "jsval option \<Rightarrow> jsval option \<Rightarrow> jsval option \<Rightarrow> jsval option" where
  "replayValue v established current =
     (if deepEqualM v established then current
      else if deepEqualM current established then v
      else (case (object_props v, object_props established, object_props current) of
          (Some vs, Some es, Some cs) \<Rightarrow>
            Some (VObj True False (concat (map (\<lambda>key.
              case replayValue (map_of vs key) (map_of es key) (map_of cs key) of None \<Rightarrow> [] | Some next_value \<Rightarrow> [(key, next_value)])
              (js_set (map fst cs @ map fst es @ map fst vs)))))
        | _ \<Rightarrow> current))"
  by pat_completeness auto

termination
  by (relation "measure (\<lambda>(v, e, c). value_measure v + value_measure e + value_measure c)") (auto intro!: add_strict_mono own_smaller)

declare replayValue.simps [simp del]

subsection \<open>Dropping what a collaborator changed\<close>

datatype UndoConflictPolicy = SkipStale | LastWriterWins

definition DEFAULT_UNDO_CONFLICT_POLICY :: UndoConflictPolicy where
  "DEFAULT_UNDO_CONFLICT_POLICY = SkipStale"

type_synonym undo_pool = "string \<Rightarrow> js_props option"
type_synonym undo_patch = "string \<times> js_props"

definition js_get :: "js_props \<Rightarrow> string \<Rightarrow> jsval" where
  "js_get ps key = (case map_of ps key of None \<Rightarrow> VUndefined | Some v \<Rightarrow> v)"

definition readCurrentField :: "undo_pool \<Rightarrow> string \<Rightarrow> string \<Rightarrow> jsval" where
  "readCurrentField store i field = (case store i of None \<Rightarrow> VUndefined | Some row \<Rightarrow> js_get row field)"

definition set_established :: "undo_patch \<Rightarrow> (string \<times> js_props) list \<Rightarrow> (string \<times> js_props) list" where
  "set_established p m =
     AList.update (fst p) (spread (case map_of m (fst p) of None \<Rightarrow> [] | Some ps \<Rightarrow> ps) (snd p)) m"

primrec establish :: "InverseOp \<Rightarrow> (string \<times> js_props) list \<Rightarrow> (string \<times> js_props) list" where
  "establish (OpCreate _ _) m = m"
| "establish (OpUpdate _ i patch) m = set_established (i, patch) m"
| "establish (OpDelete _ _) m = m"
| "establish (OpCreateMany _ _) m = m"
| "establish (OpUpdateMany _ patches) m = fold set_established patches m"
| "establish (OpDeleteMany _ _) m = m"
| "establish (OpReverse _ i _ _ _ patch) m = set_established (i, patch) m"

definition buildEstablished :: "InverseOp list \<Rightarrow> (string \<times> js_props) list" where
  "buildEstablished paired = fold establish paired []"

definition keep_field :: "undo_pool \<Rightarrow> string \<Rightarrow> js_props option \<Rightarrow> string \<times> jsval \<Rightarrow> js_props" where
  "keep_field store i established fv = (case fv of (field, v) \<Rightarrow>
     if field = ''id'' then []
     else (case Option.bind established (\<lambda>es. map_of es field) of
         Some e \<Rightarrow>
           (let current = readCurrentField store i field;
                next_value = (case replayValue (Some v) (Some e) (Some current) of Some n \<Rightarrow> n | None \<Rightarrow> VUndefined)
            in if deepEqual next_value current then [] else [(field, next_value)])
       | None \<Rightarrow> [(field, v)]))"

definition filterStalePatch :: "undo_pool \<Rightarrow> undo_patch \<Rightarrow> js_props option \<Rightarrow> undo_patch option" where
  "filterStalePatch store patch established =
     (let out = concat (map (keep_field store (fst patch) established) (snd patch))
      in if out = [] then None else Some (fst patch, out))"

definition resolve_op :: "undo_pool \<Rightarrow> (string \<times> js_props) list \<Rightarrow> InverseOp \<Rightarrow> InverseOp list" where
  "resolve_op store established oper = (case oper of
      OpUpdate m i patch \<Rightarrow> (case filterStalePatch store (i, patch) (map_of established i) of
          None \<Rightarrow> [] | Some (j, out) \<Rightarrow> [OpUpdate m j out])
    | OpUpdateMany m patches \<Rightarrow>
        (let kept = List.map_filter (\<lambda>p. filterStalePatch store p (map_of established (fst p))) patches
         in if kept = [] then [] else [OpUpdateMany m kept])
    | OpReverse m i field domain editId patch \<Rightarrow>
        (case filterStalePatch store (i, patch) (map_of established i) of
          None \<Rightarrow> [OpReverse m i field domain editId []]
        | Some (_, out) \<Rightarrow> [OpReverse m i field domain editId out])
    | _ \<Rightarrow> [oper])"

definition resolveOps :: "InverseOp list \<Rightarrow> InverseOp list \<Rightarrow> undo_pool \<Rightarrow> UndoConflictPolicy \<Rightarrow> InverseOp list" where
  "resolveOps ops paired store policy =
     (if policy = LastWriterWins then ops
      else concat (map (resolve_op store (buildEstablished paired)) ops))"

subsection \<open>Deriving the operations of a mutation\<close>

datatype mutation_kind = MkCreate | MkUpdate | MkDelete | MkArchive | MkUnarchive

record LocalMutation =
  lm_kind :: mutation_kind
  lm_modelName :: string
  lm_modelId :: string
  lm_data :: "js_props option"
  lm_previousData :: "js_props option"
  lm_undoScopeId :: "string option"

text \<open>
  What the schemas of the two operation domains read as the identifier of an edit is the argument
  \<open>edit_id\<close>; the merge domain a model declares for a field is \<open>merge\<close>.
\<close>

fun fieldOperationUndo :: "(merge_domain \<Rightarrow> jsval \<Rightarrow> string option) \<Rightarrow> string \<Rightarrow> string \<Rightarrow> js_props \<Rightarrow> js_props
    \<Rightarrow> (string \<Rightarrow> merge_domain option) \<Rightarrow> InverseOp option" where
  "fieldOperationUndo edit_id modelKey i [] previous merge = None"
| "fieldOperationUndo edit_id modelKey i ((field, v) # rest) previous merge =
     (case merge field of
        None \<Rightarrow> fieldOperationUndo edit_id modelKey i rest previous merge
      | Some domain \<Rightarrow> (case edit_id domain v of
            None \<Rightarrow> fieldOperationUndo edit_id modelKey i rest previous merge
          | Some editId \<Rightarrow>
              if editId = [] then fieldOperationUndo edit_id modelKey i rest previous merge
              else Some (OpReverse modelKey i field domain editId (AList.delete ''id'' (AList.delete field previous)))))"

definition stripId :: "js_props option \<Rightarrow> js_props" where
  "stripId ps = (case ps of None \<Rightarrow> [] | Some qs \<Rightarrow> AList.delete ''id'' qs)"

definition buildUndoOps :: "(merge_domain \<Rightarrow> jsval \<Rightarrow> string option) \<Rightarrow> string option \<Rightarrow> LocalMutation \<Rightarrow> string
    \<Rightarrow> (string \<Rightarrow> merge_domain option) \<Rightarrow> InverseOp \<times> InverseOp option" where
  "buildUndoOps edit_id now m modelKey merge = (let i = lm_modelId m in case lm_kind m of
      MkCreate \<Rightarrow> (OpCreate modelKey (stripId (lm_data m) @ [(''id'', VStr i)]), Some (OpDelete modelKey i))
    | MkUpdate \<Rightarrow>
        (let next = stripId (lm_data m); prev = stripId (lm_previousData m)
         in (OpUpdate modelKey i next,
             case fieldOperationUndo edit_id modelKey i next prev merge of
               Some operationInverse \<Rightarrow> Some operationInverse
             | None \<Rightarrow> if prev = [] then None else Some (OpUpdate modelKey i prev)))
    | MkDelete \<Rightarrow> (OpDelete modelKey i, Some (OpCreate modelKey (stripId (lm_previousData m) @ [(''id'', VStr i)])))
    | MkArchive \<Rightarrow> (OpUpdate modelKey i [(''archivedAt'', VDate now)], Some (OpUpdate modelKey i [(''archivedAt'', VNull)]))
    | MkUnarchive \<Rightarrow> (OpUpdate modelKey i [(''archivedAt'', VNull)], Some (OpUpdate modelKey i [(''archivedAt'', VDate now)])))"

subsection \<open>Expanding and pairing\<close>

primrec expand_op :: "InverseOp \<Rightarrow> InverseOp list" where
  "expand_op (OpCreate m data) = [OpCreate m data]"
| "expand_op (OpUpdate m i patch) = [OpUpdate m i patch]"
| "expand_op (OpDelete m i) = [OpDelete m i]"
| "expand_op (OpCreateMany m rows) = map (OpCreate m) rows"
| "expand_op (OpUpdateMany m patches) = map (\<lambda>(i, patch). OpUpdate m i patch) patches"
| "expand_op (OpDeleteMany m ids) = map (OpDelete m) ids"
| "expand_op (OpReverse m i field domain editId patch) = [OpReverse m i field domain editId patch]"

definition expandReplayOps :: "InverseOp list \<Rightarrow> InverseOp list" where
  "expandReplayOps ops = concat (map expand_op ops)"

fun pairs_with :: "InverseOp \<Rightarrow> InverseOp \<Rightarrow> bool" where
  "pairs_with (OpReverse m i field _ _ _) (OpReverse m' i' field' _ _ _) = (m = m' \<and> i = i' \<and> field = field')"
| "pairs_with (OpReverse m i field _ _ _) (OpUpdate m' i' patch) = (m = m' \<and> i = i' \<and> field \<in> fst ` set patch)"
| "pairs_with _ _ = False"

fun replace_reversals :: "InverseOp list \<Rightarrow> InverseOp list \<Rightarrow> InverseOp list" where
  "replace_reversals [] remaining = []"
| "replace_reversals (oper # ops) remaining =
     (case List.extract (\<lambda>r. pairs_with r oper) remaining of
        None \<Rightarrow> oper # replace_reversals ops remaining
      | Some (before, r, after) \<Rightarrow> r # replace_reversals ops (before @ after))"

definition replaceOperationReversals :: "InverseOp list \<Rightarrow> InverseOp list \<Rightarrow> InverseOp list" where
  "replaceOperationReversals paired reversals = replace_reversals paired (rev reversals)"

subsection \<open>Equality of values at a path\<close>

text \<open>A value of a field: JSON, or undefined where the row has no such field; none for a property that is absent.\<close>

definition field_value :: "jsval option \<Rightarrow> bool" where
  "field_value v = (case v of None \<Rightarrow> True | Some x \<Rightarrow> x = VUndefined \<or> json_plain x \<and> keys_distinct x)"

fun at_path :: "string list \<Rightarrow> jsval option \<Rightarrow> jsval option" where
  "at_path [] v = v"
| "at_path (key # path) v = (case object_props v of None \<Rightarrow> None | Some ps \<Rightarrow> at_path path (map_of ps key))"

definition canonical :: "jsval option \<Rightarrow> jsval option" where
  "canonical v = map_option sortKeysDeep v"

lemma field_value_simps [simp]:
  "field_value None"
  "field_value (Some VUndefined)"
  "x \<noteq> VUndefined \<Longrightarrow> field_value (Some x) \<longleftrightarrow> json_plain x \<and> keys_distinct x"
  by (simp_all add: field_value_def)

lemma sortKeysDeep_undefined: "sortKeysDeep x = VUndefined \<longleftrightarrow> x = VUndefined"
  by (cases x) simp_all

lemma deepEqual_undefined: "deepEqual VUndefined x \<longleftrightarrow> x = VUndefined" "deepEqual x VUndefined \<longleftrightarrow> x = VUndefined"
  by (cases x; simp add: deepEqual.simps strict_equal_def)+

lemma deepEqualM_canonical:
  assumes "field_value a" and "field_value b"
  shows "deepEqualM a b \<longleftrightarrow> canonical a = canonical b"
proof (cases "a = None \<or> b = None")
  case True
  then show ?thesis by (cases a; cases b) (auto simp: canonical_def)
next
  case False
  then obtain x y where xy: "a = Some x" "b = Some y" by auto
  show ?thesis
  proof (cases "x = VUndefined \<or> y = VUndefined")
    case True
    then show ?thesis by (auto simp: xy canonical_def deepEqual_undefined sortKeysDeep_undefined dest: sym)
  next
    case False
    with assms show ?thesis by (simp add: xy canonical_def deepEqual_canonical)
  qed
qed

lemma field_value_own: "field_value v \<Longrightarrow> object_props v = Some ps \<Longrightarrow> field_value (map_of ps key)"
  by (cases "map_of ps key")
     (auto simp: object_props_Some field_value_def list_all_iff dest!: map_of_SomeD bspec)

lemma field_value_at: "field_value v \<Longrightarrow> field_value (at_path path v)"
  by (induction path arbitrary: v) (auto split: option.splits intro: field_value_own)

lemma map_of_sort_key: "distinct (map fst ps) \<Longrightarrow> map_of (sort_key fst ps) = map_of ps"
  by (rule map_of_eqI) (auto simp: distinct_map map_of_eq_Some_iff image_iff intro!: map_of_is_SomeI)

lemma canonical_own:
  assumes "field_value a" and "field_value b" and "canonical a = canonical b"
    and "object_props a = Some ps" and "object_props b = Some qs"
  shows "canonical (map_of ps key) = canonical (map_of qs key)"
proof -
  let ?s = "\<lambda>ps. map (map_prod id sortKeysDeep) ps"
  have d: "distinct (map fst (?s ps))" "distinct (map fst (?s qs))"
    using assms by (auto simp: object_props_Some)
  have "map_of (?s ps) = map_of (sort_key fst (?s ps))" "map_of (?s qs) = map_of (sort_key fst (?s qs))"
    using d by (simp_all only: map_of_sort_key)
  moreover have "sort_key fst (?s ps) = sort_key fst (?s qs)"
    using assms by (auto simp: object_props_Some canonical_def)
  ultimately have "map_of (?s ps) key = map_of (?s qs) key" by metis
  moreover have "map_of (?s xs) key = map_option sortKeysDeep (map_of xs key)" for xs
    by (induction xs) auto
  ultimately show ?thesis by (simp add: canonical_def)
qed

lemma object_canonical:
  assumes "field_value a"
  shows "object_props a = None \<longleftrightarrow> (\<forall>ps. canonical a \<noteq> Some (VObj True False ps))"
proof (cases a)
  case (Some x)
  with assms show ?thesis by (cases x) (auto simp: canonical_def)
qed (simp add: canonical_def)

lemma canonical_object: "field_value a \<Longrightarrow> field_value b \<Longrightarrow> canonical a = canonical b \<Longrightarrow>
    object_props a = None \<longleftrightarrow> object_props b = None"
  by (metis object_canonical)

lemma canonical_at:
  "field_value a \<Longrightarrow> field_value b \<Longrightarrow> canonical a = canonical b \<Longrightarrow> canonical (at_path path a) = canonical (at_path path b)"
proof (induction path arbitrary: a b)
  case (Cons key path)
  show ?case
  proof (cases "object_props a = None")
    case True
    then show ?thesis using canonical_object [OF Cons.prems] by simp
  next
    case False
    then obtain ps qs where o: "object_props a = Some ps" "object_props b = Some qs"
      using canonical_object [OF Cons.prems] by (metis option.exhaust)
    have "canonical (at_path path (map_of ps key)) = canonical (at_path path (map_of qs key))"
      by (rule Cons.IH [OF field_value_own [OF Cons.prems(1) o(1)] field_value_own [OF Cons.prems(2) o(2)]
            canonical_own [OF Cons.prems o]])
    then show ?thesis by (simp add: o)
  qed
qed simp

subsection \<open>The merge is a three-way merge\<close>

lemma map_of_replay:
  "map_of (concat (map (\<lambda>key. case f key of None \<Rightarrow> [] | Some x \<Rightarrow> [(key, x)]) keys)) key =
     (if key \<in> set keys then f key else None)"
  by (induction keys) (auto simp: map_add_def split: option.splits)

lemma set_js_set [simp]: "set (js_set ks) = set ks"
  by (simp add: js_set_def)

lemma replayValue_object:
  assumes "\<not> deepEqualM v e" "\<not> deepEqualM c e"
    and "object_props v = Some vs" "object_props e = Some es" "object_props c = Some cs"
  shows "at_path (key # path) (replayValue v e c) = at_path path (replayValue (map_of vs key) (map_of es key) (map_of cs key))"
proof -
  let ?f = "\<lambda>key. replayValue (map_of vs key) (map_of es key) (map_of cs key)"
  let ?ps = "concat (map (\<lambda>key. case ?f key of None \<Rightarrow> [] | Some x \<Rightarrow> [(key, x)])
      (js_set (map fst cs @ map fst es @ map fst vs)))"
  have "object_props (replayValue v e c) = Some ?ps"
    by (subst replayValue.simps) (simp add: assms)
  moreover have "map_of ?ps key = ?f key"
  proof (cases "key \<in> set (map fst cs @ map fst es @ map fst vs)")
    case False
    then have "map_of vs key = None" "map_of es key = None" "map_of cs key = None"
      by (auto simp: map_of_eq_None_iff)
    with False show ?thesis by (simp add: map_of_replay replayValue.simps [of None None None])
  next
    case True
    then show ?thesis by (simp add: map_of_replay)
  qed
  ultimately show ?thesis by simp
qed

lemma replayValue_cases:
  obtains (unchanged) "deepEqualM v e" "replayValue v e c = c"
  | (standing) "\<not> deepEqualM v e" "deepEqualM c e" "replayValue v e c = v"
  | (objects) vs es cs where "\<not> deepEqualM v e" "\<not> deepEqualM c e"
      "object_props v = Some vs" "object_props e = Some es" "object_props c = Some cs"
  | (conflict) "\<not> deepEqualM v e" "\<not> deepEqualM c e"
      "object_props v = None \<or> object_props e = None \<or> object_props c = None" "replayValue v e c = c"
proof -
  have r: "replayValue v e c = c" if "\<not> deepEqualM v e" "\<not> deepEqualM c e"
      "object_props v = None \<or> object_props e = None \<or> object_props c = None"
    using that by (subst replayValue.simps) (auto split: option.splits)
  show ?thesis
  proof (cases "deepEqualM v e \<or> deepEqualM c e")
    case True
    then show ?thesis using that(1,2) replayValue.simps [of v e c] by (auto split: if_splits)
  next
    case False
    then show ?thesis using that(3,4) r by (cases "object_props v"; cases "object_props e"; cases "object_props c") auto
  qed
qed

lemma replay_untouched:
  assumes "field_value v" "field_value e" "field_value c"
    and "canonical (at_path path v) = canonical (at_path path e)"
  shows "canonical (at_path path (replayValue v e c)) = canonical (at_path path c)"
  using assms
proof (induction path arbitrary: v e c)
  case Nil
  then have "deepEqualM v e" by (simp add: deepEqualM_canonical)
  then show ?case by (simp add: replayValue.simps [of v e c])
next
  case (Cons key path)
  show ?case
  proof (cases v e c rule: replayValue_cases)
    case standing
    then have "canonical (at_path (key # path) c) = canonical (at_path (key # path) e)"
      using Cons.prems by (intro canonical_at) (simp_all add: deepEqualM_canonical)
    then show ?thesis using Cons.prems(4) standing(3) by metis
  next
    case (objects vs es cs)
    have "canonical (at_path path (replayValue (map_of vs key) (map_of es key) (map_of cs key))) =
        canonical (at_path path (map_of cs key))"
      by (rule Cons.IH [OF field_value_own [OF Cons.prems(1) objects(3)] field_value_own [OF Cons.prems(2) objects(4)]
            field_value_own [OF Cons.prems(3) objects(5)]]) (use Cons.prems(4) objects in simp)
    then show ?thesis using replayValue_object [OF objects] objects(5) by simp
  qed simp_all
qed

definition mergeable :: "jsval option \<Rightarrow> jsval option \<Rightarrow> jsval option \<Rightarrow> bool" where
  "mergeable v e c = (deepEqualM c e \<or> (object_props v \<noteq> None \<and> object_props e \<noteq> None \<and> object_props c \<noteq> None))"

lemma replay_standing:
  assumes "field_value v" "field_value e" "field_value c"
    and "canonical (at_path path c) = canonical (at_path path e)"
    and "\<forall>n < length path. mergeable (at_path (take n path) v) (at_path (take n path) e) (at_path (take n path) c)"
  shows "canonical (at_path path (replayValue v e c)) = canonical (at_path path v)"
  using assms
proof (induction path arbitrary: v e c)
  case Nil
  then show ?case
    by (cases v e c rule: replayValue_cases) (simp_all add: deepEqualM_canonical)
next
  case (Cons key path)
  show ?case
  proof (cases v e c rule: replayValue_cases)
    case unchanged
    then have "canonical (at_path (key # path) v) = canonical (at_path (key # path) e)"
      using Cons.prems by (intro canonical_at) (simp_all add: deepEqualM_canonical)
    then show ?thesis using Cons.prems(4) unchanged(2) by metis
  next
    case (objects vs es cs)
    have "mergeable (at_path (take n path) (map_of vs key)) (at_path (take n path) (map_of es key)) (at_path (take n path) (map_of cs key))"
      if "n < length path" for n
      using Cons.prems(5) [rule_format, of "Suc n"] that objects by simp
    then have "canonical (at_path path (replayValue (map_of vs key) (map_of es key) (map_of cs key))) =
        canonical (at_path path (map_of vs key))"
      by (intro Cons.IH [OF field_value_own [OF Cons.prems(1) objects(3)] field_value_own [OF Cons.prems(2) objects(4)]
            field_value_own [OF Cons.prems(3) objects(5)]]) (use Cons.prems(4) objects in simp_all)
    then show ?thesis using replayValue_object [OF objects] objects(3) by simp
  next
    case conflict
    then show ?thesis using Cons.prems(5) [rule_format, of 0] by (auto simp: mergeable_def)
  qed simp
qed

lemma replay_conflict:
  assumes "field_value v" "field_value e" "field_value c"
    and "canonical (at_path path c) \<noteq> canonical (at_path path e)"
    and "object_props (at_path path v) = None \<or> object_props (at_path path e) = None \<or> object_props (at_path path c) = None"
  shows "canonical (at_path path (replayValue v e c)) = canonical (at_path path c)"
  using assms
proof (induction path arbitrary: v e c)
  case Nil
  then show ?case
    by (cases v e c rule: replayValue_cases) (simp_all add: deepEqualM_canonical)
next
  case (Cons key path)
  show ?case
  proof (cases v e c rule: replayValue_cases)
    case standing
    then have "canonical (at_path (key # path) c) = canonical (at_path (key # path) e)"
      using Cons.prems by (intro canonical_at) (simp_all add: deepEqualM_canonical)
    then show ?thesis using Cons.prems(4) by blast
  next
    case (objects vs es cs)
    have "canonical (at_path path (replayValue (map_of vs key) (map_of es key) (map_of cs key))) =
        canonical (at_path path (map_of cs key))"
      by (rule Cons.IH [OF field_value_own [OF Cons.prems(1) objects(3)] field_value_own [OF Cons.prems(2) objects(4)]
            field_value_own [OF Cons.prems(3) objects(5)]]) (use Cons.prems(4,5) objects in simp_all)
    then show ?thesis using replayValue_object [OF objects] objects(5) by simp
  qed simp_all
qed

text \<open>What a replay writes is a value of the same kind.\<close>

definition json_opt :: "jsval option \<Rightarrow> bool" where
  "json_opt v = (\<forall>x. v = Some x \<longrightarrow> json_plain x \<and> keys_distinct x)"

lemma json_opt_own: "field_value v \<Longrightarrow> object_props v = Some ps \<Longrightarrow> json_opt (map_of ps key)"
  by (auto simp: json_opt_def object_props_Some list_all_iff dest!: map_of_SomeD bspec)

lemma json_opt_field_value: "json_opt v \<Longrightarrow> field_value v"
  by (auto simp: json_opt_def field_value_def split: option.splits)

lemma distinct_replay:
  "distinct keys \<Longrightarrow> distinct (map fst (concat (map (\<lambda>key. case f key of None \<Rightarrow> [] | Some x \<Rightarrow> [(key, x)]) keys)))"
  by (induction keys) (auto split: option.splits)

lemma json_opt_object:
  assumes "distinct keys" and "\<And>key. json_opt (f key)"
  shows "json_opt (Some (VObj True False (concat (map (\<lambda>key. case f key of None \<Rightarrow> [] | Some x \<Rightarrow> [(key, x)]) keys))))"
  using assms distinct_replay [OF assms(1), of f]
  by (auto simp: json_opt_def list_all_iff split: option.splits)

lemma replayValue_json: "json_opt v \<Longrightarrow> json_opt e \<Longrightarrow> json_opt c \<Longrightarrow> json_opt (replayValue v e c)"
proof (induction v e c rule: replayValue.induct)
  case (1 v e c)
  show ?case
  proof (cases v e c rule: replayValue_cases)
    case (objects vs es cs)
    let ?f = "\<lambda>key. if key \<in> set (js_set (map fst cs @ map fst es @ map fst vs))
        then replayValue (map_of vs key) (map_of es key) (map_of cs key) else None"
    have own: "json_opt (map_of vs key)" "json_opt (map_of es key)" "json_opt (map_of cs key)" for key
      using objects "1.prems" by (auto intro: json_opt_own json_opt_field_value)
    have f: "json_opt (?f key)" for key
    proof (cases "key \<in> set (js_set (map fst cs @ map fst es @ map fst vs))")
      case True
      have "json_opt (replayValue (map_of vs key) (map_of es key) (map_of cs key))"
        by (rule "1.IH" [OF objects(1,2) refl objects(3) refl objects(4,5) True own])
      then show ?thesis using True by (simp add: if_P)
    qed (simp add: json_opt_def)
    have "replayValue v e c = Some (VObj True False (concat (map (\<lambda>key. case ?f key of None \<Rightarrow> [] | Some x \<Rightarrow> [(key, x)])
        (js_set (map fst cs @ map fst es @ map fst vs)))))"
      by (subst replayValue.simps) (auto simp: objects intro!: arg_cong [where f = concat] map_cong)
    then show ?thesis using json_opt_object [of _ ?f, OF _ f] by (simp add: js_set_def)
  qed (use "1.prems" in simp_all)
qed

lemma replayValue_field_value:
  assumes "field_value v" "field_value e" "field_value c"
  shows "field_value (replayValue v e c)"
proof (cases v e c rule: replayValue_cases)
  case (objects vs es cs)
  then have "json_opt v" "json_opt e" "json_opt c"
    using assms by (auto simp: object_props_Some json_opt_def)
  then show ?thesis by (intro json_opt_field_value replayValue_json)
qed (use assms in simp_all)

subsection \<open>The value of a field after a replay\<close>

text \<open>The value a field holds once the operations of a replay of one row are applied.\<close>

fun field_after :: "undo_pool \<Rightarrow> InverseOp list \<Rightarrow> string \<Rightarrow> string \<Rightarrow> jsval" where
  "field_after store [] i field = readCurrentField store i field"
| "field_after store (OpUpdate m j patch # ops) i field =
     (case (j = i, map_of patch field) of
        (True, Some w) \<Rightarrow> w
      | _ \<Rightarrow> field_after store ops i field)"
| "field_after store (_ # ops) i field = field_after store ops i field"

lemma map_of_concat_keep:
  "map_of (concat (map (keep_field store i established) patch)) field =
     (case map_of patch field of None \<Rightarrow> None | Some v \<Rightarrow> map_of (keep_field store i established (field, v)) field)"
  if "distinct (map fst patch)"
  using that
proof (induction patch)
  case (Cons p patch)
  obtain f w where p: "p = (f, w)" by fastforce
  have k: "fst ` set (keep_field store i established (f, w)) \<subseteq> {f}"
    by (auto simp: keep_field_def Let_def split: option.splits if_splits)
  have other: "map_of (keep_field store i established (f, w)) field = None" if "f \<noteq> field"
    using k that by (auto simp: map_of_eq_None_iff)
  show ?case
  proof (cases "f = field")
    case True
    moreover have "map_of patch field = None" using Cons.prems p True by (simp add: map_of_eq_None_iff)
    ultimately show ?thesis using Cons p by (simp add: map_add_def split: option.split)
  next
    case False
    then show ?thesis using Cons p other by (simp add: map_add_def)
  qed
qed simp

lemma replay_writes_merge:
  fixes m
  assumes d: "distinct (map fst patch)" and v: "map_of patch field = Some v" and i: "field \<noteq> ''id''"
    and e: "Option.bind (map_of (buildEstablished paired) i) (\<lambda>es. map_of es field) = Some e"
    and fv: "field_value (Some v)" "field_value (Some e)" "field_value (Some (readCurrentField store i field))"
  defines "after \<equiv> Some (field_after store (resolveOps [OpUpdate m i patch] paired store SkipStale) i field)"
  shows "field_value after" and "canonical after = canonical (replayValue (Some v) (Some e) (Some (readCurrentField store i field)))"
proof -
  let ?c = "readCurrentField store i field" and ?es = "map_of (buildEstablished paired) i"
  let ?r = "replayValue (Some v) (Some e) (Some ?c)"
  let ?out = "concat (map (keep_field store i ?es) patch)"
  obtain n where n: "?r = Some n"
    by (cases "Some v" "Some e" "Some ?c" rule: replayValue_cases)
       (auto simp: replayValue.simps [of "Some v" "Some e" "Some ?c"])
  have out: "map_of ?out field = (if deepEqual n ?c then None else Some n)"
    using map_of_concat_keep [OF d] v i e n by (simp add: keep_field_def Let_def)
  have after: "after = Some (case map_of ?out field of None \<Rightarrow> ?c | Some w \<Rightarrow> w)"
    unfolding after_def
    by (cases "?out = []") (simp_all add: resolveOps_def resolve_op_def filterStalePatch_def Let_def del: concat_eq_Nil_conv split: option.splits)
  have "canonical (Some n) = canonical (Some ?c)" if "deepEqual n ?c"
    using that deepEqualM_canonical [of "Some n" "Some ?c"] replayValue_field_value [OF fv] fv(3) n by simp
  with after show "canonical after = canonical ?r" using out n by simp
  show "field_value after" using after out n replayValue_field_value [OF fv] fv(3) by simp
qed

subsection \<open>Properties\<close>

text \<open>
  C20. Under the default policy undo is a three-way merge of JSON values. Let v be the value a field
  is replayed to, e the value the change established and c the live value. At every path: where v
  and e agree the live value stays; where c and e agree and no ancestor is an atomic conflict the
  field becomes v; and where c and e differ and one of the three is not a plain object the
  collaborator's value stays.
\<close>

theorem undo_is_three_way_merge:
  fixes store i field
  defines "c \<equiv> Some (readCurrentField store i field)"
  assumes "distinct (map fst patch)" and "map_of patch field = Some v" and "field \<noteq> ''id''"
    and "Option.bind (map_of (buildEstablished paired) i) (\<lambda>es. map_of es field) = Some e"
    and "field_value (Some v)" and "field_value (Some e)" and "field_value c"
  shows "let after = Some (field_after store (resolveOps [OpUpdate m i patch] paired store SkipStale) i field);
             same = (\<lambda>x y. canonical (at_path path x) = canonical (at_path path y))
         in (same (Some v) (Some e) \<longrightarrow> same after c)
          \<and> (same c (Some e) \<and> (\<forall>n < length path. mergeable (at_path (take n path) (Some v))
                 (at_path (take n path) (Some e)) (at_path (take n path) c)) \<longrightarrow> same after (Some v))
          \<and> (\<not> same c (Some e) \<and> (object_props (at_path path (Some v)) = None \<or>
                 object_props (at_path path (Some e)) = None \<or> object_props (at_path path c) = None) \<longrightarrow> same after c)"
proof -
  let ?after = "Some (field_after store (resolveOps [OpUpdate m i patch] paired store SkipStale) i field)"
  let ?r = "replayValue (Some v) (Some e) c"
  have fv: "field_value (Some v)" "field_value (Some e)" "field_value c" by fact+
  have fa: "field_value ?after" and after: "canonical ?after = canonical ?r"
    unfolding c_def using replay_writes_merge [of patch field v paired i e store m] assms by (simp_all add: c_def)
  have at: "canonical (at_path path ?after) = canonical (at_path path ?r)"
    by (rule canonical_at [OF fa replayValue_field_value [OF fv] after])
  show ?thesis
    using replay_untouched [OF fv] replay_standing [OF fv] replay_conflict [OF fv] by (simp add: Let_def at)
qed

text \<open>A title and a colour were changed together; a collaborator has since changed the colour and added a note.\<close>

definition merge_store :: undo_pool where
  "merge_store i = (if i = ''block'' then Some [(''style'', VObj True False
     [(''title'', VStr ''new''), (''colour'', VStr ''green''), (''note'', VStr ''hi'')])] else None)"

definition merge_patch :: js_props where
  "merge_patch = [(''style'', VObj True False [(''title'', VStr ''old''), (''colour'', VStr ''red'')])]"

definition merge_forward :: js_props where
  "merge_forward = [(''style'', VObj True False [(''title'', VStr ''new''), (''colour'', VStr ''blue'')])]"

theorem undo_is_three_way_merge_witness:
  "let after = Some (field_after merge_store (resolveOps [OpUpdate ''blocks'' ''block'' merge_patch]
         [OpUpdate ''blocks'' ''block'' merge_forward] merge_store SkipStale) ''block'' ''style'')
   in canonical (at_path [''title''] after) = Some (VStr ''old'')
    \<and> canonical (at_path [''colour''] after) = Some (VStr ''green'')
    \<and> canonical (at_path [''note''] after) = Some (VStr ''hi'')"
proof -
  let ?v = "VObj True False [(''title'', VStr ''old''), (''colour'', VStr ''red'')]"
  let ?e = "VObj True False [(''title'', VStr ''new''), (''colour'', VStr ''blue'')]"
  have hyps: "distinct (map fst merge_patch)" "map_of merge_patch ''style'' = Some ?v" "''style'' \<noteq> ''id''"
    "Option.bind (map_of (buildEstablished [OpUpdate ''blocks'' ''block'' merge_forward]) ''block'') (\<lambda>es. map_of es ''style'') = Some ?e"
    "field_value (Some ?v)" "field_value (Some ?e)" "field_value (Some (readCurrentField merge_store ''block'' ''style''))"
    by (simp_all add: merge_patch_def merge_forward_def merge_store_def buildEstablished_def set_established_def spread_def
        readCurrentField_def js_get_def)
  note merge = undo_is_three_way_merge [OF hyps, of "''blocks''", unfolded Let_def]
  have eval: "readCurrentField merge_store ''block'' ''style'' = VObj True False
      [(''title'', VStr ''new''), (''colour'', VStr ''green''), (''note'', VStr ''hi'')]"
    by (simp add: merge_store_def readCurrentField_def js_get_def)
  show ?thesis
    using merge [of "[''title'']"] merge [of "[''colour'']"] merge [of "[''note'']"]
    by (simp add: eval canonical_def mergeable_def Let_def)
qed

text \<open>
  An archived row reads its time as text, so the value \<open>archive\<close> established, a \<open>Date\<close>, never
  equals the live one: under the default policy undoing an archive writes nothing.
\<close>

theorem undo_of_archive_dropped:
  assumes "readCurrentField store (lm_modelId m) ''archivedAt'' = VStr iso_text" and "lm_kind m = MkArchive"
    and "buildUndoOps edit_id now m modelKey merge = (forward, Some backward)"
  shows "resolveOps [backward] [forward] store SkipStale = []"
proof -
  have ops: "forward = OpUpdate modelKey (lm_modelId m) [(''archivedAt'', VDate now)]"
    "backward = OpUpdate modelKey (lm_modelId m) [(''archivedAt'', VNull)]"
    using assms(2,3) by (simp_all add: buildUndoOps_def Let_def)
  have "replayValue (Some VNull) (Some (VDate now)) (Some (VStr iso_text)) = Some (VStr iso_text)"
    by (simp add: replayValue.simps deepEqual.simps strict_equal_def)
  then show ?thesis
    by (simp add: ops resolveOps_def resolve_op_def filterStalePatch_def keep_field_def buildEstablished_def
        set_established_def spread_def assms(1) Let_def deepEqual.simps strict_equal_def)
qed

end
