(* ===== verification/UndoScope.thy ===== *)
theory UndoScope
  imports UndoReplay
begin

section \<open>Undo scopes\<close>

text \<open>
  Model of the class \<open>UndoScope\<close> of \<open>packages/humans/src/local/mutators/UndoManager.ts\<close>.

  Entries are objects: a stack holds their identities, the weak map of progress is keyed by them.
  A step is one event of the host's queue: a call of a method, the start of the next queued call,
  the answer to the submission a replay waits for. \<open>turn\<close> and \<open>accepted\<close> carry the pool as the code
  reads it then. Labels and the two listener sets are left out; every entry is well typed, so
  \<open>parseUndoEntry\<close> accepts it.
\<close>

subsection \<open>State\<close>

record ReplayProgress =
  rp_remaining :: "InverseOp list"
  rp_reversed :: "InverseOp list"
  rp_completed :: nat
  rp_baseline :: "((string \<times> string) \<times> js_props) list"
  rp_uncertain :: bool

datatype scope_call = CallUndo | CallRedo | CallRecorded

datatype scope_active =
    Idle
  | Replaying bool nat ReplayProgress InverseOp
  | RunningWork

type_synonym undo_ops = "InverseOp \<times> InverseOp option"

record UndoScope =
  us_entries :: "(nat \<times> UndoEntry) list"
  us_fresh :: nat
  us_undoStack :: "nat list"
  us_redoStack :: "nat list"
  us_replayProgress :: "(nat \<times> ReplayProgress) list"
  us_tail :: "scope_call list"
  us_active :: scope_active
  us_batch :: "undo_ops list"
  us_flushScheduled :: bool
  us_group :: "undo_ops list option"
  us_subscribed :: bool

record scope_config =
  sc_models :: "(string \<times> string option) list"
  sc_merge :: "string \<Rightarrow> string \<Rightarrow> merge_domain option"
  sc_edit_id :: "merge_domain \<Rightarrow> jsval \<Rightarrow> string option"
  sc_spec :: "string \<Rightarrow> bool option"
  sc_maxHistory :: nat
  sc_conflictPolicy :: UndoConflictPolicy
  sc_tracksModel :: "(string \<Rightarrow> bool) option"
  sc_recordFromStream :: bool
  sc_undoScopeId :: string

definition new_scope :: "scope_config \<Rightarrow> UndoScope" where
  "new_scope cfg = \<lparr>us_entries = [], us_fresh = 0, us_undoStack = [], us_redoStack = [], us_replayProgress = [],
     us_tail = [], us_active = Idle, us_batch = [], us_flushScheduled = False, us_group = None,
     us_subscribed = sc_recordFromStream cfg\<rparr>"

text \<open>What a step does outside the scope. A submission and its acceptance carry how many operations the replay has left.\<close>

datatype undo_effect =
    Began nat "InverseOp list"
  | SubmitOp nat nat InverseOp
  | AcceptedOp nat nat
  | Resolved
  | RejectedStale nat
  | RejectedError nat

subsection \<open>Model names\<close>

fun replace_first :: "string \<Rightarrow> string \<Rightarrow> string" where
  "replace_first pat [] = []"
| "replace_first pat (x # xs) =
     (if take (length pat) (x # xs) = pat then drop (length pat) (x # xs) else x # replace_first pat xs)"

definition normalizeModelAlias :: "string \<Rightarrow> string" where
  "normalizeModelAlias modelName = toLowerCase (replace_first ''Model'' modelName)"

definition alias_entries :: "string \<Rightarrow> string \<Rightarrow> (string \<times> string) list" where
  "alias_entries schemaKey alias = [(alias, schemaKey), (toLowerCase alias, schemaKey), (normalizeModelAlias alias, schemaKey)]"

definition schemaKeyByAlias :: "(string \<times> string option) list \<Rightarrow> (string \<times> string) list" where
  "schemaKeyByAlias models = fold (\<lambda>(k, v) m. AList.update k v m)
     (concat (map (\<lambda>(schemaKey, typename).
        concat (map (alias_entries schemaKey) [schemaKey, case typename of None \<Rightarrow> schemaKey | Some t \<Rightarrow> t])) models)) []"

definition resolveSchemaKey :: "scope_config \<Rightarrow> string \<Rightarrow> string option" where
  "resolveSchemaKey cfg modelName = (case map_of (schemaKeyByAlias (sc_models cfg)) modelName of
      Some k \<Rightarrow> Some k
    | None \<Rightarrow> map_of (schemaKeyByAlias (sc_models cfg)) (normalizeModelAlias modelName))"

subsection \<open>Recording\<close>

definition keeps_redo :: "(nat \<times> ReplayProgress) list \<Rightarrow> nat \<Rightarrow> bool" where
  "keeps_redo progress i = (case map_of progress i of None \<Rightarrow> False | Some p \<Rightarrow> rp_completed p > 0 \<or> rp_uncertain p)"

definition push_capped :: "nat \<Rightarrow> nat \<Rightarrow> nat list \<Rightarrow> nat list" where
  "push_capped maxHistory i stack = (let pushed = stack @ [i] in if length pushed > maxHistory then tl pushed else pushed)"

definition record_entry :: "scope_config \<Rightarrow> UndoEntry \<Rightarrow> UndoScope \<Rightarrow> UndoScope" where
  "record_entry cfg entry s = s\<lparr>
     us_entries := AList.update (us_fresh s) entry (us_entries s),
     us_fresh := Suc (us_fresh s),
     us_undoStack := push_capped (sc_maxHistory cfg) (us_fresh s) (us_undoStack s),
     us_redoStack := filter (keeps_redo (us_replayProgress s)) (us_redoStack s)\<rparr>"

definition record_collected :: "scope_config \<Rightarrow> undo_ops list \<Rightarrow> UndoScope \<Rightarrow> UndoScope" where
  "record_collected cfg collected s =
     (let forwards = map fst collected; inverses = rev (List.map_filter snd collected)
      in if forwards = [] \<and> inverses = [] then s
         else record_entry cfg \<lparr>ue_inverses = inverses, ue_forwards = forwards\<rparr> s)"

definition endGroup :: "scope_config \<Rightarrow> UndoScope \<Rightarrow> UndoScope" where
  "endGroup cfg s = (case us_group s of None \<Rightarrow> s | Some ops \<Rightarrow> record_collected cfg ops (s\<lparr>us_group := None\<rparr>))"

definition beginGroup :: "scope_config \<Rightarrow> UndoScope \<Rightarrow> UndoScope" where
  "beginGroup cfg s = (endGroup cfg s)\<lparr>us_group := Some []\<rparr>"

definition flushBatch :: "scope_config \<Rightarrow> UndoScope \<Rightarrow> UndoScope" where
  "flushBatch cfg s = (if us_batch s = [] then s else record_collected cfg (us_batch s) (s\<lparr>us_batch := []\<rparr>))"

definition run_flush :: "scope_config \<Rightarrow> UndoScope \<Rightarrow> UndoScope" where
  "run_flush cfg s = (if us_flushScheduled s then flushBatch cfg (s\<lparr>us_flushScheduled := False\<rparr>) else s)"

definition onLocalMutation :: "scope_config \<Rightarrow> string option \<Rightarrow> LocalMutation \<Rightarrow> UndoScope \<Rightarrow> UndoScope" where
  "onLocalMutation cfg now m s =
     (if \<not> us_subscribed s then s else case resolveSchemaKey cfg (lm_modelName m) of
        None \<Rightarrow> s
      | Some schemaKey \<Rightarrow>
          if lm_undoScopeId m = Some (sc_undoScopeId cfg) then s
          else if (case sc_tracksModel cfg of None \<Rightarrow> False | Some tracks \<Rightarrow> \<not> tracks schemaKey) then s
          else
            let ops = buildUndoOps (sc_edit_id cfg) now m schemaKey (sc_merge cfg schemaKey)
            in case us_group s of
                 Some grouped \<Rightarrow> s\<lparr>us_group := Some (grouped @ [ops])\<rparr>
               | None \<Rightarrow> s\<lparr>us_batch := us_batch s @ [ops], us_flushScheduled := True\<rparr>)"

subsection \<open>Replaying\<close>

fun row_target :: "InverseOp \<Rightarrow> ((string \<times> string) \<times> js_props) option" where
  "row_target (OpUpdate m i patch) = Some ((m, i), patch)"
| "row_target (OpReverse m i _ _ _ patch) = Some ((m, i), patch)"
| "row_target _ = None"

definition capture_op :: "undo_pool \<Rightarrow> InverseOp \<Rightarrow> ((string \<times> string) \<times> js_props) list \<Rightarrow> ((string \<times> string) \<times> js_props) list" where
  "capture_op store operation rows = (case row_target operation of
      None \<Rightarrow> rows
    | Some (key, patch) \<Rightarrow>
        (let row = (case map_of rows key of None \<Rightarrow> [] | Some r \<Rightarrow> r);
             seen = map (\<lambda>field. (field, readCurrentField store (snd key) field)) (filter (\<lambda>f. f \<noteq> ''id'') (map fst patch))
         in AList.update key (spread row seen) rows))"

definition captureReplayBaseline :: "InverseOp list \<Rightarrow> undo_pool \<Rightarrow> ((string \<times> string) \<times> js_props) list" where
  "captureReplayBaseline ops store = fold (capture_op store) ops []"

definition paired_baseline :: "((string \<times> string) \<times> js_props) list \<Rightarrow> InverseOp \<Rightarrow> InverseOp list" where
  "paired_baseline baseline operation = (case row_target operation of
      None \<Rightarrow> []
    | Some (key, _) \<Rightarrow> (case map_of baseline key of None \<Rightarrow> [] | Some patch \<Rightarrow> [OpUpdate (fst key) (snd key) patch]))"

text \<open>The loop of \<open>applyOps\<close> up to the next operation it submits: operations that resolve to nothing are shifted off.\<close>

fun next_submission :: "UndoConflictPolicy \<Rightarrow> undo_pool \<Rightarrow> ((string \<times> string) \<times> js_props) list \<Rightarrow> InverseOp list
    \<Rightarrow> InverseOp list \<times> InverseOp option" where
  "next_submission policy store baseline [] = ([], None)"
| "next_submission policy store baseline (pending # rest) =
     (case expandReplayOps (resolveOps [pending] (paired_baseline baseline pending) store policy) of
        [] \<Rightarrow> next_submission policy store baseline rest
      | operation # _ \<Rightarrow> (pending # rest, Some operation))"

text \<open>An accepted operation advances the baseline of its row, and leaves the front of the replay.\<close>

definition advance_baseline :: "InverseOp \<Rightarrow> InverseOp \<Rightarrow> ((string \<times> string) \<times> js_props) list
    \<Rightarrow> ((string \<times> string) \<times> js_props) list" where
  "advance_baseline pending operation baseline = (case (row_target pending, row_target operation) of
      (Some (key, _), Some (_, patch)) \<Rightarrow>
        (case map_of baseline key of None \<Rightarrow> baseline | Some row \<Rightarrow> AList.update key (spread row patch) baseline)
    | _ \<Rightarrow> baseline)"

fun reversal_of :: "string \<Rightarrow> js_props \<Rightarrow> InverseOp \<Rightarrow> InverseOp list" where
  "reversal_of editId row (OpReverse m i field domain _ patch) =
     [OpReverse m i field domain editId (map (\<lambda>f. (f, js_get row f)) (map fst patch))]"
| "reversal_of editId row _ = []"

definition accept_op :: "string \<Rightarrow> js_props \<Rightarrow> InverseOp \<Rightarrow> ReplayProgress \<Rightarrow> ReplayProgress" where
  "accept_op editId row operation p = p\<lparr>
     rp_reversed := rp_reversed p @ reversal_of editId row operation,
     rp_baseline := (case rp_remaining p of [] \<Rightarrow> rp_baseline p | pending # _ \<Rightarrow> advance_baseline pending operation (rp_baseline p)),
     rp_remaining := tl (rp_remaining p),
     rp_completed := Suc (rp_completed p)\<rparr>"

definition save_progress :: "nat \<Rightarrow> ReplayProgress \<Rightarrow> UndoScope \<Rightarrow> UndoScope" where
  "save_progress i p s = (case map_of (us_replayProgress s) i of
      None \<Rightarrow> s
    | Some _ \<Rightarrow> s\<lparr>us_replayProgress := AList.update i p (us_replayProgress s)\<rparr>)"

definition stack_of :: "bool \<Rightarrow> UndoScope \<Rightarrow> nat list" where
  "stack_of undo s = (if undo then us_undoStack s else us_redoStack s)"

definition set_stack :: "bool \<Rightarrow> nat list \<Rightarrow> UndoScope \<Rightarrow> UndoScope" where
  "set_stack undo xs s = (if undo then s\<lparr>us_undoStack := xs\<rparr> else s\<lparr>us_redoStack := xs\<rparr>)"

definition give_back :: "bool \<Rightarrow> nat \<Rightarrow> UndoScope \<Rightarrow> UndoScope" where
  "give_back undo i s = (set_stack undo (stack_of undo s @ [i]) s)\<lparr>us_active := Idle\<rparr>"

definition replace_paired :: "bool \<Rightarrow> InverseOp list \<Rightarrow> UndoEntry \<Rightarrow> UndoEntry" where
  "replace_paired undo reversed entry =
     (if undo then entry\<lparr>ue_forwards := replaceOperationReversals (ue_forwards entry) reversed\<rparr>
      else entry\<lparr>ue_inverses := replaceOperationReversals (ue_inverses entry) reversed\<rparr>)"

definition complete_replay :: "scope_config \<Rightarrow> bool \<Rightarrow> nat \<Rightarrow> ReplayProgress \<Rightarrow> UndoScope \<Rightarrow> UndoScope" where
  "complete_replay cfg undo i p s =
     (let s1 = s\<lparr>us_replayProgress := AList.delete i (us_replayProgress s),
                 us_entries := (case map_of (us_entries s) i of
                     None \<Rightarrow> us_entries s
                   | Some entry \<Rightarrow> AList.update i (replace_paired undo (rp_reversed p) entry) (us_entries s)),
                 us_active := Idle\<rparr>
      in set_stack (\<not> undo) (push_capped (sc_maxHistory cfg) i (stack_of (\<not> undo) s1)) s1)"

definition fail_replay :: "bool \<Rightarrow> nat \<Rightarrow> ReplayProgress \<Rightarrow> bool \<Rightarrow> UndoScope \<Rightarrow> UndoScope" where
  "fail_replay undo i p definitive s =
     give_back undo i (save_progress i (p\<lparr>rp_uncertain := rp_uncertain p \<or> \<not> definitive\<rparr>) s)"

text \<open>The mutations of a transaction are a proxy that throws for a model the schema does not have.\<close>

definition unknown_model :: queue_error where
  "unknown_model = \<lparr>err_connection = False, err_code = Some ''transaction_mutate_unknown_model'', err_message = [],
     err_status = None, err_responseErrors = 0\<rparr>"

definition drive :: "scope_config \<Rightarrow> undo_pool \<Rightarrow> bool \<Rightarrow> nat \<Rightarrow> ReplayProgress \<Rightarrow> UndoScope
    \<Rightarrow> UndoScope \<times> undo_effect list" where
  "drive cfg store undo i p s =
     (case next_submission (sc_conflictPolicy cfg) store (rp_baseline p) (rp_remaining p) of
        (remaining, pending) \<Rightarrow>
          (let p1 = p\<lparr>rp_remaining := remaining\<rparr>; s1 = save_progress i p1 s
           in case pending of
                None \<Rightarrow> (complete_replay cfg undo i p1 s1, [Resolved])
              | Some operation \<Rightarrow>
                  if op_modelKey operation \<in> fst ` set (sc_models cfg)
                  then (s1\<lparr>us_active := Replaying undo i p1 operation\<rparr>, [SubmitOp i (length remaining) operation])
                  else (fail_replay undo i p1 (isDefinitiveRejection (sc_spec cfg) unknown_model) s1, [RejectedError i])))"

definition plan_replay :: "scope_config \<Rightarrow> undo_pool \<Rightarrow> bool \<Rightarrow> UndoEntry \<Rightarrow> InverseOp list" where
  "plan_replay cfg store undo entry =
     expandReplayOps (if undo then resolveOps (ue_inverses entry) (ue_forwards entry) store (sc_conflictPolicy cfg)
       else resolveOps (ue_forwards entry) (ue_inverses entry) store (sc_conflictPolicy cfg))"

definition replayEntry :: "scope_config \<Rightarrow> undo_pool \<Rightarrow> bool \<Rightarrow> nat \<Rightarrow> UndoScope \<Rightarrow> UndoScope \<times> undo_effect list" where
  "replayEntry cfg store undo i s = (case map_of (us_replayProgress s) i of
      Some p \<Rightarrow> if rp_uncertain p then (give_back undo i s, [RejectedStale i]) else drive cfg store undo i p s
    | None \<Rightarrow> (case map_of (us_entries s) i of
          None \<Rightarrow> (s, [])
        | Some entry \<Rightarrow>
            (let remaining = plan_replay cfg store undo entry;
                 p = \<lparr>rp_remaining = remaining, rp_reversed = [], rp_completed = 0,
                      rp_baseline = captureReplayBaseline remaining store, rp_uncertain = False\<rparr>;
                 s1 = s\<lparr>us_replayProgress := AList.update i p (us_replayProgress s)\<rparr>
             in apsnd ((#) (Began i remaining)) (drive cfg store undo i p s1))))"

definition start_replay :: "scope_config \<Rightarrow> undo_pool \<Rightarrow> bool \<Rightarrow> UndoScope \<Rightarrow> UndoScope \<times> undo_effect list" where
  "start_replay cfg store undo s =
     (if stack_of undo s = [] then (s, [Resolved])
      else replayEntry cfg store undo (last (stack_of undo s)) (set_stack undo (butlast (stack_of undo s)) s))"

subsection \<open>Events\<close>

definition enqueue_call :: "scope_call \<Rightarrow> UndoScope \<Rightarrow> UndoScope" where
  "enqueue_call c s = s\<lparr>us_tail := us_tail s @ [c]\<rparr>"

definition turn :: "scope_config \<Rightarrow> undo_pool \<Rightarrow> UndoScope \<Rightarrow> UndoScope \<times> undo_effect list" where
  "turn cfg store s = (case (us_active s, us_tail s) of
      (Idle, c # cs) \<Rightarrow>
        (let s1 = s\<lparr>us_tail := cs\<rparr>
         in case c of
              CallUndo \<Rightarrow> start_replay cfg store True s1
            | CallRedo \<Rightarrow> start_replay cfg store False s1
            | CallRecorded \<Rightarrow> (s1\<lparr>us_active := RunningWork\<rparr>, []))
    | _ \<Rightarrow> (s, []))"

definition accepted :: "scope_config \<Rightarrow> string \<Rightarrow> js_props \<Rightarrow> undo_pool \<Rightarrow> UndoScope \<Rightarrow> UndoScope \<times> undo_effect list" where
  "accepted cfg editId row store s = (case us_active s of
      Replaying undo i p operation \<Rightarrow>
        (let p1 = accept_op editId row operation p
         in apsnd ((#) (AcceptedOp i (length (rp_remaining p)))) (drive cfg store undo i p1 (save_progress i p1 s)))
    | _ \<Rightarrow> (s, []))"

definition rejected :: "scope_config \<Rightarrow> queue_error \<Rightarrow> UndoScope \<Rightarrow> UndoScope \<times> undo_effect list" where
  "rejected cfg e s = (case us_active s of
      Replaying undo i p operation \<Rightarrow> (fail_replay undo i p (isDefinitiveRejection (sc_spec cfg) e) s, [RejectedError i])
    | _ \<Rightarrow> (s, []))"

definition work_settled :: "UndoScope \<Rightarrow> UndoScope" where
  "work_settled s = (if us_active s = RunningWork then s\<lparr>us_active := Idle\<rparr> else s)"

definition clear_scope :: "UndoScope \<Rightarrow> UndoScope" where
  "clear_scope s = s\<lparr>us_undoStack := [], us_redoStack := [], us_replayProgress := [], us_batch := []\<rparr>"

definition dispose_scope :: "UndoScope \<Rightarrow> UndoScope" where
  "dispose_scope s = s\<lparr>us_subscribed := False, us_batch := []\<rparr>"

datatype undo_event =
    Record UndoEntry
  | LocalMutated "string option" LocalMutation
  | FlushMicrotask
  | BeginGroup
  | EndGroup
  | Call scope_call
  | Turn undo_pool
  | Accepted string js_props undo_pool
  | Rejected queue_error
  | WorkSettled
  | Clear
  | Dispose

primrec undo_step :: "scope_config \<Rightarrow> undo_event \<Rightarrow> UndoScope \<Rightarrow> UndoScope \<times> undo_effect list" where
  "undo_step cfg (Record entry) s = (record_entry cfg entry s, [])"
| "undo_step cfg (LocalMutated now m) s = (onLocalMutation cfg now m s, [])"
| "undo_step cfg FlushMicrotask s = (run_flush cfg s, [])"
| "undo_step cfg BeginGroup s = (beginGroup cfg s, [])"
| "undo_step cfg EndGroup s = (endGroup cfg s, [])"
| "undo_step cfg (Call c) s = (enqueue_call c s, [])"
| "undo_step cfg (Turn store) s = turn cfg store s"
| "undo_step cfg (Accepted editId row store) s = accepted cfg editId row store s"
| "undo_step cfg (Rejected e) s = rejected cfg e s"
| "undo_step cfg WorkSettled s = (work_settled s, [])"
| "undo_step cfg Clear s = (clear_scope s, [])"
| "undo_step cfg Dispose s = (dispose_scope s, [])"

subsection \<open>Runs\<close>

definition undo_init :: "scope_config \<Rightarrow> UndoScope \<Rightarrow> bool" where
  "undo_init cfg s = (s = new_scope cfg)"

inductive undo_steps :: "scope_config \<Rightarrow> (undo_event \<Rightarrow> bool) \<Rightarrow> UndoScope \<Rightarrow> undo_effect list \<Rightarrow> UndoScope \<Rightarrow> bool"
  for cfg allowed where
  undo_event: "allowed ev \<Longrightarrow> undo_step cfg ev s = (t, es) \<Longrightarrow> undo_steps cfg allowed s es t"

inductive_cases undo_stepsE: "undo_steps cfg allowed s es t"

abbreviation undo_run :: "scope_config \<Rightarrow> (undo_event \<Rightarrow> bool) \<Rightarrow> undo_effect list \<Rightarrow> UndoScope \<Rightarrow> bool" where
  "undo_run cfg allowed \<equiv> run (undo_init cfg) (undo_steps cfg allowed)"

lemmas recording_defs = record_entry_def record_collected_def endGroup_def beginGroup_def flushBatch_def run_flush_def onLocalMutation_def
lemmas stack_defs = stack_of_def set_stack_def give_back_def save_progress_def

subsection \<open>Frames\<close>

text \<open>Recording touches the entries and the stacks, never a replay.\<close>

definition same_replay :: "UndoScope \<Rightarrow> UndoScope \<Rightarrow> bool" where
  "same_replay s t = (us_replayProgress t = us_replayProgress s \<and> us_active t = us_active s \<and> us_tail t = us_tail s)"

lemma same_replay_trans: "same_replay s t \<Longrightarrow> same_replay t u \<Longrightarrow> same_replay s u"
  by (simp add: same_replay_def)

lemma recording_frames [simp]:
  "same_replay s (record_entry cfg entry s)"
  "same_replay s (record_collected cfg ops s)"
  "same_replay s (endGroup cfg s)"
  "same_replay s (beginGroup cfg s)"
  "same_replay s (run_flush cfg s)"
  "same_replay s (onLocalMutation cfg now m s)"
  "same_replay s (dispose_scope s)"
  by (auto simp: same_replay_def recording_defs dispose_scope_def Let_def split: option.splits)

definition recording_event :: "undo_event \<Rightarrow> bool" where
  "recording_event ev = (case ev of Record _ \<Rightarrow> True | LocalMutated _ _ \<Rightarrow> True | FlushMicrotask \<Rightarrow> True | BeginGroup \<Rightarrow> True
     | EndGroup \<Rightarrow> True | Dispose \<Rightarrow> True | _ \<Rightarrow> False)"

lemma recording_step: "recording_event ev \<Longrightarrow> undo_step cfg ev s = (t, es) \<Longrightarrow> same_replay s t \<and> es = []"
  by (cases ev) (auto simp: recording_event_def)

lemma next_submission_suffix:
  "next_submission policy store baseline ops = (rest, pending) \<Longrightarrow> \<exists>dropped. ops = dropped @ rest"
  by (induction ops) (auto split: list.splits dest!: sym [of "Some _"] intro: exI [of _ "[]"] exI [of _ "_ # _"])

subsection \<open>The history is well formed\<close>

text \<open>
  An entry is on one stack, once, or held by the replay that runs. A replay that fails gives its
  entry back without the cap, so the undo stack can hold one more than the cap.
\<close>

definition held_ids :: "(bool \<times> nat) option \<Rightarrow> nat list" where
  "held_ids held = (case held of None \<Rightarrow> [] | Some (_, i) \<Rightarrow> [i])"

definition all_ids :: "(bool \<times> nat) option \<Rightarrow> UndoScope \<Rightarrow> nat list" where
  "all_ids held s = us_undoStack s @ us_redoStack s @ held_ids held"

definition lengths_ok :: "nat \<Rightarrow> (bool \<times> nat) option \<Rightarrow> UndoScope \<Rightarrow> bool" where
  "lengths_ok maxHistory held s \<longleftrightarrow>
     length (us_undoStack s) + (if map_option fst held = Some True then 1 else 0) \<le> Suc maxHistory \<and>
     length (us_redoStack s) + (if map_option fst held = Some False then 1 else 0) \<le> maxHistory"

definition history_ok :: "nat \<Rightarrow> (bool \<times> nat) option \<Rightarrow> UndoScope \<Rightarrow> bool" where
  "history_ok maxHistory held s \<longleftrightarrow> distinct (all_ids held s) \<and>
     (\<forall>i \<in> set (all_ids held s). i < us_fresh s \<and> map_of (us_entries s) i \<noteq> None) \<and> lengths_ok maxHistory held s"

definition held_of :: "scope_active \<Rightarrow> (bool \<times> nat) option" where
  "held_of a = (case a of Replaying undo i _ _ \<Rightarrow> Some (undo, i) | _ \<Rightarrow> None)"

definition active_ok :: "UndoScope \<Rightarrow> bool" where
  "active_ok s = (case us_active s of
      Replaying undo i p operation \<Rightarrow> \<not> rp_uncertain p \<and> rp_remaining p \<noteq> [] \<and> map_of (us_replayProgress s) i \<in> {None, Some p}
    | _ \<Rightarrow> True)"

definition scope_inv :: "scope_config \<Rightarrow> UndoScope \<Rightarrow> bool" where
  "scope_inv cfg s \<longleftrightarrow> history_ok (sc_maxHistory cfg) (held_of (us_active s)) s \<and> active_ok s"

lemmas history_defs = history_ok_def all_ids_def held_ids_def lengths_ok_def

lemma set_push_capped: "set (push_capped n i xs) \<subseteq> set (xs @ [i])"
  by (cases "xs @ [i]") (auto simp: push_capped_def Let_def)

lemma distinct_push_capped: "distinct (xs @ [i]) \<Longrightarrow> distinct (push_capped n i xs)"
  unfolding push_capped_def Let_def by (simp add: distinct_tl)

lemma length_push_capped: "length xs \<le> m \<Longrightarrow> n \<le> m \<Longrightarrow> length (push_capped n i xs) \<le> m"
  by (auto simp: push_capped_def Let_def)

lemma history_frame:
  "us_undoStack t = us_undoStack s \<Longrightarrow> us_redoStack t = us_redoStack s \<Longrightarrow> us_fresh t = us_fresh s \<Longrightarrow>
   us_entries t = us_entries s \<Longrightarrow> history_ok n held t \<longleftrightarrow> history_ok n held s"
  by (simp add: history_defs)

lemma history_save [simp]: "history_ok n held (save_progress i p s) \<longleftrightarrow> history_ok n held s"
  by (rule history_frame) (simp_all add: save_progress_def split: option.splits)

lemma history_active [simp]: "history_ok n held (s\<lparr>us_active := a\<rparr>) \<longleftrightarrow> history_ok n held s"
  by (rule history_frame) simp_all

lemma history_progress [simp]: "history_ok n held (s\<lparr>us_replayProgress := a\<rparr>) \<longleftrightarrow> history_ok n held s"
  by (rule history_frame) simp_all

lemma history_tail [simp]: "history_ok n held (s\<lparr>us_tail := a\<rparr>) \<longleftrightarrow> history_ok n held s"
  by (rule history_frame) simp_all

lemma history_give_back: "history_ok n (Some (undo, i)) s \<Longrightarrow> history_ok n None (give_back undo i s)"
  by (auto simp: history_defs stack_defs)

lemma history_pop:
  assumes "history_ok n None s" and "stack_of undo s \<noteq> []"
  shows "history_ok n (Some (undo, last (stack_of undo s))) (set_stack undo (butlast (stack_of undo s)) s)"
proof -
  obtain xs i where xs: "stack_of undo s = xs @ [i]" using assms(2) by (metis append_butlast_last_id)
  show ?thesis using assms(1) xs by (cases undo) (auto simp: history_defs stack_of_def set_stack_def)
qed

lemma history_complete:
  assumes "history_ok (sc_maxHistory cfg) (Some (undo, i)) s"
  shows "history_ok (sc_maxHistory cfg) None (complete_replay cfg undo i p s)"
proof -
  let ?n = "sc_maxHistory cfg" and ?t = "complete_replay cfg undo i p s"
  let ?push = "push_capped ?n i (stack_of (\<not> undo) s)"
  have stacks: "us_undoStack ?t = (if undo then us_undoStack s else ?push)" "us_redoStack ?t = (if undo then ?push else us_redoStack s)"
    "us_fresh ?t = us_fresh s"
    by (simp_all add: complete_replay_def stack_of_def set_stack_def Let_def)
  have entries: "map_of (us_entries ?t) j \<noteq> None" if "map_of (us_entries s) j \<noteq> None" for j
    using that by (auto simp: complete_replay_def set_stack_def Let_def update_conv split: option.splits)
  have sub: "set ?push \<subseteq> insert i (set (stack_of (\<not> undo) s))" using set_push_capped by fastforce
  have dp: "distinct ?push" using assms by (intro distinct_push_capped) (auto simp: history_defs stack_of_def)
  have "distinct (all_ids None ?t)"
    using assms sub dp by (auto simp: history_defs stacks stack_of_def split: if_splits)
  moreover have "\<forall>j \<in> set (all_ids None ?t). j < us_fresh ?t \<and> map_of (us_entries ?t) j \<noteq> None"
    using assms sub entries by (auto simp: history_defs stacks stack_of_def split: if_splits)
  moreover have "lengths_ok ?n None ?t"
    using assms by (auto simp: history_defs stacks stack_of_def intro!: length_push_capped)
  ultimately show ?thesis by (simp add: history_ok_def)
qed

lemma history_record:
  assumes "history_ok (sc_maxHistory cfg) held s"
  shows "history_ok (sc_maxHistory cfg) held (record_entry cfg entry s)"
proof -
  let ?n = "sc_maxHistory cfg" and ?t = "record_entry cfg entry s"
  let ?push = "push_capped ?n (us_fresh s) (us_undoStack s)"
  have stacks: "us_undoStack ?t = ?push" "us_redoStack ?t = filter (keeps_redo (us_replayProgress s)) (us_redoStack s)"
    "us_fresh ?t = Suc (us_fresh s)" "us_entries ?t = AList.update (us_fresh s) entry (us_entries s)"
    by (simp_all add: record_entry_def)
  have sub: "set ?push \<subseteq> insert (us_fresh s) (set (us_undoStack s))" using set_push_capped by fastforce
  have new: "us_fresh s \<notin> set (all_ids held s)" using assms by (auto simp: history_ok_def)
  have dp: "distinct ?push" using assms new by (intro distinct_push_capped) (auto simp: history_defs)
  have "distinct (all_ids held ?t)"
    using assms sub dp new by (auto simp: history_defs stacks)
  moreover have "\<forall>j \<in> set (all_ids held ?t). j < us_fresh ?t \<and> map_of (us_entries ?t) j \<noteq> None"
  proof
    fix j assume "j \<in> set (all_ids held ?t)"
    then have "j = us_fresh s \<or> j \<in> set (all_ids held s)" using sub by (auto simp: all_ids_def stacks)
    then show "j < us_fresh ?t \<and> map_of (us_entries ?t) j \<noteq> None"
      using assms by (auto simp: history_ok_def stacks update_conv)
  qed
  moreover have "lengths_ok ?n held ?t"
    unfolding lengths_ok_def stacks
  proof (rule conjI)
    let ?d = "if map_option fst held = Some True then 1 else 0 :: nat"
    have "length ?push \<le> Suc ?n - ?d"
    proof (rule length_push_capped)
      show "length (us_undoStack s) \<le> Suc ?n - ?d"
        using assms unfolding history_ok_def lengths_ok_def by linarith
    qed (simp split: if_split)
    moreover have "?d \<le> Suc ?n" by simp
    ultimately show "length ?push + ?d \<le> Suc ?n" by linarith
    show "length (filter (keeps_redo (us_replayProgress s)) (us_redoStack s)) +
        (if map_option fst held = Some False then 1 else 0) \<le> ?n"
      using assms length_filter_le [of "keeps_redo (us_replayProgress s)" "us_redoStack s"]
      unfolding history_ok_def lengths_ok_def by linarith
  qed
  ultimately show ?thesis by (simp add: history_ok_def)
qed

lemma history_recording:
  assumes "history_ok (sc_maxHistory cfg) held s" and "recording_event ev" and "undo_step cfg ev s = (t, es)"
  shows "history_ok (sc_maxHistory cfg) held t"
proof -
  have other: "history_ok n held (s\<lparr>us_group := g\<rparr>) \<longleftrightarrow> history_ok n held s"
    "history_ok n held (s\<lparr>us_batch := b\<rparr>) \<longleftrightarrow> history_ok n held s"
    "history_ok n held (s\<lparr>us_batch := b, us_flushScheduled := f\<rparr>) \<longleftrightarrow> history_ok n held s"
    "history_ok n held (s\<lparr>us_flushScheduled := f\<rparr>) \<longleftrightarrow> history_ok n held s"
    "history_ok n held (s\<lparr>us_flushScheduled := f, us_batch := b\<rparr>) \<longleftrightarrow> history_ok n held s"
    "history_ok n held (s\<lparr>us_subscribed := f\<rparr>) \<longleftrightarrow> history_ok n held s" for n g b f s
    by (simp_all add: history_defs)
  have collected: "history_ok (sc_maxHistory cfg) held (record_collected cfg ops u)"
    if "history_ok (sc_maxHistory cfg) held u" for ops u
    using history_record [OF that] that by (simp add: record_collected_def Let_def)
  have ended: "history_ok (sc_maxHistory cfg) held (endGroup cfg s)"
    using assms(1) collected by (auto simp: endGroup_def other split: option.split)
  show ?thesis
  proof (cases ev)
    case Record
    with assms show ?thesis using history_record by fastforce
  next
    case LocalMutated
    with assms show ?thesis by (auto simp: onLocalMutation_def other Let_def split: option.splits if_splits)
  next
    case FlushMicrotask
    with assms collected show ?thesis by (auto simp: run_flush_def flushBatch_def other)
  next
    case BeginGroup
    with assms ended show ?thesis by (auto simp: beginGroup_def other)
  next
    case EndGroup
    with assms ended show ?thesis by auto
  next
    case Dispose
    with assms show ?thesis by (auto simp: dispose_scope_def other)
  qed (use assms(2) in \<open>simp_all add: recording_event_def\<close>)
qed

subsection \<open>Every step keeps the invariant\<close>

lemma next_submission_Some:
  "next_submission policy store baseline ops = (rest, Some operation) \<Longrightarrow> rest \<noteq> []"
  by (induction ops) (auto split: list.splits)

lemma save_progress_lookup [simp]:
  "map_of (us_replayProgress (save_progress i p s)) j =
     (if j = i \<and> map_of (us_replayProgress s) i \<noteq> None then Some p else map_of (us_replayProgress s) j)"
  by (auto simp: save_progress_def update_conv split: option.splits)

lemma active_Idle: "us_active t = Idle \<Longrightarrow> active_ok t"
  by (simp add: active_ok_def)

lemma give_back_active [simp]: "us_active (give_back undo i s) = Idle"
  by (simp add: give_back_def)

lemma complete_active [simp]: "us_active (complete_replay cfg undo i p s) = Idle"
  by (simp add: complete_replay_def set_stack_def Let_def)

lemma fail_active [simp]: "us_active (fail_replay undo i p d s) = Idle"
  by (simp add: fail_replay_def)

lemma drive_inv:
  assumes h: "history_ok (sc_maxHistory cfg) (Some (undo, i)) s" and u: "\<not> rp_uncertain p"
    and d: "drive cfg store undo i p s = (t, es)"
  shows "scope_inv cfg t"
proof -
  obtain rest pending where n: "next_submission (sc_conflictPolicy cfg) store (rp_baseline p) (rp_remaining p) = (rest, pending)"
    by fastforce
  let ?p = "p\<lparr>rp_remaining := rest\<rparr>" and ?s = "save_progress i (p\<lparr>rp_remaining := rest\<rparr>) s"
  have hs: "history_ok (sc_maxHistory cfg) (Some (undo, i)) ?s" using h by simp
  consider (done_) "t = complete_replay cfg undo i ?p ?s" | (unknown) x where "t = fail_replay undo i ?p x ?s"
    | (submit) operation where "pending = Some operation" "t = ?s\<lparr>us_active := Replaying undo i ?p operation\<rparr>"
    using d n by (auto simp: drive_def Let_def split: option.splits if_splits)
  then show ?thesis
  proof cases
    case done_
    then show ?thesis using history_complete [OF hs] by (simp add: scope_inv_def active_Idle held_of_def)
  next
    case unknown
    then show ?thesis using history_give_back h by (simp add: scope_inv_def active_Idle held_of_def fail_replay_def)
  next
    case submit
    then have "rest \<noteq> []" using n next_submission_Some by blast
    with submit u hs show ?thesis by (simp add: scope_inv_def held_of_def active_ok_def)
  qed
qed

lemma replayEntry_inv:
  assumes h: "history_ok (sc_maxHistory cfg) (Some (undo, i)) s"
    and r: "replayEntry cfg store undo i s = (t, es)"
  shows "scope_inv cfg t"
proof (cases "map_of (us_replayProgress s) i")
  case None
  obtain entry where entry: "map_of (us_entries s) i = Some entry"
    using h by (auto simp: history_ok_def all_ids_def held_ids_def)
  define p where "p = \<lparr>rp_remaining = plan_replay cfg store undo entry, rp_reversed = [], rp_completed = 0,
      rp_baseline = captureReplayBaseline (plan_replay cfg store undo entry) store, rp_uncertain = False\<rparr>"
  obtain es' where "drive cfg store undo i p (s\<lparr>us_replayProgress := AList.update i p (us_replayProgress s)\<rparr>) = (t, es')"
    using r None entry by (auto simp: replayEntry_def Let_def p_def apsnd_def map_prod_def split: prod.splits)
  then show ?thesis by (rule drive_inv [rotated 2]) (simp_all add: h p_def)
next
  case (Some p)
  then show ?thesis
    using r h drive_inv [OF h] history_give_back [OF h]
    by (auto simp: replayEntry_def scope_inv_def active_Idle held_of_def split: if_splits)
qed

lemma start_replay_inv:
  assumes "history_ok (sc_maxHistory cfg) None s" and "us_active s = Idle" and "start_replay cfg store undo s = (t, es)"
  shows "scope_inv cfg t"
proof (cases "stack_of undo s = []")
  case True
  with assms show ?thesis by (simp add: start_replay_def scope_inv_def active_Idle held_of_def)
next
  case False
  then show ?thesis
    using assms(3) by (intro replayEntry_inv [OF history_pop [OF assms(1) False]]) (simp add: start_replay_def)
qed

lemma active_frame: "same_replay s t \<Longrightarrow> active_ok s \<Longrightarrow> active_ok t"
  by (simp add: active_ok_def same_replay_def split: scope_active.splits)

lemma turn_inv: "scope_inv cfg s \<Longrightarrow> turn cfg store s = (t, es) \<Longrightarrow> scope_inv cfg t"
  using start_replay_inv [of cfg "s\<lparr>us_tail := tl (us_tail s)\<rparr>" store _ t es]
  by (auto simp: turn_def Let_def scope_inv_def held_of_def active_ok_def split: scope_active.splits list.splits scope_call.splits)

lemma accepted_inv: "scope_inv cfg s \<Longrightarrow> accepted cfg editId row store s = (t, es) \<Longrightarrow> scope_inv cfg t"
proof -
  assume inv: "scope_inv cfg s" and a: "accepted cfg editId row store s = (t, es)"
  show "scope_inv cfg t"
  proof (cases "us_active s")
    case (Replaying undo i p operation)
    let ?p = "accept_op editId row operation p"
    obtain es' where "drive cfg store undo i ?p (save_progress i ?p s) = (t, es')"
      using a Replaying by (auto simp: accepted_def Let_def apsnd_def map_prod_def split: prod.splits)
    moreover have "\<not> rp_uncertain ?p" "history_ok (sc_maxHistory cfg) (Some (undo, i)) (save_progress i ?p s)"
      using inv Replaying by (simp_all add: scope_inv_def held_of_def active_ok_def accept_op_def)
    ultimately show ?thesis using drive_inv by blast
  qed (use inv a in \<open>simp_all add: accepted_def\<close>)
qed

lemma rejected_inv: "scope_inv cfg s \<Longrightarrow> rejected cfg e s = (t, es) \<Longrightarrow> scope_inv cfg t"
  by (auto simp: rejected_def scope_inv_def held_of_def active_ok_def fail_replay_def history_give_back split: scope_active.splits)

lemma clear_inv: "scope_inv cfg s \<Longrightarrow> scope_inv cfg (clear_scope s)"
  by (auto simp: clear_scope_def scope_inv_def active_ok_def history_defs held_of_def split: scope_active.splits)

lemma step_inv:
  assumes "scope_inv cfg s" and "undo_step cfg ev s = (t, es)"
  shows "scope_inv cfg t"
proof (cases "recording_event ev")
  case True
  then have "same_replay s t" using recording_step assms(2) by blast
  moreover from this have "us_active t = us_active s" by (simp add: same_replay_def)
  ultimately show ?thesis
    using history_recording [OF _ True assms(2)] assms(1) active_frame by (simp add: scope_inv_def)
next
  case False
  then show ?thesis
  proof (cases ev)
    case (Call c)
    with assms show ?thesis by (auto simp: enqueue_call_def scope_inv_def active_ok_def split: scope_active.splits)
  next
    case (Turn store)
    with assms show ?thesis using turn_inv by simp
  next
    case (Accepted editId row store)
    with assms show ?thesis using accepted_inv by simp
  next
    case (Rejected e)
    with assms show ?thesis using rejected_inv by simp
  next
    case WorkSettled
    with assms show ?thesis by (auto simp: work_settled_def scope_inv_def active_ok_def held_of_def)
  next
    case Clear
    with assms show ?thesis using clear_inv by auto
  qed (simp_all add: recording_event_def)
qed

interpretation history: run_invariant "undo_init cfg" "undo_steps cfg allowed" "\<lambda>_. scope_inv cfg" for cfg allowed
proof unfold_locales
  show "scope_inv cfg s" if "undo_init cfg s" for s
    using that by (simp add: undo_init_def new_scope_def scope_inv_def history_defs held_of_def active_ok_def)
  show "scope_inv cfg t" if "scope_inv cfg s" "undo_steps cfg allowed s es t" for s es t
    using that by (auto elim!: undo_stepsE intro: step_inv)
qed

subsection \<open>An accepted operation is not submitted again\<close>

definition is_began :: "nat \<Rightarrow> undo_effect \<Rightarrow> bool" where
  "is_began i x = (case x of Began j _ \<Rightarrow> j = i | _ \<Rightarrow> False)"

text \<open>The positions accepted since the replay of an entry last began; a position counts the operations left.\<close>

definition accepted_since :: "nat \<Rightarrow> undo_effect list \<Rightarrow> nat set" where
  "accepted_since i L = {n. AcceptedOp i n \<in> set (takeWhile (\<lambda>x. \<not> is_began i x) (rev L))}"

definition no_repeat :: "undo_effect list \<Rightarrow> bool" where
  "no_repeat L = (\<forall>L1 i m operation L2. L = L1 @ SubmitOp i m operation # L2 \<longrightarrow> (\<forall>n \<in> accepted_since i L1. m < n))"

definition progress_ok :: "undo_effect list \<Rightarrow> UndoScope \<Rightarrow> bool" where
  "progress_ok L s = (\<forall>i p. map_of (us_replayProgress s) i = Some p \<longrightarrow> (\<forall>n \<in> accepted_since i L. length (rp_remaining p) < n))"

definition active_tracked :: "UndoScope \<Rightarrow> bool" where
  "active_tracked s = (case us_active s of Replaying _ i p _ \<Rightarrow> map_of (us_replayProgress s) i = Some p | _ \<Rightarrow> True)"

lemma accepted_since_Nil [simp]: "accepted_since i [] = {}"
  by (simp add: accepted_since_def)

lemma accepted_since_snoc:
  "accepted_since i (L @ [x]) = (if is_began i x then {} else {n. x = AcceptedOp i n} \<union> accepted_since i L)"
  by (cases "is_began i x") (auto simp: accepted_since_def)

lemma no_repeat_snoc:
  "no_repeat (L @ [x]) \<longleftrightarrow> no_repeat L \<and> (\<forall>i m operation. x = SubmitOp i m operation \<longrightarrow> (\<forall>n \<in> accepted_since i L. m < n))"
proof
  assume n: "no_repeat (L @ [x])"
  have "no_repeat L"
    unfolding no_repeat_def
  proof (intro allI impI)
    fix L1 i m operation L2 assume "L = L1 @ SubmitOp i m operation # L2"
    then have "L @ [x] = L1 @ SubmitOp i m operation # (L2 @ [x])" by simp
    with n show "\<forall>n \<in> accepted_since i L1. m < n" unfolding no_repeat_def by blast
  qed
  moreover have "\<forall>n \<in> accepted_since i L. m < n" if "x = SubmitOp i m operation" for i m operation
  proof -
    have "L @ [x] = L @ SubmitOp i m operation # []" using that by simp
    with n show ?thesis unfolding no_repeat_def by blast
  qed
  ultimately show "no_repeat L \<and> (\<forall>i m operation. x = SubmitOp i m operation \<longrightarrow> (\<forall>n \<in> accepted_since i L. m < n))"
    by blast
next
  assume n: "no_repeat L \<and> (\<forall>i m operation. x = SubmitOp i m operation \<longrightarrow> (\<forall>n \<in> accepted_since i L. m < n))"
  show "no_repeat (L @ [x])"
    unfolding no_repeat_def
  proof (intro allI impI)
    fix L1 i m operation L2 assume e: "L @ [x] = L1 @ SubmitOp i m operation # L2"
    show "\<forall>n \<in> accepted_since i L1. m < n"
    proof (cases L2 rule: rev_cases)
      case Nil
      with e n show ?thesis by simp
    next
      case (snoc L3 y)
      with e have "L = L1 @ SubmitOp i m operation # L3" by simp
      with n show ?thesis unfolding no_repeat_def by blast
    qed
  qed
qed

lemma complete_progress [simp]:
  "us_replayProgress (complete_replay cfg undo i p s) = AList.delete i (us_replayProgress s)"
  by (simp add: complete_replay_def set_stack_def Let_def)

lemma give_back_progress [simp]: "us_replayProgress (give_back undo i s) = us_replayProgress s"
  by (simp add: give_back_def set_stack_def)

lemma set_stack_fields [simp]:
  "us_replayProgress (set_stack undo xs s) = us_replayProgress s" "us_active (set_stack undo xs s) = us_active s"
  "us_entries (set_stack undo xs s) = us_entries s"
  by (simp_all add: set_stack_def)

lemma drive_effects:
  assumes "drive cfg store undo i p s = (t, es)" and "map_of (us_replayProgress s) i \<noteq> None"
  shows "\<exists>x. es = [x] \<and> (x = Resolved \<or> x = RejectedError i \<or> (\<exists>m operation. x = SubmitOp i m operation \<and> m \<le> length (rp_remaining p)))"
    and "map_of (us_replayProgress t) j = Some q \<Longrightarrow>
      (if j = i then length (rp_remaining q) \<le> length (rp_remaining p) else map_of (us_replayProgress s) j = Some q)"
    and "active_tracked t"
proof -
  obtain rest pending where n: "next_submission (sc_conflictPolicy cfg) store (rp_baseline p) (rp_remaining p) = (rest, pending)"
    by fastforce
  let ?p = "p\<lparr>rp_remaining := rest\<rparr>" and ?s = "save_progress i (p\<lparr>rp_remaining := rest\<rparr>) s"
  have short: "length rest \<le> length (rp_remaining p)" using next_submission_suffix [OF n] by auto
  consider (done_) "t = complete_replay cfg undo i ?p ?s" "es = [Resolved]"
    | (unknown) x where "t = fail_replay undo i ?p x ?s" "es = [RejectedError i]"
    | (submit) operation where "t = ?s\<lparr>us_active := Replaying undo i ?p operation\<rparr>" "es = [SubmitOp i (length rest) operation]"
    using assms(1) n by (auto simp: drive_def Let_def split: option.splits if_splits)
  note cases_ = this
  show "\<exists>x. es = [x] \<and> (x = Resolved \<or> x = RejectedError i \<or> (\<exists>m operation. x = SubmitOp i m operation \<and> m \<le> length (rp_remaining p)))"
    using cases_ by cases (use short in simp_all)
  show "active_tracked t"
    using cases_ by cases (use assms(2) in \<open>simp_all add: active_tracked_def\<close>)
  show "if j = i then length (rp_remaining q) \<le> length (rp_remaining p) else map_of (us_replayProgress s) j = Some q"
    if "map_of (us_replayProgress t) j = Some q"
    using cases_
  proof cases
    case done_
    with that show ?thesis by (auto simp: AList.delete_conv' split: if_splits)
  next
    case unknown
    with that short show ?thesis by (auto simp: fail_replay_def split: if_splits)
  next
    case submit
    with that short show ?thesis by (auto split: if_splits)
  qed
qed

lemma drive_keeps_order:
  assumes d: "drive cfg store undo i p s = (t, es)" and i: "map_of (us_replayProgress s) i = Some p"
    and ok: "progress_ok L s" "no_repeat L"
  shows "progress_ok (L @ es) t \<and> no_repeat (L @ es) \<and> active_tracked t"
proof -
  have ne: "map_of (us_replayProgress s) i \<noteq> None" using i by simp
  note eff = drive_effects [OF d ne]
  from eff(1) obtain x where x: "es = [x]"
    "x = Resolved \<or> x = RejectedError i \<or> (\<exists>m operation. x = SubmitOp i m operation \<and> m \<le> length (rp_remaining p))" by blast
  have since: "accepted_since j (L @ es) = accepted_since j L" for j
    using x by (auto simp: accepted_since_snoc is_began_def)
  have "no_repeat (L @ es)"
    using x ok i by (fastforce simp: no_repeat_snoc progress_ok_def)
  moreover have "progress_ok (L @ es) t"
    unfolding progress_ok_def since
  proof (intro allI impI ballI)
    fix j q n assume q: "map_of (us_replayProgress t) j = Some q" and n: "n \<in> accepted_since j L"
    show "length (rp_remaining q) < n"
    proof (cases "j = i")
      case True
      with eff(2) [OF q] have "length (rp_remaining q) \<le> length (rp_remaining p)" by simp
      moreover have "length (rp_remaining p) < n" using ok(1) i n True by (auto simp: progress_ok_def)
      ultimately show ?thesis by linarith
    next
      case False
      with eff(2) [OF q] ok(1) n show ?thesis by (auto simp: progress_ok_def)
    qed
  qed
  ultimately show ?thesis using eff(3) by blast
qed

definition replay_order :: "undo_effect list \<Rightarrow> UndoScope \<Rightarrow> bool" where
  "replay_order L s = (progress_ok L s \<and> no_repeat L \<and> active_tracked s)"

lemma replay_order_frame:
  "us_replayProgress t = us_replayProgress s \<Longrightarrow> us_active t = us_active s \<or> us_active t = Idle \<or> us_active t = RunningWork \<Longrightarrow>
     replay_order L s \<Longrightarrow> replay_order L t"
  by (auto simp: replay_order_def progress_ok_def active_tracked_def split: scope_active.splits)

text \<open>An effect that is neither a submission, an acceptance nor the beginning of a replay changes nothing here.\<close>

lemma replay_order_quiet:
  assumes "replay_order L s" and "x = Resolved \<or> x = RejectedStale i \<or> x = RejectedError i"
  shows "replay_order (L @ [x]) s"
proof -
  have "accepted_since j (L @ [x]) = accepted_since j L" for j
    using assms(2) by (auto simp: accepted_since_snoc is_began_def)
  then show ?thesis using assms by (auto simp: replay_order_def progress_ok_def no_repeat_snoc)
qed

lemma drive_replay_order:
  assumes "drive cfg store undo i p s = (t, es)" and "map_of (us_replayProgress s) i = Some p" and "progress_ok L s" "no_repeat L"
  shows "replay_order (L @ es) t"
  using drive_keeps_order [OF assms] by (simp add: replay_order_def)

lemma replayEntry_order:
  assumes r: "replayEntry cfg store undo i s = (t, es)" and ok: "replay_order L s"
  shows "replay_order (L @ es) t"
proof (cases "map_of (us_replayProgress s) i")
  case (Some p)
  show ?thesis
  proof (cases "rp_uncertain p")
    case True
    then have "t = give_back undo i s" "es = [RejectedStale i]" using r Some by (simp_all add: replayEntry_def)
    then show ?thesis using replay_order_quiet [OF replay_order_frame [OF _ _ ok]] by simp
  next
    case False
    then show ?thesis using r Some ok by (intro drive_replay_order [of cfg store undo i p s]) (simp_all add: replayEntry_def replay_order_def)
  qed
next
  case None
  show ?thesis
  proof (cases "map_of (us_entries s) i")
    case None': None
    then show ?thesis using r None ok by (simp add: replayEntry_def)
  next
    case (Some entry)
    define remaining where "remaining = plan_replay cfg store undo entry"
    define p where "p = \<lparr>rp_remaining = remaining, rp_reversed = [], rp_completed = 0,
        rp_baseline = captureReplayBaseline remaining store, rp_uncertain = False\<rparr>"
    let ?s = "s\<lparr>us_replayProgress := AList.update i p (us_replayProgress s)\<rparr>" and ?L = "L @ [Began i remaining]"
    obtain es' where d: "drive cfg store undo i p ?s = (t, es')" and es: "es = Began i remaining # es'"
      using r None Some by (auto simp: replayEntry_def Let_def p_def remaining_def apsnd_def map_prod_def split: prod.splits)
    have since: "accepted_since j ?L = (if j = i then {} else accepted_since j L)" for j
      by (auto simp: accepted_since_snoc is_began_def)
    have "progress_ok ?L ?s" using ok by (simp add: progress_ok_def since update_conv replay_order_def)
    moreover have "no_repeat ?L" using ok by (simp add: no_repeat_snoc replay_order_def)
    ultimately have "replay_order (?L @ es') t" by (intro drive_replay_order [OF d]) (simp_all add: update_conv)
    then show ?thesis by (simp add: es)
  qed
qed

lemma turn_order: "replay_order L s \<Longrightarrow> turn cfg store s = (t, es) \<Longrightarrow> replay_order (L @ es) t"
proof -
  assume ok: "replay_order L s" and t: "turn cfg store s = (t, es)"
  have start: "replay_order (L @ es) t" if "start_replay cfg store undo (s\<lparr>us_tail := cs\<rparr>) = (t, es)" for undo cs
  proof (cases "stack_of undo (s\<lparr>us_tail := cs\<rparr>) = []")
    case True
    then show ?thesis using that replay_order_quiet [OF replay_order_frame [OF _ _ ok]] by (auto simp: start_replay_def)
  next
    case False
    let ?u = "set_stack undo (butlast (stack_of undo (s\<lparr>us_tail := cs\<rparr>))) (s\<lparr>us_tail := cs\<rparr>)"
    have "replay_order L ?u" by (rule replay_order_frame [OF _ _ ok]) simp_all
    with False that show ?thesis using replayEntry_order by (simp add: start_replay_def)
  qed
  show ?thesis
    using t ok start replay_order_frame [OF _ _ ok]
    by (auto simp: turn_def Let_def split: scope_active.splits list.splits scope_call.splits)
qed

lemma accepted_order:
  assumes inv: "scope_inv cfg s" and ok: "replay_order L s" and a: "accepted cfg editId row store s = (t, es)"
  shows "replay_order (L @ es) t"
proof (cases "us_active s")
  case (Replaying undo i p operation)
  let ?p = "accept_op editId row operation p" and ?L = "L @ [AcceptedOp i (length (rp_remaining p))]"
  obtain es' where d: "drive cfg store undo i ?p (save_progress i ?p s) = (t, es')"
      and es: "es = AcceptedOp i (length (rp_remaining p)) # es'"
    using a Replaying by (auto simp: accepted_def Let_def apsnd_def map_prod_def split: prod.splits)
  have ne: "rp_remaining p \<noteq> []" using inv Replaying by (simp add: scope_inv_def active_ok_def)
  have i: "map_of (us_replayProgress s) i = Some p" using ok Replaying by (simp add: replay_order_def active_tracked_def)
  have since: "accepted_since j ?L = (if j = i then insert (length (rp_remaining p)) (accepted_since i L) else accepted_since j L)" for j
    by (auto simp: accepted_since_snoc is_began_def)
  have short: "length (rp_remaining ?p) < length (rp_remaining p)" using ne by (cases "rp_remaining p") (simp_all add: accept_op_def)
  have old: "length (rp_remaining p) < n" if "n \<in> accepted_since i L" for n
    using ok i that by (auto simp: replay_order_def progress_ok_def)
  have "progress_ok ?L (save_progress i ?p s)"
    unfolding progress_ok_def since using ok i short old
    by (auto simp: replay_order_def progress_ok_def intro: less_trans split: if_splits)
  moreover have "no_repeat ?L" using ok by (simp add: no_repeat_snoc replay_order_def)
  ultimately have "replay_order (?L @ es') t" by (intro drive_replay_order [OF d]) (simp_all add: i)
  then show ?thesis by (simp add: es)
qed (use ok a in \<open>simp_all add: accepted_def\<close>)

lemma rejected_order:
  assumes ok: "replay_order L s" and r: "rejected cfg e s = (t, es)"
  shows "replay_order (L @ es) t"
proof (cases "us_active s")
  case (Replaying undo i p operation)
  have i: "map_of (us_replayProgress s) i = Some p" using ok Replaying by (simp add: replay_order_def active_tracked_def)
  have t: "t = fail_replay undo i p (isDefinitiveRejection (sc_spec cfg) e) s" "es = [RejectedError i]"
    using r Replaying by (simp_all add: rejected_def)
  have "replay_order L t"
    using ok i by (auto simp: t fail_replay_def replay_order_def progress_ok_def active_tracked_def split: if_splits)
  then show ?thesis using replay_order_quiet t by blast
qed (use ok r in \<open>simp_all add: rejected_def\<close>)

lemma step_order:
  assumes "scope_inv cfg s" and ok: "replay_order L s" and st: "undo_step cfg ev s = (t, es)" and "ev \<noteq> Clear"
  shows "replay_order (L @ es) t"
proof (cases "recording_event ev")
  case True
  then show ?thesis using recording_step [OF True st] replay_order_frame [OF _ _ ok] by (simp add: same_replay_def)
next
  case False
  then show ?thesis
    using assms(1,4) st turn_order [OF ok] accepted_order [OF assms(1) ok] rejected_order [OF ok] replay_order_frame [OF _ _ ok]
    by (cases ev) (auto simp: recording_event_def enqueue_call_def work_settled_def)
qed

interpretation replays: run_invariant "undo_init cfg" "undo_steps cfg (\<lambda>ev. ev \<noteq> Clear)" "\<lambda>L s. scope_inv cfg s \<and> replay_order L s" for cfg
proof unfold_locales
  show "scope_inv cfg s \<and> replay_order [] s" if "undo_init cfg s" for s
    using that by (simp add: undo_init_def new_scope_def scope_inv_def history_defs held_of_def active_ok_def
        replay_order_def progress_ok_def no_repeat_def active_tracked_def)
  show "scope_inv cfg t \<and> replay_order (L @ es) t"
    if "scope_inv cfg s \<and> replay_order L s" "undo_steps cfg (\<lambda>ev. ev \<noteq> Clear) s es t" for L s es t
    using that by (auto elim!: undo_stepsE intro: step_inv step_order)
qed

subsection \<open>An unknown outcome holds its history\<close>

lemma drive_frame:
  assumes "drive cfg store undo i p s = (t, es)" and "j \<noteq> i"
  shows "map_of (us_replayProgress t) j = map_of (us_replayProgress s) j" and "SubmitOp j m operation \<notin> set es"
  using assms
  by (auto simp: drive_def Let_def fail_replay_def AList.delete_conv' split: prod.splits option.splits if_splits)

definition held_back :: "scope_config \<Rightarrow> nat \<Rightarrow> ReplayProgress \<Rightarrow> undo_effect list \<Rightarrow> UndoScope \<Rightarrow> bool" where
  "held_back cfg i p L s \<longleftrightarrow> scope_inv cfg s \<and> map_of (us_replayProgress s) i = Some p \<and> (\<forall>m operation. SubmitOp i m operation \<notin> set L)"

lemma active_other:
  "scope_inv cfg s \<Longrightarrow> us_active s = Replaying undo j q operation \<Longrightarrow> map_of (us_replayProgress s) i = Some p \<Longrightarrow>
     rp_uncertain p \<Longrightarrow> i \<noteq> j"
  by (auto simp: scope_inv_def active_ok_def)

lemma replayEntry_held:
  assumes r: "replayEntry cfg store undo j s = (t, es)" and p: "map_of (us_replayProgress s) i = Some p" "rp_uncertain p"
  shows "map_of (us_replayProgress t) i = Some p \<and> (\<forall>m operation. SubmitOp i m operation \<notin> set es)"
proof (cases "i = j")
  case True
  with assms show ?thesis by (auto simp: replayEntry_def)
next
  case False
  show ?thesis
  proof (cases "map_of (us_replayProgress s) j")
    case (Some q)
    with False assms drive_frame [of cfg store undo j q s t es i] show ?thesis
      by (auto simp: replayEntry_def split: if_splits)
  next
    case None
    show ?thesis
    proof (cases "map_of (us_entries s) j")
      case None': None
      with None assms show ?thesis by (simp add: replayEntry_def)
    next
      case (Some entry)
      with None r obtain q es' where
        "drive cfg store undo j q (s\<lparr>us_replayProgress := AList.update j q (us_replayProgress s)\<rparr>) = (t, es')"
        "es = Began j (plan_replay cfg store undo entry) # es'"
        by (auto simp: replayEntry_def Let_def apsnd_def map_prod_def split: prod.splits)
      with drive_frame [of cfg store undo j q _ t es' i] False p show ?thesis by (auto simp: update_conv)
    qed
  qed
qed

lemma step_held:
  assumes inv: "scope_inv cfg s" and p: "map_of (us_replayProgress s) i = Some p" "rp_uncertain p"
    and st: "undo_step cfg ev s = (t, es)" and ev: "ev \<noteq> Clear"
  shows "map_of (us_replayProgress t) i = Some p \<and> (\<forall>m operation. SubmitOp i m operation \<notin> set es)"
proof (cases "recording_event ev")
  case True
  then show ?thesis using recording_step [OF True st] p by (simp add: same_replay_def)
next
  case False
  show ?thesis
  proof (cases ev)
    case (Turn store)
    have start: "map_of (us_replayProgress t) i = Some p \<and> (\<forall>m operation. SubmitOp i m operation \<notin> set es)"
      if "start_replay cfg store undo (s\<lparr>us_tail := cs\<rparr>) = (t, es)" for undo cs
      using that p replayEntry_held [of cfg store undo _ _ t es i p]
      by (auto simp: start_replay_def split: if_splits)
    show ?thesis
      using st Turn start p by (auto simp: turn_def Let_def split: scope_active.splits list.splits scope_call.splits)
  next
    case (Accepted editId row store)
    show ?thesis
    proof (cases "us_active s")
      case (Replaying undo j q operation)
      have "i \<noteq> j" using active_other [OF inv Replaying p] .
      moreover obtain es' q' where "drive cfg store undo j q' (save_progress j q' s) = (t, es')"
        "es = AcceptedOp j (length (rp_remaining q)) # es'"
        using st Accepted Replaying by (auto simp: accepted_def Let_def apsnd_def map_prod_def split: prod.splits)
      ultimately show ?thesis using p drive_frame [of cfg store undo j q' _ t es' i] by auto
    qed (use st Accepted p in \<open>simp_all add: accepted_def\<close>)
  next
    case (Rejected e)
    show ?thesis
    proof (cases "us_active s")
      case (Replaying undo j q operation)
      have "i \<noteq> j" using active_other [OF inv Replaying p] .
      then show ?thesis using st Rejected Replaying p by (auto simp: rejected_def fail_replay_def)
    qed (use st Rejected p in \<open>simp_all add: rejected_def\<close>)
  next
    case WorkSettled
    with st p show ?thesis by (auto simp: work_settled_def)
  qed (use False ev st p in \<open>auto simp: recording_event_def enqueue_call_def\<close>)
qed

interpretation held: run_invariant "\<lambda>s. scope_inv cfg s \<and> map_of (us_replayProgress s) i = Some p \<and> rp_uncertain p"
  "undo_steps cfg (\<lambda>ev. ev \<noteq> Clear)" "\<lambda>L s. held_back cfg i p L s \<and> rp_uncertain p" for cfg i p
proof unfold_locales
  show "held_back cfg i p [] s \<and> rp_uncertain p" if "scope_inv cfg s \<and> map_of (us_replayProgress s) i = Some p \<and> rp_uncertain p" for s
    using that by (simp add: held_back_def)
  show "held_back cfg i p (L @ es) t \<and> rp_uncertain p"
    if "held_back cfg i p L s \<and> rp_uncertain p" "undo_steps cfg (\<lambda>ev. ev \<noteq> Clear) s es t" for L s es t
    using that step_held [of cfg s i p _ t es] step_inv [of cfg s _ t es] by (auto simp: held_back_def elim!: undo_stepsE)
qed

subsection \<open>A replay ends\<close>

definition accept_all :: "scope_config \<Rightarrow> (string \<times> js_props \<times> undo_pool) list \<Rightarrow> UndoScope \<Rightarrow> UndoScope" where
  "accept_all cfg answers s = fold (\<lambda>(editId, row, store) s. fst (accepted cfg editId row store s)) answers s"

lemma accepted_progress:
  assumes inv: "scope_inv cfg s" and r: "us_active s = Replaying undo i p operation"
  shows "(case us_active (fst (accepted cfg editId row store s)) of
      Idle \<Rightarrow> True
    | Replaying undo' j q _ \<Rightarrow> length (rp_remaining q) < length (rp_remaining p)
    | RunningWork \<Rightarrow> False)"
proof -
  let ?p = "accept_op editId row operation p"
  obtain rest pending where n: "next_submission (sc_conflictPolicy cfg) store (rp_baseline ?p) (rp_remaining ?p) = (rest, pending)"
    by fastforce
  have "rp_remaining p \<noteq> []" using inv r by (simp add: scope_inv_def active_ok_def)
  then have "length (rp_remaining ?p) < length (rp_remaining p)" by (cases "rp_remaining p") (simp_all add: accept_op_def)
  moreover have "length rest \<le> length (rp_remaining ?p)" using next_submission_suffix [OF n] by auto
  ultimately have "length rest < length (rp_remaining p)" by linarith
  then show ?thesis using n by (simp add: accepted_def r Let_def drive_def split: option.split)
qed

lemma accept_all_settles:
  "scope_inv cfg s \<Longrightarrow> us_active s = Replaying undo i p operation \<Longrightarrow> length (rp_remaining p) \<le> length answers \<Longrightarrow>
     \<exists>k \<le> length (rp_remaining p). us_active (accept_all cfg (take k answers) s) = Idle"
proof (induction "length (rp_remaining p)" arbitrary: s undo i p operation answers rule: less_induct)
  case less
  have ne: "rp_remaining p \<noteq> []" using less.prems by (simp add: scope_inv_def active_ok_def)
  with less.prems obtain editId row store rest where a: "answers = (editId, row, store) # rest"
    by (cases answers) auto
  let ?t = "fst (accepted cfg editId row store s)"
  have inv: "scope_inv cfg ?t" using accepted_inv [OF less.prems(1)] by (metis prod.collapse)
  note prog = accepted_progress [OF less.prems(1,2), of editId row store]
  show ?case
  proof (cases "us_active ?t")
    case Idle
    then have "us_active (accept_all cfg (take 1 answers) s) = Idle" by (simp add: accept_all_def a)
    moreover have "1 \<le> length (rp_remaining p)" using ne by (simp add: Suc_leI)
    ultimately show ?thesis by blast
  next
    case (Replaying undo' j q operation')
    with prog have short: "length (rp_remaining q) < length (rp_remaining p)" by simp
    moreover from this less.prems(3) a have "length (rp_remaining q) \<le> length rest" by simp
    ultimately obtain k where "k \<le> length (rp_remaining q)" "us_active (accept_all cfg (take k rest) ?t) = Idle"
      using less.hyps [OF short inv Replaying] by blast
    then have "Suc k \<le> length (rp_remaining p)" "us_active (accept_all cfg (take (Suc k) answers) s) = Idle"
      using short by (simp_all add: accept_all_def a)
    then show ?thesis by blast
  next
    case RunningWork
    with prog show ?thesis by simp
  qed
qed

subsection \<open>Executing events\<close>

fun undo_exec :: "scope_config \<Rightarrow> undo_event list \<Rightarrow> UndoScope \<Rightarrow> UndoScope \<times> undo_effect list" where
  "undo_exec cfg [] s = (s, [])"
| "undo_exec cfg (ev # evs) s = (case undo_step cfg ev s of (t, es) \<Rightarrow> apsnd ((@) es) (undo_exec cfg evs t))"

lemma undo_exec_run:
  "run init (undo_steps cfg allowed) L s \<Longrightarrow> list_all allowed evs \<Longrightarrow> undo_exec cfg evs s = (t, es) \<Longrightarrow>
     run init (undo_steps cfg allowed) (L @ es) t"
proof (induction evs arbitrary: L s t es)
  case (Cons ev evs)
  obtain u es1 where u: "undo_step cfg ev s = (u, es1)" by fastforce
  obtain es2 where es: "undo_exec cfg evs u = (t, es2)" "es = es1 @ es2"
    using Cons.prems(3) u by (auto simp: apsnd_def map_prod_def split: prod.splits)
  have "run init (undo_steps cfg allowed) (L @ es1) u"
    using Cons.prems(1,2) u by (auto intro!: run_step undo_event)
  from Cons.IH [OF this _ es(1)] Cons.prems(2) show ?case by (simp add: es(2))
qed simp

definition undo_demo_scope :: scope_config where
  "undo_demo_scope = \<lparr>sc_models = [(''blocks'', None)], sc_merge = (\<lambda>_ _. None), sc_edit_id = (\<lambda>_ _. None), sc_spec = (\<lambda>_. None),
     sc_maxHistory = 100, sc_conflictPolicy = SkipStale, sc_tracksModel = None, sc_recordFromStream = False, sc_undoScopeId = ''scope''\<rparr>"

definition undo_demo_entry :: UndoEntry where
  "undo_demo_entry = \<lparr>ue_inverses = [OpDelete ''blocks'' ''b'', OpDelete ''blocks'' ''a''],
     ue_forwards = [OpCreate ''blocks'' [(''id'', VStr ''a'')], OpCreate ''blocks'' [(''id'', VStr ''b'')]]\<rparr>"

definition undo_demo_failure :: "int option \<Rightarrow> queue_error" where
  "undo_demo_failure status = \<lparr>err_connection = False, err_code = None, err_message = [], err_status = status, err_responseErrors = 0\<rparr>"

lemmas undo_demo_defs = undo_demo_scope_def undo_demo_entry_def undo_demo_failure_def undo_init_def new_scope_def recording_defs push_capped_def
  enqueue_call_def turn_def start_replay_def stack_defs replayEntry_def plan_replay_def expandReplayOps_def resolveOps_def resolve_op_def
  drive_def complete_replay_def fail_replay_def accepted_def accept_op_def rejected_def isDefinitiveRejection_def code_spec_def
  paired_baseline_def captureReplayBaseline_def capture_op_def advance_baseline_def replaceOperationReversals_def
  replace_paired_def clear_scope_def Let_def

text \<open>Undo, one row accepted, the next one refused, undo again: the second attempt begins at the refused row.\<close>

definition undo_demo_events :: "queue_error \<Rightarrow> undo_event list" where
  "undo_demo_events e = [Record undo_demo_entry, Call CallUndo, Turn (\<lambda>_. None), Accepted [] [] (\<lambda>_. None), Rejected e]"

lemma undo_demo_first:
  "undo_exec undo_demo_scope (undo_demo_events (undo_demo_failure (Some 400))) (new_scope undo_demo_scope) =
     (\<lparr>us_entries = [(0, undo_demo_entry)], us_fresh = 1, us_undoStack = [0], us_redoStack = [],
       us_replayProgress = [(0, \<lparr>rp_remaining = [OpDelete ''blocks'' ''a''], rp_reversed = [], rp_completed = 1, rp_baseline = [],
          rp_uncertain = False\<rparr>)],
       us_tail = [], us_active = Idle, us_batch = [], us_flushScheduled = False, us_group = None, us_subscribed = False\<rparr>,
      [Began 0 (ue_inverses undo_demo_entry), SubmitOp 0 2 (OpDelete ''blocks'' ''b''), AcceptedOp 0 2,
       SubmitOp 0 1 (OpDelete ''blocks'' ''a''), RejectedError 0])"
  by (simp add: undo_demo_events_def undo_demo_defs)

lemma undo_demo_resumed:
  "undo_exec undo_demo_scope (undo_demo_events (undo_demo_failure (Some 400)) @ [Call CallUndo, Turn (\<lambda>_. None)]) (new_scope undo_demo_scope) =
     (\<lparr>us_entries = [(0, undo_demo_entry)], us_fresh = 1, us_undoStack = [], us_redoStack = [],
       us_replayProgress = [(0, \<lparr>rp_remaining = [OpDelete ''blocks'' ''a''], rp_reversed = [], rp_completed = 1, rp_baseline = [],
          rp_uncertain = False\<rparr>)],
       us_tail = [], us_active = Replaying True 0 \<lparr>rp_remaining = [OpDelete ''blocks'' ''a''], rp_reversed = [], rp_completed = 1,
          rp_baseline = [], rp_uncertain = False\<rparr> (OpDelete ''blocks'' ''a''),
       us_batch = [], us_flushScheduled = False, us_group = None, us_subscribed = False\<rparr>,
      [Began 0 (ue_inverses undo_demo_entry), SubmitOp 0 2 (OpDelete ''blocks'' ''b''), AcceptedOp 0 2,
       SubmitOp 0 1 (OpDelete ''blocks'' ''a''), RejectedError 0, SubmitOp 0 1 (OpDelete ''blocks'' ''a'')])"
  by (simp add: undo_demo_events_def undo_demo_defs)

lemma undo_demo_uncertain:
  "undo_exec undo_demo_scope (undo_demo_events (undo_demo_failure None)) (new_scope undo_demo_scope) =
     (\<lparr>us_entries = [(0, undo_demo_entry)], us_fresh = 1, us_undoStack = [0], us_redoStack = [],
       us_replayProgress = [(0, \<lparr>rp_remaining = [OpDelete ''blocks'' ''a''], rp_reversed = [], rp_completed = 1, rp_baseline = [],
          rp_uncertain = True\<rparr>)],
       us_tail = [], us_active = Idle, us_batch = [], us_flushScheduled = False, us_group = None, us_subscribed = False\<rparr>,
      [Began 0 (ue_inverses undo_demo_entry), SubmitOp 0 2 (OpDelete ''blocks'' ''b''), AcceptedOp 0 2,
       SubmitOp 0 1 (OpDelete ''blocks'' ''a''), RejectedError 0])"
  by (simp add: undo_demo_events_def undo_demo_defs)

lemma undo_demo_run:
  "list_all allowed evs \<Longrightarrow> undo_run cfg allowed (snd (undo_exec cfg evs (new_scope cfg))) (fst (undo_exec cfg evs (new_scope cfg)))"
  using undo_exec_run [of "undo_init cfg" cfg allowed "[]" "new_scope cfg" evs, OF run_init _ prod.collapse [symmetric]]
  by (simp add: undo_init_def)

lemma undo_demo_allowed: "list_all (\<lambda>ev. ev \<noteq> Clear) (undo_demo_events e)"
  by (simp add: undo_demo_events_def)

subsection \<open>Properties\<close>





text \<open>
  The stacks of a scope stay well formed whatever happens: an entry is on one stack at most once
  and never on a stack while it is replayed, the redo stack never exceeds the cap, and the undo stack
  exceeds it by at most the one entry a failed undo gives back.
\<close>

theorem undo_history_well_formed:
  assumes "undo_run cfg (\<lambda>_. True) L s"
  shows "distinct (us_undoStack s @ us_redoStack s @ held_ids (held_of (us_active s))) \<and>
    length (us_undoStack s) \<le> Suc (sc_maxHistory cfg) \<and> length (us_redoStack s) \<le> sc_maxHistory cfg"
  using history.holds [OF assms] by (auto simp: scope_inv_def history_ok_def all_ids_def lengths_ok_def)

theorem undo_history_well_formed_witness:
  "let s = fst (undo_exec undo_demo_scope (undo_demo_events (undo_demo_failure None)) (new_scope undo_demo_scope))
   in us_undoStack s = [0] \<and> length (us_undoStack s) \<le> Suc (sc_maxHistory undo_demo_scope)"
proof -
  let ?x = "undo_exec undo_demo_scope (undo_demo_events (undo_demo_failure None)) (new_scope undo_demo_scope)"
  have "undo_run undo_demo_scope (\<lambda>_. True) (snd ?x) (fst ?x)"
    by (rule undo_demo_run) (simp add: undo_demo_events_def)
  from undo_history_well_formed [OF this] show ?thesis by (simp add: undo_demo_uncertain Let_def)
qed

text \<open>
  A replay ends: once it waits for a submission, it settles after at most as many acceptances as
  it has operations left.
\<close>

theorem undo_replay_settles:
  assumes "undo_run cfg (\<lambda>_. True) L s" and "us_active s = Replaying undo i p operation"
    and "length (rp_remaining p) \<le> length answers"
  shows "\<exists>k \<le> length (rp_remaining p). us_active (accept_all cfg (take k answers) s) = Idle"
  using history.holds [OF assms(1)] assms(2,3) by (rule accept_all_settles)

theorem undo_replay_settles_witness:
  "\<exists>k \<le> 1. us_active (accept_all undo_demo_scope (take k [([], [], \<lambda>_. None)])
     (fst (undo_exec undo_demo_scope (undo_demo_events (undo_demo_failure (Some 400)) @ [Call CallUndo, Turn (\<lambda>_. None)]) (new_scope undo_demo_scope)))) = Idle"
proof -
  let ?x = "undo_exec undo_demo_scope (undo_demo_events (undo_demo_failure (Some 400)) @ [Call CallUndo, Turn (\<lambda>_. None)]) (new_scope undo_demo_scope)"
  let ?p = "\<lparr>rp_remaining = [OpDelete ''blocks'' ''a''], rp_reversed = [], rp_completed = 1, rp_baseline = [], rp_uncertain = False\<rparr>"
  have r: "undo_run undo_demo_scope (\<lambda>_. True) (snd ?x) (fst ?x)"
    by (rule undo_demo_run) (simp add: undo_demo_events_def)
  have a: "us_active (fst ?x) = Replaying True 0 ?p (OpDelete ''blocks'' ''a'')" by (simp add: undo_demo_resumed)
  from undo_replay_settles [OF r a, of "[([], [], \<lambda>_. None)]"] show ?thesis by simp
qed

text \<open>
  Clearing the history while a replay runs forgets its progress but not its entry: when the next
  operation is refused the entry is pushed back, and the following undo submits the accepted
  operation once more.
\<close>

theorem clear_in_flight_resubmits:
  "snd (undo_exec undo_demo_scope [Record undo_demo_entry, Call CallUndo, Turn (\<lambda>_. None), Accepted [] [] (\<lambda>_. None), Clear,
       Rejected (undo_demo_failure (Some 400)), Call CallUndo, Turn (\<lambda>_. None)] (new_scope undo_demo_scope)) =
     [Began 0 (ue_inverses undo_demo_entry), SubmitOp 0 2 (OpDelete ''blocks'' ''b''), AcceptedOp 0 2,
      SubmitOp 0 1 (OpDelete ''blocks'' ''a''), RejectedError 0,
      Began 0 (ue_inverses undo_demo_entry), SubmitOp 0 2 (OpDelete ''blocks'' ''b'')]"
  by (simp add: undo_demo_defs)

end
