(* ===== verification/DeltaStore.thy ===== *)
theory DeltaStore
  imports CommitPayload Positions
begin

section \<open>Landing deltas in the local store\<close>

text \<open>
  Model of the delta path of \<open>packages/humans/src/local/Database.ts\<close>: the compaction of a record,
  \<open>processDelta\<close> for one delta, and \<open>processDeltaBatch\<close> with its two branches, the in-memory one and
  the one over IndexedDB transactions.

  A record is its own properties in order; the store of a model maps an identifier to a record. The
  identifiers of rows are strings. What the outside decides in a batch is the environment: whether the
  batched read and the transaction of a store succeed, what the server answers for a row the store
  misses, and whether the database is closed meanwhile. An IndexedDB \<open>put\<close> without a record, or of a
  record without an identifier, throws. \<open>new Date()\<close> is the argument \<open>now\<close>.
\<close>

subsection \<open>Compaction\<close>

type_synonym model_data = "(string \<times> jsval) list"
type_synonym row_store = "string \<rightharpoonup> model_data"
type_synonym row_stores = "string \<rightharpoonup> row_store"

definition js_truthy :: "jsval \<Rightarrow> bool" where
  "js_truthy v = (case v of
      VUndefined \<Rightarrow> False
    | VNull \<Rightarrow> False
    | VBool b \<Rightarrow> b
    | VNum n \<Rightarrow> n \<noteq> Finite 0 \<and> n \<noteq> NegZero \<and> n \<noteq> NotFinite
    | VStr s \<Rightarrow> s \<noteq> []
    | VBigint n \<Rightarrow> n \<noteq> 0
    | _ \<Rightarrow> True)"

definition truthy_at :: "model_data \<Rightarrow> string \<Rightarrow> bool" where
  "truthy_at r key = (case map_of r key of None \<Rightarrow> False | Some v \<Rightarrow> js_truthy v)"

definition dropped_value :: "jsval \<Rightarrow> bool" where
  "dropped_value v = (case v of
      VUndefined \<Rightarrow> True
    | VArr xs \<Rightarrow> xs = []
    | VObj _ _ ps \<Rightarrow> ps = []
    | _ \<Rightarrow> False)"

definition marker_keys :: "string list" where
  "marker_keys = [''__typename'', ''__class'', ''clientId'', ''syncStatus'']"

definition compactAssign :: "model_data \<Rightarrow> string \<Rightarrow> jsval \<Rightarrow> model_data" where
  "compactAssign out key v =
     (if key \<in> set marker_keys \<or> dropped_value v then out else AList.update key v out)"

definition compact_props :: "model_data \<Rightarrow> model_data \<Rightarrow> model_data" where
  "compact_props data out = foldl (\<lambda>out (key, v). compactAssign out key v) out data"

definition ensure_id :: "jsval option \<Rightarrow> model_data \<Rightarrow> model_data" where
  "ensure_id idValue out = (if truthy_at out ''id'' then out else case idValue of
      None \<Rightarrow> out
    | Some v \<Rightarrow> if js_truthy v then AList.update ''id'' v out else out)"

definition compactRecord :: "model_data \<Rightarrow> model_data" where
  "compactRecord data = ensure_id (map_of data ''id'') (compact_props data [])"

definition compactDeltaRecord :: "string \<Rightarrow> model_data \<Rightarrow> model_data \<Rightarrow> model_data" where
  "compactDeltaRecord modelId data out =
     (let idValue = (case map_of data ''id'' of Some v \<Rightarrow> v | None \<Rightarrow> VStr modelId);
          out1 = compactAssign out ''id'' idValue
      in ensure_id (Some idValue) (compact_props (filter (\<lambda>(key, _). key \<noteq> ''id'') data) out1))"

subsection \<open>Deltas and their answers\<close>

datatype delta_action = ActI | ActU | ActD | ActA | ActV | ActC | ActG | ActS

record store_delta =
  sd_syncId :: "int option"
  sd_actionType :: delta_action
  sd_modelName :: string
  sd_modelId :: string
  sd_data :: "model_data option"
  sd_transactionId :: "string option"

datatype applied_action = AddRow | UpdateRow | RemoveRow | ArchiveRow | VerifyRow

record AppliedChange =
  ac_action :: applied_action
  ac_modelName :: string
  ac_modelId :: string
  ac_data :: "model_data option"
  ac_transactionId :: "string option"
  ac_syncId :: "int option"

definition change :: "applied_action \<Rightarrow> store_delta \<Rightarrow> model_data option \<Rightarrow> string option \<Rightarrow> AppliedChange" where
  "change a d data txId = \<lparr>ac_action = a, ac_modelName = sd_modelName d, ac_modelId = sd_modelId d, ac_data = data,
     ac_transactionId = txId, ac_syncId = None\<rparr>"

definition stamp :: "store_delta \<Rightarrow> AppliedChange \<Rightarrow> AppliedChange" where
  "stamp d c = (case sd_syncId d of None \<Rightarrow> c | Some n \<Rightarrow> c\<lparr>ac_syncId := Some n\<rparr>)"

definition stampSyncIds :: "AppliedChange option list \<Rightarrow> store_delta list \<Rightarrow> AppliedChange option list" where
  "stampSyncIds results deltas = map (\<lambda>(c, d). map_option (stamp d) c) (zip results deltas)"

text \<open>A record as the stores key it, and the two ways of writing it.\<close>

definition record_key :: "model_data \<Rightarrow> string option" where
  "record_key r = (case map_of r ''id'' of Some (VStr s) \<Rightarrow> Some s | _ \<Rightarrow> None)"

definition putSync :: "model_data \<Rightarrow> row_store \<Rightarrow> row_store" where
  "putSync r s = (case record_key r of None \<Rightarrow> s | Some i \<Rightarrow> if i = [] then s else s(i \<mapsto> r))"

definition idb_put :: "model_data option \<Rightarrow> row_store \<Rightarrow> row_store option" where
  "idb_put r s = (case r of None \<Rightarrow> None | Some r \<Rightarrow> (case record_key r of None \<Rightarrow> None | Some i \<Rightarrow> Some (s(i \<mapsto> r))))"

definition with_id :: "string \<Rightarrow> model_data \<Rightarrow> model_data" where
  "with_id i data = spread [(''id'', VStr i)] data"

definition archive_record :: "string option \<Rightarrow> model_data \<Rightarrow> model_data" where
  "archive_record now data = compactRecord (spread data [(''archivedAt'', VDate now)])"

subsection \<open>The in-memory branch\<close>

definition data_or_empty :: "model_data option \<Rightarrow> model_data" where
  "data_or_empty data = (case data of None \<Rightarrow> [] | Some ps \<Rightarrow> ps)"

definition mem_row :: "string option \<Rightarrow> store_delta \<Rightarrow> row_store \<Rightarrow> row_store \<times> AppliedChange" where
  "mem_row now d s = (let i = sd_modelId d; txId = sd_transactionId d in case sd_actionType d of
      ActC \<Rightarrow> (case sd_data d of
          None \<Rightarrow> (s, change AddRow d None txId)
        | Some data \<Rightarrow> let r = compactDeltaRecord i data [] in (putSync r s, change AddRow d (Some r) txId))
    | ActI \<Rightarrow> (case sd_data d of
          None \<Rightarrow> (s, change AddRow d None txId)
        | Some data \<Rightarrow> let r = compactDeltaRecord i data [] in (putSync r s, change AddRow d (Some r) txId))
    | ActU \<Rightarrow> (case s i of
          None \<Rightarrow> (s, change VerifyRow d None txId)
        | Some existing \<Rightarrow>
            (let merged = (case sd_data d of None \<Rightarrow> existing | Some data \<Rightarrow> compactDeltaRecord i data existing)
             in (putSync merged s, change UpdateRow d (Some merged) txId)))
    | ActD \<Rightarrow> (s(i := None), change RemoveRow d None txId)
    | ActA \<Rightarrow> (let r = compactRecord (spread (spread (data_or_empty (sd_data d)) [(''id'', VStr i)]) [(''archivedAt'', VDate now)])
        in (putSync r s, change ArchiveRow d (Some r) txId))
    | _ \<Rightarrow> (s, change VerifyRow d (sd_data d) txId))"

record mem_db =
  md_stores :: row_stores
  md_lastSyncId :: int

definition mem_delta :: "string option \<Rightarrow> int \<Rightarrow> store_delta \<Rightarrow> row_stores \<Rightarrow> row_stores \<times> AppliedChange" where
  "mem_delta now lastApplied d stores = (case stores (sd_modelName d) of
      None \<Rightarrow> (stores, change VerifyRow d None (sd_transactionId d))
    | Some s \<Rightarrow>
        if (case sd_syncId d of None \<Rightarrow> False | Some n \<Rightarrow> n \<le> lastApplied)
        then (stores, change VerifyRow d None (sd_transactionId d))
        else (case mem_row now d s of (s1, c) \<Rightarrow> (stores(sd_modelName d \<mapsto> s1), c)))"

definition mem_persisted :: "store_delta \<Rightarrow> AppliedChange \<Rightarrow> int \<Rightarrow> int" where
  "mem_persisted d c persisted = (case sd_syncId d of
      None \<Rightarrow> persisted
    | Some n \<Rightarrow> if ac_action c \<noteq> VerifyRow \<and> n > persisted then n else persisted)"

fun mem_loop :: "string option \<Rightarrow> int \<Rightarrow> store_delta list \<Rightarrow> row_stores \<Rightarrow> int \<Rightarrow> row_stores \<times> AppliedChange list \<times> int" where
  "mem_loop now lastApplied [] stores persisted = (stores, [], persisted)"
| "mem_loop now lastApplied (d # ds) stores persisted =
     (case mem_delta now lastApplied d stores of (stores1, c) \<Rightarrow>
        (case mem_loop now lastApplied ds stores1 (mem_persisted d c persisted) of (stores2, cs, persisted2) \<Rightarrow>
          (stores2, c # cs, persisted2)))"

definition mem_batch :: "string option \<Rightarrow> store_delta list \<Rightarrow> mem_db \<Rightarrow> mem_db \<times> AppliedChange option list \<times> int" where
  "mem_batch now ds db =
     (case mem_loop now (md_lastSyncId db) ds (md_stores db) 0 of (stores, cs, persisted) \<Rightarrow>
        (\<lparr>md_stores = stores, md_lastSyncId = (if persisted > 0 then persisted else md_lastSyncId db)\<rparr>,
         stampSyncIds (map Some cs) ds, persisted))"

subsection \<open>One delta\<close>

datatype fetch_answer = Fetched model_data | NotFound | FetchFailed

text \<open>
  \<open>processDelta\<close> on the store of a model: the new store and the answer, or nothing when the write
  throws.
\<close>

definition delta_record :: "store_delta \<Rightarrow> model_data option" where
  "delta_record d = map_option (\<lambda>data. compactRecord (with_id (sd_modelId d) data)) (sd_data d)"

definition merge_record :: "model_data \<Rightarrow> model_data option \<Rightarrow> model_data" where
  "merge_record existing compacted = (case compacted of None \<Rightarrow> existing | Some r \<Rightarrow> spread existing r)"

definition processDelta :: "string option \<Rightarrow> int \<Rightarrow> store_delta \<Rightarrow> row_store \<Rightarrow> (row_store \<times> AppliedChange) option" where
  "processDelta now lastApplied d s =
     (if (case sd_syncId d of None \<Rightarrow> False | Some n \<Rightarrow> n \<le> lastApplied) then Some (s, change VerifyRow d None None)
      else let compacted = delta_record d in case sd_actionType d of
        ActC \<Rightarrow> (case compacted of
            None \<Rightarrow> Some (s, change AddRow d None None)
          | Some r \<Rightarrow> map_option (\<lambda>s1. (s1, change AddRow d (Some r) None)) (idb_put compacted s))
      | ActI \<Rightarrow> (case compacted of
            None \<Rightarrow> Some (s, change AddRow d None None)
          | Some r \<Rightarrow> map_option (\<lambda>s1. (s1, change AddRow d (Some r) None)) (idb_put compacted s))
      | ActU \<Rightarrow> (case s (sd_modelId d) of
            None \<Rightarrow> Some (s, change VerifyRow d None None)
          | Some existing \<Rightarrow>
              (let merged = merge_record existing compacted
               in map_option (\<lambda>s1. (s1, change UpdateRow d (Some merged) None)) (idb_put (Some merged) s)))
      | ActD \<Rightarrow> Some (s(sd_modelId d := None), change RemoveRow d None None)
      | ActA \<Rightarrow> (let r = archive_record now (data_or_empty (sd_data d))
          in map_option (\<lambda>s1. (s1, change ArchiveRow d (Some r) None)) (idb_put (Some r) s))
      | ActV \<Rightarrow> Some (s, change VerifyRow d (sd_data d) None)
      | _ \<Rightarrow> Some (s, change VerifyRow d None None))"

subsection \<open>The batch over IndexedDB transactions\<close>

record batch_env =
  be_read :: "string \<Rightarrow> bool"
  be_fetch :: "string \<Rightarrow> string \<Rightarrow> fetch_answer"
  be_closed :: "string \<Rightarrow> bool"
  be_commit :: "string \<Rightarrow> bool"
  be_now :: "string option"

definition entity_key :: "store_delta \<Rightarrow> string" where
  "entity_key d = sd_modelName d @ '':'' @ sd_modelId d"

definition note_delete :: "store_delta \<Rightarrow> (string \<rightharpoonup> int) \<Rightarrow> (string \<rightharpoonup> int)" where
  "note_delete d m = (case (sd_actionType d, sd_syncId d) of
      (ActD, Some n) \<Rightarrow>
        if n = 0 then m
        else (case m (entity_key d) of
            None \<Rightarrow> m(entity_key d \<mapsto> n)
          | Some existing \<Rightarrow> if existing = 0 \<or> n > existing then m(entity_key d \<mapsto> n) else m)
    | _ \<Rightarrow> m)"

definition deleteSyncIds :: "store_delta list \<Rightarrow> (string \<rightharpoonup> int)" where
  "deleteSyncIds ds = fold note_delete ds Map.empty"

definition superseded :: "(string \<rightharpoonup> int) \<Rightarrow> store_delta \<Rightarrow> bool" where
  "superseded deletes d = (sd_actionType d \<in> {ActU, ActI, ActC} \<and> (case deletes (entity_key d) of
      None \<Rightarrow> False
    | Some n \<Rightarrow> n \<ge> (case sd_syncId d of None \<Rightarrow> 0 | Some k \<Rightarrow> k)))"

text \<open>The records an update merges onto: those the store holds when the batch begins, else what the server still has.\<close>

definition existing_record :: "batch_env \<Rightarrow> string \<Rightarrow> row_store \<Rightarrow> string \<Rightarrow> model_data option" where
  "existing_record env m s i = (case (if be_read env m then s i else None) of
      Some r \<Rightarrow> Some r
    | None \<Rightarrow> (case be_fetch env m i of Fetched r \<Rightarrow> Some (compactRecord r) | _ \<Rightarrow> None))"

text \<open>
  One delta inside the transaction: nothing when a write throws, else the store and the staged answer.
  A group signal stages none.
\<close>

definition stage_delta :: "batch_env \<Rightarrow> (string \<Rightarrow> model_data option) \<Rightarrow> store_delta \<Rightarrow> row_store
    \<Rightarrow> (row_store \<times> AppliedChange option) option" where
  "stage_delta env existing d s = (let compacted = delta_record d in case sd_actionType d of
      ActC \<Rightarrow> map_option (\<lambda>s1. (s1, Some (change AddRow d compacted None))) (idb_put compacted s)
    | ActI \<Rightarrow> map_option (\<lambda>s1. (s1, Some (change AddRow d compacted None))) (idb_put compacted s)
    | ActU \<Rightarrow> (case existing (sd_modelId d) of
          None \<Rightarrow> Some (s, Some (change VerifyRow d None None))
        | Some r \<Rightarrow>
            (let merged = merge_record r compacted
             in map_option (\<lambda>s1. (s1, Some (change UpdateRow d (Some merged) None))) (idb_put (Some merged) s)))
    | ActD \<Rightarrow> Some (s(sd_modelId d := None), Some (change RemoveRow d None None))
    | ActA \<Rightarrow> (let r = archive_record (be_now env) (data_or_empty (sd_data d))
        in map_option (\<lambda>s1. (s1, Some (change ArchiveRow d (Some r) None))) (idb_put (Some r) s))
    | ActV \<Rightarrow> Some (s, Some (change VerifyRow d (sd_data d) None))
    | _ \<Rightarrow> Some (s, None))"

fun stage_deltas :: "batch_env \<Rightarrow> (string \<Rightarrow> model_data option) \<Rightarrow> (nat \<times> store_delta) list \<Rightarrow> row_store
    \<Rightarrow> row_store \<times> (nat \<times> AppliedChange) list option" where
  "stage_deltas env existing [] s = (s, Some [])"
| "stage_deltas env existing ((idx, d) # rest) s = (case stage_delta env existing d s of
      None \<Rightarrow> (s, None)
    | Some (s1, staged) \<Rightarrow> apsnd (map_option (\<lambda>later. case staged of None \<Rightarrow> later | Some c \<Rightarrow> (idx, c) # later))
        (stage_deltas env existing rest s1))"

record batch_state =
  bs_stores :: row_stores
  bs_results :: "AppliedChange option list"
  bs_persisted :: "nat set"

text \<open>
  The transaction of one store. When it does not complete nothing lands. When a write throws, nobody
  aborts the transaction: the writes issued before it still commit, but every delta of the store is
  answered as unverified.
\<close>

definition verify_all :: "(nat \<times> store_delta) list \<Rightarrow> AppliedChange option list \<Rightarrow> AppliedChange option list" where
  "verify_all grp results = foldl (\<lambda>rs (idx, d). rs[idx := Some (change VerifyRow d None None)]) results grp"

definition store_transaction :: "batch_env \<Rightarrow> store_delta list \<Rightarrow> string \<Rightarrow> (nat \<times> store_delta) list \<Rightarrow> batch_state \<Rightarrow> batch_state" where
  "store_transaction env deltas m grp b = (case bs_stores b m of
      None \<Rightarrow> b
    | Some s \<Rightarrow>
        if be_closed env m then b\<lparr>bs_results := verify_all grp (bs_results b)\<rparr>
        else (case stage_deltas env (existing_record env m s) grp s of (s1, staged) \<Rightarrow>
            if \<not> be_commit env m then b\<lparr>bs_results := verify_all grp (bs_results b)\<rparr>
            else (case staged of
                None \<Rightarrow> b\<lparr>bs_stores := (bs_stores b)(m \<mapsto> s1), bs_results := verify_all grp (bs_results b)\<rparr>
              | Some cs \<Rightarrow> b\<lparr>bs_stores := (bs_stores b)(m \<mapsto> s1),
                     bs_results := foldl (\<lambda>rs (idx, c). rs[idx := Some (c\<lparr>ac_transactionId := sd_transactionId (deltas ! idx)\<rparr>)])
                       (bs_results b) cs,
                     bs_persisted := bs_persisted b \<union> set (map fst cs)\<rparr>)))"

definition route_delta :: "(string \<rightharpoonup> int) \<Rightarrow> row_stores \<Rightarrow> nat \<times> store_delta
    \<Rightarrow> (string \<times> (nat \<times> store_delta) list) list \<times> AppliedChange option list \<times> nat set
    \<Rightarrow> (string \<times> (nat \<times> store_delta) list) list \<times> AppliedChange option list \<times> nat set" where
  "route_delta deletes stores p acc = (case (p, acc) of ((idx, d), (groups, results, persisted)) \<Rightarrow>
     if superseded deletes d then (groups, results[idx := Some (change VerifyRow d None None)], insert idx persisted)
     else if stores (sd_modelName d) = None then (groups, results[idx := Some (change VerifyRow d None None)], persisted)
     else (AList.update (sd_modelName d) ((case map_of groups (sd_modelName d) of None \<Rightarrow> [] | Some xs \<Rightarrow> xs) @ [(idx, d)]) groups,
           results, persisted))"

definition processDeltaBatch :: "bool \<Rightarrow> batch_env \<Rightarrow> store_delta list \<Rightarrow> row_stores
    \<Rightarrow> row_stores \<times> AppliedChange option list \<times> int" where
  "processDeltaBatch is_open env deltas stores =
     (if \<not> is_open \<or> deltas = [] then (stores, [], 0)
      else (case fold (route_delta (deleteSyncIds deltas) stores) (enumerate 0 deltas) ([], replicate (length deltas) None, {}) of
        (groups, results, persisted) \<Rightarrow>
          (let b = fold (\<lambda>(m, grp). store_transaction env deltas m grp) groups
                \<lparr>bs_stores = stores, bs_results = results, bs_persisted = persisted\<rparr>;
               through = highestPersistedPrefixSyncId
                 (map (\<lambda>d. case sd_syncId d of None \<Rightarrow> RawAbsent | Some n \<Rightarrow> RawNumber n) deltas) (bs_persisted b)
           in (bs_stores b, stampSyncIds (bs_results b) deltas, through))))"

subsection \<open>Compaction in one pass\<close>

lemma spread_append: "spread a (b @ c) = spread (spread a b) c"
  by (simp add: spread_def)

lemma spread_onto_id:
  "distinct (map fst data) \<Longrightarrow> with_id i data =
     (''id'', case map_of data ''id'' of Some v \<Rightarrow> v | None \<Rightarrow> VStr i) # filter (\<lambda>(key, _). key \<noteq> ''id'') data"
proof (induction data rule: rev_induct)
  case Nil
  then show ?case by (simp add: with_id_def spread_def)
next
  case (snoc kv data)
  obtain k v where kv: "kv = (k, v)" by fastforce
  have d: "distinct (map fst data)" "k \<notin> fst ` set data" using snoc.prems kv by auto
  let ?f = "\<lambda>xs. filter (\<lambda>(key, _). key \<noteq> ''id'') xs"
  have step: "with_id i (data @ [(k, v)]) = AList.update k v (with_id i data)"
    by (simp add: with_id_def spread_append) (simp add: spread_def)
  have none: "map_of data ''id'' = None" if "k = ''id''" using d(2) that by (simp add: map_of_eq_None_iff)
  have app: "([k \<mapsto> v] ++ map_of data) ''id'' = (if k = ''id'' then Some v else map_of data ''id'')"
    using none by (auto simp: map_add_def split: option.splits)
  have out: "AList.update k v (?f data) = ?f data @ [(k, v)]"
    using d(2) by (intro alist_update_new) auto
  show ?case
  proof (cases "k = ''id''")
    case True
    then show ?thesis using snoc.IH [OF d(1)] step app kv by simp
  next
    case False
    then show ?thesis using snoc.IH [OF d(1)] out by (simp add: step app kv)
  qed
qed

lemma compactDeltaRecord_mirrors:
  assumes "distinct (map fst data)"
  shows "compactDeltaRecord i data [] = compactRecord (with_id i data)"
  by (simp add: compactDeltaRecord_def compactRecord_def spread_onto_id [OF assms] compact_props_def Let_def)

lemma compact_props_keys: "distinct (map fst out) \<Longrightarrow> distinct (map fst (compact_props data out))"
  by (induction data arbitrary: out) (auto simp: compact_props_def compactAssign_def distinct_update)

lemma compactRecord_distinct: "distinct (map fst (compactRecord data))"
  using compact_props_keys [of "[]" data]
  by (auto simp: compactRecord_def ensure_id_def distinct_update split: option.splits)

lemma compact_props_lookup:
  "distinct (map fst data) \<Longrightarrow> map_of (compact_props data out) key =
     (case map_of data key of
        Some v \<Rightarrow> if key \<in> set marker_keys \<or> dropped_value v then map_of out key else Some v
      | None \<Rightarrow> map_of out key)"
proof (induction data arbitrary: out)
  case (Cons kv data)
  obtain k v where kv: "kv = (k, v)" by fastforce
  have "map_of data k = None" using Cons.prems kv by (simp add: map_of_eq_None_iff)
  with Cons kv show ?case
    by (auto simp: compact_props_def compactAssign_def update_conv split: option.split)
qed (simp add: compact_props_def)

lemma compactRecord_key:
  assumes "distinct (map fst data)" and "map_of data ''id'' = Some (VStr i)"
  shows "record_key (compactRecord data) = Some i"
proof -
  have "map_of (compact_props data []) ''id'' = Some (VStr i)"
    using assms by (simp add: compact_props_lookup marker_keys_def dropped_value_def)
  then show ?thesis
    using assms(2) by (simp add: compactRecord_def ensure_id_def truthy_at_def js_truthy_def record_key_def update_conv)
qed

subsection \<open>One row\<close>

text \<open>A delta whose payload, where the action needs one, names the row of its envelope.\<close>

definition names_row :: "store_delta \<Rightarrow> bool" where
  "names_row d = (case sd_data d of
      None \<Rightarrow> sd_actionType d \<notin> {ActI, ActC, ActA}
    | Some data \<Rightarrow> distinct (map fst data) \<and>
        (map_of data ''id'' = Some (VStr (sd_modelId d)) \<or> (map_of data ''id'' = None \<and> sd_actionType d \<noteq> ActA)))"

definition keyed :: "row_store \<Rightarrow> bool" where
  "keyed s = (\<forall>i r. s i = Some r \<longrightarrow> record_key r = Some i)"

text \<open>What a delta makes of its row, given the record an update merges onto.\<close>

definition delta_row :: "string option \<Rightarrow> model_data option \<Rightarrow> store_delta \<Rightarrow> model_data option \<Rightarrow> model_data option" where
  "delta_row now existing d cur = (case sd_actionType d of
      ActI \<Rightarrow> delta_record d
    | ActC \<Rightarrow> delta_record d
    | ActU \<Rightarrow> (case existing of None \<Rightarrow> cur | Some r \<Rightarrow> Some (merge_record r (delta_record d)))
    | ActD \<Rightarrow> None
    | ActA \<Rightarrow> Some (archive_record now (data_or_empty (sd_data d)))
    | _ \<Rightarrow> cur)"

lemma delta_record_key:
  assumes "names_row d" and "delta_record d = Some r"
  shows "record_key r = Some (sd_modelId d)" and "distinct (map fst r)"
proof -
  from assms obtain data where data: "sd_data d = Some data" "r = compactRecord (with_id (sd_modelId d) data)"
    by (auto simp: delta_record_def)
  with assms have d: "distinct (map fst data)" "map_of data ''id'' \<in> {None, Some (VStr (sd_modelId d))}"
    by (auto simp: names_row_def)
  have w: "with_id (sd_modelId d) data = (''id'', VStr (sd_modelId d)) # filter (\<lambda>(key, _). key \<noteq> ''id'') data"
    using d by (auto simp: spread_onto_id)
  have "distinct (map fst (with_id (sd_modelId d) data))"
    using d(1) by (auto simp: w distinct_map_filter image_iff)
  then show "record_key r = Some (sd_modelId d)"
    unfolding data(2) by (rule compactRecord_key) (simp add: w)
  show "distinct (map fst r)" by (simp add: data(2) compactRecord_distinct)
qed

lemma merge_record_key:
  assumes "names_row d" and "record_key r = Some (sd_modelId d)"
  shows "record_key (merge_record r (delta_record d)) = Some (sd_modelId d)"
proof (cases "delta_record d")
  case (Some q)
  note k = delta_record_key [OF assms(1) Some]
  have "map_of q ''id'' = Some (VStr (sd_modelId d))"
    using k(1) by (auto simp: record_key_def split: option.splits jsval.splits)
  then show ?thesis using Some k(2) by (simp add: merge_record_def record_key_def map_of_spread)
qed (simp add: merge_record_def assms)

lemma archive_record_key:
  assumes "names_row d" and "sd_actionType d = ActA"
  shows "record_key (archive_record now (data_or_empty (sd_data d))) = Some (sd_modelId d)"
proof -
  from assms obtain data where data: "sd_data d = Some data" "distinct (map fst data)" "map_of data ''id'' = Some (VStr (sd_modelId d))"
    by (auto simp: names_row_def split: option.splits)
  have "spread data [(''archivedAt'', VDate now)] = AList.update ''archivedAt'' (VDate now) data" by (simp add: spread_def)
  then show ?thesis
    using data by (simp add: archive_record_def data_or_empty_def compactRecord_key distinct_update update_conv)
qed

lemma stage_delta_row:
  assumes "names_row d" and "\<And>r. existing (sd_modelId d) = Some r \<Longrightarrow> record_key r = Some (sd_modelId d)"
  shows "\<exists>c. stage_delta env existing d s =
    Some (s(sd_modelId d := delta_row (be_now env) (existing (sd_modelId d)) d (s (sd_modelId d))), c) \<and>
      (c = None \<longleftrightarrow> sd_actionType d \<in> {ActG, ActS})"
proof -
  have put: "idb_put (Some r) s = Some (s(sd_modelId d \<mapsto> r))" if "record_key r = Some (sd_modelId d)" for r
    using that by (simp add: idb_put_def)
  have rec: "idb_put (delta_record d) s = Some (s(sd_modelId d := delta_record d))" if "sd_actionType d \<in> {ActI, ActC}"
  proof -
    from that assms(1) obtain r where r: "delta_record d = Some r"
      by (auto simp: names_row_def delta_record_def split: option.splits)
    then show ?thesis using put [OF delta_record_key(1) [OF assms(1) r]] by simp
  qed
  show ?thesis
    using rec put [OF archive_record_key [OF assms(1)]] put [OF merge_record_key [OF assms]]
    by (cases "sd_actionType d") (auto simp: stage_delta_def delta_row_def Let_def split: option.split)
qed

lemma processDelta_row:
  assumes "names_row d" and "keyed s" and "\<exists>n. sd_syncId d = Some n \<and> lastApplied < n"
  shows "\<exists>c. processDelta now lastApplied d s =
    Some (s(sd_modelId d := delta_row now (s (sd_modelId d)) d (s (sd_modelId d))), c)"
proof -
  have put: "idb_put (Some r) s = Some (s(sd_modelId d \<mapsto> r))" if "record_key r = Some (sd_modelId d)" for r
    using that by (simp add: idb_put_def)
  have merged: "idb_put (Some (merge_record r (delta_record d))) s = Some (s(sd_modelId d \<mapsto> merge_record r (delta_record d)))"
    if "s (sd_modelId d) = Some r" for r
    using put merge_record_key [OF assms(1)] assms(2) that by (simp add: keyed_def)
  have rec: "\<exists>r. delta_record d = Some r \<and> idb_put (Some r) s = Some (s(sd_modelId d \<mapsto> r))" if "sd_actionType d \<in> {ActI, ActC}"
  proof -
    from that assms(1) obtain r where r: "delta_record d = Some r"
      by (auto simp: names_row_def delta_record_def split: option.splits)
    then show ?thesis using put [OF delta_record_key(1) [OF assms(1) r]] by simp
  qed
  show ?thesis
    using rec put [OF archive_record_key [OF assms(1)]] merged assms(3)
    by (cases "sd_actionType d") (auto simp: processDelta_def delta_row_def Let_def split: option.split)
qed

text \<open>The reference: the deltas of a store one after the other.\<close>

definition seq_deltas :: "string option \<Rightarrow> int \<Rightarrow> store_delta list \<Rightarrow> row_store \<Rightarrow> row_store" where
  "seq_deltas now lastApplied ds s =
     foldl (\<lambda>s d. case processDelta now lastApplied d s of None \<Rightarrow> s | Some (s1, _) \<Rightarrow> s1) s ds"

lemma delta_row_key:
  assumes "names_row d" and "\<And>r. existing = Some r \<Longrightarrow> record_key r = Some (sd_modelId d)"
    and "\<And>r. cur = Some r \<Longrightarrow> record_key r = Some (sd_modelId d)" and "delta_row now existing d cur = Some r"
  shows "record_key r = Some (sd_modelId d)"
  using assms(2-4) delta_record_key(1) [OF assms(1)] merge_record_key [OF assms(1)] archive_record_key [OF assms(1)]
  by (cases "sd_actionType d") (auto simp: delta_row_def split: option.splits)

lemma seq_deltas_row:
  assumes "\<forall>d \<in> set ds. names_row d \<and> (\<exists>n. sd_syncId d = Some n \<and> lastApplied < n)" and "keyed s"
  shows "seq_deltas now lastApplied ds s i = foldl (\<lambda>c d. delta_row now c d c) (s i) (filter (\<lambda>d. sd_modelId d = i) ds)"
  using assms
proof (induction ds arbitrary: s)
  case (Cons d ds)
  let ?s = "s(sd_modelId d := delta_row now (s (sd_modelId d)) d (s (sd_modelId d)))"
  obtain c where p: "processDelta now lastApplied d s = Some (?s, c)"
    using processDelta_row [of d s lastApplied now] Cons.prems by auto
  have "keyed ?s"
    using Cons.prems delta_row_key [of d "s (sd_modelId d)" "s (sd_modelId d)" now]
    by (auto simp: keyed_def)
  then have "seq_deltas now lastApplied ds ?s i = foldl (\<lambda>c d. delta_row now c d c) (?s i) (filter (\<lambda>d. sd_modelId d = i) ds)"
    using Cons by simp
  then show ?case using p by (auto simp: seq_deltas_def)
qed (simp add: seq_deltas_def)

lemma stage_deltas_row:
  assumes "\<forall>d \<in> set (map snd grp). names_row d" and "keyed existing"
  shows "\<exists>t cs. stage_deltas env existing grp s = (t, Some cs) \<and>
    (\<forall>i. t i = foldl (\<lambda>c d. delta_row (be_now env) (existing i) d c) (s i) (filter (\<lambda>d. sd_modelId d = i) (map snd grp))) \<and>
    set (map fst cs) = fst ` {p \<in> set grp. sd_actionType (snd p) \<notin> {ActG, ActS}}"
  using assms(1)
proof (induction grp arbitrary: s)
  case (Cons p grp)
  obtain idx d where p: "p = (idx, d)" by fastforce
  let ?s = "s(sd_modelId d := delta_row (be_now env) (existing (sd_modelId d)) d (s (sd_modelId d)))"
  obtain c where c: "stage_delta env existing d s = Some (?s, c)" "c = None \<longleftrightarrow> sd_actionType d \<in> {ActG, ActS}"
    using stage_delta_row [of d existing env s] Cons.prems assms(2) p by (auto simp: keyed_def)
  have rest: "\<forall>d \<in> set (map snd grp). names_row d" using Cons.prems by simp
  obtain t cs where t: "stage_deltas env existing grp ?s = (t, Some cs)"
    "\<forall>i. t i = foldl (\<lambda>c d. delta_row (be_now env) (existing i) d c) (?s i) (filter (\<lambda>d. sd_modelId d = i) (map snd grp))"
    "set (map fst cs) = fst ` {p \<in> set grp. sd_actionType (snd p) \<notin> {ActG, ActS}}"
    using Cons.IH [OF rest, of ?s] by blast
  let ?cs = "case c of None \<Rightarrow> cs | Some x \<Rightarrow> (idx, x) # cs"
  have "stage_deltas env existing (p # grp) s = (t, Some ?cs)" using c t by (simp add: p)
  moreover have "t i = foldl (\<lambda>c d. delta_row (be_now env) (existing i) d c) (s i) (filter (\<lambda>d. sd_modelId d = i) (map snd (p # grp)))" for i
    using t(2) by (simp add: p)
  moreover have "set (map fst ?cs) = fst ` {q \<in> set (p # grp). sd_actionType (snd q) \<notin> {ActG, ActS}}"
  proof (cases c)
    case None
    then have "{q \<in> set (p # grp). sd_actionType (snd q) \<notin> {ActG, ActS}} = {q \<in> set grp. sd_actionType (snd q) \<notin> {ActG, ActS}}"
      using c(2) p by auto
    then show ?thesis using t(3) None by simp
  next
    case (Some x)
    then have "{q \<in> set (p # grp). sd_actionType (snd q) \<notin> {ActG, ActS}} = insert p {q \<in> set grp. sd_actionType (snd q) \<notin> {ActG, ActS}}"
      using c(2) p by auto
    then show ?thesis using t(3) Some p by simp
  qed
  ultimately show ?case by blast
qed simp

subsection \<open>A row over a whole batch\<close>

lemma foldl_no_update:
  "\<forall>d \<in> set ds. sd_actionType d \<noteq> ActU \<Longrightarrow>
     foldl (\<lambda>c d. delta_row now existing d c) cur ds = foldl (\<lambda>c d. delta_row now c d c) cur ds"
proof (induction ds arbitrary: cur)
  case (Cons d ds)
  then have "delta_row now existing d cur = delta_row now cur d cur"
    by (auto simp: delta_row_def split: delta_action.splits)
  with Cons show ?case by simp
qed simp

text \<open>
  The deltas of one row in log order: with the writes a later delete supersedes left out, and updates
  merged onto the record before the batch, the row ends as if they were applied one by one, provided an
  update that stands has no delta of its row before it.
\<close>

lemma row_batch:
  assumes stand: "\<And>d. d \<in> set ds \<Longrightarrow> stale d \<Longrightarrow> sd_actionType d \<in> {ActU, ActI, ActC}"
    and later: "\<And>xs d ys. ds = xs @ d # ys \<Longrightarrow> stale d \<longleftrightarrow>
        sd_actionType d \<in> {ActU, ActI, ActC} \<and> (\<exists>e \<in> set ys. sd_actionType e = ActD)"
    and first: "\<And>xs d ys. ds = xs @ d # ys \<Longrightarrow> sd_actionType d = ActU \<Longrightarrow> \<not> stale d \<Longrightarrow> xs = []"
  shows "foldl (\<lambda>c d. delta_row now cur d c) cur (filter (\<lambda>d. \<not> stale d) ds) = foldl (\<lambda>c d. delta_row now c d c) cur ds"
proof (cases "\<exists>d \<in> set ds. sd_actionType d = ActD")
  case True
  obtain xs del ys where ds: "ds = xs @ del # ys" "sd_actionType del = ActD" "\<forall>d \<in> set ys. sd_actionType d \<noteq> ActD"
    using split_list_last_prop [of ds "\<lambda>d. sd_actionType d = ActD"] True by blast
  have live: "\<not> stale d \<and> sd_actionType d \<noteq> ActU" if "d \<in> set ys" for d
  proof -
    from that obtain us vs where ys: "ys = us @ d # vs" by (meson split_list)
    have split: "ds = (xs @ del # us) @ d # vs" using ds(1) ys by simp
    have "\<not> stale d" using later [OF split] ds(3) ys by auto
    moreover have "sd_actionType d \<noteq> ActU" using first [OF split] \<open>\<not> stale d\<close> by auto
    ultimately show ?thesis ..
  qed
  then have ys: "filter (\<lambda>d. \<not> stale d) ys = ys" by (simp add: filter_id_conv)
  have del: "\<not> stale del" using stand [of del] ds by auto
  have d: "delta_row now e del c = None" for e c using ds(2) by (simp add: delta_row_def)
  have "foldl (\<lambda>c d. delta_row now cur d c) cur (filter (\<lambda>d. \<not> stale d) ds) = foldl (\<lambda>c d. delta_row now cur d c) None ys"
    unfolding ds(1) filter_append foldl_append using del by (simp add: ys d)
  also have "\<dots> = foldl (\<lambda>c d. delta_row now c d c) None ys" using foldl_no_update live by blast
  also have "\<dots> = foldl (\<lambda>c d. delta_row now c d c) cur ds" unfolding ds(1) foldl_append by (simp add: d)
  finally show ?thesis .
next
  case False
  have live: "\<not> stale d" if "d \<in> set ds" for d
  proof -
    from that obtain us vs where split: "ds = us @ d # vs" by (meson split_list)
    show ?thesis using later [OF split] False split by auto
  qed
  then have all: "filter (\<lambda>d. \<not> stale d) ds = ds" by (simp add: filter_id_conv)
  show ?thesis
  proof (cases ds)
    case (Cons d rest)
    have "sd_actionType e \<noteq> ActU" if "e \<in> set rest" for e
    proof -
      from that obtain us vs where "rest = us @ e # vs" by (meson split_list)
      then have split: "ds = (d # us) @ e # vs" using Cons by simp
      show ?thesis using first [OF split] live [of e] that Cons by auto
    qed
    then show ?thesis using foldl_no_update [of rest] Cons all by simp
  qed simp
qed

subsection \<open>Routing and transactions\<close>

definition group_of :: "(string \<times> (nat \<times> store_delta) list) list \<Rightarrow> string \<Rightarrow> (nat \<times> store_delta) list" where
  "group_of groups m = (case map_of groups m of None \<Rightarrow> [] | Some xs \<Rightarrow> xs)"

definition routed :: "(string \<rightharpoonup> int) \<Rightarrow> row_stores \<Rightarrow> string \<Rightarrow> nat \<times> store_delta \<Rightarrow> bool" where
  "routed deletes stores m p \<longleftrightarrow> \<not> superseded deletes (snd p) \<and> sd_modelName (snd p) = m \<and> stores m \<noteq> None"

lemma route_fold:
  assumes "fold (route_delta deletes stores) ps (groups, results, persisted) = (groups', results', persisted')"
    and "distinct (map fst groups)"
  shows "group_of groups' m = group_of groups m @ filter (routed deletes stores m) ps"
    and "distinct (map fst groups')"
    and "persisted' = persisted \<union> fst ` {p \<in> set ps. superseded deletes (snd p)}"
proof -
  have "group_of groups' m = group_of groups m @ filter (routed deletes stores m) ps \<and> distinct (map fst groups') \<and>
      persisted' = persisted \<union> fst ` {p \<in> set ps. superseded deletes (snd p)}"
    using assms
  proof (induction ps arbitrary: groups results persisted)
    case (Cons p ps)
    obtain idx d where p: "p = (idx, d)" by fastforce
    obtain g r q where step: "route_delta deletes stores p (groups, results, persisted) = (g, r, q)" by (metis prod_cases3)
    have split: "fold (route_delta deletes stores) ps (g, r, q) = (groups', results', persisted')"
      using Cons.prems(1) step by simp
    consider (stale) "superseded deletes d" "g = groups" "q = insert idx persisted"
      | (unknown) "\<not> superseded deletes d" "stores (sd_modelName d) = None" "g = groups" "q = persisted"
      | (grouped) "\<not> superseded deletes d" "stores (sd_modelName d) \<noteq> None" "q = persisted"
          "g = AList.update (sd_modelName d) (group_of groups (sd_modelName d) @ [(idx, d)]) groups"
      using step by (auto simp: route_delta_def p group_of_def split: if_splits)
    then show ?case
    proof cases
      case stale
      have "{x \<in> set (p # ps). superseded deletes (snd x)} = insert p {x \<in> set ps. superseded deletes (snd x)}"
        using stale(1) p by auto
      then show ?thesis using Cons.IH [OF split] Cons.prems(2) stale p by (simp add: routed_def)
    next
      case unknown
      have "{x \<in> set (p # ps). superseded deletes (snd x)} = {x \<in> set ps. superseded deletes (snd x)}"
        using unknown(1) p by auto
      then show ?thesis using Cons.IH [OF split] Cons.prems(2) unknown p by (auto simp: routed_def)
    next
      case grouped
      have e: "{x \<in> set (p # ps). superseded deletes (snd x)} = {x \<in> set ps. superseded deletes (snd x)}"
        using grouped(1) p by auto
      have d: "distinct (map fst g)" using Cons.prems(2) grouped(4) by (simp add: distinct_update)
      have "group_of g m = group_of groups m @ (if routed deletes stores m p then [p] else [])"
        using grouped by (auto simp: group_of_def routed_def p update_conv)
      then show ?thesis using Cons.IH [OF split d] grouped(3) e by simp
    qed
  qed simp
  then show "group_of groups' m = group_of groups m @ filter (routed deletes stores m) ps"
    and "distinct (map fst groups')" and "persisted' = persisted \<union> fst ` {p \<in> set ps. superseded deletes (snd p)}" by blast+
qed

definition tx_store :: "batch_env \<Rightarrow> string \<Rightarrow> (nat \<times> store_delta) list \<Rightarrow> row_store \<Rightarrow> row_store" where
  "tx_store env m grp s =
     (if be_closed env m \<or> \<not> be_commit env m then s else fst (stage_deltas env (existing_record env m s) grp s))"

definition tx_indexes :: "batch_env \<Rightarrow> string \<Rightarrow> (nat \<times> store_delta) list \<Rightarrow> row_store \<Rightarrow> nat set" where
  "tx_indexes env m grp s =
     (if be_closed env m \<or> \<not> be_commit env m then {}
      else case snd (stage_deltas env (existing_record env m s) grp s) of None \<Rightarrow> {} | Some cs \<Rightarrow> set (map fst cs))"

lemma store_transaction_effect:
  "bs_stores (store_transaction env deltas m grp b) =
     (case bs_stores b m of None \<Rightarrow> bs_stores b | Some s \<Rightarrow> (bs_stores b)(m \<mapsto> tx_store env m grp s))"
  "bs_persisted (store_transaction env deltas m grp b) =
     bs_persisted b \<union> (case bs_stores b m of None \<Rightarrow> {} | Some s \<Rightarrow> tx_indexes env m grp s)"
  by (auto simp: store_transaction_def tx_store_def tx_indexes_def fun_upd_idem split: option.splits prod.splits)

lemma transactions_effect:
  fixes env deltas
  assumes "distinct (map fst groups)"
  defines "b' b \<equiv> fold (\<lambda>(m, grp). store_transaction env deltas m grp) groups b"
  shows "bs_stores (b' b) m = (case bs_stores b m of None \<Rightarrow> None | Some s \<Rightarrow>
      Some (case map_of groups m of None \<Rightarrow> s | Some grp \<Rightarrow> tx_store env m grp s))"
    and "bs_persisted (b' b) = bs_persisted b \<union>
      \<Union> {tx_indexes env m grp s | m grp s. (m, grp) \<in> set groups \<and> bs_stores b m = Some s}"
proof -
  have "bs_stores (b' b) m = (case bs_stores b m of None \<Rightarrow> None | Some s \<Rightarrow>
      Some (case map_of groups m of None \<Rightarrow> s | Some grp \<Rightarrow> tx_store env m grp s)) \<and>
    bs_persisted (b' b) = bs_persisted b \<union>
      \<Union> {tx_indexes env m grp s | m grp s. (m, grp) \<in> set groups \<and> bs_stores b m = Some s}"
    unfolding b'_def using assms(1)
  proof (induction groups arbitrary: b)
    case (Cons q groups)
    obtain m1 g1 where q: "q = (m1, g1)" by fastforce
    let ?b = "store_transaction env deltas m1 g1 b"
    have fresh: "m1 \<notin> fst ` set groups" using Cons.prems q by simp
    have same: "bs_stores ?b m' = bs_stores b m'" if "m' \<noteq> m1" for m'
      using that by (auto simp: store_transaction_effect split: option.splits)
    have later: "{tx_indexes env m grp s | m grp s. (m, grp) \<in> set groups \<and> bs_stores ?b m = Some s} =
        {tx_indexes env m grp s | m grp s. (m, grp) \<in> set groups \<and> bs_stores b m = Some s}"
      using same fresh by (metis (no_types, opaque_lifting) fst_conv image_eqI)
    have head: "{tx_indexes env m grp s | m grp s. (m, grp) \<in> set (q # groups) \<and> bs_stores b m = Some s} =
        {tx_indexes env m1 g1 s | s. bs_stores b m1 = Some s} \<union>
        {tx_indexes env m grp s | m grp s. (m, grp) \<in> set groups \<and> bs_stores b m = Some s}"
      using q by auto
    have none: "map_of groups m1 = None" using fresh by (simp add: map_of_eq_None_iff)
    have ih: "bs_stores (fold (\<lambda>(m, grp). store_transaction env deltas m grp) groups ?b) m =
        (case bs_stores ?b m of None \<Rightarrow> None | Some s \<Rightarrow> Some (case map_of groups m of None \<Rightarrow> s | Some grp \<Rightarrow> tx_store env m grp s))"
      "bs_persisted (fold (\<lambda>(m, grp). store_transaction env deltas m grp) groups ?b) = bs_persisted ?b \<union>
        \<Union> {tx_indexes env m grp s | m grp s. (m, grp) \<in> set groups \<and> bs_stores ?b m = Some s}"
      using Cons.IH [of ?b] Cons.prems by simp_all
    have "bs_stores (fold (\<lambda>(m, grp). store_transaction env deltas m grp) (q # groups) b) m =
        (case bs_stores b m of None \<Rightarrow> None | Some s \<Rightarrow> Some (case map_of (q # groups) m of None \<Rightarrow> s | Some grp \<Rightarrow> tx_store env m grp s))"
      using ih(1) same [of m] none by (cases "m = m1") (auto simp: q store_transaction_effect split: option.splits)
    moreover have "bs_persisted (fold (\<lambda>(m, grp). store_transaction env deltas m grp) (q # groups) b) = bs_persisted b \<union>
        \<Union> {tx_indexes env m grp s | m grp s. (m, grp) \<in> set (q # groups) \<and> bs_stores b m = Some s}"
    proof -
      have "bs_persisted ?b = bs_persisted b \<union> \<Union> {tx_indexes env m1 g1 s | s. bs_stores b m1 = Some s}"
        by (simp add: store_transaction_effect split: option.splits)
      then show ?thesis using ih(2) [unfolded later] unfolding head by (simp add: q Un_assoc)
    qed
    ultimately show ?case ..
  qed (auto split: option.splits)
  then show "bs_stores (b' b) m = (case bs_stores b m of None \<Rightarrow> None | Some s \<Rightarrow>
      Some (case map_of groups m of None \<Rightarrow> s | Some grp \<Rightarrow> tx_store env m grp s))"
    and "bs_persisted (b' b) = bs_persisted b \<union>
      \<Union> {tx_indexes env m grp s | m grp s. (m, grp) \<in> set groups \<and> bs_stores b m = Some s}" by blast+
qed

subsection \<open>Batches in log order\<close>

definition log_id :: "store_delta \<Rightarrow> int" where
  "log_id d = (case sd_syncId d of None \<Rightarrow> 0 | Some n \<Rightarrow> n)"

definition same_row :: "store_delta \<Rightarrow> store_delta \<Rightarrow> bool" where
  "same_row c d \<longleftrightarrow> sd_modelName c = sd_modelName d \<and> sd_modelId c = sd_modelId d"

text \<open>
  A batch as the server delivers it: positive positions that increase, payloads that name their rows,
  and model names without the separator of the delete index.
\<close>

definition log_batch :: "store_delta list \<Rightarrow> bool" where
  "log_batch ds \<longleftrightarrow> sorted_wrt (\<lambda>c d. log_id c < log_id d) ds \<and>
     list_all (\<lambda>d. sd_syncId d \<noteq> None \<and> 0 < log_id d \<and> names_row d \<and> CHR '':'' \<notin> set (sd_modelName d)) ds"

text \<open>An update that no delete of the batch supersedes is the first delta of its row.\<close>

definition lone_updates :: "store_delta list \<Rightarrow> bool" where
  "lone_updates ds = sorted_wrt (\<lambda>c d. sd_actionType d = ActU \<and> \<not> superseded (deleteSyncIds ds) d \<longrightarrow> \<not> same_row c d) ds"

lemma entity_key_row:
  assumes "CHR '':'' \<notin> set (sd_modelName c)" and "CHR '':'' \<notin> set (sd_modelName d)"
  shows "entity_key c = entity_key d \<longleftrightarrow> same_row c d"
proof
  assume e: "entity_key c = entity_key d"
  have head: "takeWhile (\<lambda>x. x \<noteq> CHR '':'') (entity_key x) = sd_modelName x" if "CHR '':'' \<notin> set (sd_modelName x)" for x
  proof -
    have "y \<noteq> CHR '':''" if "y \<in> set (sd_modelName x)" for y using that \<open>CHR '':'' \<notin> set (sd_modelName x)\<close> by blast
    then show ?thesis by (simp add: entity_key_def takeWhile_append2)
  qed
  have "sd_modelName c = sd_modelName d" using head [OF assms(1)] head [OF assms(2)] e by simp
  with e show "same_row c d" by (simp add: entity_key_def same_row_def)
qed (simp add: entity_key_def same_row_def)

lemma deleteSyncIds_spec:
  assumes "\<forall>d \<in> set ds. sd_syncId d \<noteq> None \<and> 0 < log_id d"
  shows "(case deleteSyncIds ds key of
      None \<Rightarrow> \<forall>d \<in> set ds. \<not> (sd_actionType d = ActD \<and> entity_key d = key)
    | Some n \<Rightarrow> (\<exists>d \<in> set ds. sd_actionType d = ActD \<and> entity_key d = key \<and> log_id d = n) \<and>
        (\<forall>d \<in> set ds. sd_actionType d = ActD \<and> entity_key d = key \<longrightarrow> log_id d \<le> n))"
  using assms
proof (induction ds rule: rev_induct)
  case (snoc d ds)
  obtain n where n: "sd_syncId d = Some n" "0 < n" using snoc.prems by (auto simp: log_id_def split: option.splits)
  let ?m = "deleteSyncIds ds"
  have step: "deleteSyncIds (ds @ [d]) = note_delete d ?m" by (simp add: deleteSyncIds_def)
  have ih: "case ?m key of
      None \<Rightarrow> \<forall>d \<in> set ds. \<not> (sd_actionType d = ActD \<and> entity_key d = key)
    | Some n \<Rightarrow> (\<exists>d \<in> set ds. sd_actionType d = ActD \<and> entity_key d = key \<and> log_id d = n) \<and>
        (\<forall>d \<in> set ds. sd_actionType d = ActD \<and> entity_key d = key \<longrightarrow> log_id d \<le> n)"
    using snoc by simp
  have pos: "0 < k" if "?m key = Some k" for k using ih that snoc.prems by auto
  show ?case
  proof (cases "sd_actionType d = ActD \<and> entity_key d = key")
    case False
    then have "note_delete d ?m key = ?m key"
      using n by (auto simp: note_delete_def split: delta_action.splits option.splits)
    with ih False show ?thesis unfolding step by (auto split: option.splits)
  next
    case True
    then have "note_delete d ?m key = Some (case ?m key of None \<Rightarrow> n | Some k \<Rightarrow> max n k)"
      using n pos by (auto simp: note_delete_def split: option.splits)
    with ih True n show ?thesis unfolding step by (auto simp: log_id_def max_def split: option.splits)
  qed
qed (simp add: deleteSyncIds_def)

lemma superseded_row:
  assumes "log_batch ds" and "d \<in> set ds"
  shows "superseded (deleteSyncIds ds) d \<longleftrightarrow> sd_actionType d \<in> {ActU, ActI, ActC} \<and>
    (\<exists>e \<in> set ds. sd_actionType e = ActD \<and> same_row e d \<and> log_id d \<le> log_id e)"
proof -
  have ids: "\<forall>d \<in> set ds. sd_syncId d \<noteq> None \<and> 0 < log_id d" and colon: "\<forall>d \<in> set ds. CHR '':'' \<notin> set (sd_modelName d)"
    using assms(1) by (auto simp: log_batch_def list_all_iff)
  have key: "entity_key e = entity_key d \<longleftrightarrow> same_row e d" if "e \<in> set ds" for e
    using that assms(2) colon by (intro entity_key_row) auto
  have "(case deleteSyncIds ds (entity_key d) of None \<Rightarrow> False | Some n \<Rightarrow> n \<ge> log_id d) \<longleftrightarrow>
      (\<exists>e \<in> set ds. sd_actionType e = ActD \<and> same_row e d \<and> log_id d \<le> log_id e)"
    using deleteSyncIds_spec [OF ids, of "entity_key d"] key by (force split: option.splits)
  then show ?thesis unfolding superseded_def log_id_def [of d, symmetric] by blast
qed

lemma row_of_batch:
  fixes ds m i
  defines "rows \<equiv> filter (\<lambda>d. sd_modelName d = m \<and> sd_modelId d = i) ds"
  assumes lb: "log_batch ds" and lone: "lone_updates ds"
  shows "foldl (\<lambda>c d. delta_row now cur d c) cur (filter (\<lambda>d. \<not> superseded (deleteSyncIds ds) d) rows) =
    foldl (\<lambda>c d. delta_row now c d c) cur rows"
proof (rule row_batch)
  have sub: "d \<in> set ds \<and> sd_modelName d = m \<and> sd_modelId d = i" if "d \<in> set rows" for d
    using that by (simp add: rows_def)
  have sorted: "sorted_wrt (\<lambda>c d. log_id c < log_id d) rows"
    using lb by (simp add: log_batch_def rows_def sorted_wrt_filter)
  show "sd_actionType d \<in> {ActU, ActI, ActC}" if "d \<in> set rows" "superseded (deleteSyncIds ds) d" for d
    using that by (simp add: superseded_def)
  show "superseded (deleteSyncIds ds) d \<longleftrightarrow>
      sd_actionType d \<in> {ActU, ActI, ActC} \<and> (\<exists>e \<in> set ys. sd_actionType e = ActD)" if rows: "rows = xs @ d # ys" for xs d ys
  proof -
    have d: "d \<in> set rows" using rows by simp
    have ys: "log_id d < log_id e" if "e \<in> set ys" for e using sorted that by (auto simp: rows sorted_wrt_append)
    have xs: "log_id e < log_id d" if "e \<in> set xs" for e using sorted that by (auto simp: rows sorted_wrt_append)
    have "(\<exists>e \<in> set ds. sd_actionType e = ActD \<and> same_row e d \<and> log_id d \<le> log_id e) \<longleftrightarrow>
        (\<exists>e \<in> set rows. sd_actionType e = ActD \<and> log_id d \<le> log_id e)"
      using sub [OF d] by (auto simp: rows_def same_row_def)
    also have "\<dots> \<longleftrightarrow> sd_actionType d = ActD \<or> (\<exists>e \<in> set ys. sd_actionType e = ActD)"
      using xs ys by (fastforce simp: rows)
    finally show ?thesis using superseded_row [OF lb, of d] sub [OF d] by auto
  qed
  show "xs = []" if rows: "rows = xs @ d # ys" and u: "sd_actionType d = ActU" "\<not> superseded (deleteSyncIds ds) d" for xs d ys
  proof (rule ccontr)
    assume "xs \<noteq> []"
    then obtain c where c: "c \<in> set xs" by (cases xs) auto
    have "sorted_wrt (\<lambda>c d. sd_actionType d = ActU \<and> \<not> superseded (deleteSyncIds ds) d \<longrightarrow> \<not> same_row c d) rows"
      using lone by (simp add: lone_updates_def rows_def sorted_wrt_filter)
    then have "\<not> same_row c d" using c u by (simp add: rows sorted_wrt_append)
    moreover have "same_row c d" using sub [of c] sub [of d] c rows by (simp add: same_row_def)
    ultimately show False by blast
  qed
qed

text \<open>The outcome of a batch: its stores, and the indexes it counts as durable.\<close>

definition batch_group :: "store_delta list \<Rightarrow> row_stores \<Rightarrow> string \<Rightarrow> (nat \<times> store_delta) list" where
  "batch_group ds stores m = filter (routed (deleteSyncIds ds) stores m) (enumerate 0 ds)"

lemma tx_empty [simp]: "tx_store env m [] s = s" "tx_indexes env m [] s = {}"
  by (simp_all add: tx_store_def tx_indexes_def)

lemma batch_outcome:
  fixes env stores
  assumes "ds \<noteq> []"
  defines "persisted \<equiv> fst ` {p \<in> set (enumerate 0 ds). superseded (deleteSyncIds ds) (snd p)} \<union>
    \<Union> {tx_indexes env m (batch_group ds stores m) s | m s. stores m = Some s}"
  shows "fst (processDeltaBatch True env ds stores) m = map_option (tx_store env m (batch_group ds stores m)) (stores m)"
    and "snd (snd (processDeltaBatch True env ds stores)) = highestPersistedPrefixSyncId
       (map (\<lambda>d. case sd_syncId d of None \<Rightarrow> RawAbsent | Some n \<Rightarrow> RawNumber n) ds) persisted"
proof -
  obtain groups results stale where r: "fold (route_delta (deleteSyncIds ds) stores) (enumerate 0 ds)
      ([], replicate (length ds) None, {}) = (groups, results, stale)"
    by (metis prod_cases3)
  note route = route_fold [OF r]
  have g: "group_of groups m = batch_group ds stores m" for m using route(1) by (simp add: group_of_def batch_group_def)
  have dist: "distinct (map fst groups)" using route(2) by simp
  define b where "b = \<lparr>bs_stores = stores, bs_results = results, bs_persisted = stale\<rparr>"
  note tx = transactions_effect [OF dist, where b = b]
  have out: "processDeltaBatch True env ds stores =
      (let b' = fold (\<lambda>(m, grp). store_transaction env ds m grp) groups b
       in (bs_stores b', stampSyncIds (bs_results b') ds, highestPersistedPrefixSyncId
            (map (\<lambda>d. case sd_syncId d of None \<Rightarrow> RawAbsent | Some n \<Rightarrow> RawNumber n) ds) (bs_persisted b')))"
    using assms(1) by (simp add: processDeltaBatch_def r b_def Let_def)
  have some: "map_of groups m = Some grp \<longleftrightarrow> (m, grp) \<in> set groups" for m grp using dist by simp
  have pair: "tx_indexes env m grp s \<subseteq> tx_indexes env m (batch_group ds stores m) s" if "(m, grp) \<in> set groups" for m grp s
    using that some [of m grp] g [of m] by (simp add: group_of_def)
  have conv: "tx_indexes env m (batch_group ds stores m) s \<subseteq>
      \<Union> {tx_indexes env m grp s | m grp s. (m, grp) \<in> set groups \<and> stores m = Some s}" if "stores m = Some s" for m s
  proof (cases "map_of groups m")
    case None
    then have "batch_group ds stores m = []" using g [of m] by (simp add: group_of_def)
    then show ?thesis by simp
  next
    case (Some grp)
    then have "batch_group ds stores m = grp" using g [of m] by (simp add: group_of_def)
    moreover have "(m, grp) \<in> set groups" using Some by (rule map_of_SomeD)
    ultimately show ?thesis using that by (intro Union_upper) blast
  qed
  have "bs_persisted (fold (\<lambda>(m, grp). store_transaction env ds m grp) groups b) = persisted"
  proof -
    have "\<Union> {tx_indexes env m grp s | m grp s. (m, grp) \<in> set groups \<and> stores m = Some s} =
        \<Union> {tx_indexes env m (batch_group ds stores m) s | m s. stores m = Some s}"
    proof (intro equalityI Union_least)
      fix X assume "X \<in> {tx_indexes env m grp s | m grp s. (m, grp) \<in> set groups \<and> stores m = Some s}"
      then obtain m grp s where X: "X = tx_indexes env m grp s" "(m, grp) \<in> set groups" "stores m = Some s" by blast
      then show "X \<subseteq> \<Union> {tx_indexes env m (batch_group ds stores m) s | m s. stores m = Some s}"
        using pair [OF X(2), of s] by blast
    next
      fix X assume "X \<in> {tx_indexes env m (batch_group ds stores m) s | m s. stores m = Some s}"
      then show "X \<subseteq> \<Union> {tx_indexes env m grp s | m grp s. (m, grp) \<in> set groups \<and> stores m = Some s}"
        using conv by blast
    qed
    then show ?thesis using tx(2) route(3) by (simp add: b_def persisted_def)
  qed
  then show "snd (snd (processDeltaBatch True env ds stores)) = highestPersistedPrefixSyncId
       (map (\<lambda>d. case sd_syncId d of None \<Rightarrow> RawAbsent | Some n \<Rightarrow> RawNumber n) ds) persisted"
    by (simp add: out Let_def)
  have "(case map_of groups m of None \<Rightarrow> s | Some grp \<Rightarrow> tx_store env m grp s) = tx_store env m (batch_group ds stores m) s" for s
    using g [of m] by (auto simp: group_of_def split: option.splits)
  then show "fst (processDeltaBatch True env ds stores) m = map_option (tx_store env m (batch_group ds stores m)) (stores m)"
    using tx(1) [where m = m] by (simp add: out Let_def b_def split: option.splits)
qed

text \<open>The rows the stores hold are keyed by their identifiers, and the server has no row a store misses.\<close>

definition settled_stores :: "batch_env \<Rightarrow> row_stores \<Rightarrow> bool" where
  "settled_stores env stores = (\<forall>m s. stores m = Some s \<longrightarrow> be_read env m \<and> keyed s \<and>
     (\<forall>i. s i = None \<longrightarrow> (\<forall>r. be_fetch env m i \<noteq> Fetched r)))"

lemma existing_settled:
  assumes "settled_stores env stores" and "stores m = Some s"
  shows "existing_record env m s = s"
  using assms by (fastforce simp: settled_stores_def existing_record_def split: option.splits fetch_answer.splits)

lemma batch_group_rows:
  "stores m \<noteq> None \<Longrightarrow> map snd (batch_group ds stores m) =
     filter (\<lambda>d. \<not> superseded (deleteSyncIds ds) d \<and> sd_modelName d = m) ds"
proof -
  assume "stores m \<noteq> None"
  then have "map snd (batch_group ds stores m) =
      map snd (filter ((\<lambda>d. \<not> superseded (deleteSyncIds ds) d \<and> sd_modelName d = m) \<circ> snd) (enumerate 0 ds))"
    unfolding batch_group_def by (intro arg_cong [where f = "map snd"] filter_cong) (simp_all add: routed_def)
  also have "\<dots> = filter (\<lambda>d. \<not> superseded (deleteSyncIds ds) d \<and> sd_modelName d = m) (map snd (enumerate 0 ds))"
    by (rule filter_map [symmetric])
  finally show ?thesis by simp
qed

lemma stage_group:
  assumes "log_batch ds" and "settled_stores env stores" and "stores m = Some s"
  shows "\<exists>t cs. stage_deltas env (existing_record env m s) (batch_group ds stores m) s = (t, Some cs) \<and>
    (\<forall>i. t i = foldl (\<lambda>c d. delta_row (be_now env) (s i) d c) (s i)
       (filter (\<lambda>d. sd_modelId d = i) (filter (\<lambda>d. \<not> superseded (deleteSyncIds ds) d \<and> sd_modelName d = m) ds))) \<and>
    set (map fst cs) = fst ` {p \<in> set (batch_group ds stores m). sd_actionType (snd p) \<notin> {ActG, ActS}}"
proof -
  have rows: "map snd (batch_group ds stores m) = filter (\<lambda>d. \<not> superseded (deleteSyncIds ds) d \<and> sd_modelName d = m) ds"
    using assms(3) by (intro batch_group_rows) simp
  have "\<forall>d \<in> set (map snd (batch_group ds stores m)). names_row d"
    unfolding rows using assms(1) by (auto simp: log_batch_def list_all_iff)
  moreover have "keyed s" using assms(2,3) by (auto simp: settled_stores_def)
  ultimately show ?thesis
    using stage_deltas_row [of "batch_group ds stores m" s env s] by (simp only: rows existing_settled [OF assms(2,3)])
qed

lemma batch_lands:
  assumes lb: "log_batch ds" "ds \<noteq> []" and lone: "lone_updates ds" and env: "settled_stores env stores" and s: "stores m = Some s"
  shows "fst (processDeltaBatch True env ds stores) m =
    Some (if be_commit env m \<and> \<not> be_closed env m then seq_deltas (be_now env) 0 (filter (\<lambda>d. sd_modelName d = m) ds) s else s)"
proof (cases "be_commit env m \<and> \<not> be_closed env m")
  case False
  then have "tx_store env m g s = s" for g by (auto simp: tx_store_def)
  then show ?thesis unfolding if_not_P [OF False] by (simp add: batch_outcome(1) [OF lb(2)] s)
next
  case True
  obtain t cs where t: "stage_deltas env (existing_record env m s) (batch_group ds stores m) s = (t, Some cs)"
    "\<forall>i. t i = foldl (\<lambda>c d. delta_row (be_now env) (s i) d c) (s i)
       (filter (\<lambda>d. sd_modelId d = i) (filter (\<lambda>d. \<not> superseded (deleteSyncIds ds) d \<and> sd_modelName d = m) ds))"
    using stage_group [OF lb(1) env s] by blast
  let ?q = "seq_deltas (be_now env) 0 (filter (\<lambda>d. sd_modelName d = m) ds) s"
  have "t i = ?q i" for i
  proof -
    let ?rows = "filter (\<lambda>d. sd_modelName d = m \<and> sd_modelId d = i) ds"
    have ok: "\<forall>d \<in> set (filter (\<lambda>d. sd_modelName d = m) ds). names_row d \<and> (\<exists>n. sd_syncId d = Some n \<and> 0 < n)"
      using lb(1) by (auto simp: log_batch_def list_all_iff log_id_def)
    have "?q i = foldl (\<lambda>c d. delta_row (be_now env) c d c) (s i) (filter (\<lambda>d. sd_modelId d = i) (filter (\<lambda>d. sd_modelName d = m) ds))"
      using seq_deltas_row [OF ok] env s by (simp add: settled_stores_def)
    also have "filter (\<lambda>d. sd_modelId d = i) (filter (\<lambda>d. sd_modelName d = m) ds) = ?rows" by (simp add: conj_commute)
    also have "foldl (\<lambda>c d. delta_row (be_now env) c d c) (s i) ?rows =
        foldl (\<lambda>c d. delta_row (be_now env) (s i) d c) (s i) (filter (\<lambda>d. \<not> superseded (deleteSyncIds ds) d) ?rows)"
      by (rule row_of_batch [OF lb(1) lone, symmetric])
    also have "filter (\<lambda>d. \<not> superseded (deleteSyncIds ds) d) ?rows =
        filter (\<lambda>d. sd_modelId d = i) (filter (\<lambda>d. \<not> superseded (deleteSyncIds ds) d \<and> sd_modelName d = m) ds)"
      by (auto intro!: filter_cong)
    finally show ?thesis using t(2) by simp
  qed
  then have "t = ?q" by blast
  moreover have "tx_store env m (batch_group ds stores m) s = t" using True t(1) by (simp add: tx_store_def)
  ultimately show ?thesis using True by (simp add: batch_outcome(1) [OF lb(2)] s)
qed

text \<open>What the cursor may cover: a delta a later delete supersedes, or one whose store took it.\<close>

definition durable :: "batch_env \<Rightarrow> store_delta list \<Rightarrow> row_stores \<Rightarrow> store_delta \<Rightarrow> bool" where
  "durable env ds stores d \<longleftrightarrow> superseded (deleteSyncIds ds) d \<or>
     (stores (sd_modelName d) \<noteq> None \<and> be_commit env (sd_modelName d) \<and> \<not> be_closed env (sd_modelName d) \<and>
      sd_actionType d \<notin> {ActG, ActS})"

lemma tx_indexes_group:
  assumes "log_batch ds" and "settled_stores env stores" and "stores m = Some s"
  shows "tx_indexes env m (batch_group ds stores m) s =
    (if be_commit env m \<and> \<not> be_closed env m
     then fst ` {p \<in> set (batch_group ds stores m). sd_actionType (snd p) \<notin> {ActG, ActS}} else {})"
proof -
  obtain t cs where "stage_deltas env (existing_record env m s) (batch_group ds stores m) s = (t, Some cs)"
    "set (map fst cs) = fst ` {p \<in> set (batch_group ds stores m). sd_actionType (snd p) \<notin> {ActG, ActS}}"
    using stage_group [OF assms] by blast
  then show ?thesis by (simp add: tx_indexes_def)
qed

lemma durable_index:
  assumes "log_batch ds" and "settled_stores env stores" and j: "j < length ds"
  shows "j \<in> fst ` {p \<in> set (enumerate 0 ds). superseded (deleteSyncIds ds) (snd p)} \<union>
      \<Union> {tx_indexes env m (batch_group ds stores m) s | m s. stores m = Some s} \<longleftrightarrow> durable env ds stores (ds ! j)"
proof -
  have at: "(j, d) \<in> set (enumerate 0 ds) \<longleftrightarrow> d = ds ! j" for d using j by (auto simp: in_set_enumerate_eq)
  have "j \<in> fst ` {p \<in> set (enumerate 0 ds). P (snd p)} \<longleftrightarrow> P (ds ! j)" for P
  proof
    assume "j \<in> fst ` {p \<in> set (enumerate 0 ds). P (snd p)}"
    then obtain d where "(j, d) \<in> set (enumerate 0 ds)" "P d" by auto
    then show "P (ds ! j)" by (simp add: at)
  next
    assume "P (ds ! j)"
    then have "(j, ds ! j) \<in> {p \<in> set (enumerate 0 ds). P (snd p)}" by (simp add: at)
    then show "j \<in> fst ` {p \<in> set (enumerate 0 ds). P (snd p)}" by force
  qed
  note mem = this
  have group: "j \<in> fst ` {p \<in> set (batch_group ds stores m). sd_actionType (snd p) \<notin> {ActG, ActS}} \<longleftrightarrow>
      routed (deleteSyncIds ds) stores m (j, ds ! j) \<and> sd_actionType (ds ! j) \<notin> {ActG, ActS}" for m
    using mem [of "\<lambda>d. routed (deleteSyncIds ds) stores m (j, d) \<and> sd_actionType d \<notin> {ActG, ActS}"]
    by (simp add: batch_group_def routed_def conj_commute conj_left_commute)
  define landed where "landed m = fst ` {p \<in> set (batch_group ds stores m). sd_actionType (snd p) \<notin> {ActG, ActS}}" for m
  have tx: "tx_indexes env m (batch_group ds stores m) s = (if be_commit env m \<and> \<not> be_closed env m then landed m else {})"
    if "stores m = Some s" for m s
    using tx_indexes_group [OF assms(1,2) that] unfolding landed_def .
  have "j \<in> \<Union> {tx_indexes env m (batch_group ds stores m) s | m s. stores m = Some s} \<longleftrightarrow>
      (\<exists>m s. stores m = Some s \<and> be_commit env m \<and> \<not> be_closed env m \<and> j \<in> landed m)" (is "?l \<longleftrightarrow> ?r")
  proof
    assume ?l
    then obtain m s where "stores m = Some s" "j \<in> tx_indexes env m (batch_group ds stores m) s" by blast
    then show ?r using tx by (auto split: if_splits)
  next
    assume ?r
    then obtain m s where ms: "stores m = Some s" "be_commit env m \<and> \<not> be_closed env m" "j \<in> landed m" by blast
    then have "j \<in> tx_indexes env m (batch_group ds stores m) s" using tx [OF ms(1)] by simp
    then show ?l using ms(1) by blast
  qed
  moreover have "j \<in> landed m \<longleftrightarrow> routed (deleteSyncIds ds) stores m (j, ds ! j) \<and> sd_actionType (ds ! j) \<notin> {ActG, ActS}" for m
    using group unfolding landed_def .
  ultimately show ?thesis
    unfolding Un_iff mem durable_def routed_def by auto
qed

lemma cursor_durable:
  assumes lb: "log_batch ds" and env: "settled_stores env stores" and k: "k < length ds"
  shows "log_id (ds ! k) \<le> snd (snd (processDeltaBatch True env ds stores)) \<longleftrightarrow> (\<forall>j \<le> k. durable env ds stores (ds ! j))"
proof -
  let ?raw = "map (\<lambda>d. case sd_syncId d of None \<Rightarrow> RawAbsent | Some n \<Rightarrow> RawNumber n) ds"
  have num: "sync_number (case sd_syncId d of None \<Rightarrow> RawAbsent | Some n \<Rightarrow> RawNumber n) = Some (log_id d) \<and> 0 < log_id d"
    if "d \<in> set ds" for d
    using lb that by (auto simp: log_batch_def list_all_iff log_id_def sync_number_def)
  have pos: "\<forall>d \<in> set ?raw. \<exists>n. sync_number d = Some n \<and> 0 < n" using num by auto
  have sorted: "sorted_wrt (\<lambda>c d. the (sync_number c) < the (sync_number d)) ?raw"
    using lb num by (auto simp: sorted_wrt_map log_batch_def intro: sorted_wrt_mono_rel [of ds "\<lambda>c d. log_id c < log_id d"])
  have ne: "ds \<noteq> []" using k by auto
  have at: "the (sync_number (?raw ! k)) = log_id (ds ! k)" using num [of "ds ! k"] k by simp
  show ?thesis
    using prefix_no_gap [OF pos sorted, of k] k durable_index [OF lb env] unfolding batch_outcome(2) [OF ne] at by auto
qed

subsection \<open>Properties\<close>


definition demo_delta :: "int \<Rightarrow> delta_action \<Rightarrow> string \<Rightarrow> model_data option \<Rightarrow> store_delta" where
  "demo_delta n a i data = \<lparr>sd_syncId = Some n, sd_actionType = a, sd_modelName = ''Block'', sd_modelId = i, sd_data = data,
     sd_transactionId = None\<rparr>"

definition demo_stores :: row_stores where
  "demo_stores = [''Block'' \<mapsto> [''a'' \<mapsto> [(''id'', VStr ''a''), (''title'', VStr ''old''), (''colour'', VStr ''red'')]]]"

definition demo_env :: batch_env where
  "demo_env = \<lparr>be_read = (\<lambda>_. True), be_fetch = (\<lambda>_ _. NotFound), be_closed = (\<lambda>_. False), be_commit = (\<lambda>_. True), be_now = None\<rparr>"

definition demo_batch :: "store_delta list" where
  "demo_batch = [demo_delta 5 ActU ''a'' (Some [(''title'', VStr ''new'')]), demo_delta 6 ActI ''b'' (Some [(''title'', VStr ''b'')]),
     demo_delta 7 ActD ''b'' None]"

lemmas demo_store_defs = demo_delta_def demo_stores_def demo_env_def demo_batch_def

lemmas store_eval = names_row_def log_id_def deleteSyncIds_def note_delete_def entity_key_def superseded_def same_row_def
  delta_record_def with_id_def spread_def compactRecord_def compact_props_def compactAssign_def marker_keys_def dropped_value_def
  ensure_id_def truthy_at_def js_truthy_def merge_record_def idb_put_def record_key_def change_def stage_delta_def
  archive_record_def data_or_empty_def

lemma demo_batch_ok: "log_batch demo_batch" "demo_batch \<noteq> []" "lone_updates demo_batch" "settled_stores demo_env demo_stores"
proof -
  show "log_batch demo_batch" "demo_batch \<noteq> []"
    by (simp_all add: demo_store_defs log_batch_def names_row_def log_id_def)
  show "lone_updates demo_batch"
    by (simp add: demo_store_defs lone_updates_def same_row_def)
  show "settled_stores demo_env demo_stores"
    by (auto simp: demo_store_defs settled_stores_def keyed_def record_key_def split: if_splits)
qed




text \<open>
  The hypothesis on updates is needed: two updates of one row in a batch both merge onto the record
  before the batch, so the second write loses the fields of the first.
\<close>

theorem second_update_loses_first:
  "fst (processDeltaBatch True demo_env
      [demo_delta 5 ActU ''a'' (Some [(''title'', VStr ''new'')]), demo_delta 6 ActU ''a'' (Some [(''colour'', VStr ''blue'')])] demo_stores)
      ''Block'' = Some [''a'' \<mapsto> [(''id'', VStr ''a''), (''title'', VStr ''old''), (''colour'', VStr ''blue'')]]"
  by (simp add: processDeltaBatch_def demo_store_defs store_eval route_delta_def store_transaction_def existing_record_def enumerate_eq_zip Let_def)

text \<open>An archive delta whose payload leaves out the identifier makes the write throw, and the position of the batch stays behind it.\<close>

theorem archive_without_id_stalls:
  "snd (snd (processDeltaBatch True demo_env [demo_delta 5 ActA ''a'' (Some [(''title'', VStr ''new'')]), demo_delta 6 ActD ''a'' None]
      demo_stores)) = 0"
  by (simp add: processDeltaBatch_def demo_store_defs store_eval route_delta_def store_transaction_def existing_record_def verify_all_def
      highestPersistedPrefixSyncId_def enumerate_eq_zip Let_def)

end
