(* ===== verification/DeltaPipeline.thy ===== *)
theory DeltaPipeline
  imports DeltaStore
begin

section \<open>The delta pipeline\<close>

text \<open>
  Model of \<open>packages/humans/src/local/sync/deltaPipeline.ts\<close>: deduplication, per-delta bookkeeping and
  the queue, the debounce, the single-flight drain, the sliced apply and the acknowledgement gated on
  persistence.

  A step is one event of the host: a delta or a frame arrives, the timer fires, the local store answers
  the batch in flight, a slice is applied or fails, the host yields back, a security clear. A flush in
  flight is the batch it detached with the generation it began in. The store's answer, what the apply of
  a slice does and how a prepared frame is revealed are parts of the events. Diagnostics, stage plugins
  (observers of the boundaries) and custom entities, which skip the store, are left out.
\<close>

subsection \<open>Deduplication and slicing\<close>

record SyncDelta =
  dl_id :: int
  dl_actionType :: delta_action
  dl_modelName :: string
  dl_modelId :: string
  dl_data :: "model_data option"
  dl_transactionId :: "string option"
  dl_correlationId :: "string option"

fun keep_first :: "int set \<Rightarrow> SyncDelta list \<Rightarrow> SyncDelta list" where
  "keep_first seen [] = []"
| "keep_first seen (d # ds) =
     (if dl_id d \<in> seen then keep_first seen ds else d # keep_first (insert (dl_id d) seen) ds)"

definition deduplicateDeltas :: "SyncDelta list \<Rightarrow> SyncDelta list" where
  "deduplicateDeltas deltas =
     (if length deltas < 2 \<or> list_ex (\<lambda>d. dl_id d \<le> 0) deltas then deltas
      else if sorted_wrt (\<lambda>c d. dl_id c < dl_id d) deltas then deltas
      else keep_first {} (sort_key dl_id deltas))"

text \<open>The run of one transaction at the head of a list: its first change and those after it with the same identifier.\<close>

definition head_run :: "AppliedChange list \<Rightarrow> AppliedChange list" where
  "head_run changes = (case changes of
      [] \<Rightarrow> []
    | c # rest \<Rightarrow> (case ac_transactionId c of
          None \<Rightarrow> [c]
        | Some t \<Rightarrow> c # takeWhile (\<lambda>x. ac_transactionId x = Some t) rest))"

lemma head_run_shorter: "changes \<noteq> [] \<Longrightarrow> length (drop (length (head_run changes)) changes) < length changes"
  by (cases changes) (auto simp: head_run_def split: option.splits)

function slice_loop :: "nat \<Rightarrow> AppliedChange list \<Rightarrow> AppliedChange list \<Rightarrow> AppliedChange list list" where
  "slice_loop maxDeltas current changes =
     (if changes = [] then (if current = [] then [] else [current])
      else let run1 = head_run changes; rest = drop (length run1) changes
           in if current \<noteq> [] \<and> length current + length run1 > maxDeltas
              then current # slice_loop maxDeltas run1 rest
              else slice_loop maxDeltas (current @ run1) rest)"
  by pat_completeness auto

termination
  by (relation "measure (\<lambda>(_, _, changes). length changes)") (auto simp: head_run_def split: list.splits option.splits)

declare slice_loop.simps [simp del]

definition sliceApplyChanges :: "AppliedChange list \<Rightarrow> nat \<Rightarrow> AppliedChange list list" where
  "sliceApplyChanges changes maxDeltas =
     (if length changes \<le> maxDeltas then (if changes = [] then [] else [changes]) else slice_loop maxDeltas [] changes)"

subsection \<open>Slices keep transactions whole\<close>

text \<open>Between two slices no transaction is split: the change before the cut and the one after it are not of one transaction.\<close>

definition clean_cut :: "AppliedChange list \<Rightarrow> AppliedChange list \<Rightarrow> bool" where
  "clean_cut a b = (\<forall>t. ac_transactionId (last a) = Some t \<longrightarrow> ac_transactionId (hd b) \<noteq> Some t)"

definition one_transaction :: "AppliedChange list \<Rightarrow> bool" where
  "one_transaction a = (\<exists>t. list_all (\<lambda>c. ac_transactionId c = Some t) a)"

definition bounded_slice :: "nat \<Rightarrow> AppliedChange list \<Rightarrow> bool" where
  "bounded_slice maxDeltas a \<longleftrightarrow> a \<noteq> [] \<and> (length a \<le> max 1 maxDeltas \<or> one_transaction a)"

lemma head_run_split:
  assumes "changes \<noteq> []"
  shows "changes = head_run changes @ drop (length (head_run changes)) changes" and "head_run changes \<noteq> []"
    and "length (head_run changes) = 1 \<or> one_transaction (head_run changes)"
    and "drop (length (head_run changes)) changes \<noteq> [] \<Longrightarrow> clean_cut (head_run changes) (drop (length (head_run changes)) changes)"
proof -
  obtain c rest where ch: "changes = c # rest" using assms by (cases changes) auto
  have dw: "drop (length (takeWhile P rest)) rest = dropWhile P rest" for P by (rule dropWhile_eq_drop [symmetric])
  show "changes = head_run changes @ drop (length (head_run changes)) changes"
    by (simp add: head_run_def ch dw split: option.split)
  show "head_run changes \<noteq> []" by (simp add: head_run_def ch split: option.split)
  show "length (head_run changes) = 1 \<or> one_transaction (head_run changes)"
    by (auto simp: head_run_def ch one_transaction_def list_all_iff dest: set_takeWhileD split: option.split)
  assume ne: "drop (length (head_run changes)) changes \<noteq> []"
  show "clean_cut (head_run changes) (drop (length (head_run changes)) changes)"
  proof (cases "ac_transactionId c")
    case None
    then show ?thesis by (simp add: clean_cut_def head_run_def ch)
  next
    case (Some t)
    let ?P = "\<lambda>x. ac_transactionId x = Some t"
    have "dropWhile ?P rest \<noteq> []" using ne Some by (simp add: head_run_def ch dw)
    then have "\<not> ?P (hd (dropWhile ?P rest))" by (rule hd_dropWhile)
    moreover have "ac_transactionId (last (c # takeWhile ?P rest)) = Some t"
      using Some last_in_set [of "c # takeWhile ?P rest"] by (auto dest: set_takeWhileD)
    ultimately show ?thesis using Some by (simp add: clean_cut_def head_run_def ch dw)
  qed
qed

lemma slice_loop_spec:
  assumes "current \<noteq> [] \<Longrightarrow> bounded_slice maxDeltas current"
    and "current \<noteq> [] \<Longrightarrow> changes \<noteq> [] \<Longrightarrow> clean_cut current changes"
  shows "concat (slice_loop maxDeltas current changes) = current @ changes \<and>
    list_all (bounded_slice maxDeltas) (slice_loop maxDeltas current changes) \<and>
    successively clean_cut (slice_loop maxDeltas current changes)"
  using assms
proof (induction maxDeltas current changes rule: slice_loop.induct)
  case (1 maxDeltas current changes)
  show ?case
  proof (cases "changes = []")
    case True
    then show ?thesis using "1.prems"(1) slice_loop.simps [of maxDeltas current "[]"] by simp
  next
    case False
    define run1 where "run1 = head_run changes"
    define rest where "rest = drop (length run1) changes"
    note run = head_run_split [OF False, folded run1_def, folded rest_def]
    have bounded: "bounded_slice maxDeltas run1" using run(2,3) by (auto simp: bounded_slice_def)
    show ?thesis
    proof (cases "current \<noteq> [] \<and> length current + length run1 > maxDeltas")
      case True
      then have e: "slice_loop maxDeltas current changes = current # slice_loop maxDeltas run1 rest"
        using False by (subst slice_loop.simps) (simp add: Let_def run1_def rest_def)
      have ih: "concat (slice_loop maxDeltas run1 rest) = run1 @ rest" "list_all (bounded_slice maxDeltas) (slice_loop maxDeltas run1 rest)"
        "successively clean_cut (slice_loop maxDeltas run1 rest)"
        using "1.IH"(1) [OF False run1_def rest_def True] bounded run(4) by blast+
      obtain b bs where b: "slice_loop maxDeltas run1 rest = b # bs" using ih(1) run(2) by (cases "slice_loop maxDeltas run1 rest") auto
      have "b \<noteq> []" and "b @ concat bs = changes" using ih(1,2) run(1) b by (simp_all add: bounded_slice_def)
      then have "hd b = hd changes" by (metis hd_append2)
      then have "clean_cut current b" using "1.prems"(2) True False by (simp add: clean_cut_def)
      then show ?thesis using e b ih "1.prems"(1) True run(1) by simp
    next
      case stay: False
      then have e: "slice_loop maxDeltas current changes = slice_loop maxDeltas (current @ run1) rest"
        using False by (subst slice_loop.simps) (auto simp: Let_def run1_def rest_def)
      have "bounded_slice maxDeltas (current @ run1)"
      proof (cases "current = []")
        case False
        then have "length current + length run1 \<le> maxDeltas" using stay by simp
        then show ?thesis using False by (simp add: bounded_slice_def le_max_iff_disj)
      qed (simp add: bounded)
      moreover have "clean_cut (current @ run1) rest" if "rest \<noteq> []"
        using run(4) [OF that] run(2) by (simp add: clean_cut_def)
      ultimately show ?thesis
        using "1.IH"(2) [OF False run1_def rest_def stay] e run(1) by simp
    qed
  qed
qed

lemma slices_spec:
  shows "concat (sliceApplyChanges changes maxDeltas) = changes"
    and "list_all (bounded_slice maxDeltas) (sliceApplyChanges changes maxDeltas)"
    and "successively clean_cut (sliceApplyChanges changes maxDeltas)"
  using slice_loop_spec [of "[]" maxDeltas changes] by (auto simp: sliceApplyChanges_def bounded_slice_def)

subsection \<open>Deduplication keeps one delta per position\<close>

lemma keep_first_ids: "dl_id ` set (keep_first seen ds) = dl_id ` set ds - seen"
  by (induction ds arbitrary: seen) auto

lemma keep_first_spec:
  assumes "sorted (map dl_id ds)"
  shows "set (keep_first seen ds) \<subseteq> set ds" and "dl_id ` set (keep_first seen ds) = dl_id ` set ds - seen"
    and "sorted_wrt (\<lambda>c d. dl_id c < dl_id d) (keep_first seen ds)"
proof -
  show sub: "set (keep_first seen ds) \<subseteq> set ds" for seen by (induction ds arbitrary: seen) auto
  show "dl_id ` set (keep_first seen ds) = dl_id ` set ds - seen" by (rule keep_first_ids)
  show "sorted_wrt (\<lambda>c d. dl_id c < dl_id d) (keep_first seen ds)"
    using assms
  proof (induction ds arbitrary: seen)
    case (Cons d ds)
    have "dl_id d < dl_id e" if "e \<in> set (keep_first (insert (dl_id d) seen) ds)" for e
    proof -
      have "dl_id e \<in> dl_id ` set ds - insert (dl_id d) seen" using that keep_first_ids [of "insert (dl_id d) seen" ds] by blast
      then show ?thesis using Cons.prems by (auto simp: order_le_less)
    qed
    then show ?case using Cons by simp
  qed simp
qed

lemma deduplicate_spec:
  assumes "\<forall>d \<in> set deltas. 0 < dl_id d"
  shows "sorted_wrt (\<lambda>c d. dl_id c < dl_id d) (deduplicateDeltas deltas)"
    and "set (deduplicateDeltas deltas) \<subseteq> set deltas" and "dl_id ` set (deduplicateDeltas deltas) = dl_id ` set deltas"
proof -
  have pos: "\<not> list_ex (\<lambda>d. dl_id d \<le> 0) deltas" using assms by (auto simp: list_ex_iff)
  have short: "sorted_wrt (\<lambda>c d. dl_id c < dl_id d) deltas" if "length deltas < 2"
    using that by (cases deltas; cases "tl deltas") auto
  show "sorted_wrt (\<lambda>c d. dl_id c < dl_id d) (deduplicateDeltas deltas)"
    using pos short keep_first_spec(3) [of "sort_key dl_id deltas"] by (auto simp: deduplicateDeltas_def)
  show "set (deduplicateDeltas deltas) \<subseteq> set deltas"
    using keep_first_spec(1) [of "sort_key dl_id deltas" "{}"] by (auto simp: deduplicateDeltas_def)
  show "dl_id ` set (deduplicateDeltas deltas) = dl_id ` set deltas"
    using keep_first_spec(2) [of "sort_key dl_id deltas" "{}"] by (auto simp: deduplicateDeltas_def)
qed

subsection \<open>State\<close>

datatype delta_flush =
    NoFlush
  | Persisting "SyncDelta list" nat
  | Applying "SyncDelta list" nat "AppliedChange list" "AppliedChange list list" int
  | Yielding

record delta_pipeline =
  pl_pendingDeltas :: "SyncDelta list"
  pl_batchTimer :: bool
  pl_bootstrapDeltaQueue :: "SyncDelta list option"
  pl_generation :: nat
  pl_unapplied :: "(int \<times> AppliedChange) list option"
  pl_flush :: delta_flush
  pl_position :: LogPositionSnapshot

record pipeline_config =
  pc_maxBatchSize :: nat
  pc_applySliceDeltas :: nat
  pc_project :: "AppliedChange list \<Rightarrow> AppliedChange list"

datatype pipeline_effect =
    DeltaReceived int "string option" "string option"
  | GroupChanged SyncDelta
  | GroupRemoved SyncDelta
  | CascadeCancel string string
  | Enqueued SyncDelta
  | Detached "SyncDelta list"
  | PersistBatch "store_delta list"
  | Answered "AppliedChange list" int
  | ApplyChanges "AppliedChange list"
  | Acknowledge int
  | Flushed "SyncDelta list"
  | FlushFailed
  | Cleared
  | ResetPool
  | ForceRebootstrap

definition new_pipeline :: "LogPositionSnapshot \<Rightarrow> delta_pipeline" where
  "new_pipeline position = \<lparr>pl_pendingDeltas = [], pl_batchTimer = False, pl_bootstrapDeltaQueue = None, pl_generation = 0,
     pl_unapplied = None, pl_flush = NoFlush, pl_position = position\<rparr>"

subsection \<open>Receiving\<close>

definition enqueueDelta :: "bool \<Rightarrow> SyncDelta \<Rightarrow> delta_pipeline \<Rightarrow> delta_pipeline \<times> pipeline_effect list \<times> bool" where
  "enqueueDelta authoritative d s =
     (if \<not> authoritative \<and> dl_id d > 0 \<and> dl_id d \<le> lp_applied (pl_position s) then (s, [], False)
      else
        let received = DeltaReceived (dl_id d) (dl_transactionId d) (dl_correlationId d)
        in case pl_bootstrapDeltaQueue s of
             Some queue \<Rightarrow> (s\<lparr>pl_bootstrapDeltaQueue := Some (queue @ [d])\<rparr>, [received], False)
           | None \<Rightarrow>
               (let s1 = s\<lparr>pl_position := advanceApplied (dl_id d) (pl_position s)\<rparr>
                in if dl_actionType d = ActG then (s1, [received, GroupChanged d], False)
                   else if dl_actionType d = ActS then (s1, [received, GroupRemoved d], False)
                   else (s1\<lparr>pl_pendingDeltas := pl_pendingDeltas s1 @ [d]\<rparr>,
                         [received] @ (if dl_actionType d = ActD then [CascadeCancel (dl_modelName d) (dl_modelId d)] else [])
                           @ [Enqueued d], True)))"

definition handleGroupHandlerFailure :: "pipeline_effect list" where
  "handleGroupHandlerFailure = [ResetPool, ForceRebootstrap]"

subsection \<open>Flushing\<close>

definition to_store_delta :: "SyncDelta \<Rightarrow> store_delta" where
  "to_store_delta d = \<lparr>sd_syncId = Some (dl_id d), sd_actionType = dl_actionType d, sd_modelName = dl_modelName d,
     sd_modelId = dl_modelId d, sd_data = dl_data d, sd_transactionId = dl_transactionId d\<rparr>"

text \<open>The head of the drain loop: detach the queue and hand the batch to the store, or end the drain.\<close>

definition drain :: "delta_pipeline \<Rightarrow> delta_pipeline \<times> pipeline_effect list" where
  "drain s =
     (if pl_pendingDeltas s = [] then (s\<lparr>pl_batchTimer := False, pl_flush := NoFlush\<rparr>, [])
      else (s\<lparr>pl_batchTimer := False, pl_pendingDeltas := [], pl_flush := Persisting (pl_pendingDeltas s) (pl_generation s)\<rparr>,
            [Detached (pl_pendingDeltas s), PersistBatch (map to_store_delta (deduplicateDeltas (pl_pendingDeltas s)))]))"

definition flushPendingDeltas :: "delta_pipeline \<Rightarrow> delta_pipeline \<times> pipeline_effect list" where
  "flushPendingDeltas s = (if pl_flush s = NoFlush then drain s else (s, []))"

definition after_batch :: "delta_pipeline \<Rightarrow> delta_pipeline" where
  "after_batch s =
     (if pl_pendingDeltas s = [] then s\<lparr>pl_batchTimer := False, pl_flush := NoFlush\<rparr> else s\<lparr>pl_flush := Yielding\<rparr>)"

definition requeue :: "SyncDelta list \<Rightarrow> delta_pipeline \<Rightarrow> delta_pipeline \<times> pipeline_effect list" where
  "requeue queued s = (s\<lparr>pl_pendingDeltas := queued @ pl_pendingDeltas s, pl_flush := NoFlush\<rparr>, [FlushFailed])"

text \<open>A change the store answers as already seen is replaced by the one a failed apply still owes.\<close>

definition owed_change :: "(int \<times> AppliedChange) list \<Rightarrow> AppliedChange \<Rightarrow> AppliedChange" where
  "owed_change held c = (case (ac_action c, ac_syncId c) of
      (VerifyRow, Some n) \<Rightarrow> if n > 0 then (case map_of held n of None \<Rightarrow> c | Some h \<Rightarrow> h) else c
    | _ \<Rightarrow> c)"

definition hold_changes :: "AppliedChange list \<Rightarrow> (int \<times> AppliedChange) list \<Rightarrow> (int \<times> AppliedChange) list" where
  "hold_changes cs held = fold (\<lambda>c m. case ac_syncId c of
      None \<Rightarrow> m
    | Some n \<Rightarrow> if ac_action c \<noteq> VerifyRow \<and> n > 0 then AList.update n c m else m) cs held"

definition release_changes :: "AppliedChange list \<Rightarrow> (int \<times> AppliedChange) list \<Rightarrow> (int \<times> AppliedChange) list" where
  "release_changes cs held = fold (\<lambda>c m. case ac_syncId c of None \<Rightarrow> m | Some n \<Rightarrow> AList.delete n m) cs held"

definition finish_batch :: "SyncDelta list \<Rightarrow> AppliedChange list \<Rightarrow> int \<Rightarrow> delta_pipeline \<Rightarrow> delta_pipeline \<times> pipeline_effect list" where
  "finish_batch queued dbResults persistedSyncId s =
     (let s1 = (case pl_unapplied s of
            None \<Rightarrow> s
          | Some held \<Rightarrow> (let left = release_changes dbResults held in s\<lparr>pl_unapplied := (if left = [] then None else Some left)\<rparr>));
          acks = (persistedSyncId > lp_persisted (pl_position s1));
          s2 = (if acks then s1\<lparr>pl_position := advancePersisted persistedSyncId (pl_position s1)\<rparr> else s1)
      in (after_batch s2, (if acks then [Acknowledge persistedSyncId] else []) @ [Flushed queued]))"

definition persisted :: "pipeline_config \<Rightarrow> AppliedChange list \<Rightarrow> int \<Rightarrow> bool \<Rightarrow> delta_pipeline \<Rightarrow> delta_pipeline \<times> pipeline_effect list" where
  "persisted cfg results persistedSyncId prepared s = (case pl_flush s of
      Persisting queued generation \<Rightarrow>
        if generation \<noteq> pl_generation s then (after_batch s, [])
        else
          let dbResults = (case pl_unapplied s of None \<Rightarrow> results | Some held \<Rightarrow> map (owed_change held) results);
              poolResults = pc_project cfg dbResults;
              slices = sliceApplyChanges poolResults (pc_applySliceDeltas cfg);
              answered = Answered dbResults persistedSyncId
          in if prepared then apsnd (\<lambda>es. answered # ApplyChanges poolResults # es) (finish_batch queued dbResults persistedSyncId s)
             else if slices = [] then apsnd ((#) answered) (finish_batch queued dbResults persistedSyncId s)
             else (s\<lparr>pl_flush := Applying queued generation dbResults slices persistedSyncId\<rparr>, [answered])
    | _ \<Rightarrow> (s, []))"

definition persist_failed :: "delta_pipeline \<Rightarrow> delta_pipeline \<times> pipeline_effect list" where
  "persist_failed s = (case pl_flush s of
      Persisting queued generation \<Rightarrow> if generation \<noteq> pl_generation s then drain s else requeue queued s
    | _ \<Rightarrow> (s, []))"

definition apply_slice :: "bool \<Rightarrow> delta_pipeline \<Rightarrow> delta_pipeline \<times> pipeline_effect list" where
  "apply_slice ok s = (case pl_flush s of
      Applying queued generation dbResults (slice # slices) persistedSyncId \<Rightarrow>
        if generation \<noteq> pl_generation s then (after_batch s, [])
        else if \<not> ok then
          (let pending = hold_changes dbResults (case pl_unapplied s of None \<Rightarrow> [] | Some held \<Rightarrow> held)
           in requeue queued (if pending = [] then s else s\<lparr>pl_unapplied := Some pending\<rparr>))
        else if slices = [] then apsnd ((#) (ApplyChanges slice)) (finish_batch queued dbResults persistedSyncId s)
        else (s\<lparr>pl_flush := Applying queued generation dbResults slices persistedSyncId\<rparr>, [ApplyChanges slice])
    | _ \<Rightarrow> (s, []))"

definition yielded :: "delta_pipeline \<Rightarrow> delta_pipeline \<times> pipeline_effect list" where
  "yielded s = (if pl_flush s = Yielding then drain s else (s, []))"

subsection \<open>Events\<close>

definition scheduleDeltaFlush :: "pipeline_config \<Rightarrow> delta_pipeline \<Rightarrow> delta_pipeline \<times> pipeline_effect list" where
  "scheduleDeltaFlush cfg s =
     (if length (pl_pendingDeltas s) \<ge> pc_maxBatchSize cfg then flushPendingDeltas (s\<lparr>pl_batchTimer := False\<rparr>)
      else (s\<lparr>pl_batchTimer := True\<rparr>, []))"

definition processDeltaWithBatching :: "pipeline_config \<Rightarrow> SyncDelta \<Rightarrow> delta_pipeline \<Rightarrow> delta_pipeline \<times> pipeline_effect list" where
  "processDeltaWithBatching cfg d s = (case enqueueDelta False d s of (s1, es, queued) \<Rightarrow>
     if queued then apsnd ((@) es) (scheduleDeltaFlush cfg s1) else (s1, es))"

fun enqueue_frame :: "SyncDelta list \<Rightarrow> delta_pipeline \<Rightarrow> delta_pipeline \<times> pipeline_effect list \<times> bool" where
  "enqueue_frame [] s = (s, [], False)"
| "enqueue_frame (d # ds) s = (case enqueueDelta True d s of (s1, es1, queued) \<Rightarrow>
     (case enqueue_frame ds s1 of (s2, es2, any) \<Rightarrow> (s2, es1 @ es2, queued \<or> any)))"

definition persistDeltaFrame :: "SyncDelta list \<Rightarrow> delta_pipeline \<Rightarrow> delta_pipeline \<times> pipeline_effect list" where
  "persistDeltaFrame deltas s = (case enqueue_frame deltas s of (s1, es, any) \<Rightarrow>
     if any then apsnd ((@) es) (flushPendingDeltas (s1\<lparr>pl_batchTimer := False\<rparr>)) else (s1, es))"

definition replayQueuedDeltas :: "delta_pipeline \<Rightarrow> delta_pipeline \<times> pipeline_effect list" where
  "replayQueuedDeltas s = (let s1 = s\<lparr>pl_bootstrapDeltaQueue := None\<rparr> in case pl_bootstrapDeltaQueue s of
      None \<Rightarrow> (s1, [])
    | Some queue \<Rightarrow> if queue = [] then (s1, []) else persistDeltaFrame queue s1)"

definition begin_bootstrap :: "delta_pipeline \<Rightarrow> delta_pipeline" where
  "begin_bootstrap s = (if pl_bootstrapDeltaQueue s = None then s\<lparr>pl_bootstrapDeltaQueue := Some []\<rparr> else s)"

definition clearPendingPublications :: "delta_pipeline \<Rightarrow> delta_pipeline \<times> pipeline_effect list" where
  "clearPendingPublications s =
     (s\<lparr>pl_generation := Suc (pl_generation s), pl_unapplied := None, pl_pendingDeltas := []\<rparr>, [Cleared])"

datatype pipeline_event =
    LiveDelta SyncDelta
  | DeltaFrame "SyncDelta list"
  | TimerFired
  | StorePersisted "AppliedChange list" int bool
  | StoreFailed
  | SliceApplied
  | SliceFailed
  | HostYielded
  | ClearPublications
  | BeginBootstrap
  | EndBootstrap
  | GroupHandlerFailed

primrec pipeline_step :: "pipeline_config \<Rightarrow> pipeline_event \<Rightarrow> delta_pipeline \<Rightarrow> delta_pipeline \<times> pipeline_effect list" where
  "pipeline_step cfg (LiveDelta d) s = processDeltaWithBatching cfg d s"
| "pipeline_step cfg (DeltaFrame ds) s = persistDeltaFrame ds s"
| "pipeline_step cfg TimerFired s = (if pl_batchTimer s then flushPendingDeltas s else (s, []))"
| "pipeline_step cfg (StorePersisted results n prepared) s = persisted cfg results n prepared s"
| "pipeline_step cfg StoreFailed s = persist_failed s"
| "pipeline_step cfg SliceApplied s = apply_slice True s"
| "pipeline_step cfg SliceFailed s = apply_slice False s"
| "pipeline_step cfg HostYielded s = yielded s"
| "pipeline_step cfg ClearPublications s = clearPendingPublications s"
| "pipeline_step cfg BeginBootstrap s = (begin_bootstrap s, [])"
| "pipeline_step cfg EndBootstrap s = replayQueuedDeltas s"
| "pipeline_step cfg GroupHandlerFailed s = (s, handleGroupHandlerFailure)"

inductive pipeline_steps :: "pipeline_config \<Rightarrow> (pipeline_event \<Rightarrow> bool) \<Rightarrow> delta_pipeline \<Rightarrow> pipeline_effect list \<Rightarrow> delta_pipeline \<Rightarrow> bool"
  for cfg allowed where
  pipeline_event: "allowed ev \<Longrightarrow> pipeline_step cfg ev s = (t, es) \<Longrightarrow> pipeline_steps cfg allowed s es t"

inductive_cases pipeline_stepsE: "pipeline_steps cfg allowed s es t"

abbreviation pipeline_run :: "LogPositionSnapshot \<Rightarrow> pipeline_config \<Rightarrow> (pipeline_event \<Rightarrow> bool) \<Rightarrow> pipeline_effect list \<Rightarrow> delta_pipeline \<Rightarrow> bool" where
  "pipeline_run position cfg allowed \<equiv> run (\<lambda>s. s = new_pipeline position) (pipeline_steps cfg allowed)"

fun pipeline_exec :: "pipeline_config \<Rightarrow> pipeline_event list \<Rightarrow> delta_pipeline \<Rightarrow> delta_pipeline \<times> pipeline_effect list" where
  "pipeline_exec cfg [] s = (s, [])"
| "pipeline_exec cfg (ev # evs) s = (case pipeline_step cfg ev s of (t, es) \<Rightarrow> apsnd ((@) es) (pipeline_exec cfg evs t))"

lemma exec_extends_run:
  "run init (pipeline_steps cfg allowed) L s \<Longrightarrow> list_all allowed evs \<Longrightarrow> pipeline_exec cfg evs s = (t, es) \<Longrightarrow>
     run init (pipeline_steps cfg allowed) (L @ es) t"
proof (induction evs arbitrary: L s t es)
  case (Cons ev evs)
  obtain s1 es1 where 1: "pipeline_step cfg ev s = (s1, es1)" by fastforce
  obtain es2 where 2: "pipeline_exec cfg evs s1 = (t, es2)" "es = es1 @ es2"
    using Cons.prems(3) 1 by (auto simp: apsnd_def map_prod_def split: prod.splits)
  have "run init (pipeline_steps cfg allowed) (L @ es1) s1"
    using Cons.prems(1,2) 1 by (auto intro!: run_step [OF Cons.prems(1)] pipeline_event)
  then have "run init (pipeline_steps cfg allowed) ((L @ es1) @ es2) t" using Cons.IH [OF _ _ 2(1)] Cons.prems(2) by fastforce
  then show ?case using 2(2) by simp
qed simp

lemma exec_is_run:
  "list_all allowed evs \<Longrightarrow> pipeline_exec cfg evs (new_pipeline position) = (s, L) \<Longrightarrow> pipeline_run position cfg allowed L s"
  using exec_extends_run [OF run_init [of "\<lambda>s. s = new_pipeline position"], of "new_pipeline position" allowed evs cfg s L] by simp

subsection \<open>Relations every receiving step keeps\<close>

text \<open>
  The steps that receive deltas and start a drain are compositions of the enqueue, the head of the drain
  loop and updates of the timer and of the bootstrap queue. A relation of states and effects that these
  keep, and that composes, holds of every such step.
\<close>

fun receiving :: "pipeline_event \<Rightarrow> bool" where
  "receiving (StorePersisted _ _ _) = False"
| "receiving StoreFailed = False"
| "receiving SliceApplied = False"
| "receiving SliceFailed = False"
| "receiving ClearPublications = False"
| "receiving _ = True"

locale pipeline_relation =
  fixes R :: "delta_pipeline \<Rightarrow> pipeline_effect list \<Rightarrow> delta_pipeline \<Rightarrow> bool"
  assumes R_refl: "R s [] s"
    and R_trans: "R s es t \<Longrightarrow> R t fs u \<Longrightarrow> R s (es @ fs) u"
    and R_timer: "R s [] (s\<lparr>pl_batchTimer := b\<rparr>)"
    and R_bootstrap: "R s [] (s\<lparr>pl_bootstrapDeltaQueue := q\<rparr>)"
    and R_enqueue: "enqueueDelta authoritative d s = (t, es, queued) \<Longrightarrow> R s es t"
    and R_drain: "pl_flush s = NoFlush \<or> pl_flush s = Yielding \<Longrightarrow> drain s = (t, es) \<Longrightarrow> R s es t"
    and R_group: "R s handleGroupHandlerFailure s"
begin

lemma enqueue_frame_R: "enqueue_frame ds s = (t, es, any) \<Longrightarrow> R s es t"
proof (induction ds arbitrary: s t es any)
  case (Cons d ds)
  obtain s1 es1 q where 1: "enqueueDelta True d s = (s1, es1, q)" by (metis prod_cases3)
  obtain s2 es2 r where 2: "enqueue_frame ds s1 = (s2, es2, r)" by (metis prod_cases3)
  show ?case using Cons.prems R_trans [OF R_enqueue [OF 1] Cons.IH [OF 2]] by (simp add: 1 2)
qed (simp add: R_refl)

lemma flush_R: "flushPendingDeltas s = (t, es) \<Longrightarrow> R s es t"
  by (cases "pl_flush s = NoFlush") (auto simp: flushPendingDeltas_def R_refl intro: R_drain)

lemma timer_flush_R: "flushPendingDeltas (s\<lparr>pl_batchTimer := b\<rparr>) = (t, es) \<Longrightarrow> R s es t"
  using R_trans [OF R_timer flush_R] by fastforce

lemma persist_frame_R: "persistDeltaFrame ds s = (t, es) \<Longrightarrow> R s es t"
proof -
  assume p: "persistDeltaFrame ds s = (t, es)"
  obtain s1 es1 q where 1: "enqueue_frame ds s = (s1, es1, q)" by (metis prod_cases3)
  obtain u es2 where 2: "flushPendingDeltas (s1\<lparr>pl_batchTimer := False\<rparr>) = (u, es2)" by fastforce
  show ?thesis
  proof (cases q)
    case True
    then have "t = u" "es = es1 @ es2" using p 1 2 by (simp_all add: persistDeltaFrame_def)
    then show ?thesis using R_trans [OF enqueue_frame_R [OF 1] timer_flush_R [OF 2]] by simp
  qed (use p 1 enqueue_frame_R [OF 1] in \<open>simp add: persistDeltaFrame_def\<close>)
qed

lemma live_delta_R: "processDeltaWithBatching cfg d s = (t, es) \<Longrightarrow> R s es t"
proof -
  assume p: "processDeltaWithBatching cfg d s = (t, es)"
  obtain s1 es1 q where 1: "enqueueDelta False d s = (s1, es1, q)" by (metis prod_cases3)
  obtain u es2 where 2: "scheduleDeltaFlush cfg s1 = (u, es2)" by fastforce
  have "R s1 es2 u"
    using 2 timer_flush_R [where s = s1 and b = False] R_timer [of s1 True] by (auto simp: scheduleDeltaFlush_def split: if_splits)
  then show ?thesis
    using p 1 2 R_trans [OF R_enqueue [OF 1]] R_enqueue [OF 1] by (auto simp: processDeltaWithBatching_def split: if_splits)
qed

lemma replay_R: "replayQueuedDeltas s = (t, es) \<Longrightarrow> R s es t"
proof -
  assume p: "replayQueuedDeltas s = (t, es)"
  show ?thesis
  proof (cases "pl_bootstrapDeltaQueue s = None \<or> pl_bootstrapDeltaQueue s = Some []")
    case True
    then show ?thesis using p R_bootstrap [of s None] by (auto simp: replayQueuedDeltas_def)
  next
    case False
    then obtain queue where "persistDeltaFrame queue (s\<lparr>pl_bootstrapDeltaQueue := None\<rparr>) = (t, es)"
      using p by (auto simp: replayQueuedDeltas_def)
    then show ?thesis using R_trans [OF R_bootstrap persist_frame_R] by fastforce
  qed
qed

lemma receiving_R:
  assumes "receiving ev" and st: "pipeline_step cfg ev s = (t, es)"
  shows "R s es t"
proof (cases ev)
  case TimerFired
  then show ?thesis using st flush_R by (auto simp: R_refl split: if_splits)
next
  case HostYielded
  then show ?thesis using st R_drain by (auto simp: yielded_def R_refl split: if_splits)
next
  case BeginBootstrap
  then show ?thesis using st R_bootstrap R_refl by (auto simp: begin_bootstrap_def)
next
  case GroupHandlerFailed
  then show ?thesis using st R_group by auto
qed (use assms live_delta_R persist_frame_R replay_R in auto)

end

subsection \<open>The queue loses nothing\<close>

definition enqueued_of :: "pipeline_effect list \<Rightarrow> SyncDelta list" where
  "enqueued_of L = List.map_filter (\<lambda>x. case x of Enqueued d \<Rightarrow> Some d | _ \<Rightarrow> None) L"

definition flushed_of :: "pipeline_effect list \<Rightarrow> SyncDelta list" where
  "flushed_of L = concat (List.map_filter (\<lambda>x. case x of Flushed ds \<Rightarrow> Some ds | _ \<Rightarrow> None) L)"

definition in_flight :: "delta_pipeline \<Rightarrow> SyncDelta list" where
  "in_flight s = (case pl_flush s of Persisting q _ \<Rightarrow> q | Applying q _ _ _ _ \<Rightarrow> q | _ \<Rightarrow> [])"

text \<open>The generation a flush began in.\<close>

definition current_flush :: "delta_pipeline \<Rightarrow> bool" where
  "current_flush s = (case pl_flush s of Persisting _ g \<Rightarrow> g = pl_generation s | Applying _ g _ _ _ \<Rightarrow> g = pl_generation s | _ \<Rightarrow> True)"

definition queue_inv :: "pipeline_effect list \<Rightarrow> delta_pipeline \<Rightarrow> bool" where
  "queue_inv L s \<longleftrightarrow> enqueued_of L = flushed_of L @ in_flight s @ pl_pendingDeltas s \<and> current_flush s"

lemma effects_append [simp]:
  "enqueued_of (L @ M) = enqueued_of L @ enqueued_of M" "flushed_of (L @ M) = flushed_of L @ flushed_of M"
  "enqueued_of [] = []" "flushed_of [] = []"
  by (simp_all add: enqueued_of_def flushed_of_def map_filter_def)

lemma effects_cons [simp]:
  "enqueued_of (x # L) = (case x of Enqueued d \<Rightarrow> [d] | _ \<Rightarrow> []) @ enqueued_of L"
  "flushed_of (x # L) = (case x of Flushed ds \<Rightarrow> ds | _ \<Rightarrow> []) @ flushed_of L"
  by (simp_all add: enqueued_of_def flushed_of_def map_filter_def split: pipeline_effect.split)

text \<open>A step moves the queue: what it enqueues is what it flushes, holds and leaves beyond what was held before.\<close>

definition moves :: "delta_pipeline \<Rightarrow> pipeline_effect list \<Rightarrow> delta_pipeline \<Rightarrow> bool" where
  "moves s es t \<longleftrightarrow> in_flight s @ pl_pendingDeltas s @ enqueued_of es = flushed_of es @ in_flight t @ pl_pendingDeltas t \<and>
     (current_flush s \<longrightarrow> current_flush t)"

lemma queue_inv_moves: "queue_inv L s \<Longrightarrow> moves s es t \<Longrightarrow> queue_inv (L @ es) t"
  by (simp add: queue_inv_def moves_def)

lemma moves_trans: "moves s es t \<Longrightarrow> moves t fs u \<Longrightarrow> moves s (es @ fs) u"
proof -
  assume a: "moves s es t" "moves t fs u"
  have "in_flight s @ pl_pendingDeltas s @ enqueued_of es @ enqueued_of fs =
      (in_flight s @ pl_pendingDeltas s @ enqueued_of es) @ enqueued_of fs" by simp
  also have "\<dots> = flushed_of es @ in_flight t @ pl_pendingDeltas t @ enqueued_of fs" using a(1) by (simp add: moves_def)
  also have "\<dots> = flushed_of es @ flushed_of fs @ in_flight u @ pl_pendingDeltas u" using a(2) by (simp add: moves_def)
  finally show "moves s (es @ fs) u" using a by (simp add: moves_def)
qed

lemma moves_refl: "moves s [] s"
  by (simp add: moves_def)

lemma flush_frame [simp]:
  "current_flush (s\<lparr>pl_pendingDeltas := x1\<rparr>) = current_flush s" "current_flush (s\<lparr>pl_batchTimer := x2\<rparr>) = current_flush s"
  "current_flush (s\<lparr>pl_bootstrapDeltaQueue := x3\<rparr>) = current_flush s" "current_flush (s\<lparr>pl_unapplied := x4\<rparr>) = current_flush s"
  "current_flush (s\<lparr>pl_position := x5\<rparr>) = current_flush s"
  "in_flight (s\<lparr>pl_pendingDeltas := x1\<rparr>) = in_flight s" "in_flight (s\<lparr>pl_batchTimer := x2\<rparr>) = in_flight s"
  "in_flight (s\<lparr>pl_bootstrapDeltaQueue := x3\<rparr>) = in_flight s" "in_flight (s\<lparr>pl_unapplied := x4\<rparr>) = in_flight s"
  "in_flight (s\<lparr>pl_position := x5\<rparr>) = in_flight s"
  by (simp_all add: current_flush_def in_flight_def split: delta_flush.split)

lemma moves_frame:
  "pl_flush t = pl_flush s \<Longrightarrow> pl_generation t = pl_generation s \<Longrightarrow> pl_pendingDeltas t = pl_pendingDeltas s \<Longrightarrow>
     enqueued_of es = [] \<Longrightarrow> flushed_of es = [] \<Longrightarrow> moves s es t"
  by (auto simp: moves_def in_flight_def current_flush_def split: delta_flush.splits)

lemma enqueueDelta_moves: "enqueueDelta authoritative d s = (t, es, queued) \<Longrightarrow> moves s es t"
  by (auto simp: enqueueDelta_def moves_def Let_def split: if_splits option.splits)

lemma drain_moves: "in_flight s = [] \<Longrightarrow> drain s = (t, es) \<Longrightarrow> moves s es t"
  by (auto simp: drain_def moves_def in_flight_def current_flush_def split: if_splits)

lemma after_batch_flight: "in_flight (after_batch s) = []" "pl_pendingDeltas (after_batch s) = pl_pendingDeltas s" "current_flush (after_batch s)"
  by (simp_all add: after_batch_def in_flight_def current_flush_def)

lemma finish_moves: "in_flight s = queued \<Longrightarrow> finish_batch queued db n s = (t, es) \<Longrightarrow> moves s es t"
  by (auto simp: finish_batch_def moves_def after_batch_flight Let_def split: option.splits)

lemma requeue_moves: "in_flight s = queued \<Longrightarrow> requeue queued s = (t, es) \<Longrightarrow> moves s es t"
  by (auto simp: requeue_def moves_def current_flush_def in_flight_def)

lemma moves_quiet: "moves s es t \<Longrightarrow> enqueued_of [x] = [] \<Longrightarrow> flushed_of [x] = [] \<Longrightarrow> moves s (x # es) t"
  by (simp add: moves_def)

interpretation moving: pipeline_relation moves
proof unfold_locales
  show "moves s es t" if "pl_flush s = NoFlush \<or> pl_flush s = Yielding" "drain s = (t, es)" for s t es
    using that drain_moves by (auto simp: in_flight_def)
  show "moves s [] (s\<lparr>pl_batchTimer := b\<rparr>)" "moves s [] (s\<lparr>pl_bootstrapDeltaQueue := q\<rparr>)" "moves s handleGroupHandlerFailure s" for s b q
    by (rule moves_frame; simp add: handleGroupHandlerFailure_def)+
qed (rule moves_refl moves_trans enqueueDelta_moves; assumption)+

lemma persisted_moves:
  assumes cur: "current_flush s" and p: "persisted cfg results n prepared s = (t, es)"
  shows "moves s es t"
proof (cases "pl_flush s")
  case (Persisting queued g)
  define db where "db = (case pl_unapplied s of None \<Rightarrow> results | Some held \<Rightarrow> map (owed_change held) results)"
  have g: "g = pl_generation s" and q: "in_flight s = queued" using cur Persisting by (simp_all add: current_flush_def in_flight_def)
  obtain u fs where f: "finish_batch queued db n s = (u, fs)" by fastforce
  have m: "moves s fs u" using finish_moves [OF q f] .
  let ?slices = "sliceApplyChanges (pc_project cfg db) (pc_applySliceDeltas cfg)"
  consider "t = u" "es = Answered db n # ApplyChanges (pc_project cfg db) # fs" | "t = u" "es = Answered db n # fs"
    | "t = s\<lparr>pl_flush := Applying queued g db ?slices n\<rparr>" "es = [Answered db n]"
    using p Persisting g f by (auto simp: persisted_def Let_def db_def [symmetric] split: if_splits)
  then show ?thesis
  proof cases
    case 3
    then show ?thesis using g q by (simp add: moves_def in_flight_def current_flush_def)
  qed (use m in \<open>simp_all add: moves_quiet\<close>)
qed (use p in \<open>simp_all add: persisted_def moves_refl\<close>)

lemma apply_slice_moves:
  assumes cur: "current_flush s" and p: "apply_slice ok s = (t, es)"
  shows "moves s es t"
proof (cases "pl_flush s")
  case (Applying queued g db slices n)
  have g: "g = pl_generation s" and q: "in_flight s = queued" using cur Applying by (simp_all add: current_flush_def in_flight_def)
  show ?thesis
  proof (cases slices)
    case (Cons slice rest)
    show ?thesis
    proof (cases ok)
      case False
      define u where "u = (if hold_changes db (case pl_unapplied s of None \<Rightarrow> [] | Some held \<Rightarrow> held) = [] then s
        else s\<lparr>pl_unapplied := Some (hold_changes db (case pl_unapplied s of None \<Rightarrow> [] | Some held \<Rightarrow> held))\<rparr>)"
      have "requeue queued u = (t, es)" using p Applying Cons False g by (simp add: apply_slice_def Let_def u_def)
      moreover have "in_flight u = queued" using q by (simp add: u_def in_flight_def)
      ultimately have "moves u es t" using requeue_moves by blast
      moreover have "moves s [] u" by (rule moves_frame) (simp_all add: u_def)
      ultimately show ?thesis using moves_trans [of s "[]" u es t] by simp
    next
      case True
      obtain u fs where f: "finish_batch queued db n s = (u, fs)" by fastforce
      have m: "moves s fs u" using finish_moves [OF q f] .
      show ?thesis
        using p Applying Cons True g q f m by (auto simp: apply_slice_def moves_def in_flight_def current_flush_def split: if_splits)
    qed
  qed (use p Applying in \<open>simp add: apply_slice_def moves_refl\<close>)
qed (use p in \<open>simp_all add: apply_slice_def moves_refl\<close>)

lemma persist_failed_moves:
  assumes cur: "current_flush s" and p: "persist_failed s = (t, es)"
  shows "moves s es t"
proof (cases "pl_flush s")
  case (Persisting queued g)
  then have "requeue queued s = (t, es)" "in_flight s = queued" using cur p by (simp_all add: persist_failed_def current_flush_def in_flight_def)
  then show ?thesis using requeue_moves by blast
qed (use p in \<open>simp_all add: persist_failed_def moves_refl\<close>)

lemma step_moves:
  assumes cur: "current_flush s" and st: "pipeline_step cfg ev s = (t, es)" and ev: "ev \<noteq> ClearPublications"
  shows "moves s es t"
proof (cases "receiving ev")
  case True
  then show ?thesis using st by (rule moving.receiving_R)
next
  case False
  then show ?thesis
    using st ev persisted_moves [OF cur] persist_failed_moves [OF cur] apply_slice_moves [OF cur] by (cases ev) simp_all
qed

interpretation delta_queue: run_invariant "\<lambda>s. s = new_pipeline position" "pipeline_steps cfg (\<lambda>ev. ev \<noteq> ClearPublications)" queue_inv
  for position cfg
proof unfold_locales
  show "queue_inv [] s" if "s = new_pipeline position" for s
    using that by (simp add: new_pipeline_def queue_inv_def in_flight_def current_flush_def)
next
  fix L s es t
  assume inv: "queue_inv L s" and step: "pipeline_steps cfg (\<lambda>ev. ev \<noteq> ClearPublications) s es t"
  obtain ev where ev: "ev \<noteq> ClearPublications" "pipeline_step cfg ev s = (t, es)" using step by (rule pipeline_stepsE)
  have "current_flush s" using inv by (simp add: queue_inv_def)
  then show "queue_inv (L @ es) t" using step_moves [OF _ ev(2,1)] inv queue_inv_moves by blast
qed

subsection \<open>The delivery protocol\<close>

text \<open>
  What the pipeline promises of one batch: it is detached, the store answers it, the projection of the
  answer is revealed from its first change to its last, and only then is the answer's position
  acknowledged, above every position acknowledged before. A failed flush starts over with a new
  detachment, and so does everything after a security clear.
\<close>

datatype delivery = Idle | Sent | Revealing "AppliedChange list" int

fun deliver :: "pipeline_config \<Rightarrow> delivery \<times> int \<Rightarrow> pipeline_effect \<Rightarrow> (delivery \<times> int) option" where
  "deliver cfg (Idle, k) (Detached _) = Some (Sent, k)"
| "deliver cfg (Sent, k) (Answered db n) = Some (Revealing (pc_project cfg db) n, k)"
| "deliver cfg (Revealing owed n, k) (ApplyChanges cs) =
     (if take (length cs) owed = cs then Some (Revealing (drop (length cs) owed) n, k) else None)"
| "deliver cfg (Revealing owed n, k) (Acknowledge m) = (if owed = [] \<and> m = n \<and> k < n then Some (Revealing [] n, n) else None)"
| "deliver cfg (Revealing owed n, k) (Flushed _) = (if owed = [] \<and> n \<le> k then Some (Idle, k) else None)"
| "deliver cfg (Sent, k) FlushFailed = Some (Idle, k)"
| "deliver cfg (Revealing _ _, k) FlushFailed = Some (Idle, k)"
| "deliver cfg (_, k) Cleared = Some (Idle, k)"
| "deliver cfg m (DeltaReceived _ _ _) = Some m"
| "deliver cfg m (GroupChanged _) = Some m"
| "deliver cfg m (GroupRemoved _) = Some m"
| "deliver cfg m (CascadeCancel _ _) = Some m"
| "deliver cfg m (Enqueued _) = Some m"
| "deliver cfg m (PersistBatch _) = Some m"
| "deliver cfg m ResetPool = Some m"
| "deliver cfg m ForceRebootstrap = Some m"
| "deliver cfg _ _ = None"

fun protocol :: "pipeline_config \<Rightarrow> delivery \<times> int \<Rightarrow> pipeline_effect list \<Rightarrow> (delivery \<times> int) option" where
  "protocol cfg m [] = Some m"
| "protocol cfg m (e # es) = (case deliver cfg m e of None \<Rightarrow> None | Some m1 \<Rightarrow> protocol cfg m1 es)"

lemma protocol_append: "protocol cfg m (es @ fs) = (case protocol cfg m es of None \<Rightarrow> None | Some m1 \<Rightarrow> protocol cfg m1 fs)"
  by (induction es arbitrary: m) (auto split: option.split)

text \<open>Where a state of the pipeline stands in the protocol: a flush of an earlier generation owes nothing.\<close>

definition delivery_state :: "delta_pipeline \<Rightarrow> delivery \<times> int" where
  "delivery_state s = (case pl_flush s of
      Persisting _ g \<Rightarrow> if g = pl_generation s then Sent else Idle
    | Applying _ g _ slices n \<Rightarrow> if g = pl_generation s then Revealing (concat slices) n else Idle
    | _ \<Rightarrow> Idle, lp_persisted (pl_position s))"

definition flush_wf :: "delta_pipeline \<Rightarrow> bool" where
  "flush_wf s \<longleftrightarrow> 0 \<le> lp_persisted (pl_position s) \<and> (case pl_flush s of
      Persisting _ g \<Rightarrow> g \<le> pl_generation s
    | Applying _ g _ slices _ \<Rightarrow> g \<le> pl_generation s \<and> slices \<noteq> []
    | _ \<Rightarrow> True)"

definition delivers :: "pipeline_config \<Rightarrow> delta_pipeline \<Rightarrow> pipeline_effect list \<Rightarrow> delta_pipeline \<Rightarrow> bool" where
  "delivers cfg s es t \<longleftrightarrow> (flush_wf s \<longrightarrow> flush_wf t \<and> protocol cfg (delivery_state s) es = Some (delivery_state t))"

lemma persisted_advance:
  "0 \<le> lp_persisted p \<Longrightarrow> lp_persisted (advanceApplied n p) = lp_persisted p" "lp_persisted p < n \<Longrightarrow> lp_persisted (advancePersisted n p) = n"
  by (simp_all add: advanceApplied_def advancePersisted_def lp_advance_def)

lemma delivery_frame:
  "pl_flush t = pl_flush s \<Longrightarrow> pl_generation t = pl_generation s \<Longrightarrow> lp_persisted (pl_position t) = lp_persisted (pl_position s) \<Longrightarrow>
     delivery_state t = delivery_state s \<and> flush_wf t = flush_wf s"
  by (simp add: delivery_state_def flush_wf_def cong: delta_flush.case_cong)

lemma delivers_frame:
  assumes "pl_flush t = pl_flush s" "pl_generation t = pl_generation s"
    and "flush_wf s \<Longrightarrow> lp_persisted (pl_position t) = lp_persisted (pl_position s)"
    and "\<And>m. protocol cfg m es = Some m"
  shows "delivers cfg s es t"
  using assms(4) delivery_frame [OF assms(1,2)] assms(3) by (simp add: delivers_def)

lemma enqueueDelta_frame:
  assumes "enqueueDelta authoritative d s = (t, es, queued)"
  shows "pl_flush t = pl_flush s" and "pl_generation t = pl_generation s"
    and "flush_wf s \<Longrightarrow> lp_persisted (pl_position t) = lp_persisted (pl_position s)" and "protocol cfg m es = Some m"
  using assms by (auto simp: enqueueDelta_def Let_def flush_wf_def persisted_advance split: if_splits option.splits)

lemma drain_delivers:
  assumes "flush_wf s" and "fst (delivery_state s) = Idle" and "drain s = (t, es)"
  shows "flush_wf t \<and> protocol cfg (delivery_state s) es = Some (delivery_state t)"
proof -
  have "delivery_state s = (Idle, lp_persisted (pl_position s))" using assms(2) by (simp add: delivery_state_def)
  then show ?thesis using assms(1,3) by (auto simp: drain_def delivery_state_def flush_wf_def split: if_splits)
qed

interpretation delivering: pipeline_relation "delivers cfg" for cfg
proof unfold_locales
  show "delivers cfg s (es @ fs) u" if "delivers cfg s es t" "delivers cfg t fs u" for s es t fs u
    using that by (simp add: delivers_def protocol_append)
  show "delivers cfg s es t" if "enqueueDelta authoritative d s = (t, es, queued)" for authoritative d s t es queued
    using enqueueDelta_frame [OF that] by (rule delivers_frame)
  show "delivers cfg s es t" if "pl_flush s = NoFlush \<or> pl_flush s = Yielding" "drain s = (t, es)" for s t es
    using drain_delivers [OF _ _ that(2)] that(1) by (auto simp: delivers_def delivery_state_def)
qed (auto intro!: delivers_frame simp: handleGroupHandlerFailure_def)

lemma after_batch_delivery:
  "delivery_state (after_batch s) = (Idle, lp_persisted (pl_position s))" "flush_wf (after_batch s) \<longleftrightarrow> 0 \<le> lp_persisted (pl_position s)"
  by (simp_all add: after_batch_def delivery_state_def flush_wf_def)

lemma finish_delivers:
  assumes "flush_wf s" and "finish_batch queued db n s = (t, es)"
  shows "flush_wf t \<and> protocol cfg (Revealing [] n, lp_persisted (pl_position s)) es = Some (delivery_state t)"
  using assms(2) flush_wf_def [of s] assms(1) by (auto simp: finish_batch_def Let_def after_batch_delivery persisted_advance split: option.splits)

lemma requeue_delivers:
  "flush_wf s \<Longrightarrow> requeue queued s = (t, es) \<Longrightarrow> flush_wf t \<and> delivery_state t = (Idle, lp_persisted (pl_position s)) \<and> es = [FlushFailed]"
  by (auto simp: requeue_def delivery_state_def flush_wf_def)

lemma persisted_delivers:
  assumes p: "persisted cfg results n prepared s = (t, es)"
  shows "delivers cfg s es t"
proof (cases "pl_flush s")
  case (Persisting queued g)
  show ?thesis
  proof (cases "g = pl_generation s")
    case False
    then have "es = []" "t = after_batch s" "delivery_state s = (Idle, lp_persisted (pl_position s))"
      using p Persisting by (simp_all add: persisted_def delivery_state_def)
    then show ?thesis by (simp add: delivers_def after_batch_delivery) (simp add: flush_wf_def)
  next
    case True
    define db where "db = (case pl_unapplied s of None \<Rightarrow> results | Some held \<Rightarrow> map (owed_change held) results)"
    let ?slices = "sliceApplyChanges (pc_project cfg db) (pc_applySliceDeltas cfg)"
    have d: "delivery_state s = (Sent, lp_persisted (pl_position s))" using Persisting True by (simp add: delivery_state_def)
    have cc: "concat ?slices = pc_project cfg db" by (rule slices_spec(1))
    obtain u fs where f: "finish_batch queued db n s = (u, fs)" by fastforce
    consider "t = u" "es = Answered db n # ApplyChanges (pc_project cfg db) # fs" | "t = u" "es = Answered db n # fs" "?slices = []"
      | "t = s\<lparr>pl_flush := Applying queued g db ?slices n\<rparr>" "es = [Answered db n]" "?slices \<noteq> []"
      using p Persisting True f by (auto simp: persisted_def Let_def db_def [symmetric] split: if_splits)
    then show ?thesis
    proof cases
      case 2
      then have "pc_project cfg db = []" using cc by simp
      then show ?thesis using 2 d finish_delivers [OF _ f, of cfg] by (simp add: delivers_def)
    next
      case 3
      then show ?thesis using d True cc by (simp add: delivers_def) (simp add: delivery_state_def flush_wf_def)
    qed (use d finish_delivers [OF _ f, of cfg] in \<open>simp add: delivers_def\<close>)
  qed
qed (use p in \<open>simp_all add: persisted_def delivering.R_refl\<close>)

lemma persist_failed_delivers:
  assumes p: "persist_failed s = (t, es)"
  shows "delivers cfg s es t"
proof (cases "pl_flush s")
  case (Persisting queued g)
  show ?thesis
  proof (cases "g = pl_generation s")
    case False
    then have "fst (delivery_state s) = Idle" "drain s = (t, es)" using p Persisting by (simp_all add: persist_failed_def delivery_state_def)
    then show ?thesis using drain_delivers by (simp add: delivers_def)
  next
    case True
    then have "requeue queued s = (t, es)" using p Persisting by (simp add: persist_failed_def)
    then show ?thesis using requeue_delivers Persisting True by (fastforce simp: delivers_def delivery_state_def)
  qed
qed (use p in \<open>simp_all add: persist_failed_def delivering.R_refl\<close>)

lemma apply_slice_delivers:
  assumes p: "apply_slice ok s = (t, es)"
  shows "delivers cfg s es t"
proof (cases "pl_flush s")
  case (Applying queued g db slices n)
  show ?thesis
  proof (cases slices)
    case (Cons slice rest)
    show ?thesis
    proof (cases "g = pl_generation s")
      case False
      then have "es = []" "t = after_batch s" "delivery_state s = (Idle, lp_persisted (pl_position s))"
        using p Applying Cons by (simp_all add: apply_slice_def delivery_state_def)
      then show ?thesis by (simp add: delivers_def after_batch_delivery) (simp add: flush_wf_def)
    next
      case True
      have d: "delivery_state s = (Revealing (slice @ concat rest) n, lp_persisted (pl_position s))"
        using Applying Cons True by (simp add: delivery_state_def)
      obtain u fs where f: "finish_batch queued db n s = (u, fs)" by fastforce
      consider "\<not> ok" | "ok" "rest = []" "t = u" "es = ApplyChanges slice # fs"
        | "ok" "rest \<noteq> []" "t = s\<lparr>pl_flush := Applying queued g db rest n\<rparr>" "es = [ApplyChanges slice]"
        using p Applying Cons True f by (auto simp: apply_slice_def split: if_splits)
      then show ?thesis
      proof cases
        case 1
        define u where "u = (if hold_changes db (case pl_unapplied s of None \<Rightarrow> [] | Some held \<Rightarrow> held) = [] then s
          else s\<lparr>pl_unapplied := Some (hold_changes db (case pl_unapplied s of None \<Rightarrow> [] | Some held \<Rightarrow> held))\<rparr>)"
        have u: "flush_wf u = flush_wf s" "pl_position u = pl_position s" by (simp_all add: u_def flush_wf_def cong: delta_flush.case_cong)
        have "requeue queued u = (t, es)" using p Applying Cons True 1 by (simp add: apply_slice_def Let_def u_def)
        from requeue_delivers [OF _ this] show ?thesis using d u by (simp add: delivers_def)
      next
        case 2
        then show ?thesis using d finish_delivers [OF _ f, of cfg] by (simp add: delivers_def)
      next
        case 3
        then show ?thesis using d True by (simp add: delivers_def) (simp add: delivery_state_def flush_wf_def)
      qed
    qed
  qed (use p Applying in \<open>simp add: apply_slice_def delivering.R_refl\<close>)
qed (use p in \<open>simp_all add: apply_slice_def delivering.R_refl\<close>)

lemma clear_delivers:
  assumes "clearPendingPublications s = (t, es)"
  shows "delivers cfg s es t"
proof -
  have t: "t = s\<lparr>pl_generation := Suc (pl_generation s), pl_unapplied := None, pl_pendingDeltas := []\<rparr>" and es: "es = [Cleared]"
    using assms by (auto simp: clearPendingPublications_def)
  have "deliver cfg (delivery_state s) Cleared = Some (Idle, lp_persisted (pl_position s))"
    by (cases "fst (delivery_state s)") (auto simp: delivery_state_def)
  moreover have "flush_wf s \<Longrightarrow> flush_wf t \<and> delivery_state t = (Idle, lp_persisted (pl_position s))"
    by (auto simp: t delivery_state_def flush_wf_def split: delta_flush.splits)
  ultimately show ?thesis by (simp add: delivers_def es)
qed

lemma step_delivers: "pipeline_step cfg ev s = (t, es) \<Longrightarrow> delivers cfg s es t"
proof (cases "receiving ev")
  case False
  assume "pipeline_step cfg ev s = (t, es)"
  with False show ?thesis
    using persisted_delivers persist_failed_delivers apply_slice_delivers clear_delivers by (cases ev) simp_all
qed (rule delivering.receiving_R)

interpretation delivery_run: run_invariant "\<lambda>s. s = new_pipeline position \<and> 0 \<le> lp_persisted position" "pipeline_steps cfg allowed"
  "\<lambda>L s. flush_wf s \<and> protocol cfg (Idle, lp_persisted position) L = Some (delivery_state s)" for position cfg allowed
proof unfold_locales
  show "flush_wf s \<and> protocol cfg (Idle, lp_persisted position) [] = Some (delivery_state s)" if "s = new_pipeline position \<and> 0 \<le> lp_persisted position" for s
    using that by (simp add: new_pipeline_def flush_wf_def delivery_state_def)
next
  fix L s es t
  assume inv: "flush_wf s \<and> protocol cfg (Idle, lp_persisted position) L = Some (delivery_state s)" and "pipeline_steps cfg allowed s es t"
  then obtain ev where "pipeline_step cfg ev s = (t, es)" by (auto elim: pipeline_stepsE)
  from step_delivers [OF this] inv
  show "flush_wf t \<and> protocol cfg (Idle, lp_persisted position) (L @ es) = Some (delivery_state t)"
    by (simp add: delivers_def protocol_append)
qed

subsection \<open>Properties of the pipeline\<close>

text \<open>
  C3. The pipeline keeps the delivery protocol in every run, with any interleaving of deltas, frames,
  timers, store answers, failures and security clears: a batch is revealed only after the store answered
  it, from its first change to its last; a position is acknowledged only when every change of the batch
  it answers was revealed, and above every position acknowledged before; after a security clear nothing
  detached before it is revealed or acknowledged.
\<close>

theorem pipeline_keeps_delivery_protocol:
  assumes "pipeline_run position cfg allowed L s" and "0 \<le> lp_persisted position"
  shows "protocol cfg (Idle, lp_persisted position) L = Some (delivery_state s)"
proof -
  have "run (\<lambda>s. s = new_pipeline position \<and> 0 \<le> lp_persisted position) (pipeline_steps cfg allowed) L s"
    using assms by simp
  from delivery_run.holds [OF this] show ?thesis by simp
qed

definition demo_cfg :: pipeline_config where
  "demo_cfg = \<lparr>pc_maxBatchSize = 2, pc_applySliceDeltas = 1, pc_project = (\<lambda>cs. cs)\<rparr>"

definition demo_sync :: "int \<Rightarrow> string \<Rightarrow> SyncDelta" where
  "demo_sync n i = \<lparr>dl_id = n, dl_actionType = ActI, dl_modelName = ''Block'', dl_modelId = i, dl_data = Some [(''title'', VStr i)],
     dl_transactionId = None, dl_correlationId = None\<rparr>"

definition demo_change :: "int \<Rightarrow> string \<Rightarrow> AppliedChange" where
  "demo_change n i = \<lparr>ac_action = AddRow, ac_modelName = ''Block'', ac_modelId = i, ac_data = Some [(''title'', VStr i)],
     ac_transactionId = None, ac_syncId = Some n\<rparr>"

definition demo_position :: LogPositionSnapshot where
  "demo_position = \<lparr>lp_persisted = 3, lp_applied = 3, lp_acked = 0\<rparr>"

text \<open>Two rows are stored; the second slice fails, and the retry, answered as already seen, reveals both and acknowledges.\<close>

definition demo_events :: "pipeline_event list" where
  "demo_events = [DeltaFrame [demo_sync 5 ''a'', demo_sync 6 ''b''],
     StorePersisted [demo_change 5 ''a'', demo_change 6 ''b''] 6 False, SliceApplied, SliceFailed, TimerFired,
     DeltaFrame [demo_sync 7 ''c''],
     StorePersisted [(demo_change 5 ''a'')\<lparr>ac_action := VerifyRow\<rparr>, (demo_change 6 ''b'')\<lparr>ac_action := VerifyRow\<rparr>, demo_change 7 ''c''] 7 True]"

lemmas demo_pipeline_defs = demo_cfg_def demo_sync_def demo_change_def demo_position_def demo_events_def

lemmas pipeline_eval = new_pipeline_def persistDeltaFrame_def enqueueDelta_def flushPendingDeltas_def drain_def persisted_def
  finish_batch_def after_batch_def apply_slice_def requeue_def hold_changes_def release_changes_def owed_change_def
  sliceApplyChanges_def head_run_def deduplicateDeltas_def to_store_delta_def advanceApplied_def advancePersisted_def lp_advance_def
  Let_def

lemma demo_exec:
  "\<exists>s. pipeline_exec demo_cfg demo_events (new_pipeline demo_position) = (s,
     [DeltaReceived 5 None None, Enqueued (demo_sync 5 ''a''), DeltaReceived 6 None None, Enqueued (demo_sync 6 ''b''),
      Detached [demo_sync 5 ''a'', demo_sync 6 ''b''], PersistBatch [to_store_delta (demo_sync 5 ''a''), to_store_delta (demo_sync 6 ''b'')],
      Answered [demo_change 5 ''a'', demo_change 6 ''b''] 6, ApplyChanges [demo_change 5 ''a''], FlushFailed,
      DeltaReceived 7 None None, Enqueued (demo_sync 7 ''c''), Detached [demo_sync 5 ''a'', demo_sync 6 ''b'', demo_sync 7 ''c''],
      PersistBatch [to_store_delta (demo_sync 5 ''a''), to_store_delta (demo_sync 6 ''b''), to_store_delta (demo_sync 7 ''c'')],
      Answered [demo_change 5 ''a'', demo_change 6 ''b'', demo_change 7 ''c''] 7,
      ApplyChanges [demo_change 5 ''a'', demo_change 6 ''b'', demo_change 7 ''c''], Acknowledge 7,
      Flushed [demo_sync 5 ''a'', demo_sync 6 ''b'', demo_sync 7 ''c'']]) \<and>
     pl_flush s = NoFlush \<and> pl_pendingDeltas s = [] \<and> lp_persisted (pl_position s) = 7"
  by (simp add: demo_pipeline_defs pipeline_eval slice_loop.simps)

theorem pipeline_keeps_delivery_protocol_witness:
  "\<exists>L. pipeline_run demo_position demo_cfg (\<lambda>_. True) L (fst (pipeline_exec demo_cfg demo_events (new_pipeline demo_position))) \<and>
     Acknowledge 7 \<in> set L \<and> protocol demo_cfg (Idle, 3) L = Some (Idle, 7)"
proof -
  obtain s L where e: "pipeline_exec demo_cfg demo_events (new_pipeline demo_position) = (s, L)" "Acknowledge 7 \<in> set L"
    "pl_flush s = NoFlush" "lp_persisted (pl_position s) = 7"
    using demo_exec by auto
  have r: "pipeline_run demo_position demo_cfg (\<lambda>_. True) L s" using e(1) by (rule exec_is_run [rotated]) (simp add: list_all_iff)
  from pipeline_keeps_delivery_protocol [OF r] show ?thesis
    using r e by (auto simp: demo_position_def delivery_state_def)
qed

text \<open>
  C12. Without a security clear no delta is lost and none is processed twice: the deltas enqueued so far
  are, in order, those whose flush finished, those of the flush in flight and those still queued,
  whatever fails and is requeued in between.
\<close>

theorem pipeline_loses_no_delta:
  assumes "pipeline_run position cfg (\<lambda>ev. ev \<noteq> ClearPublications) L s"
  shows "enqueued_of L = flushed_of L @ in_flight s @ pl_pendingDeltas s"
  using delta_queue.holds [OF assms] by (simp add: queue_inv_def)

theorem pipeline_loses_no_delta_witness:
  "\<exists>L. pipeline_run demo_position demo_cfg (\<lambda>ev. ev \<noteq> ClearPublications) L (fst (pipeline_exec demo_cfg demo_events (new_pipeline demo_position))) \<and>
     enqueued_of L = [demo_sync 5 ''a'', demo_sync 6 ''b'', demo_sync 7 ''c''] \<and> flushed_of L = enqueued_of L"
proof -
  obtain s L where e: "pipeline_exec demo_cfg demo_events (new_pipeline demo_position) = (s, L)"
    "enqueued_of L = [demo_sync 5 ''a'', demo_sync 6 ''b'', demo_sync 7 ''c'']" "pl_flush s = NoFlush" "pl_pendingDeltas s = []"
    using demo_exec by auto
  have r: "pipeline_run demo_position demo_cfg (\<lambda>ev. ev \<noteq> ClearPublications) L s"
    using e(1) by (rule exec_is_run [rotated]) (simp add: demo_events_def)
  from pipeline_loses_no_delta [OF r] show ?thesis using r e by (auto simp: in_flight_def)
qed

text \<open>
  C27. The apply slices of a batch are the batch cut at transaction boundaries: put together they are the
  batch, none is empty, a slice is longer than the bound only when it is one whole transaction, and no
  cut separates two changes of one transaction.
\<close>

theorem slices_keep_transactions_whole:
  "concat (sliceApplyChanges changes maxDeltas) = changes \<and>
   list_all (bounded_slice maxDeltas) (sliceApplyChanges changes maxDeltas) \<and>
   successively clean_cut (sliceApplyChanges changes maxDeltas)"
  using slices_spec by blast

text \<open>
  Deduplication keeps exactly one delta of every log position and puts them in log order, when the
  positions are positive.
\<close>

theorem deduplication_keeps_each_position_once:
  assumes "\<forall>d \<in> set deltas. 0 < dl_id d"
  shows "sorted_wrt (\<lambda>c d. dl_id c < dl_id d) (deduplicateDeltas deltas) \<and>
    set (deduplicateDeltas deltas) \<subseteq> set deltas \<and> dl_id ` set (deduplicateDeltas deltas) = dl_id ` set deltas"
  using deduplicate_spec [OF assms] by blast

theorem deduplication_keeps_each_position_once_witness:
  "dl_id ` set (deduplicateDeltas [demo_sync 6 ''b'', demo_sync 5 ''a'', demo_sync 6 ''b'']) = {5, 6}"
  using deduplication_keeps_each_position_once [of "[demo_sync 6 ''b'', demo_sync 5 ''a'', demo_sync 6 ''b'']"]
  by (auto simp: demo_sync_def)

subsection \<open>A later frame acknowledges past a delta that was not stored\<close>

text \<open>
  The position a batch reports is that of its own durable prefix, and the acknowledgement compares it
  only with the last one acknowledged. A delta whose store transaction did not complete ends its batch
  without an acknowledgement, but the next batch that is stored acknowledges its own position, which is
  past it.
\<close>

definition failing_env :: batch_env where
  "failing_env = demo_env\<lparr>be_commit := (\<lambda>_. False)\<rparr>"

theorem later_frame_acknowledges_past_lost_delta:
  "let (stores1, r1, n1) = processDeltaBatch True failing_env [to_store_delta (demo_sync 5 ''b'')] demo_stores;
       (stores2, r2, n2) = processDeltaBatch True demo_env [to_store_delta (demo_sync 6 ''c'')] stores1;
       (s, L) = pipeline_exec demo_cfg [DeltaFrame [demo_sync 5 ''b''], StorePersisted (map the r1) n1 False, SliceApplied,
         DeltaFrame [demo_sync 6 ''c''], StorePersisted (map the r2) n2 False, SliceApplied] (new_pipeline demo_position)
   in Acknowledge 6 \<in> set L \<and> pl_pendingDeltas s = [] \<and> (\<exists>rows. stores2 ''Block'' = Some rows \<and> rows ''b'' = None \<and> rows ''c'' \<noteq> None)"
  by (simp add: processDeltaBatch_def failing_env_def demo_store_defs demo_pipeline_defs pipeline_eval store_eval route_delta_def
      store_transaction_def existing_record_def verify_all_def highestPersistedPrefixSyncId_def stampSyncIds_def stamp_def enumerate_eq_zip
      sync_number_def slice_loop.simps)

end
