(* ===== verification/QueryView.thy ===== *)
theory QueryView
  imports JsonValues "HOL-Library.Multiset"
begin

section \<open>Incrementally maintained query views\<close>

text \<open>
  Model of \<open>packages/humans/src/local/views/incrementalView.ts\<close> and \<open>views/QueryView.ts\<close>: the
  comparison of sort keys, the binary search for the insertion point, the filter, the initial scan, the
  three handlers of a live view and its window.

  Model instances are shared and mutable, so a view holds references into a heap of objects and every
  handler reads the heap as it is when the handler runs. The predicate a caller passes is a function of
  the object. How \<open><\<close> coerces operands of two kinds, arrays and objects is a parameter of a view; the
  theorems order keys of one kind, where no coercion takes place. A non-finite number stands for NaN.
\<close>

subsection \<open>Instances and values\<close>

datatype model_scope = ScopeLive | ScopeArchived | ScopeAll

record model_obj =
  mo_id :: string
  mo_modelName :: string
  mo_fields :: "(string \<times> jsval) list"
  mo_modified :: "(string \<times> jsval) list"
  mo_disposed :: bool
  mo_observed :: bool

type_synonym model_heap = "nat \<Rightarrow> model_obj"

definition getField :: "model_obj \<Rightarrow> string \<Rightarrow> jsval" where
  "getField m key = (if key = ''id'' then VStr (mo_id m) else case map_of (mo_fields m) key of None \<Rightarrow> VUndefined | Some v \<Rightarrow> v)"

definition nullish :: "jsval \<Rightarrow> bool" where
  "nullish v = (v = VUndefined \<or> v = VNull)"

definition num_value :: "jsnum \<Rightarrow> rat option" where
  "num_value n = (case n of Finite q \<Rightarrow> Some q | NegZero \<Rightarrow> Some 0 | NotFinite \<Rightarrow> None)"

definition js_less :: "(jsval \<Rightarrow> jsval \<Rightarrow> bool) \<Rightarrow> jsval \<Rightarrow> jsval \<Rightarrow> bool" where
  "js_less coerced a b = (case (a, b) of
      (VNum x, VNum y) \<Rightarrow> (case (num_value x, num_value y) of (Some p, Some q) \<Rightarrow> p < q | _ \<Rightarrow> False)
    | (VStr x, VStr y) \<Rightarrow> x < y
    | (VBool x, VBool y) \<Rightarrow> \<not> x \<and> y
    | (VBigint x, VBigint y) \<Rightarrow> x < y
    | (VDate (Some x), VDate (Some y)) \<Rightarrow> x < y
    | (VDate None, VDate _) \<Rightarrow> False
    | (VDate _, VDate None) \<Rightarrow> False
    | _ \<Rightarrow> coerced a b)"

subsection \<open>The shared rules\<close>

definition compareValues :: "(jsval \<Rightarrow> jsval \<Rightarrow> bool) \<Rightarrow> jsval \<Rightarrow> jsval \<Rightarrow> int \<Rightarrow> int" where
  "compareValues coerced a b dir =
     (if strict_equal a b then 0
      else if nullish a then 1
      else if nullish b then -1
      else (if js_less coerced a b then -1 else 1) * dir)"

function binary_loop :: "(nat \<Rightarrow> bool) \<Rightarrow> nat \<Rightarrow> nat \<Rightarrow> nat" where
  "binary_loop notAfter lo hi =
     (if lo < hi
      then let mid = (lo + hi) div 2
           in if notAfter mid then binary_loop notAfter (mid + 1) hi else binary_loop notAfter lo mid
      else lo)"
  by pat_completeness auto

termination
  by (relation "measure (\<lambda>(_, lo, hi). hi - lo)") auto

declare binary_loop.simps [simp del]

definition binaryInsertionIndex :: "(jsval \<Rightarrow> jsval \<Rightarrow> bool) \<Rightarrow> model_heap \<Rightarrow> nat list \<Rightarrow> nat \<Rightarrow> string \<Rightarrow> int \<Rightarrow> nat" where
  "binaryInsertionIndex coerced h arr item sortKey dir =
     binary_loop (\<lambda>mid. compareValues coerced (getField (h (arr ! mid)) sortKey) (getField (h item) sortKey) dir \<le> 0) 0 (length arr)"

definition matchesWhere :: "model_obj \<Rightarrow> (string \<times> jsval) list \<Rightarrow> bool" where
  "matchesWhere m filters = list_all (\<lambda>(key, v). v = VUndefined \<or> strict_equal (getField m key) v) filters"

fun findIndexById :: "model_heap \<Rightarrow> nat list \<Rightarrow> string \<Rightarrow> nat option" where
  "findIndexById h [] i = None"
| "findIndexById h (r # rs) i = (if mo_id (h r) = i then Some 0 else map_option Suc (findIndexById h rs i))"

subsection \<open>A view\<close>

record view_options =
  vo_where :: "(string \<times> jsval) list option"
  vo_filter :: "(model_obj \<Rightarrow> bool) option"
  vo_orderBy :: "string option"
  vo_desc :: bool
  vo_limit :: "nat option"
  vo_offset :: "nat option"
  vo_state :: "model_scope option"
  vo_coerced :: "jsval \<Rightarrow> jsval \<Rightarrow> bool"

record query_view =
  qv_typename :: string
  qv_whereEntries :: "(string \<times> jsval) list option"
  qv_filterFn :: "(model_obj \<Rightarrow> bool) option"
  qv_sortKey :: "string option"
  qv_sortDir :: int
  qv_limitN :: "nat option"
  qv_offsetN :: nat
  qv_scope :: model_scope
  qv_fk :: "(string \<times> string) option"
  qv_coerced :: "jsval \<Rightarrow> jsval \<Rightarrow> bool"
  qv_internal :: "nat list"
  qv_results :: "nat list"
  qv_disposed :: bool

definition matchesFilter :: "query_view \<Rightarrow> model_obj \<Rightarrow> bool" where
  "matchesFilter v m =
     ((case qv_whereEntries v of None \<Rightarrow> True | Some es \<Rightarrow> list_all (\<lambda>(key, x). strict_equal (getField m key) x) es) \<and>
      (case qv_filterFn v of None \<Rightarrow> True | Some f \<Rightarrow> f m))"

definition syncWindow :: "query_view \<Rightarrow> query_view" where
  "syncWindow v =
     (let start = qv_offsetN v;
          stop = (case qv_limitN v of None \<Rightarrow> length (qv_internal v) | Some n \<Rightarrow> start + n);
          windowed = drop start (take stop (qv_internal v))
      in if windowed = qv_results v then v else v\<lparr>qv_results := windowed\<rparr>)"

definition insertSorted :: "model_heap \<Rightarrow> nat \<Rightarrow> query_view \<Rightarrow> query_view" where
  "insertSorted h r v = (case qv_sortKey v of
      Some key \<Rightarrow>
        (let idx = binaryInsertionIndex (qv_coerced v) h (qv_internal v) r key (qv_sortDir v)
         in v\<lparr>qv_internal := take idx (qv_internal v) @ r # drop idx (qv_internal v)\<rparr>)
    | None \<Rightarrow> v\<lparr>qv_internal := qv_internal v @ [r]\<rparr>)"

definition splice_out :: "nat \<Rightarrow> query_view \<Rightarrow> query_view" where
  "splice_out idx v = v\<lparr>qv_internal := take idx (qv_internal v) @ drop (Suc idx) (qv_internal v)\<rparr>"

definition handleAdded :: "model_heap \<Rightarrow> nat \<Rightarrow> query_view \<Rightarrow> query_view" where
  "handleAdded h r v =
     (if qv_disposed v then v
      else if \<not> matchesFilter v (h r) then v
      else syncWindow (insertSorted h r v))"

definition handleUpdated :: "model_heap \<Rightarrow> nat \<Rightarrow> query_view \<Rightarrow> query_view" where
  "handleUpdated h r v =
     (if qv_disposed v then v
      else syncWindow (case findIndexById h (qv_internal v) (mo_id (h r)) of
          Some idx \<Rightarrow> if matchesFilter v (h r) then insertSorted h r (splice_out idx v) else splice_out idx v
        | None \<Rightarrow> if matchesFilter v (h r) then insertSorted h r v else v))"

definition handleRemoved :: "model_heap \<Rightarrow> string \<Rightarrow> query_view \<Rightarrow> query_view" where
  "handleRemoved h i v =
     (if qv_disposed v then v
      else case findIndexById h (qv_internal v) i of
          None \<Rightarrow> v
        | Some idx \<Rightarrow> syncWindow (splice_out idx v))"

text \<open>\<open>Array.prototype.sort\<close> with a comparator: a stable sort, here by insertion.\<close>

fun sort_insert :: "('a \<Rightarrow> 'a \<Rightarrow> bool) \<Rightarrow> 'a \<Rightarrow> 'a list \<Rightarrow> 'a list" where
  "sort_insert notAfter x [] = [x]"
| "sort_insert notAfter x (y # ys) = (if notAfter y x then y # sort_insert notAfter x ys else x # y # ys)"

definition js_sort :: "('a \<Rightarrow> 'a \<Rightarrow> bool) \<Rightarrow> 'a list \<Rightarrow> 'a list" where
  "js_sort notAfter xs = foldl (\<lambda>acc x. sort_insert notAfter x acc) [] xs"

definition initialScan :: "model_heap \<Rightarrow> nat list \<Rightarrow> query_view \<Rightarrow> query_view" where
  "initialScan h candidates v =
     (let matching = filter (\<lambda>r. matchesFilter v (h r)) candidates;
          sorted = (case qv_sortKey v of
              None \<Rightarrow> matching
            | Some key \<Rightarrow>
                js_sort (\<lambda>a b. compareValues (qv_coerced v) (getField (h a) key) (getField (h b) key) (qv_sortDir v) \<le> 0) matching)
      in syncWindow (v\<lparr>qv_internal := sorted\<rparr>))"

text \<open>The options of a view as its constructor reads them; whether an index exists is what the pool answers.\<close>

definition view_of_options :: "string \<Rightarrow> (string \<Rightarrow> bool) \<Rightarrow> view_options \<Rightarrow> query_view" where
  "view_of_options typename indexed opts =
     (let entries = map_option (filter (\<lambda>(_, x). x \<noteq> VUndefined)) (vo_where opts)
      in \<lparr>qv_typename = typename, qv_whereEntries = entries, qv_filterFn = vo_filter opts,
          qv_sortKey = (case vo_orderBy opts of Some [] \<Rightarrow> None | key \<Rightarrow> key),
          qv_sortDir = (if vo_desc opts then -1 else 1), qv_limitN = vo_limit opts,
          qv_offsetN = (case vo_offset opts of None \<Rightarrow> 0 | Some n \<Rightarrow> n),
          qv_scope = (case vo_state opts of None \<Rightarrow> ScopeLive | Some s \<Rightarrow> s),
          qv_fk = (case entries of Some [(field, VStr value)] \<Rightarrow> if indexed field then Some (field, value) else None | _ \<Rightarrow> None),
          qv_coerced = vo_coerced opts, qv_internal = [], qv_results = [], qv_disposed = False\<rparr>)"

definition dispose_view :: "query_view \<Rightarrow> query_view" where
  "dispose_view v = v\<lparr>qv_disposed := True\<rparr>"

subsection \<open>Insertion into a sorted list\<close>

text \<open>
  What a comparator owes the list it keeps sorted: where its verdict allows one key to stand before
  another, the order of the keys does too, and standing in order is transitive.
\<close>

locale sort_order =
  fixes before :: "'k \<Rightarrow> 'k \<Rightarrow> bool"
    and notAfter :: "'k \<Rightarrow> 'k \<Rightarrow> bool"
    and S :: "'k set"
  assumes in_order_trans: "a \<in> S \<Longrightarrow> b \<in> S \<Longrightarrow> c \<in> S \<Longrightarrow> \<not> before b a \<Longrightarrow> \<not> before c b \<Longrightarrow> \<not> before c a"
    and notAfter_in_order: "a \<in> S \<Longrightarrow> b \<in> S \<Longrightarrow> notAfter a b \<Longrightarrow> \<not> before b a"
    and after_in_order: "a \<in> S \<Longrightarrow> b \<in> S \<Longrightarrow> \<not> notAfter a b \<Longrightarrow> \<not> before a b"
begin

abbreviation in_order :: "'k list \<Rightarrow> bool" where
  "in_order \<equiv> sorted_wrt (\<lambda>a b. \<not> before b a)"

lemma insert_in_order:
  assumes sorted: "in_order (l @ r)" and S: "set l \<subseteq> S" "set r \<subseteq> S" "x \<in> S"
    and left: "l \<noteq> [] \<Longrightarrow> notAfter (last l) x" and right: "r \<noteq> [] \<Longrightarrow> \<not> notAfter (hd r) x"
  shows "in_order (l @ x # r)"
proof -
  have "\<not> before x a" if "a \<in> set l" for a
  proof -
    have ne: "l \<noteq> []" using that by auto
    then obtain l1 z where l: "l = l1 @ [z]" by (metis append_butlast_last_id)
    have z: "\<not> before x z" using notAfter_in_order [OF _ S(3) left [OF ne]] S(1) l by simp
    show ?thesis
    proof (cases "a = z")
      case False
      then have "\<not> before z a" using that sorted l by (auto simp: sorted_wrt_append)
      then show ?thesis using in_order_trans [of a z x] z S l that by auto
    qed (use z in simp)
  qed
  moreover have "\<not> before b x" if "b \<in> set r" for b
  proof -
    have "r \<noteq> []" using that by auto
    then obtain z r1 where r: "r = z # r1" by (cases r) auto
    have z: "\<not> before z x" using after_in_order [OF _ S(3)] right S(2) r by simp
    show ?thesis
    proof (cases "b = z")
      case False
      then have "\<not> before b z" using that sorted r by (auto simp: sorted_wrt_append)
      then show ?thesis using in_order_trans [of x z b] z S r that by auto
    qed (use z in simp)
  qed
  ultimately show ?thesis using sorted by (auto simp: sorted_wrt_append)
qed

lemma sort_insert_in_order:
  assumes "in_order (map f ys)" "set (map f ys) \<subseteq> S" "f x \<in> S"
  shows "in_order (map f (sort_insert (\<lambda>a b. notAfter (f a) (f b)) x ys))"
proof -
  let ?P = "\<lambda>y. notAfter (f y) (f x)"
  have split: "sort_insert (\<lambda>a b. notAfter (f a) (f b)) x ys = takeWhile ?P ys @ x # dropWhile ?P ys"
    by (induction ys) auto
  have "in_order (map f (takeWhile ?P ys) @ f x # map f (dropWhile ?P ys))"
  proof (rule insert_in_order)
    show "in_order (map f (takeWhile ?P ys) @ map f (dropWhile ?P ys))" using assms(1) by (metis map_append takeWhile_dropWhile_id)
    show "set (map f (takeWhile ?P ys)) \<subseteq> S" "set (map f (dropWhile ?P ys)) \<subseteq> S"
      using assms(2) by (auto dest: set_takeWhileD set_dropWhileD)
    show "f x \<in> S" by (rule assms(3))
    show "notAfter (last (map f (takeWhile ?P ys))) (f x)" if "map f (takeWhile ?P ys) \<noteq> []"
      using that by (metis last_in_set last_map map_is_Nil_conv set_takeWhileD)
    show "\<not> notAfter (hd (map f (dropWhile ?P ys))) (f x)" if "map f (dropWhile ?P ys) \<noteq> []"
      using that by (metis hd_dropWhile list.map_sel(1) map_is_Nil_conv)
  qed
  then show ?thesis by (simp add: split)
qed

lemma js_sort_in_order:
  assumes "set (map f xs) \<subseteq> S"
  shows "in_order (map f (js_sort (\<lambda>a b. notAfter (f a) (f b)) xs))"
proof -
  let ?ins = "\<lambda>acc x. sort_insert (\<lambda>a b. notAfter (f a) (f b)) x acc"
  have sub: "set (sort_insert (\<lambda>a b. notAfter (f a) (f b)) x ys) = insert x (set ys)" for x ys
    by (induction ys) auto
  have "in_order (map f (foldl ?ins acc xs))" if "in_order (map f acc)" "set (map f acc) \<subseteq> S" for acc
    using that assms
  proof (induction xs arbitrary: acc)
    case (Cons x xs)
    have "in_order (map f (?ins acc x))" using Cons.prems by (intro sort_insert_in_order) auto
    moreover have "set (map f (?ins acc x)) \<subseteq> S" using Cons.prems sub by auto
    ultimately show ?case using Cons.IH Cons.prems(3) by simp
  qed simp
  from this [of "[]"] show ?thesis by (simp add: js_sort_def)
qed

lemma remove_in_order:
  assumes "in_order xs"
  shows "in_order (take i xs @ drop (Suc i) xs)"
proof -
  have "in_order (take i xs @ drop i xs)" using assms by simp
  then have "in_order (take i xs)" "in_order (drop i xs)" and cross: "\<forall>a \<in> set (take i xs). \<forall>b \<in> set (drop i xs). \<not> before b a"
    unfolding sorted_wrt_append by blast+
  moreover have "set (drop (Suc i) xs) \<subseteq> set (drop i xs)" by (rule set_drop_subset_set_drop) simp
  ultimately show ?thesis using sorted_wrt_drop [OF assms, of "Suc i"] unfolding sorted_wrt_append by blast
qed

end

lemma set_js_sort: "set (js_sort notAfter xs) = set xs" and distinct_js_sort: "distinct (js_sort notAfter xs) = distinct xs"
proof -
  have ins: "mset (sort_insert notAfter x ys) = add_mset x (mset ys)" for x ys by (induction ys) auto
  have "mset (foldl (\<lambda>acc x. sort_insert notAfter x acc) acc xs) = mset acc + mset xs" for acc
    by (induction xs arbitrary: acc) (auto simp: ins)
  then have "mset (js_sort notAfter xs) = mset xs" by (simp add: js_sort_def)
  then show "set (js_sort notAfter xs) = set xs" "distinct (js_sort notAfter xs) = distinct xs"
    by (metis set_mset_mset, metis mset_eq_imp_distinct_iff)
qed

lemma binary_loop_spec:
  assumes "lo \<le> hi"
  shows "lo \<le> binary_loop P lo hi \<and> binary_loop P lo hi \<le> hi \<and>
    (lo < binary_loop P lo hi \<longrightarrow> P (binary_loop P lo hi - 1)) \<and> (binary_loop P lo hi < hi \<longrightarrow> \<not> P (binary_loop P lo hi))"
  using assms
proof (induction P lo hi rule: binary_loop.induct)
  case (1 P lo hi)
  show ?case
  proof (cases "lo < hi")
    case True
    define mid where "mid = (lo + hi) div 2"
    have mid: "lo \<le> mid" "mid < hi" using True by (simp_all add: mid_def)
    show ?thesis
    proof (cases "P mid")
      case P: True
      then have e: "binary_loop P lo hi = binary_loop P (mid + 1) hi" using True by (subst binary_loop.simps) (simp add: mid_def)
      have "mid + 1 \<le> hi" using mid by simp
      from "1.IH"(1) [OF True mid_def P this] show ?thesis
        using P mid unfolding e by (cases "binary_loop P (mid + 1) hi = mid + 1") auto
    next
      case P: False
      then have e: "binary_loop P lo hi = binary_loop P lo mid" using True by (subst binary_loop.simps) (simp add: mid_def)
      from "1.IH"(2) [OF True mid_def P mid(1)] show ?thesis
        using P mid unfolding e by (cases "binary_loop P lo mid = mid") auto
    qed
  next
    case False
    then have "binary_loop P lo hi = lo" by (subst binary_loop.simps) simp
    then show ?thesis using "1.prems" False by simp
  qed
qed

subsection \<open>The order of sort keys\<close>

datatype key_kind = KNumber | KString | KBoolean | KBigint | KDate

definition kind_of_key :: "jsval \<Rightarrow> key_kind option" where
  "kind_of_key v = (case v of
      VNum n \<Rightarrow> if n = NotFinite then None else Some KNumber
    | VStr _ \<Rightarrow> Some KString
    | VBool _ \<Rightarrow> Some KBoolean
    | VBigint _ \<Rightarrow> Some KBigint
    | VDate (Some _) \<Rightarrow> Some KDate
    | _ \<Rightarrow> None)"

definition keys_of_kind :: "key_kind \<Rightarrow> jsval set" where
  "keys_of_kind k = {v. nullish v \<or> kind_of_key v = Some k}"

text \<open>A key stands strictly before another: a missing key stands last in either direction.\<close>

definition key_before :: "(jsval \<Rightarrow> jsval \<Rightarrow> bool) \<Rightarrow> int \<Rightarrow> jsval \<Rightarrow> jsval \<Rightarrow> bool" where
  "key_before coerced dir a b \<longleftrightarrow>
     \<not> nullish a \<and> (nullish b \<or> (if dir = 1 then js_less coerced a b else js_less coerced b a))"

lemma less_on_kind:
  assumes "kind_of_key a = Some k" "kind_of_key b = Some k"
  shows "js_less coerced a b \<Longrightarrow> \<not> js_less coerced b a"
    and "kind_of_key c = Some k \<Longrightarrow> \<not> js_less coerced b a \<Longrightarrow> \<not> js_less coerced c b \<Longrightarrow> \<not> js_less coerced c a"
  using assms
  by (cases a; cases b; auto simp: kind_of_key_def js_less_def num_value_def split: jsnum.splits option.splits if_splits jsval.splits)+

interpretation view_keys: sort_order "key_before coerced (if desc then -1 else 1)"
  "\<lambda>a b. compareValues coerced a b (if desc then -1 else 1) \<le> 0" "keys_of_kind k" for coerced desc k
proof unfold_locales
  fix a b c
  assume S: "a \<in> keys_of_kind k" "b \<in> keys_of_kind k" "c \<in> keys_of_kind k"
    and ab: "\<not> key_before coerced (if desc then -1 else 1) b a" and bc: "\<not> key_before coerced (if desc then -1 else 1) c b"
  show "\<not> key_before coerced (if desc then -1 else 1) c a"
  proof (cases "nullish a \<or> nullish b \<or> nullish c")
    case True
    then show ?thesis using ab bc by (auto simp: key_before_def)
  next
    case False
    then have k: "kind_of_key a = Some k" "kind_of_key b = Some k" "kind_of_key c = Some k" using S by (simp_all add: keys_of_kind_def)
    show ?thesis
      using ab bc False less_on_kind(2) [OF k(1,2,3), of coerced] less_on_kind(2) [OF k(3,2,1), of coerced]
      by (auto simp: key_before_def split: if_splits)
  qed
next
  fix a b
  assume S: "a \<in> keys_of_kind k" "b \<in> keys_of_kind k"
  have eq: "nullish a = nullish b \<and> (nullish a \<or> \<not> js_less coerced a b \<and> \<not> js_less coerced b a)" if "strict_equal a b"
    using that S by (auto simp: strict_equal_def js_less_def nullish_def num_value_def keys_of_kind_def kind_of_key_def split: jsval.splits jsnum.splits)
  have asym: "\<not> (js_less coerced a b \<and> js_less coerced b a)" if "\<not> nullish a" "\<not> nullish b"
    using S that less_on_kind(1) [of a k b coerced] by (auto simp: keys_of_kind_def)
  show "\<not> key_before coerced (if desc then -1 else 1) b a" if "compareValues coerced a b (if desc then -1 else 1) \<le> 0"
    using that eq asym by (auto simp: compareValues_def key_before_def split: if_splits)
  show "\<not> key_before coerced (if desc then -1 else 1) a b" if "\<not> compareValues coerced a b (if desc then -1 else 1) \<le> 0"
    using that eq asym by (auto simp: compareValues_def key_before_def split: if_splits)
qed

subsection \<open>A view is exact\<close>

text \<open>
  A view is exact on a set of rows: it holds each matching row once and no other, in the order of its
  sort key, and its result is the window.
\<close>

definition view_window :: "query_view \<Rightarrow> nat list" where
  "view_window v = drop (qv_offsetN v)
     (take (case qv_limitN v of None \<Rightarrow> length (qv_internal v) | Some n \<Rightarrow> qv_offsetN v + n) (qv_internal v))"

definition view_sorted :: "model_heap \<Rightarrow> query_view \<Rightarrow> bool" where
  "view_sorted h v = (\<forall>key. qv_sortKey v = Some key \<longrightarrow>
     sorted_wrt (\<lambda>a b. \<not> key_before (qv_coerced v) (qv_sortDir v) b a) (map (\<lambda>r. getField (h r) key) (qv_internal v)))"

definition view_exact :: "model_heap \<Rightarrow> nat set \<Rightarrow> query_view \<Rightarrow> bool" where
  "view_exact h R v \<longleftrightarrow> distinct (qv_internal v) \<and> set (qv_internal v) = {r \<in> R. matchesFilter v (h r)} \<and>
     view_sorted h v \<and> qv_results v = view_window v"

text \<open>The rows a view can sort: their keys are of one kind or missing.\<close>

definition sortable :: "query_view \<Rightarrow> model_heap \<Rightarrow> nat set \<Rightarrow> bool" where
  "sortable v h R \<longleftrightarrow> (\<exists>k. \<forall>key. qv_sortKey v = Some key \<longrightarrow> (\<forall>r \<in> R. getField (h r) key \<in> keys_of_kind k)) \<and>
     (qv_sortDir v = 1 \<or> qv_sortDir v = -1)"

lemma view_frame [simp]:
  "matchesFilter (v\<lparr>qv_internal := xs\<rparr>) m = matchesFilter v m" "matchesFilter (v\<lparr>qv_results := xs\<rparr>) m = matchesFilter v m"
  "view_sorted h (v\<lparr>qv_results := ys\<rparr>) = view_sorted h v"
  "sortable (v\<lparr>qv_internal := xs\<rparr>) h R = sortable v h R" "sortable (v\<lparr>qv_results := xs\<rparr>) h R = sortable v h R"
  by (simp_all add: matchesFilter_def view_sorted_def sortable_def)

lemma view_sorted_cong: "\<forall>q \<in> set (qv_internal v). h' q = h q \<Longrightarrow> view_sorted h' v = view_sorted h v"
  unfolding view_sorted_def by (simp cong: map_cong)

lemma syncWindow_eq: "syncWindow v = v\<lparr>qv_results := view_window v\<rparr>"
  by (simp add: syncWindow_def view_window_def Let_def)

lemma view_window_results [simp]: "view_window (v\<lparr>qv_results := ys\<rparr>) = view_window v"
  by (simp add: view_window_def split: option.split)

lemma window_exact:
  "distinct (qv_internal v) \<Longrightarrow> set (qv_internal v) = {r \<in> R. matchesFilter v (h r)} \<Longrightarrow> view_sorted h v \<Longrightarrow> view_exact h R (syncWindow v)"
  by (simp add: view_exact_def syncWindow_eq)

lemma insertSorted_rows:
  assumes s: "view_sorted h v" and keys: "sortable v h (insert r (set (qv_internal v)))"
  shows "\<exists>i. insertSorted h r v = v\<lparr>qv_internal := take i (qv_internal v) @ r # drop i (qv_internal v)\<rparr> \<and> view_sorted h (insertSorted h r v)"
proof (cases "qv_sortKey v")
  case None
  then show ?thesis by (intro exI [of _ "length (qv_internal v)"]) (simp add: insertSorted_def view_sorted_def)
next
  case (Some key)
  define xs where "xs = qv_internal v"
  define val where "val q = getField (h q) key" for q
  define i where "i = binaryInsertionIndex (qv_coerced v) h xs r key (qv_sortDir v)"
  obtain k where S: "val ` insert r (set xs) \<subseteq> keys_of_kind k"
    using keys Some unfolding sortable_def val_def xs_def by fastforce
  obtain desc where dir: "qv_sortDir v = (if desc then -1 else 1)" using keys unfolding sortable_def by metis
  let ?P = "\<lambda>a b. compareValues (qv_coerced v) a b (if desc then -1 else 1) \<le> 0"
  have loop: "i \<le> length xs" "0 < i \<Longrightarrow> ?P (val (xs ! (i - 1))) (val r)" "i < length xs \<Longrightarrow> \<not> ?P (val (xs ! i)) (val r)"
    using binary_loop_spec [of 0 "length xs" "\<lambda>mid. ?P (val (xs ! mid)) (val r)"] by (simp_all add: i_def binaryInsertionIndex_def val_def dir)
  have old: "view_keys.in_order (qv_coerced v) desc (map val (take i xs) @ map val (drop i xs))"
    using s Some unfolding view_sorted_def dir val_def xs_def by (simp only: append_take_drop_id simp_thms flip: map_append)
  have "view_keys.in_order (qv_coerced v) desc (map val (take i xs) @ val r # map val (drop i xs))"
  proof (rule view_keys.insert_in_order [OF old, of k])
    show "set (map val (take i xs)) \<subseteq> keys_of_kind k" "set (map val (drop i xs)) \<subseteq> keys_of_kind k" "val r \<in> keys_of_kind k"
      using S by (auto dest: in_set_takeD in_set_dropD)
    show "?P (last (map val (take i xs))) (val r)" if "map val (take i xs) \<noteq> []"
      using that loop(1,2) by (simp add: last_conv_nth)
    show "\<not> ?P (hd (map val (drop i xs))) (val r)" if "map val (drop i xs) \<noteq> []"
    proof -
      have "hd (map val (drop i xs)) = val (xs ! i)" "i < length xs" using that by (simp_all add: hd_map hd_drop_conv_nth)
      then show ?thesis using loop(3) by simp
    qed
  qed
  moreover have ins: "insertSorted h r v = v\<lparr>qv_internal := take i xs @ r # drop i xs\<rparr>"
    using Some by (simp add: insertSorted_def Let_def i_def xs_def)
  moreover have "val = (\<lambda>q. getField (h q) key)" by (rule ext) (simp add: val_def)
  ultimately have "view_sorted h (insertSorted h r v)" using Some by (simp add: view_sorted_def dir)
  then show ?thesis using Some by (auto simp: insertSorted_def Let_def)
qed

lemma insert_exact:
  assumes "distinct (qv_internal v)" "r \<notin> set (qv_internal v)" "view_sorted h v" "sortable v h (insert r (set (qv_internal v)))"
    and "insert r (set (qv_internal v)) = {q \<in> R. matchesFilter v (h q)}"
  shows "view_exact h R (syncWindow (insertSorted h r v))"
proof -
  obtain i where i: "insertSorted h r v = v\<lparr>qv_internal := take i (qv_internal v) @ r # drop i (qv_internal v)\<rparr>"
    and sorted: "view_sorted h (insertSorted h r v)" using insertSorted_rows [OF assms(3,4)] by blast
  have "set (l @ r # l') = insert r (set (l @ l'))" for l l' by auto
  from this [of "take i (qv_internal v)" "drop i (qv_internal v)"] have set: "set (take i (qv_internal v) @ r # drop i (qv_internal v)) = insert r (set (qv_internal v))"
    unfolding append_take_drop_id .
  have "set (take i (qv_internal v)) \<inter> set (drop i (qv_internal v)) = {}" using assms(1) by (rule set_take_disj_set_drop_if_distinct) simp
  then have "distinct (take i (qv_internal v) @ r # drop i (qv_internal v))"
    using assms(1,2) by (auto dest: in_set_takeD in_set_dropD)
  then show ?thesis using window_exact [OF _ _ sorted] assms(5) set by (simp add: i)
qed

lemma findIndex_spec:
  "findIndexById h xs i = Some n \<Longrightarrow> n < length xs \<and> mo_id (h (xs ! n)) = i" "findIndexById h xs i = None \<Longrightarrow> r \<in> set xs \<Longrightarrow> mo_id (h r) \<noteq> i"
  by (induction xs arbitrary: n) (auto split: if_splits)

lemma splice_rows:
  assumes "distinct xs" "n < length xs"
  shows "set (take n xs @ drop (Suc n) xs) = set xs - {xs ! n}" and "distinct (take n xs @ drop (Suc n) xs)"
proof -
  have xs: "xs = take n xs @ xs ! n # drop (Suc n) xs" using assms(2) by (rule id_take_nth_drop)
  have "distinct (take n xs @ xs ! n # drop (Suc n) xs)" using assms(1) xs by simp
  then show "distinct (take n xs @ drop (Suc n) xs)" by simp
  have "set xs = insert (xs ! n) (set (take n xs @ drop (Suc n) xs))" by (subst xs) auto
  moreover have "xs ! n \<notin> set (take n xs @ drop (Suc n) xs)"
    using \<open>distinct (take n xs @ xs ! n # drop (Suc n) xs)\<close> by simp
  ultimately show "set (take n xs @ drop (Suc n) xs) = set xs - {xs ! n}" by blast
qed

lemma splice_sorted: "view_sorted h v \<Longrightarrow> sortable v h R \<Longrightarrow> view_sorted h (splice_out n v)"
proof -
  assume s: "view_sorted h v" and "sortable v h R"
  then obtain desc where dir: "qv_sortDir v = (if desc then -1 else 1)" unfolding sortable_def by metis
  have "view_keys.in_order (qv_coerced v) desc (map (\<lambda>r. getField (h r) key) (take n (qv_internal v) @ drop (Suc n) (qv_internal v)))"
    if "qv_sortKey v = Some key" for key
    using s that view_keys.remove_in_order [of "qv_coerced v" desc "map (\<lambda>r. getField (h r) key) (qv_internal v)" n]
    by (simp add: view_sorted_def dir take_map drop_map)
  then show ?thesis by (simp add: view_sorted_def splice_out_def dir)
qed

lemma sortable_subset: "sortable v h R \<Longrightarrow> Q \<subseteq> R \<Longrightarrow> sortable v h Q"
  unfolding sortable_def by blast

lemma splice_frame [simp]:
  "matchesFilter (splice_out n v) m = matchesFilter v m" "sortable (splice_out n v) h R = sortable v h R"
  "qv_internal (splice_out n v) = take n (qv_internal v) @ drop (Suc n) (qv_internal v)"
  by (simp_all add: splice_out_def)

definition unique_ids :: "model_heap \<Rightarrow> nat set \<Rightarrow> bool" where
  "unique_ids h R = inj_on (\<lambda>r. mo_id (h r)) R"

lemma found_row:
  assumes "unique_ids h R" "set (qv_internal v) \<subseteq> R" "r \<in> R" "findIndexById h (qv_internal v) (mo_id (h r)) = Some n"
  shows "n < length (qv_internal v) \<and> qv_internal v ! n = r"
proof -
  have n: "n < length (qv_internal v)" "mo_id (h (qv_internal v ! n)) = mo_id (h r)" using findIndex_spec(1) [OF assms(4)] by auto
  then have "qv_internal v ! n \<in> R" using assms(2) nth_mem by blast
  then show ?thesis using n assms(1,3) by (auto simp: unique_ids_def dest: inj_onD)
qed

lemma handleAdded_exact:
  assumes "view_exact h R v" "r \<notin> R" "sortable v h (insert r R)" "\<not> qv_disposed v"
  shows "view_exact h (insert r R) (handleAdded h r v)"
proof (cases "matchesFilter v (h r)")
  case True
  have rows: "distinct (qv_internal v)" "set (qv_internal v) = {q \<in> R. matchesFilter v (h q)}" "view_sorted h v"
    using assms(1) by (simp_all add: view_exact_def)
  have "view_exact h (insert r R) (syncWindow (insertSorted h r v))"
    using rows assms(2) True by (intro insert_exact) (auto intro: sortable_subset [OF assms(3)])
  then show ?thesis using True assms(4) by (simp add: handleAdded_def)
next
  case False
  then have "{q \<in> insert r R. matchesFilter v (h q)} = {q \<in> R. matchesFilter v (h q)}" by auto
  then show ?thesis using False assms(1) by (simp add: handleAdded_def view_exact_def)
qed

lemma handleRemoved_exact:
  assumes ok: "view_exact h R v" and r: "r \<in> R" and ids: "unique_ids h R" and keys: "sortable v h R" and "\<not> qv_disposed v"
  shows "view_exact h (R - {r}) (handleRemoved h (mo_id (h r)) v)"
proof (cases "findIndexById h (qv_internal v) (mo_id (h r))")
  case None
  have "r \<notin> set (qv_internal v)" using findIndex_spec(2) [OF None] by blast
  then have "{q \<in> R - {r}. matchesFilter v (h q)} = {q \<in> R. matchesFilter v (h q)}" using ok by (auto simp: view_exact_def)
  then show ?thesis using None ok by (simp add: handleRemoved_def view_exact_def)
next
  case (Some n)
  have rows: "distinct (qv_internal v)" "set (qv_internal v) = {q \<in> R. matchesFilter v (h q)}" "view_sorted h v"
    using ok by (simp_all add: view_exact_def)
  have n: "n < length (qv_internal v)" "qv_internal v ! n = r" using found_row [OF ids _ r Some] rows(2) by auto
  have "view_exact h (R - {r}) (syncWindow (splice_out n v))"
    using rows n splice_rows [OF rows(1) n(1)] splice_sorted [OF rows(3) keys] by (intro window_exact) auto
  then show ?thesis using Some assms(5) by (simp add: handleRemoved_def)
qed

text \<open>An update is handled with the new fields of the row in place and every other row as before.\<close>

lemma handleUpdated_exact:
  assumes ok: "view_exact h0 R v" and same: "\<forall>q \<in> R. q \<noteq> r \<longrightarrow> h q = h0 q" and r: "r \<in> R"
    and ids: "unique_ids h R" and keys: "sortable v h R" "sortable v h0 R" and "\<not> qv_disposed v"
  shows "view_exact h R (handleUpdated h r v)"
proof -
  have rows: "distinct (qv_internal v)" "set (qv_internal v) = {q \<in> R. matchesFilter v (h0 q)}" "view_sorted h0 v"
    using ok by (simp_all add: view_exact_def)
  define w where "w = (case findIndexById h (qv_internal v) (mo_id (h r)) of Some n \<Rightarrow> splice_out n v | None \<Rightarrow> v)"
  have w: "distinct (qv_internal w) \<and> set (qv_internal w) = {q \<in> R - {r}. matchesFilter v (h0 q)} \<and> view_sorted h0 w"
  proof (cases "findIndexById h (qv_internal v) (mo_id (h r))")
    case None
    then have "r \<notin> set (qv_internal v)" using findIndex_spec(2) [OF None] by blast
    then show ?thesis using None rows by (auto simp: w_def)
  next
    case (Some n)
    have n: "n < length (qv_internal v)" "qv_internal v ! n = r" using found_row [OF ids _ r Some] rows(2) by auto
    then show ?thesis using Some rows splice_rows [OF rows(1) n(1)] splice_sorted [OF rows(3) keys(2)] by (auto simp: w_def)
  qed
  have mf: "matchesFilter w = matchesFilter v" by (rule ext) (simp add: w_def split: option.split)
  have cfg: "sortable w h Q = sortable v h Q" "qv_sortKey w = qv_sortKey v" "qv_coerced w = qv_coerced v" "qv_sortDir w = qv_sortDir v" for Q
    by (simp_all add: w_def splice_out_def split: option.split)
  have agree: "h q = h0 q" if "q \<in> set (qv_internal w)" for q using that w same by blast
  have set: "set (qv_internal w) = {q \<in> R - {r}. matchesFilter v (h q)}" using w same by auto
  have sorted: "view_sorted h w" using w view_sorted_cong [of w h h0] agree by blast
  have e: "handleUpdated h r v = syncWindow (if matchesFilter v (h r) then insertSorted h r w else w)"
    using assms(7) by (simp add: handleUpdated_def w_def split: option.split)
  show ?thesis
  proof (cases "matchesFilter v (h r)")
    case True
    have "view_exact h R (syncWindow (insertSorted h r w))"
    proof (rule insert_exact)
      show "sortable w h (insert r (set (qv_internal w)))" unfolding cfg(1) by (rule sortable_subset [OF keys(1)]) (use r set in auto)
      show "insert r (set (qv_internal w)) = {q \<in> R. matchesFilter w (h q)}" using True r set by (auto simp: mf)
    qed (use w sorted set in auto)
    then show ?thesis using e True by simp
  next
    case False
    then have "{q \<in> R - {r}. matchesFilter v (h q)} = {q \<in> R. matchesFilter w (h q)}" by (auto simp: mf)
    then show ?thesis using e False window_exact [of w R h] w sorted set by simp
  qed
qed

lemma initialScan_exact:
  assumes "distinct candidates" "sortable v h (set candidates)"
  shows "view_exact h (set candidates) (initialScan h candidates v)"
proof (cases "qv_sortKey v")
  case None
  then show ?thesis using assms window_exact by (simp add: initialScan_def Let_def view_sorted_def window_exact)
next
  case (Some key)
  obtain desc where dir: "qv_sortDir v = (if desc then -1 else 1)" using assms(2) unfolding sortable_def by metis
  obtain k where S: "(\<lambda>r. getField (h r) key) ` set candidates \<subseteq> keys_of_kind k"
    using assms(2) Some unfolding sortable_def by fastforce
  let ?m = "filter (\<lambda>r. matchesFilter v (h r)) candidates"
  have "set (map (\<lambda>r. getField (h r) key) ?m) \<subseteq> keys_of_kind k" using S by auto
  from view_keys.js_sort_in_order [OF this, of "qv_coerced v" desc] show ?thesis
    using assms(1) Some dir by (auto simp: initialScan_def Let_def view_sorted_def set_js_sort distinct_js_sort intro!: window_exact)
qed

subsection \<open>A tracked view\<close>

text \<open>
  The life of a view as the pool drives it: it is filled by a scan, and then every row of its type that
  is added, updated or removed is notified by itself. Other objects of the heap may change at any time.
\<close>

inductive tracks :: "query_view \<Rightarrow> model_heap \<Rightarrow> nat set \<Rightarrow> query_view \<Rightarrow> bool" for v0 where
  scanned: "distinct candidates \<Longrightarrow> unique_ids h (set candidates) \<Longrightarrow> sortable v0 h (set candidates) \<Longrightarrow>
    tracks v0 h (set candidates) (initialScan h candidates v0)"
| added: "tracks v0 h R v \<Longrightarrow> r \<notin> R \<Longrightarrow> \<forall>q \<in> R. h' q = h q \<Longrightarrow> unique_ids h' (insert r R) \<Longrightarrow> sortable v0 h' (insert r R) \<Longrightarrow>
    tracks v0 h' (insert r R) (handleAdded h' r v)"
| updated: "tracks v0 h R v \<Longrightarrow> r \<in> R \<Longrightarrow> \<forall>q \<in> R. q \<noteq> r \<longrightarrow> h' q = h q \<Longrightarrow> unique_ids h' R \<Longrightarrow> sortable v0 h' R \<Longrightarrow>
    tracks v0 h' R (handleUpdated h' r v)"
| removed: "tracks v0 h R v \<Longrightarrow> r \<in> R \<Longrightarrow> \<forall>q \<in> R. h' q = h q \<Longrightarrow> tracks v0 h' (R - {r}) (handleRemoved h' (mo_id (h' r)) v)"

text \<open>The configuration of a view is fixed by its constructor.\<close>

definition same_config :: "query_view \<Rightarrow> query_view \<Rightarrow> bool" where
  "same_config v w \<longleftrightarrow> v\<lparr>qv_internal := [], qv_results := []\<rparr> = w\<lparr>qv_internal := [], qv_results := []\<rparr>"

lemma same_configD:
  assumes "same_config v w"
  shows "qv_sortKey v = qv_sortKey w" "qv_coerced v = qv_coerced w" "qv_sortDir v = qv_sortDir w" "qv_disposed v = qv_disposed w"
    "matchesFilter v = matchesFilter w" "sortable v = sortable w"
proof -
  have f: "f v = f w" if "\<And>u. f (u\<lparr>qv_internal := [], qv_results := []\<rparr>) = f u" for f :: "query_view \<Rightarrow> 'b"
    using assms that unfolding same_config_def by metis
  show "qv_sortKey v = qv_sortKey w" "qv_coerced v = qv_coerced w" "qv_sortDir v = qv_sortDir w" "qv_disposed v = qv_disposed w"
    "matchesFilter v = matchesFilter w" "sortable v = sortable w"
    by (rule f; simp add: fun_eq_iff)+
qed

lemma handlers_config:
  "same_config (initialScan h cs v) v" "same_config (handleAdded h r v) v" "same_config (handleUpdated h r v) v" "same_config (handleRemoved h i v) v"
  by (simp_all add: same_config_def initialScan_def handleAdded_def handleUpdated_def handleRemoved_def syncWindow_eq insertSorted_def
      splice_out_def Let_def split: option.split)

lemma same_config_trans: "same_config u v \<Longrightarrow> same_config v w \<Longrightarrow> same_config u w"
  by (simp add: same_config_def)

lemma exact_heap_cong: "view_exact h R v \<Longrightarrow> \<forall>q \<in> R. h' q = h q \<Longrightarrow> view_exact h' R v"
proof -
  assume e: "view_exact h R v" and eq: "\<forall>q \<in> R. h' q = h q"
  then have set: "{r \<in> R. matchesFilter v (h' r)} = {r \<in> R. matchesFilter v (h r)}" by auto
  have "view_sorted h' v = view_sorted h v" by (rule view_sorted_cong) (use e eq in \<open>auto simp: view_exact_def\<close>)
  then show ?thesis using e set by (simp add: view_exact_def)
qed

lemma unique_ids_cong: "\<forall>q \<in> R. h' q = h q \<Longrightarrow> unique_ids h' R = unique_ids h R"
  unfolding unique_ids_def by (rule inj_on_cong) simp

lemma sortable_cong: "\<forall>q \<in> R. h' q = h q \<Longrightarrow> sortable v h' R = sortable v h R"
  unfolding sortable_def by simp

lemma tracks_exact:
  assumes "tracks v0 h R v" and "\<not> qv_disposed v0"
  shows "view_exact h R v \<and> same_config v v0 \<and> unique_ids h R \<and> sortable v0 h R"
  using assms
proof (induction rule: tracks.induct)
  case (scanned candidates h)
  then show ?case using initialScan_exact handlers_config(1) by blast
next
  case (added h R v r h')
  then have v: "view_exact h' R v" "same_config v v0" by (auto intro: exact_heap_cong)
  have "\<not> qv_disposed v" "sortable v h' (insert r R)" using same_configD [OF v(2)] added by simp_all
  then have "view_exact h' (insert r R) (handleAdded h' r v)" using v(1) added.hyps(2) by (intro handleAdded_exact)
  then show ?case using added same_config_trans [OF handlers_config(2) v(2)] by simp
next
  case (updated h R v r h')
  then have v: "view_exact h R v" "same_config v v0" "sortable v0 h R" by auto
  have c: "\<not> qv_disposed v" "sortable v = sortable v0" using same_configD [OF v(2)] updated by simp_all
  have "view_exact h' R (handleUpdated h' r v)"
    using v(1,3) c updated.hyps by (intro handleUpdated_exact [where ?h0.0 = h]) simp_all
  then show ?case using updated same_config_trans [OF handlers_config(3) v(2)] by simp
next
  case (removed h R v r h')
  then have v: "view_exact h' R v" "same_config v v0" by (auto intro: exact_heap_cong)
  have ok: "unique_ids h' R" "sortable v0 h' R"
    using removed unique_ids_cong [of R h' h] sortable_cong [of R h' h] by auto
  have c: "\<not> qv_disposed v" "sortable v = sortable v0" using same_configD [OF v(2)] removed by simp_all
  have "view_exact h' (R - {r}) (handleRemoved h' (mo_id (h' r)) v)"
    using v(1) c ok removed.hyps(2) by (intro handleRemoved_exact) simp_all
  then show ?case
    using ok same_config_trans [OF handlers_config(4) v(2)] sortable_subset [OF ok(2)] by (auto simp: unique_ids_def intro: inj_on_subset)
qed

text \<open>
  A live view is what a fresh scan would give: after any history of notified additions, updates and
  removals it holds exactly the matching rows, each once, in the order of its sort key with missing keys
  last, and shows their window; a scan of the same rows holds the same rows.
\<close>

theorem live_view_equals_fresh_scan:
  assumes "tracks v0 h R v" and "\<not> qv_disposed v0" and "distinct candidates" and "set candidates = R"
  shows "mset (qv_internal v) = mset (qv_internal (initialScan h candidates v0)) \<and> view_sorted h v \<and> qv_results v = view_window v"
proof -
  have v: "view_exact h R v" "same_config v v0" "sortable v0 h R" using tracks_exact [OF assms(1,2)] by auto
  let ?w = "initialScan h candidates v0"
  have w: "view_exact h R ?w" using initialScan_exact [OF assms(3)] v(3) assms(4) by blast
  have "matchesFilter v = matchesFilter ?w"
    using same_configD(5) [OF v(2)] same_configD(5) [OF handlers_config(1)] by simp
  then have "set (qv_internal v) = set (qv_internal ?w)" using v(1) w by (simp add: view_exact_def)
  then have "mset (qv_internal v) = mset (qv_internal ?w)"
    using v(1) w set_eq_iff_mset_eq_distinct [of "qv_internal v" "qv_internal ?w"] by (simp add: view_exact_def)
  then show ?thesis using v(1) by (simp add: view_exact_def)
qed

definition demo_obj :: "string \<Rightarrow> int \<Rightarrow> model_obj" where
  "demo_obj i n = \<lparr>mo_id = i, mo_modelName = ''Block'', mo_fields = [(''pos'', VNum (Finite (of_int n)))], mo_modified = [],
     mo_disposed = False, mo_observed = False\<rparr>"

definition demo_view :: query_view where
  "demo_view = view_of_options ''Block'' (\<lambda>_. False) \<lparr>vo_where = None, vo_filter = None, vo_orderBy = Some ''pos'', vo_desc = False,
     vo_limit = Some 1, vo_offset = Some 1, vo_state = None, vo_coerced = (\<lambda>_ _. False)\<rparr>"

lemmas demo_view_defs = demo_obj_def demo_view_def view_of_options_def

lemmas view_eval = initialScan_def js_sort_def handleAdded_def handleUpdated_def handleRemoved_def insertSorted_def splice_out_def
  syncWindow_def matchesFilter_def binaryInsertionIndex_def binary_loop.simps compareValues_def strict_equal_def nullish_def js_less_def
  num_value_def getField_def Let_def

theorem live_view_equals_fresh_scan_witness:
  "\<exists>v. tracks demo_view (\<lambda>r. if r = 0 then demo_obj ''a'' 3 else demo_obj ''b'' 2) {0, 1} v \<and> qv_internal v = [1, 0] \<and> qv_results v = [0] \<and>
     view_sorted (\<lambda>r. if r = 0 then demo_obj ''a'' 3 else demo_obj ''b'' 2) v"
proof -
  let ?h0 = "\<lambda>r::nat. if r = 0 then demo_obj ''a'' 1 else demo_obj ''b'' 2"
  let ?h = "\<lambda>r::nat. if r = 0 then demo_obj ''a'' 3 else demo_obj ''b'' 2"
  have keys: "sortable demo_view g {0, 1}" if "g = ?h0 \<or> g = ?h" for g
    unfolding sortable_def using that
    by (intro conjI exI [of _ KNumber]) (auto simp: demo_view_defs getField_def keys_of_kind_def kind_of_key_def)
  have ids: "unique_ids g {0, 1}" if "g = ?h0 \<or> g = ?h" for g using that by (auto simp: unique_ids_def demo_obj_def)
  let ?v = "handleUpdated ?h 0 (initialScan ?h0 [0, 1] demo_view)"
  have t: "tracks demo_view ?h {0, 1} ?v"
    using tracks.updated [OF tracks.scanned [of "[0, 1]" ?h0 demo_view], of 0 ?h] keys ids by simp
  have "view_sorted ?h ?v"
    using live_view_equals_fresh_scan [OF t, of "[0, 1]"] by (simp add: demo_view_defs)
  moreover have "qv_internal ?v = [1, 0]" "qv_results ?v = [0]"
    by (simp_all add: demo_view_defs view_eval)
  ultimately show ?thesis using t by blast
qed

end
