(* ===== verification/InstanceCache.thy ===== *)
theory InstanceCache
  imports QueryView DeltaStore
begin

section \<open>The instance cache\<close>

text \<open>
  Model of \<open>packages/humans/src/local/InstanceCache.ts\<close> and \<open>views/ViewRegistry.ts\<close>: the identity map
  of model instances with its type index, its foreign-key indexes, the recency order that eviction
  follows, the deduplication of additions, and the notification of the open views.

  Instances live in a heap, so that two holders of one instance see each other's writes; of
  \<open>Model.ts\<close> the hydration of fields, the serialization and disposal are modelled. A JavaScript \<open>Map\<close> is
  an association list in insertion order and a \<open>Set\<close> a list without repetition. \<open>Date.now()\<close> is the
  argument \<open>now\<close> of an operation. No path of the code ever empties the strong reference of an entry, so
  the weak reference beside it has no effect and is left out, with the metrics, the subscribers'
  callbacks and the switching of MobX observability.
\<close>

subsection \<open>Instances\<close>

definition date_fields :: "string list" where
  "date_fields = [''createdAt'', ''updatedAt'', ''archivedAt'']"

definition assign_field :: "(jsval \<Rightarrow> jsval) \<Rightarrow> string \<times> jsval \<Rightarrow> model_obj \<Rightarrow> model_obj" where
  "assign_field newDate kv m = (case kv of (key, raw) \<Rightarrow>
     if key = ''id'' \<or> map_of (mo_fields m) key = None then m
     else let v = (if key \<in> set date_fields \<and> js_truthy raw then newDate raw else raw)
          in m\<lparr>mo_fields := AList.update key v (mo_fields m)\<rparr>)"

definition updateFromData :: "(jsval \<Rightarrow> jsval) \<Rightarrow> model_data \<Rightarrow> model_obj \<Rightarrow> model_obj" where
  "updateFromData newDate data m = fold (assign_field newDate) data m"

definition toISOString :: "jsval \<Rightarrow> jsval" where
  "toISOString v = (case v of VDate (Some s) \<Rightarrow> VStr s | _ \<Rightarrow> VUndefined)"

definition model_toJSON :: "string list \<Rightarrow> model_obj \<Rightarrow> model_data" where
  "model_toJSON serialized m =
     (let base = [(''__class'', VStr (mo_modelName m)), (''__typename'', VStr (mo_modelName m)), (''id'', VStr (mo_id m)),
            (''createdAt'', toISOString (getField m ''createdAt'')), (''updatedAt'', toISOString (getField m ''updatedAt'')),
            (''clientId'', getField m ''clientId''), (''syncStatus'', getField m ''syncStatus'')];
          archived = (if getField m ''archivedAt'' = VUndefined then base
            else base @ [(''archivedAt'', case toISOString (getField m ''archivedAt'') of VUndefined \<Rightarrow> VNull | s \<Rightarrow> s)])
      in fold (\<lambda>key out. if getField m key = VUndefined then out else AList.update key (getField m key) out) serialized archived)"

definition dispose_model :: "model_obj \<Rightarrow> model_obj" where
  "dispose_model m = (if mo_disposed m then m else m\<lparr>mo_disposed := True, mo_modified := [], mo_observed := False\<rparr>)"

subsection \<open>State\<close>

record pool_entry =
  pe_model :: nat
  pe_scope :: model_scope

record pool_config =
  px_maxSize :: nat
  px_maxAge :: "int option"
  px_newDate :: "jsval \<Rightarrow> jsval"
  px_serialized :: "string \<Rightarrow> string list"

record instance_cache =
  ic_heap :: model_heap
  ic_entries :: "(string \<times> pool_entry) list"
  ic_typeIndex :: "(string \<times> string list) list"
  ic_foreignKeyIndexes :: "(string \<times> (string \<times> string list) list) list"
  ic_foreignKeyConfig :: "(string \<times> string list) list"
  ic_accessTimes :: "(string \<times> int) list"
  ic_recentAdditions :: "(string \<times> int) list"
  ic_earliestRecentAddition :: "int option"
  ic_deltaHistory :: "(string \<times> string \<times> int \<times> int) list"
  ic_subscriptions :: "string list"
  ic_views :: "(string \<times> query_view list) list"

definition new_cache :: "model_heap \<Rightarrow> instance_cache" where
  "new_cache h = \<lparr>ic_heap = h, ic_entries = [], ic_typeIndex = [], ic_foreignKeyIndexes = [], ic_foreignKeyConfig = [], ic_accessTimes = [],
     ic_recentAdditions = [], ic_earliestRecentAddition = None, ic_deltaHistory = [], ic_subscriptions = [], ic_views = []\<rparr>"

definition lookup_set :: "'k \<Rightarrow> ('k \<times> 'a list) list \<Rightarrow> 'a list" where
  "lookup_set k m = (case map_of m k of None \<Rightarrow> [] | Some xs \<Rightarrow> xs)"

definition set_add :: "'a \<Rightarrow> 'a list \<Rightarrow> 'a list" where
  "set_add x xs = (if x \<in> set xs then xs else xs @ [x])"

definition touchAccess :: "string \<Rightarrow> int \<Rightarrow> instance_cache \<Rightarrow> instance_cache" where
  "touchAccess i tm c = c\<lparr>ic_accessTimes := AList.delete i (ic_accessTimes c) @ [(i, tm)]\<rparr>"

definition add_key :: "string \<Rightarrow> string \<Rightarrow> string" where
  "add_key m i = m @ '':'' @ i"

subsection \<open>Indexes\<close>

definition fk_add_field :: "string \<Rightarrow> model_obj \<Rightarrow> string \<Rightarrow> string \<Rightarrow> instance_cache \<Rightarrow> instance_cache" where
  "fk_add_field i obj m field c = (case (getField obj field, map_of (ic_foreignKeyIndexes c) (add_key m field)) of
      (VStr value, Some index) \<Rightarrow>
        c\<lparr>ic_foreignKeyIndexes := AList.update (add_key m field) (AList.update value (set_add i (lookup_set value index)) index)
            (ic_foreignKeyIndexes c)\<rparr>
    | _ \<Rightarrow> c)"

definition addToForeignKeyIndex :: "string \<Rightarrow> model_obj \<Rightarrow> string \<Rightarrow> instance_cache \<Rightarrow> instance_cache" where
  "addToForeignKeyIndex i obj m c = fold (fk_add_field i obj m) (lookup_set m (ic_foreignKeyConfig c)) c"

definition fk_remove_field :: "string \<Rightarrow> model_obj \<Rightarrow> string \<Rightarrow> string \<Rightarrow> instance_cache \<Rightarrow> instance_cache" where
  "fk_remove_field i obj m field c = (case (getField obj field, map_of (ic_foreignKeyIndexes c) (add_key m field)) of
      (VStr value, Some index) \<Rightarrow>
        (case map_of index value of
           None \<Rightarrow> c
         | Some ids \<Rightarrow>
             (let left = removeAll i ids;
                  index1 = (if left = [] then AList.delete value index else AList.update value left index)
              in c\<lparr>ic_foreignKeyIndexes := AList.update (add_key m field) index1 (ic_foreignKeyIndexes c)\<rparr>))
    | _ \<Rightarrow> c)"

definition removeFromForeignKeyIndex :: "string \<Rightarrow> string \<Rightarrow> instance_cache \<Rightarrow> instance_cache" where
  "removeFromForeignKeyIndex i m c = (case map_of (ic_entries c) i of
      None \<Rightarrow> c
    | Some e \<Rightarrow> fold (fk_remove_field i (ic_heap c (pe_model e)) m) (lookup_set m (ic_foreignKeyConfig c)) c)"

definition addToTypeIndex :: "string \<Rightarrow> string \<Rightarrow> instance_cache \<Rightarrow> instance_cache" where
  "addToTypeIndex i m c =
     (if m = [] then c
      else let c1 = c\<lparr>ic_typeIndex := AList.update m (set_add i (lookup_set m (ic_typeIndex c))) (ic_typeIndex c)\<rparr>
           in case map_of (ic_entries c1) i of
                None \<Rightarrow> c1
              | Some e \<Rightarrow> addToForeignKeyIndex i (ic_heap c1 (pe_model e)) m c1)"

definition removeFromTypeIndex :: "string \<Rightarrow> string \<Rightarrow> instance_cache \<Rightarrow> instance_cache" where
  "removeFromTypeIndex i m c =
     (if m = [] then c
      else let c1 = removeFromForeignKeyIndex i m c
           in case map_of (ic_typeIndex c1) m of
                None \<Rightarrow> c1
              | Some ids \<Rightarrow>
                  (let left = removeAll i ids
                   in c1\<lparr>ic_typeIndex := (if left = [] then AList.delete m (ic_typeIndex c1) else AList.update m left (ic_typeIndex c1))\<rparr>))"

definition ensure_type :: "string \<Rightarrow> instance_cache \<Rightarrow> instance_cache" where
  "ensure_type m c = (if map_of (ic_typeIndex c) m = None then c\<lparr>ic_typeIndex := AList.update m [] (ic_typeIndex c)\<rparr> else c)"

definition registerForeignKey :: "string \<Rightarrow> string \<Rightarrow> instance_cache \<Rightarrow> instance_cache" where
  "registerForeignKey m field c =
     (let c1 = c\<lparr>ic_foreignKeyConfig := (if field \<in> set (lookup_set m (ic_foreignKeyConfig c)) then ic_foreignKeyConfig c
            else AList.update m (lookup_set m (ic_foreignKeyConfig c) @ [field]) (ic_foreignKeyConfig c))\<rparr>
      in if map_of (ic_foreignKeyIndexes c1) (add_key m field) = None
         then c1\<lparr>ic_foreignKeyIndexes := AList.update (add_key m field) [] (ic_foreignKeyIndexes c1)\<rparr> else c1)"

definition hasForeignKeyIndex :: "instance_cache \<Rightarrow> string \<Rightarrow> string \<Rightarrow> bool" where
  "hasForeignKeyIndex c m field = (map_of (ic_foreignKeyIndexes c) (add_key m field) \<noteq> None)"

subsection \<open>The view registry\<close>

definition notify_views :: "string \<Rightarrow> (query_view \<Rightarrow> query_view) \<Rightarrow> instance_cache \<Rightarrow> instance_cache" where
  "notify_views m f c = c\<lparr>ic_views := map (\<lambda>(t, vs). (t, if t = m then map f vs else vs)) (ic_views c)\<rparr>"

definition notifyAdded :: "string \<Rightarrow> nat \<Rightarrow> instance_cache \<Rightarrow> instance_cache" where
  "notifyAdded m r c = notify_views m (handleAdded (ic_heap c) r) c"

definition notifyUpdated :: "string \<Rightarrow> nat \<Rightarrow> instance_cache \<Rightarrow> instance_cache" where
  "notifyUpdated m r c = notify_views m (handleUpdated (ic_heap c) r) c"

definition notifyRemoved :: "string \<Rightarrow> string \<Rightarrow> instance_cache \<Rightarrow> instance_cache" where
  "notifyRemoved m i c = notify_views m (handleRemoved (ic_heap c) i) c"

definition hasViews :: "instance_cache \<Rightarrow> string \<Rightarrow> bool" where
  "hasViews c m = (lookup_set m (ic_views c) \<noteq> [])"

definition register_view :: "query_view \<Rightarrow> instance_cache \<Rightarrow> instance_cache" where
  "register_view v c = c\<lparr>ic_views := AList.update (qv_typename v) (lookup_set (qv_typename v) (ic_views c) @ [v]) (ic_views c)\<rparr>"

text \<open>A view leaves the registry; views are told apart by identity, here by their place in the set.\<close>

definition unregister_view :: "string \<Rightarrow> nat \<Rightarrow> instance_cache \<Rightarrow> instance_cache" where
  "unregister_view m k c =
     (let left = take k (lookup_set m (ic_views c)) @ drop (Suc k) (lookup_set m (ic_views c))
      in if map_of (ic_views c) m = None then c
         else c\<lparr>ic_views := (if left = [] then AList.delete m (ic_views c) else AList.update m left (ic_views c))\<rparr>)"

subsection \<open>Reads\<close>

definition live_entry :: "instance_cache \<Rightarrow> string \<Rightarrow> pool_entry option" where
  "live_entry c i = (case map_of (ic_entries c) i of
      None \<Rightarrow> None
    | Some e \<Rightarrow> if mo_disposed (ic_heap c (pe_model e)) then None else Some e)"

definition pool_get :: "int \<Rightarrow> string \<Rightarrow> instance_cache \<Rightarrow> nat option \<times> instance_cache" where
  "pool_get now i c = (case live_entry c i of None \<Rightarrow> (None, c) | Some e \<Rightarrow> (Some (pe_model e), touchAccess i now c))"

definition pool_peek :: "int \<Rightarrow> string \<Rightarrow> instance_cache \<Rightarrow> nat option \<times> instance_cache" where
  "pool_peek now i c = (case live_entry c i of None \<Rightarrow> (None, c) | Some e \<Rightarrow> (Some (pe_model e), touchAccess i now c))"

definition getOfType :: "int \<Rightarrow> string \<Rightarrow> string \<Rightarrow> instance_cache \<Rightarrow> nat option \<times> instance_cache" where
  "getOfType now i m c = (case pool_get now i c of
      (None, c1) \<Rightarrow> (None, c1)
    | (Some r, c1) \<Rightarrow> (if mo_modelName (ic_heap c1 r) = m then Some r else None, c1))"

definition matchesScope :: "model_scope \<Rightarrow> model_scope \<Rightarrow> bool" where
  "matchesScope entryScope queryScope = (case queryScope of ScopeAll \<Rightarrow> True | _ \<Rightarrow> entryScope = queryScope)"

definition resolve_ids :: "model_scope \<Rightarrow> string list \<Rightarrow> instance_cache \<Rightarrow> nat list" where
  "resolve_ids scope ids c = List.map_filter (\<lambda>i. case map_of (ic_entries c) i of
      None \<Rightarrow> None
    | Some e \<Rightarrow> if matchesScope (pe_scope e) scope \<and> \<not> mo_disposed (ic_heap c (pe_model e)) then Some (pe_model e) else None) ids"

definition getByTypeName :: "string \<Rightarrow> model_scope \<Rightarrow> instance_cache \<Rightarrow> nat list" where
  "getByTypeName m scope c = resolve_ids scope (lookup_set m (ic_typeIndex c)) c"

definition getByForeignKey :: "string \<Rightarrow> string \<Rightarrow> string \<Rightarrow> instance_cache \<Rightarrow> nat list" where
  "getByForeignKey m field value c = (case map_of (ic_foreignKeyIndexes c) (add_key m field) of
      None \<Rightarrow> []
    | Some index \<Rightarrow> resolve_ids ScopeLive (lookup_set value index) c)"

definition createView :: "string \<Rightarrow> view_options \<Rightarrow> instance_cache \<Rightarrow> query_view \<times> instance_cache" where
  "createView m opts c =
     (let v = view_of_options m (hasForeignKeyIndex c m) opts;
          candidates = (case qv_fk v of
              Some (field, value) \<Rightarrow> if field \<noteq> [] \<and> value \<noteq> [] then getByForeignKey m field value c else getByTypeName m (qv_scope v) c
            | None \<Rightarrow> getByTypeName m (qv_scope v) c);
          w = initialScan (ic_heap c) candidates v
      in (w, register_view w c))"

definition wireAddRetentionLimit :: "pool_config \<Rightarrow> string list \<Rightarrow> instance_cache \<Rightarrow> nat option" where
  "wireAddRetentionLimit cfg modelNames c =
     (if list_ex (\<lambda>m. m \<in> set (ic_subscriptions c) \<or> hasViews c m) modelNames then None
      else Some (px_maxSize cfg - length (ic_entries c)))"

subsection \<open>Removal and eviction\<close>

definition dispose_at :: "nat \<Rightarrow> instance_cache \<Rightarrow> instance_cache" where
  "dispose_at r c = c\<lparr>ic_heap := (ic_heap c)(r := dispose_model (ic_heap c r))\<rparr>"

definition pool_remove :: "string \<Rightarrow> instance_cache \<Rightarrow> bool \<times> instance_cache" where
  "pool_remove i c = (case map_of (ic_entries c) i of
      None \<Rightarrow> (False, c)
    | Some e \<Rightarrow>
        (let m = mo_modelName (ic_heap c (pe_model e));
             c1 = removeFromTypeIndex i m c;
             c2 = c1\<lparr>ic_entries := AList.delete i (ic_entries c1)\<rparr>;
             c3 = (if m = [] then c2 else notifyRemoved m i c2);
             c4 = dispose_at (pe_model e) c3;
             key = (if m = [] then i else add_key m i)
         in (True, c4\<lparr>ic_recentAdditions := AList.delete key (ic_recentAdditions c4), ic_deltaHistory := AList.delete key (ic_deltaHistory c4),
                ic_accessTimes := AList.delete i (ic_accessTimes c4)\<rparr>)))"

definition removeBatch :: "string list \<Rightarrow> instance_cache \<Rightarrow> nat \<times> instance_cache" where
  "removeBatch ids c = fold (\<lambda>i (n, c). case pool_remove i c of (removed, c1) \<Rightarrow> (if removed then Suc n else n, c1)) ids (0, c)"

definition removeFromArchive :: "string \<Rightarrow> instance_cache \<Rightarrow> bool \<times> instance_cache" where
  "removeFromArchive i c = (case map_of (ic_entries c) i of
      None \<Rightarrow> (False, c)
    | Some e \<Rightarrow> if pe_scope e \<noteq> ScopeArchived then (False, c) else pool_remove i c)"

definition evictable :: "instance_cache \<Rightarrow> string \<Rightarrow> bool" where
  "evictable c i = (case map_of (ic_entries c) i of None \<Rightarrow> False | Some e \<Rightarrow> \<not> mo_observed (ic_heap c (pe_model e)))"

text \<open>The keys the recency loop looks at: up to the one that completes the count.\<close>

fun recency_prefix :: "instance_cache \<Rightarrow> nat \<Rightarrow> string list \<Rightarrow> string list" where
  "recency_prefix c needed [] = []"
| "recency_prefix c 0 (i # ids) = []"
| "recency_prefix c (Suc n) (i # ids) = i # (if evictable c i then recency_prefix c n ids else recency_prefix c (Suc n) ids)"

definition evictOldestBatch :: "nat \<Rightarrow> instance_cache \<Rightarrow> instance_cache" where
  "evictOldestBatch needed c =
     (let seen = recency_prefix c needed (map fst (ic_accessTimes c));
          toEvict = filter (evictable c) seen;
          stale = filter (\<lambda>i. map_of (ic_entries c) i = None) seen;
          c1 = c\<lparr>ic_accessTimes := filter (\<lambda>(i, _). i \<notin> set stale) (ic_accessTimes c)\<rparr>;
          unstamped = filter (\<lambda>i. map_of (ic_accessTimes c1) i = None \<and> evictable c1 i) (map fst (ic_entries c1));
          all = toEvict @ take (needed - length toEvict) unstamped
      in fold (\<lambda>i c. snd (pool_remove i c)) all c1)"

definition evictOldest :: "instance_cache \<Rightarrow> instance_cache" where
  "evictOldest c = evictOldestBatch 1 c"

definition clearDeltaHistory :: "int \<Rightarrow> int \<Rightarrow> instance_cache \<Rightarrow> instance_cache" where
  "clearDeltaHistory now olderThanMs c =
     c\<lparr>ic_deltaHistory := filter (\<lambda>(_, _, _, tm). \<not> now - tm > olderThanMs) (ic_deltaHistory c)\<rparr>"

definition min_time :: "int option \<Rightarrow> int \<Rightarrow> int option" where
  "min_time earliest tm = (case earliest of None \<Rightarrow> Some tm | Some t \<Rightarrow> Some (min t tm))"

definition cleanupTracking :: "int \<Rightarrow> instance_cache \<Rightarrow> instance_cache" where
  "cleanupTracking now c =
     (if (case ic_earliestRecentAddition c of None \<Rightarrow> True | Some t \<Rightarrow> now - t \<le> 1000) then c
      else let kept = filter (\<lambda>(_, tm). \<not> now - tm > 1000) (ic_recentAdditions c)
           in c\<lparr>ic_recentAdditions := kept, ic_earliestRecentAddition := fold (\<lambda>(_, tm) t. min_time t tm) kept None\<rparr>)"

text \<open>The sweep: expired entries that nobody observes are removed, observed ones are stamped again.\<close>

definition expired :: "pool_config \<Rightarrow> int \<Rightarrow> instance_cache \<Rightarrow> string \<Rightarrow> bool" where
  "expired cfg now c i = (case px_maxAge cfg of
      None \<Rightarrow> False
    | Some age \<Rightarrow> now - (case map_of (ic_accessTimes c) i of None \<Rightarrow> 0 | Some t \<Rightarrow> t) > age)"

definition gc :: "pool_config \<Rightarrow> int \<Rightarrow> instance_cache \<Rightarrow> instance_cache" where
  "gc cfg now c =
     (let due = filter (expired cfg now c) (map fst (ic_entries c));
          toRemove = filter (evictable c) due;
          c1 = fold (\<lambda>i. touchAccess i now) (filter (\<lambda>i. \<not> evictable c i) due) c;
          c2 = fold (\<lambda>i c. snd (pool_remove i c)) toRemove c1
      in cleanupTracking now (clearDeltaHistory now 3600000 c2))"

subsection \<open>Additions and updates\<close>

definition set_scope :: "string \<Rightarrow> pool_entry \<Rightarrow> model_scope \<Rightarrow> int \<Rightarrow> instance_cache \<Rightarrow> instance_cache" where
  "set_scope i e scope now c =
     (if pe_scope e = scope then c
      else touchAccess i now (c\<lparr>ic_entries := AList.update i (e\<lparr>pe_scope := scope\<rparr>) (ic_entries c)\<rparr>))"

definition store_entry :: "nat \<Rightarrow> model_scope \<Rightarrow> int \<Rightarrow> instance_cache \<Rightarrow> instance_cache" where
  "store_entry r scope now c =
     (let i = mo_id (ic_heap c r);
          c1 = touchAccess i now c;
          c2 = c1\<lparr>ic_entries := AList.update i \<lparr>pe_model = r, pe_scope = scope\<rparr> (ic_entries c1)\<rparr>
      in addToTypeIndex i (mo_modelName (ic_heap c r)) c2)"

record DeltaInfo =
  di_action :: "string option"
  di_syncId :: "int option"

definition recently_added :: "int \<Rightarrow> string \<Rightarrow> instance_cache \<Rightarrow> bool" where
  "recently_added now key c = (case map_of (ic_recentAdditions c) key of None \<Rightarrow> False | Some tm \<Rightarrow> tm \<noteq> 0 \<and> now - tm < 50)"

definition delta_seen :: "DeltaInfo option \<Rightarrow> string \<Rightarrow> instance_cache \<Rightarrow> bool" where
  "delta_seen info key c = (case info of
      None \<Rightarrow> False
    | Some d \<Rightarrow> (case di_syncId d of
        None \<Rightarrow> False
      | Some n \<Rightarrow> n \<noteq> 0 \<and> (case map_of (ic_deltaHistory c) key of None \<Rightarrow> False | Some (_, lastSyncId, _) \<Rightarrow> lastSyncId \<ge> n)))"

definition note_delta :: "DeltaInfo option \<Rightarrow> string \<Rightarrow> int \<Rightarrow> instance_cache \<Rightarrow> instance_cache" where
  "note_delta info key now c = (case info of
      None \<Rightarrow> c
    | Some d \<Rightarrow> (case di_syncId d of
        None \<Rightarrow> c
      | Some n \<Rightarrow> if n = 0 then c
          else c\<lparr>ic_deltaHistory := AList.update key (case di_action d of None \<Rightarrow> ''U'' | Some a \<Rightarrow> a, n, now) (ic_deltaHistory c)\<rparr>))"

definition track_addition :: "string \<Rightarrow> int \<Rightarrow> instance_cache \<Rightarrow> instance_cache" where
  "track_addition key now c =
     (let c1 = c\<lparr>ic_recentAdditions := AList.update key now (ic_recentAdditions c),
            ic_earliestRecentAddition := min_time (ic_earliestRecentAddition c) now\<rparr>
      in if length (ic_recentAdditions c1) > 100 then cleanupTracking now c1 else c1)"

definition pool_add :: "pool_config \<Rightarrow> int \<Rightarrow> nat \<Rightarrow> model_scope \<Rightarrow> DeltaInfo option \<Rightarrow> instance_cache \<Rightarrow> instance_cache" where
  "pool_add cfg now r scope info c0 =
     (let i = mo_id (ic_heap c0 r); m = mo_modelName (ic_heap c0 r); key = add_key m i; c = ensure_type m c0
      in case live_entry c i of
           Some e \<Rightarrow> set_scope i e scope now c
         | None \<Rightarrow>
             if recently_added now key c \<or> delta_seen info key c then c
             else let c1 = track_addition key now (note_delta info key now c);
                      c2 = (if length (ic_entries c1) \<ge> px_maxSize cfg then evictOldest c1 else c1)
                  in notifyAdded m r (store_entry r scope now c2))"

definition hydrate_existing :: "pool_config \<Rightarrow> nat \<Rightarrow> nat \<Rightarrow> instance_cache \<Rightarrow> instance_cache" where
  "hydrate_existing cfg r existing c =
     (if r = existing then c
      else c\<lparr>ic_heap := (ic_heap c)(existing := updateFromData (px_newDate cfg)
               (model_toJSON (px_serialized cfg (mo_modelName (ic_heap c r))) (ic_heap c r)) (ic_heap c existing))\<rparr>)"

definition upsert_existing :: "pool_config \<Rightarrow> int \<Rightarrow> nat \<Rightarrow> model_scope \<Rightarrow> string \<Rightarrow> pool_entry \<Rightarrow> instance_cache \<Rightarrow> instance_cache" where
  "upsert_existing cfg now r scope i e c =
     (let c1 = set_scope i e scope now (hydrate_existing cfg r (pe_model e) c)
      in notifyUpdated (mo_modelName (ic_heap c1 (pe_model e))) (pe_model e) c1)"

definition pool_upsert :: "pool_config \<Rightarrow> int \<Rightarrow> nat \<Rightarrow> model_scope \<Rightarrow> instance_cache \<Rightarrow> instance_cache" where
  "pool_upsert cfg now r scope c = (let i = mo_id (ic_heap c r) in case live_entry c i of
      Some e \<Rightarrow> upsert_existing cfg now r scope i e c
    | None \<Rightarrow> pool_add cfg now r scope None c)"

definition batch_add_one :: "int \<Rightarrow> model_scope \<Rightarrow> nat \<Rightarrow> nat \<times> instance_cache \<Rightarrow> nat \<times> instance_cache" where
  "batch_add_one now scope r acc = (case acc of (added, c0) \<Rightarrow>
     (let i = mo_id (ic_heap c0 r); m = mo_modelName (ic_heap c0 r); c = ensure_type m c0
      in case live_entry c i of
           Some e \<Rightarrow> (added, set_scope i e scope now c)
         | None \<Rightarrow>
             (let c1 = store_entry r scope now c; c2 = addToForeignKeyIndex i (ic_heap c1 r) m c1
              in (Suc added, notifyAdded m r c2))))"

definition addBatch :: "pool_config \<Rightarrow> int \<Rightarrow> nat list \<Rightarrow> model_scope \<Rightarrow> instance_cache \<Rightarrow> nat \<times> instance_cache" where
  "addBatch cfg now models scope c =
     (if models = [] then (0, c)
      else let newIds = remdups (filter (\<lambda>i. live_entry c i = None) (map (\<lambda>r. mo_id (ic_heap c r)) models));
               capacityNeeded = length (ic_entries c) + length newIds - px_maxSize cfg;
               c1 = (if capacityNeeded > 0 then evictOldestBatch capacityNeeded c else c)
           in fold (batch_add_one now scope) models (0, c1))"

definition batch_upsert_one :: "pool_config \<Rightarrow> int \<Rightarrow> model_scope \<Rightarrow> nat \<Rightarrow> instance_cache \<Rightarrow> instance_cache" where
  "batch_upsert_one cfg now scope r c = (let i = mo_id (ic_heap c r); m = mo_modelName (ic_heap c r) in case live_entry c i of
      Some e \<Rightarrow> upsert_existing cfg now r scope i e c
    | None \<Rightarrow>
        (let c1 = ensure_type m c; c2 = (if length (ic_entries c1) \<ge> px_maxSize cfg then evictOldest c1 else c1)
         in notifyAdded m r (store_entry r scope now c2)))"

definition upsertBatch :: "pool_config \<Rightarrow> int \<Rightarrow> nat list \<Rightarrow> model_scope \<Rightarrow> instance_cache \<Rightarrow> instance_cache" where
  "upsertBatch cfg now models scope c = fold (batch_upsert_one cfg now scope) models c"

definition addToArchive :: "pool_config \<Rightarrow> int \<Rightarrow> nat \<Rightarrow> instance_cache \<Rightarrow> instance_cache" where
  "addToArchive cfg now r c = pool_add cfg now r ScopeArchived None c"

definition updateScope :: "string \<Rightarrow> model_scope \<Rightarrow> int \<Rightarrow> instance_cache \<Rightarrow> instance_cache" where
  "updateScope i scope now c = (case map_of (ic_entries c) i of None \<Rightarrow> c | Some e \<Rightarrow> set_scope i e scope now c)"

definition pool_touch :: "string \<Rightarrow> int \<Rightarrow> instance_cache \<Rightarrow> bool \<times> instance_cache" where
  "pool_touch i now c = (if map_of (ic_entries c) i = None then (False, c) else (True, touchAccess i now c))"

subsection \<open>Clearing\<close>

definition pool_clear :: "bool \<Rightarrow> instance_cache \<Rightarrow> instance_cache" where
  "pool_clear preserveObserved c =
     (let kept = filter (\<lambda>(_, e). preserveObserved \<and> mo_observed (ic_heap c (pe_model e))) (ic_entries c);
          dropped = filter (\<lambda>(_, e). \<not> (preserveObserved \<and> mo_observed (ic_heap c (pe_model e)))) (ic_entries c);
          times = List.map_filter (\<lambda>(i, _). case map_of (ic_accessTimes c) i of None \<Rightarrow> None | Some t \<Rightarrow> if t = 0 then None else Some (i, t)) kept;
          c1 = fold (\<lambda>(_, e). dispose_at (pe_model e)) dropped c;
          c2 = c1\<lparr>ic_entries := [], ic_typeIndex := [], ic_foreignKeyIndexes := map (\<lambda>(key, _). (key, [])) (ic_foreignKeyIndexes c1),
            ic_recentAdditions := [], ic_earliestRecentAddition := None, ic_deltaHistory := [], ic_accessTimes := []\<rparr>;
          c3 = fold (\<lambda>(i, e) c. addToTypeIndex i (mo_modelName (ic_heap c (pe_model e)))
                 (c\<lparr>ic_entries := AList.update i e (ic_entries c)\<rparr>)) kept c2
      in fold (\<lambda>(i, t). touchAccess i t) times c3)"

end
