(* ===== verification/InstanceCacheInvariants.thy ===== *)
theory InstanceCacheInvariants
  imports InstanceCache
begin

section \<open>The invariants of the instance cache\<close>

text \<open>
  What the indexes of \<open>InstanceCache.ts\<close> promise of each other and what its open views promise of the
  rows, and that each operation keeps both: an operation is followed from its parts (the recency stamp, the
  entry, the type index, the notification) to the whole.
\<close>

subsection \<open>What the indexes promise\<close>

definition type_ids :: "instance_cache \<Rightarrow> string \<Rightarrow> string list" where
  "type_ids c m = lookup_set m (ic_typeIndex c)"

definition row_at :: "instance_cache \<Rightarrow> string \<Rightarrow> nat option" where
  "row_at c i = map_option pe_model (map_of (ic_entries c) i)"

text \<open>
  Every entry holds a usable instance under that instance's identifier; the recency map stamps exactly
  the entries; and the type index lists a row under a model exactly when the row is pooled and of it.
\<close>

definition keys_ok :: "instance_cache \<Rightarrow> bool" where
  "keys_ok c \<longleftrightarrow> distinct (map fst (ic_entries c)) \<and> distinct (map fst (ic_accessTimes c)) \<and> distinct (map fst (ic_typeIndex c)) \<and>
     fst ` set (ic_accessTimes c) = fst ` set (ic_entries c) \<and> (\<forall>p \<in> set (ic_accessTimes c). 0 < snd p)"

definition rows_ok :: "instance_cache \<Rightarrow> bool" where
  "rows_ok c \<longleftrightarrow> (\<forall>i r. row_at c i = Some r \<longrightarrow>
     mo_id (ic_heap c r) = i \<and> \<not> mo_disposed (ic_heap c r) \<and> mo_modelName (ic_heap c r) \<noteq> [])"

definition types_ok :: "instance_cache \<Rightarrow> bool" where
  "types_ok c \<longleftrightarrow> (\<forall>m. distinct (type_ids c m)) \<and>
     (\<forall>m i. i \<in> set (type_ids c m) \<longleftrightarrow> (\<exists>r. row_at c i = Some r \<and> mo_modelName (ic_heap c r) = m))"

definition cache_ok :: "instance_cache \<Rightarrow> bool" where
  "cache_ok c \<longleftrightarrow> keys_ok c \<and> rows_ok c \<and> types_ok c"

text \<open>The part of the state these and the views speak of; tracking and foreign-key indexes are aside.\<close>

definition cache_core :: "instance_cache \<Rightarrow> instance_cache" where
  "cache_core c = c\<lparr>ic_foreignKeyIndexes := [], ic_foreignKeyConfig := [], ic_recentAdditions := [], ic_earliestRecentAddition := None,
     ic_deltaHistory := [], ic_subscriptions := []\<rparr>"

lemma core_fields:
  assumes "cache_core c = cache_core d"
  shows "ic_heap c = ic_heap d" "ic_entries c = ic_entries d" "ic_typeIndex c = ic_typeIndex d" "ic_accessTimes c = ic_accessTimes d"
    "ic_views c = ic_views d"
proof -
  have f: "f c = f d" if "\<And>x. f (cache_core x) = f x" for f :: "instance_cache \<Rightarrow> 'b" using assms that by metis
  show "ic_heap c = ic_heap d" "ic_entries c = ic_entries d" "ic_typeIndex c = ic_typeIndex d" "ic_accessTimes c = ic_accessTimes d"
    "ic_views c = ic_views d" by (rule f; simp add: cache_core_def)+
qed

lemma core_ok: "cache_core c = cache_core d \<Longrightarrow> cache_ok c = cache_ok d"
  using core_fields [of c d] by (simp add: cache_ok_def keys_ok_def rows_ok_def types_ok_def row_at_def type_ids_def)

lemma core_fold: "(\<And>x c. cache_core (f x c) = cache_core c) \<Longrightarrow> cache_core (fold f xs c) = cache_core c"
  by (induction xs arbitrary: c) auto

lemma core_quiet [simp]:
  "cache_core (fk_add_field i obj m field c) = cache_core c" "cache_core (fk_remove_field i obj m field c) = cache_core c"
  "cache_core (note_delta info key now c) = cache_core c" "cache_core (cleanupTracking now c) = cache_core c"
  "cache_core (clearDeltaHistory now n c) = cache_core c"
  by (simp_all add: fk_add_field_def fk_remove_field_def note_delta_def cleanupTracking_def clearDeltaHistory_def cache_core_def Let_def
      split: jsval.split option.split)

lemma core_quiet_folds [simp]:
  "cache_core (addToForeignKeyIndex i obj m c) = cache_core c" "cache_core (removeFromForeignKeyIndex i m c) = cache_core c"
  "cache_core (track_addition key now c) = cache_core c" "cache_core (registerForeignKey m f c) = cache_core c"
  unfolding addToForeignKeyIndex_def removeFromForeignKeyIndex_def
  by (simp_all add: core_fold split: option.split) (simp_all add: track_addition_def registerForeignKey_def Let_def, simp_all add: cache_core_def)

lemma alist_set_delete: "set (AList.delete k al) = {p \<in> set al. fst p \<noteq> k}"
  by (auto simp: AList.delete_eq)

lemma keys_delete [simp]: "fst ` set (AList.delete k al) = fst ` set al - {k}"
  by (auto simp: alist_set_delete)

lemma lookup_set_update: "lookup_set k (AList.update m xs al) = (if k = m then xs else lookup_set k al)"
  by (simp add: lookup_set_def update_conv')

lemma lookup_set_delete: "lookup_set k (AList.delete m al) = (if k = m then [] else lookup_set k al)"
  by (simp add: lookup_set_def AList.delete_conv')

lemma row_at_update: "row_at (c\<lparr>ic_entries := AList.update i e (ic_entries c)\<rparr>) j = (if j = i then Some (pe_model e) else row_at c j)"
  by (simp add: row_at_def update_conv')

lemma row_at_delete: "row_at (c\<lparr>ic_entries := AList.delete i (ic_entries c)\<rparr>) j = (if j = i then None else row_at c j)"
  by (simp add: row_at_def AList.delete_conv')

lemma row_at_dom: "row_at c i = None \<longleftrightarrow> i \<notin> fst ` set (ic_entries c)"
  by (simp add: row_at_def map_of_eq_None_iff)

subsection \<open>Each operation keeps them\<close>

lemma keys_entries_update: "fst ` set (AList.update k v al) = insert k (fst ` set al)"
  by (simp add: dom_map_of_conv_image_fst [symmetric] update_conv')

lemma touch_ok: "cache_ok c \<Longrightarrow> row_at c i \<noteq> None \<Longrightarrow> 0 < now \<Longrightarrow> cache_ok (touchAccess i now c)"
proof -
  assume ok: "cache_ok c" and i: "row_at c i \<noteq> None" and "0 < now"
  have "i \<in> fst ` set (ic_accessTimes c)" using ok i by (simp add: cache_ok_def keys_ok_def row_at_dom)
  moreover have "set (AList.delete i (ic_accessTimes c)) \<subseteq> set (ic_accessTimes c)" by (auto simp: alist_set_delete)
  ultimately have "keys_ok (touchAccess i now c)"
    using ok \<open>0 < now\<close> by (auto simp: cache_ok_def keys_ok_def touchAccess_def AList.distinct_delete)
  then show ?thesis using ok by (simp add: cache_ok_def rows_ok_def types_ok_def row_at_def type_ids_def touchAccess_def)
qed

lemma set_scope_ok:
  assumes "cache_ok c" "map_of (ic_entries c) i = Some e" "0 < now"
  shows "cache_ok (set_scope i e scope now c)"
proof (cases "pe_scope e = scope")
  case False
  let ?d = "c\<lparr>ic_entries := AList.update i (e\<lparr>pe_scope := scope\<rparr>) (ic_entries c)\<rparr>"
  have row: "row_at ?d = row_at c" by (rule ext) (simp add: row_at_update, simp add: row_at_def assms(2))
  have "i \<in> fst ` set (ic_entries c)" using assms(2) by (force dest: map_of_SomeD)
  then have "keys_ok ?d" using assms(1) by (auto simp: cache_ok_def keys_ok_def keys_entries_update distinct_update insert_absorb)
  then have "cache_ok ?d" using assms(1) row by (simp add: cache_ok_def rows_ok_def types_ok_def type_ids_def)
  moreover have "row_at ?d i \<noteq> None" using row by (simp add: row_at_def assms(2))
  ultimately show ?thesis using touch_ok assms(3) False by (simp add: set_scope_def)
qed (use assms in \<open>simp add: set_scope_def\<close>)

lemma ensure_type_ok: "cache_ok c \<Longrightarrow> cache_ok (ensure_type m c)"
proof -
  assume ok: "cache_ok c"
  have "type_ids (ensure_type m c) = type_ids c"
    by (rule ext) (simp add: type_ids_def ensure_type_def lookup_set_update, simp add: lookup_set_def)
  moreover have "row_at (ensure_type m c) = row_at c" "ic_heap (ensure_type m c) = ic_heap c"
    by (simp_all add: ensure_type_def row_at_def fun_eq_iff)
  moreover have "keys_ok (ensure_type m c)" using ok by (simp add: cache_ok_def keys_ok_def ensure_type_def distinct_update)
  ultimately show ?thesis using ok by (simp add: cache_ok_def rows_ok_def types_ok_def)
qed

lemma heap_ok:
  assumes "cache_ok c"
    and "\<And>i r. row_at c i = Some r \<Longrightarrow> mo_id (h r) = mo_id (ic_heap c r) \<and> mo_disposed (h r) = mo_disposed (ic_heap c r) \<and>
      mo_modelName (h r) = mo_modelName (ic_heap c r)"
  shows "cache_ok (c\<lparr>ic_heap := h\<rparr>)"
  using assms unfolding cache_ok_def keys_ok_def rows_ok_def types_ok_def type_ids_def row_at_def by simp metis

lemma updateFromData_frame [simp]:
  "mo_id (updateFromData newDate data m) = mo_id m" "mo_disposed (updateFromData newDate data m) = mo_disposed m"
  "mo_modelName (updateFromData newDate data m) = mo_modelName m" "mo_observed (updateFromData newDate data m) = mo_observed m"
proof -
  have "mo_id (fold (assign_field newDate) data m) = mo_id m \<and> mo_disposed (fold (assign_field newDate) data m) = mo_disposed m \<and>
      mo_modelName (fold (assign_field newDate) data m) = mo_modelName m \<and> mo_observed (fold (assign_field newDate) data m) = mo_observed m"
    by (induction data arbitrary: m) (auto simp: assign_field_def Let_def split: prod.split)
  then show "mo_id (updateFromData newDate data m) = mo_id m" "mo_disposed (updateFromData newDate data m) = mo_disposed m"
    "mo_modelName (updateFromData newDate data m) = mo_modelName m" "mo_observed (updateFromData newDate data m) = mo_observed m"
    by (simp_all add: updateFromData_def)
qed

lemma hydrate_ok: "cache_ok c \<Longrightarrow> cache_ok (hydrate_existing cfg r x c)"
  by (auto simp: hydrate_existing_def intro!: heap_ok split: if_splits)

lemma notify_ok [simp]: "cache_ok (notify_views m f c) = cache_ok c"
  by (simp add: cache_ok_def keys_ok_def rows_ok_def types_ok_def type_ids_def row_at_def notify_views_def)

lemma type_index_core:
  assumes "m \<noteq> []"
  shows "cache_core (addToTypeIndex i m c) =
    cache_core (c\<lparr>ic_typeIndex := AList.update m (set_add i (lookup_set m (ic_typeIndex c))) (ic_typeIndex c)\<rparr>)"
  using assms by (simp add: addToTypeIndex_def Let_def split: option.split)

lemma store_entry_core:
  assumes "m = mo_modelName (ic_heap c r)" "m \<noteq> []" "i = mo_id (ic_heap c r)"
  shows "cache_core (store_entry r scope now c) =
    cache_core (c\<lparr>ic_entries := AList.update i \<lparr>pe_model = r, pe_scope = scope\<rparr> (ic_entries c),
      ic_accessTimes := AList.delete i (ic_accessTimes c) @ [(i, now)],
      ic_typeIndex := AList.update m (set_add i (lookup_set m (ic_typeIndex c))) (ic_typeIndex c)\<rparr>)"
  using assms by (simp add: store_entry_def Let_def type_index_core touchAccess_def) (simp add: cache_core_def)

definition usable :: "instance_cache \<Rightarrow> nat \<Rightarrow> bool" where
  "usable c r \<longleftrightarrow> \<not> mo_disposed (ic_heap c r) \<and> mo_modelName (ic_heap c r) \<noteq> []"

lemma indexed_ok:
  assumes ok: "rows_ok c" "types_ok c" and r: "usable c r" and new: "row_at c i = None" and i: "i = mo_id (ic_heap c r)"
    and m: "m = mo_modelName (ic_heap c r)"
    and d: "ic_heap d = ic_heap c" "\<And>j. row_at d j = (if j = i then Some r else row_at c j)"
      "\<And>k. type_ids d k = (if k = m then set_add i (type_ids c m) else type_ids c k)"
  shows "rows_ok d \<and> types_ok d"
proof -
  have t: "distinct (type_ids c k)" "j \<in> set (type_ids c k) \<longleftrightarrow> (\<exists>r. row_at c j = Some r \<and> mo_modelName (ic_heap c r) = k)" for k j
    using ok(2) by (auto simp: types_ok_def)
  have "rows_ok d" using ok(1) r by (auto simp: rows_ok_def d i usable_def split: if_splits)
  moreover have "types_ok d" unfolding types_ok_def d using t new m by (auto simp: set_add_def)
  ultimately show ?thesis by blast
qed

lemma store_entry_ok:
  assumes ok: "cache_ok c" and r: "usable c r" and new: "row_at c (mo_id (ic_heap c r)) = None" and now: "0 < now"
  shows "cache_ok (store_entry r scope now c)"
proof -
  define i where "i = mo_id (ic_heap c r)"
  define m where "m = mo_modelName (ic_heap c r)"
  define d where "d = c\<lparr>ic_entries := AList.update i \<lparr>pe_model = r, pe_scope = scope\<rparr> (ic_entries c),
      ic_accessTimes := AList.delete i (ic_accessTimes c) @ [(i, now)],
      ic_typeIndex := AList.update m (set_add i (lookup_set m (ic_typeIndex c))) (ic_typeIndex c)\<rparr>"
  have m: "m \<noteq> []" using r by (simp add: usable_def m_def)
  have "keys_ok d"
    using ok now by (auto simp: cache_ok_def keys_ok_def d_def keys_entries_update distinct_update alist_set_delete AList.distinct_delete)
  moreover have "rows_ok d \<and> types_ok d"
    by (rule indexed_ok [OF _ _ r _ i_def m_def, of d])
       (use ok new in \<open>simp_all add: cache_ok_def i_def d_def row_at_def update_conv' type_ids_def lookup_set_update\<close>)
  ultimately have "cache_ok d" by (simp add: cache_ok_def)
  moreover have "cache_core (store_entry r scope now c) = cache_core d"
    unfolding d_def by (rule store_entry_core [OF m_def m i_def])
  ultimately show ?thesis using core_ok by blast
qed

lemma removeFromTypeIndex_fields:
  assumes "m \<noteq> []"
  shows "ic_heap (removeFromTypeIndex i m c) = ic_heap c" "ic_entries (removeFromTypeIndex i m c) = ic_entries c"
    "ic_accessTimes (removeFromTypeIndex i m c) = ic_accessTimes c" "ic_views (removeFromTypeIndex i m c) = ic_views c"
    "ic_typeIndex (removeFromTypeIndex i m c) = (case map_of (ic_typeIndex c) m of None \<Rightarrow> ic_typeIndex c
        | Some ids \<Rightarrow> if removeAll i ids = [] then AList.delete m (ic_typeIndex c) else AList.update m (removeAll i ids) (ic_typeIndex c))"
proof -
  have f: "ic_heap (removeFromForeignKeyIndex i m c) = ic_heap c" "ic_entries (removeFromForeignKeyIndex i m c) = ic_entries c"
    "ic_typeIndex (removeFromForeignKeyIndex i m c) = ic_typeIndex c" "ic_accessTimes (removeFromForeignKeyIndex i m c) = ic_accessTimes c"
    "ic_views (removeFromForeignKeyIndex i m c) = ic_views c"
    by (rule core_fields; simp)+
  show "ic_heap (removeFromTypeIndex i m c) = ic_heap c" "ic_entries (removeFromTypeIndex i m c) = ic_entries c"
    "ic_accessTimes (removeFromTypeIndex i m c) = ic_accessTimes c" "ic_views (removeFromTypeIndex i m c) = ic_views c"
    "ic_typeIndex (removeFromTypeIndex i m c) = (case map_of (ic_typeIndex c) m of None \<Rightarrow> ic_typeIndex c
        | Some ids \<Rightarrow> if removeAll i ids = [] then AList.delete m (ic_typeIndex c) else AList.update m (removeAll i ids) (ic_typeIndex c))"
    using assms by (simp_all add: removeFromTypeIndex_def Let_def f split: option.split)
qed

lemma remove_row:
  assumes "cache_ok c" "map_of (ic_entries c) i = Some e"
  shows "mo_modelName (ic_heap c (pe_model e)) \<noteq> []" "mo_id (ic_heap c (pe_model e)) = i"
  using assms by (auto simp: cache_ok_def rows_ok_def row_at_def)

lemma rows_distinct:
  assumes "cache_ok c" "row_at c i = Some r" "row_at c j = Some r"
  shows "i = j"
  using assms by (auto simp: cache_ok_def rows_ok_def)

lemma removed_fields:
  assumes ok: "cache_ok c" and e: "map_of (ic_entries c) i = Some e"
  shows "ic_entries (snd (pool_remove i c)) = AList.delete i (ic_entries c)"
    and "ic_accessTimes (snd (pool_remove i c)) = AList.delete i (ic_accessTimes c)"
    and "ic_heap (snd (pool_remove i c)) = (ic_heap c)(pe_model e := dispose_model (ic_heap c (pe_model e)))"
    and "ic_views (snd (pool_remove i c)) =
      map (\<lambda>(t, vs). (t, if t = mo_modelName (ic_heap c (pe_model e)) then map (handleRemoved (ic_heap c) i) vs else vs)) (ic_views c)"
    and "type_ids (snd (pool_remove i c)) k = (if k = mo_modelName (ic_heap c (pe_model e)) then removeAll i (type_ids c k) else type_ids c k)"
    and "distinct (map fst (ic_typeIndex c)) \<Longrightarrow> distinct (map fst (ic_typeIndex (snd (pool_remove i c))))"
proof -
  let ?m = "mo_modelName (ic_heap c (pe_model e))"
  have m: "?m \<noteq> []" by (rule remove_row(1) [OF ok e])
  note f = removeFromTypeIndex_fields [OF m]
  show "ic_entries (snd (pool_remove i c)) = AList.delete i (ic_entries c)"
    "ic_accessTimes (snd (pool_remove i c)) = AList.delete i (ic_accessTimes c)"
    "ic_heap (snd (pool_remove i c)) = (ic_heap c)(pe_model e := dispose_model (ic_heap c (pe_model e)))"
    "ic_views (snd (pool_remove i c)) = map (\<lambda>(t, vs). (t, if t = ?m then map (handleRemoved (ic_heap c) i) vs else vs)) (ic_views c)"
    using e m by (simp_all add: pool_remove_def Let_def notifyRemoved_def notify_views_def dispose_at_def f)
  have core: "ic_typeIndex (snd (pool_remove i c)) = ic_typeIndex (removeFromTypeIndex i ?m c)"
    using e m by (simp add: pool_remove_def Let_def notifyRemoved_def notify_views_def dispose_at_def)
  show "type_ids (snd (pool_remove i c)) k = (if k = mo_modelName (ic_heap c (pe_model e)) then removeAll i (type_ids c k) else type_ids c k)"
    unfolding type_ids_def core f(5) by (auto simp: lookup_set_update lookup_set_delete split: option.splits if_splits) (auto simp: lookup_set_def)
  show "distinct (map fst (ic_typeIndex (snd (pool_remove i c))))" if "distinct (map fst (ic_typeIndex c))"
    unfolding core f(5) using that by (simp add: distinct_update AList.distinct_delete split: option.split)
qed

lemma remove_ok:
  assumes ok: "cache_ok c"
  shows "cache_ok (snd (pool_remove i c))"
proof (cases "map_of (ic_entries c) i")
  case None
  then show ?thesis using ok by (simp add: pool_remove_def)
next
  case (Some e)
  let ?d = "snd (pool_remove i c)"
  let ?m = "mo_modelName (ic_heap c (pe_model e))"
  note d = removed_fields [OF ok Some]
  have row: "row_at ?d j = (if j = i then None else row_at c j)" for j by (simp add: row_at_def d AList.delete_conv')
  have other: "ic_heap ?d r = ic_heap c r" if "row_at ?d j = Some r" for j r
  proof -
    have "row_at c j = Some r" "j \<noteq> i" using that row by (auto split: if_splits)
    then have "r \<noteq> pe_model e" using rows_distinct [OF ok, of j r i] Some by (auto simp: row_at_def)
    then show ?thesis by (simp add: d)
  qed
  have "keys_ok ?d" using ok d(6) by (auto simp: cache_ok_def keys_ok_def d AList.distinct_delete alist_set_delete)
  moreover have "rows_ok ?d" using ok other row by (auto simp: cache_ok_def rows_ok_def split: if_splits)
  moreover have "types_ok ?d"
  proof -
    have t: "distinct (type_ids c k)" "j \<in> set (type_ids c k) \<longleftrightarrow> (\<exists>r. row_at c j = Some r \<and> mo_modelName (ic_heap c r) = k)" for k j
      using ok by (auto simp: cache_ok_def types_ok_def)
    have i: "row_at c i = Some (pe_model e)" by (simp add: row_at_def Some)
    have "j \<in> set (type_ids ?d k) \<longleftrightarrow> (\<exists>r. row_at ?d j = Some r \<and> mo_modelName (ic_heap ?d r) = k)" for k j
    proof (cases "j = i")
      case True
      then show ?thesis using t(2) [of i k] i row by (auto simp: d(5))
    next
      case False
      then have "row_at ?d j = row_at c j" using row by simp
      moreover have "j \<in> set (type_ids ?d k) \<longleftrightarrow> j \<in> set (type_ids c k)" using False by (simp add: d(5))
      ultimately show ?thesis using t(2) [of j k] other by metis
    qed
    moreover have "distinct (type_ids ?d k)" for k using t(1) [of k] by (auto simp: d(5) distinct_removeAll)
    ultimately show ?thesis by (simp add: types_ok_def)
  qed
  ultimately show ?thesis by (simp add: cache_ok_def)
qed

lemma removes_ok: "cache_ok c \<Longrightarrow> cache_ok (fold (\<lambda>i c. snd (pool_remove i c)) ids c)"
  by (induction ids arbitrary: c) (auto simp: remove_ok)

subsection \<open>The open views\<close>

definition rows_of :: "instance_cache \<Rightarrow> string \<Rightarrow> nat set" where
  "rows_of c m = {r. \<exists>i. row_at c i = Some r \<and> mo_modelName (ic_heap c r) = m}"

definition view_sorts :: "instance_cache \<Rightarrow> string \<Rightarrow> query_view \<Rightarrow> bool" where
  "view_sorts c t v = sortable v (ic_heap c) (rows_of c t)"

definition view_current :: "instance_cache \<Rightarrow> string \<Rightarrow> query_view \<Rightarrow> bool" where
  "view_current c t v \<longleftrightarrow> \<not> qv_disposed v \<and> view_exact (ic_heap c) (rows_of c t) v"

definition all_views :: "(string \<Rightarrow> query_view \<Rightarrow> bool) \<Rightarrow> instance_cache \<Rightarrow> bool" where
  "all_views P c \<longleftrightarrow> (\<forall>p \<in> set (ic_views c). \<forall>v \<in> set (snd p). P (fst p) v)"

definition views_ok :: "instance_cache \<Rightarrow> bool" where
  "views_ok c \<longleftrightarrow> all_views (view_current c) c \<and> all_views (view_sorts c) c"

lemma rows_unique_ids: "cache_ok c \<Longrightarrow> unique_ids (ic_heap c) (rows_of c m)"
proof -
  assume ok: "cache_ok c"
  have "r = s" if "row_at c i = Some r" "row_at c j = Some s" "mo_id (ic_heap c r) = mo_id (ic_heap c s)" for i j r s
  proof -
    have "i = j" using that ok by (auto simp: cache_ok_def rows_ok_def)
    then show ?thesis using that by simp
  qed
  then show ?thesis unfolding unique_ids_def inj_on_def rows_of_def by blast
qed

lemma same_config_refl: "same_config v v"
  by (simp add: same_config_def)

lemma views_same:
  assumes "views_ok c" "ic_views d = ic_views c" "ic_heap d = ic_heap c" "row_at d = row_at c"
  shows "views_ok d"
proof -
  have "rows_of d = rows_of c" using assms by (simp add: rows_of_def fun_eq_iff)
  then show ?thesis using assms by (simp add: views_ok_def all_views_def view_current_def view_sorts_def)
qed

text \<open>A notification of the views of one model, with the two conditions on what happened to the rows.\<close>

lemma views_notified:
  assumes vs: "views_ok c" and views: "ic_views d = map (\<lambda>(t, vs). (t, if t = m then map f vs else vs)) (ic_views c)"
    and f: "\<And>v. same_config (f v) v"
    and here: "\<And>v. view_current c m v \<Longrightarrow> view_sorts c m v \<Longrightarrow> view_sorts d m v \<Longrightarrow> view_current d m (f v)"
    and there: "\<And>t v. t \<noteq> m \<Longrightarrow> view_current c t v \<Longrightarrow> view_current d t v"
    and sorts: "all_views (view_sorts d) d"
  shows "views_ok d"
proof -
  have "view_current d t w" if p: "(t, ws) \<in> set (ic_views d)" and w: "w \<in> set ws" for t ws w
  proof -
    obtain vs where v: "(t, vs) \<in> set (ic_views c)" "ws = (if t = m then map f vs else vs)" using p views by auto
    have old: "view_current c t v \<and> view_sorts c t v" if "v \<in> set vs" for v
      using \<open>views_ok c\<close> v(1) that by (force simp: views_ok_def all_views_def)
    have new: "view_sorts d t w" using sorts p w by (force simp: all_views_def)
    show ?thesis
    proof (cases "t = m")
      case True
      then obtain v where "v \<in> set vs" "w = f v" using v(2) w by auto
      moreover then have "view_sorts d m v" using new True same_configD(6) [OF f [of v]] by (simp add: view_sorts_def)
      ultimately show ?thesis using here [of v] old True by simp
    next
      case False
      then show ?thesis using there [of t w] old v(2) w by simp
    qed
  qed
  then show ?thesis using sorts by (auto simp: views_ok_def all_views_def)
qed

lemma stored_fields:
  assumes "usable c r"
  shows "ic_heap (store_entry r scope now c) = ic_heap c" "ic_views (store_entry r scope now c) = ic_views c"
    "row_at (store_entry r scope now c) j = (if j = mo_id (ic_heap c r) then Some r else row_at c j)"
    "ic_entries (store_entry r scope now c) = AList.update (mo_id (ic_heap c r)) \<lparr>pe_model = r, pe_scope = scope\<rparr> (ic_entries c)"
  using core_fields [OF store_entry_core [OF refl _ refl, of c r scope now]] assms
  by (simp_all add: usable_def row_at_def update_conv')

lemma add_views:
  assumes ok: "cache_ok c" "views_ok c" and r: "usable c r" "row_at c (mo_id (ic_heap c r)) = None" and m: "m = mo_modelName (ic_heap c r)"
    and sorts: "all_views (view_sorts (notifyAdded m r (store_entry r scope now c))) (notifyAdded m r (store_entry r scope now c))"
  shows "views_ok (notifyAdded m r (store_entry r scope now c))" (is "views_ok ?d")
proof -
  note st = stored_fields [OF r(1), of scope now]
  have d: "ic_heap ?d = ic_heap c" "row_at ?d = row_at (store_entry r scope now c)"
    "ic_views ?d = map (\<lambda>(t, vs). (t, if t = m then map (handleAdded (ic_heap c) r) vs else vs)) (ic_views c)"
    by (simp_all add: notifyAdded_def notify_views_def st row_at_def fun_eq_iff)
  have row: "row_at ?d j = Some q \<longleftrightarrow> j = mo_id (ic_heap c r) \<and> q = r \<or> row_at c j = Some q" for j q
    using r(2) by (auto simp: d(2) st(3))
  have rows: "rows_of ?d t = (if t = m then insert r (rows_of c t) else rows_of c t)" for t
    using m unfolding rows_of_def row d(1) by auto
  have fresh: "r \<notin> rows_of c m" using r(2) ok(1) by (auto simp: rows_of_def cache_ok_def rows_ok_def)
  show ?thesis
  proof (rule views_notified [OF ok(2) d(3) handlers_config(2) _ _ sorts])
    fix v assume "view_current c m v" "view_sorts c m v" "view_sorts ?d m v"
    then show "view_current ?d m (handleAdded (ic_heap c) r v)"
      using handleAdded_exact [OF _ fresh, of "ic_heap c" v] same_configD(4) [OF handlers_config(2), of "ic_heap c" r v]
      by (simp add: view_current_def view_sorts_def d rows)
  qed (simp add: view_current_def d rows)
qed

lemma remove_views:
  assumes ok: "cache_ok c" "views_ok c"
  shows "views_ok (snd (pool_remove i c))"
proof (cases "map_of (ic_entries c) i")
  case None
  then show ?thesis using ok by (simp add: pool_remove_def)
next
  case (Some e)
  define d where "d = snd (pool_remove i c)"
  define r where "r = pe_model e"
  define m where "m = mo_modelName (ic_heap c r)"
  note f = removed_fields [OF ok(1) Some, folded r_def, folded m_def, folded d_def]
  have i: "row_at c i = Some r" by (simp add: row_at_def Some r_def)
  have row: "row_at d j = (if j = i then None else row_at c j)" for j by (simp add: row_at_def f(1) AList.delete_conv')
  have id: "mo_id (ic_heap c r) = i" using remove_row(2) [OF ok(1) Some] by (simp add: r_def)
  have agree: "ic_heap d q = ic_heap c q" if "q \<noteq> r" for q using that by (simp add: f(3))
  have row': "row_at d j = Some q \<longleftrightarrow> row_at c j = Some q \<and> q \<noteq> r" for j q
  proof (cases "j = i")
    case False
    then have "row_at d j = row_at c j" by (simp add: row)
    moreover have "q \<noteq> r" if "row_at c j = Some q" using that rows_distinct [OF ok(1) that] i False by blast
    ultimately show ?thesis by auto
  qed (use row i in simp)
  have eq: "(row_at d j = Some q \<and> mo_modelName (ic_heap d q) = t) \<longleftrightarrow> (row_at c j = Some q \<and> mo_modelName (ic_heap c q) = t) \<and> q \<noteq> r" for j q t
    using row' [of j q] agree [of q] by auto
  have rows: "rows_of d t = rows_of c t - {r}" for t by (rule set_eqI) (simp add: rows_of_def eq)
  have here: "r \<in> rows_of c m" using i by (auto simp: rows_of_def m_def)
  have there: "rows_of c t - {r} = rows_of c t" if "t \<noteq> m" for t using that by (auto simp: rows_of_def m_def)
  have agree': "\<forall>q \<in> rows_of c t - {r}. ic_heap d q = ic_heap c q" for t using agree by blast
  have keep: "view_sorts d t w" if "view_sorts c t v" "same_config w v" for t v w
  proof -
    have "sortable v (ic_heap c) (rows_of c t - {r})" using that(1) unfolding view_sorts_def by (rule sortable_subset) blast
    then have "sortable v (ic_heap d) (rows_of d t)" unfolding rows sortable_cong [OF agree'] .
    then show ?thesis unfolding view_sorts_def same_configD(6) [OF that(2)] .
  qed
  have old: "view_sorts c t v" if "(t, vs) \<in> set (ic_views c)" "v \<in> set vs" for t v vs
    using ok(2) that by (fastforce simp: views_ok_def all_views_def)
  have sorts: "all_views (view_sorts d) d"
  proof -
    have "view_sorts d t w" if p: "(t, vs) \<in> set (ic_views c)" and w: "w \<in> set (if t = m then map (handleRemoved (ic_heap c) i) vs else vs)" for t vs w
    proof -
      have "\<exists>v \<in> set vs. same_config w v"
      proof (cases "t = m")
        case True
        then obtain v where "v \<in> set vs" "w = handleRemoved (ic_heap c) i v" using w by auto
        then show ?thesis using handlers_config(4) by blast
      qed (use w same_config_refl in auto)
      then obtain v where v: "v \<in> set vs" "same_config w v" by blast
      then show ?thesis using keep [OF old [OF p v(1)] v(2)] by simp
    qed
    then show ?thesis unfolding all_views_def f(4) by auto
  qed
  have now_here: "view_current d m (handleRemoved (ic_heap c) i v)" if v: "view_current c m v" "view_sorts c m v" for v
  proof -
    have v': "view_exact (ic_heap c) (rows_of c m) v" "\<not> qv_disposed v" "sortable v (ic_heap c) (rows_of c m)"
      using v unfolding view_current_def view_sorts_def by blast+
    have "view_exact (ic_heap c) (rows_of c m - {r}) (handleRemoved (ic_heap c) i v)"
      using handleRemoved_exact [OF v'(1) here rows_unique_ids [OF ok(1)] v'(3,2)] unfolding id .
    from exact_heap_cong [OF this agree'] show ?thesis
      unfolding view_current_def rows same_configD(4) [OF handlers_config(4)] using v'(2) by blast
  qed
  have now_there: "view_current d t v" if t: "t \<noteq> m" and v: "view_current c t v" for t v
  proof -
    have "\<forall>q \<in> rows_of c t. ic_heap d q = ic_heap c q" using agree' [of t] unfolding there [OF t] .
    then show ?thesis using v exact_heap_cong unfolding view_current_def rows there [OF t] by blast
  qed
  have "views_ok d" by (rule views_notified [OF ok(2) f(4) handlers_config(4) now_here now_there sorts])
  then show ?thesis by (simp add: d_def)
qed

lemma removes_views: "cache_ok c \<Longrightarrow> views_ok c \<Longrightarrow> views_ok (fold (\<lambda>i c. snd (pool_remove i c)) ids c)"
  by (induction ids arbitrary: c) (auto simp: remove_ok remove_views)

lemma update_views:
  assumes ok: "cache_ok c" "views_ok c" and x: "row_at c i = Some x" and m: "m = mo_modelName (ic_heap c x)"
    and h: "h = (ic_heap c)(x := obj)" "mo_id obj = mo_id (ic_heap c x)" "mo_modelName obj = mo_modelName (ic_heap c x)"
      "mo_disposed obj = mo_disposed (ic_heap c x)"
    and d: "ic_heap d = h" "row_at d = row_at c" "ic_views d = map (\<lambda>(t, vs). (t, if t = m then map (handleUpdated h x) vs else vs)) (ic_views c)"
    and sorts: "all_views (view_sorts d) d"
  shows "views_ok d"
proof (rule views_notified [OF ok(2) d(3) handlers_config(3) _ _ sorts])
  have rows: "rows_of d = rows_of c"
    by (rule ext) (auto simp: rows_of_def d h split: if_splits)
  have ids: "unique_ids h (rows_of c m)"
  proof -
    have "(\<lambda>r. mo_id (h r)) = (\<lambda>r. mo_id (ic_heap c r))" using h by (simp add: fun_eq_iff)
    then show ?thesis using rows_unique_ids [OF ok(1), of m] by (simp add: unique_ids_def)
  qed
  have x': "x \<in> rows_of c m" "t \<noteq> m \<Longrightarrow> x \<notin> rows_of c t" for t using x m by (auto simp: rows_of_def)
  fix v
  show "view_current d m (handleUpdated h x v)" if "view_current c m v" "view_sorts c m v" "view_sorts d m v"
    using that handleUpdated_exact [of "ic_heap c" "rows_of c m" v x h] x'(1) ids h(1) same_configD(4) [OF handlers_config(3), of h x v]
    by (simp add: view_current_def view_sorts_def d rows)
  fix t
  show "view_current d t v" if "t \<noteq> m" "view_current c t v"
    using that exact_heap_cong [of "ic_heap c" "rows_of c t" v h] x'(2) h(1) by (auto simp: view_current_def d rows)
qed

subsection \<open>The operations of the cache\<close>

lemma core_views_ok: "cache_core c = cache_core d \<Longrightarrow> views_ok c = views_ok d"
proof -
  assume "cache_core c = cache_core d"
  note f = core_fields [OF this]
  have "row_at c = row_at d" by (rule ext) (simp add: row_at_def f(2))
  then show ?thesis using f(1,5) views_same [of c d] views_same [of d c] by metis
qed

lemma set_scope_row: "map_of (ic_entries c) i = Some e \<Longrightarrow> row_at (set_scope i e scope now c) = row_at c"
  by (auto simp: set_scope_def touchAccess_def row_at_def update_conv' fun_eq_iff)

lemma live_is_entry: "cache_ok c \<Longrightarrow> live_entry c i = map_of (ic_entries c) i"
  by (auto simp: live_entry_def cache_ok_def rows_ok_def row_at_def split: option.split)

lemma stale_none: "cache_ok c \<Longrightarrow> i \<in> set (map fst (ic_accessTimes c)) \<Longrightarrow> map_of (ic_entries c) i \<noteq> None"
  by (simp add: cache_ok_def keys_ok_def map_of_eq_None_iff)

lemma recency_in: "set (recency_prefix c n ids) \<subseteq> set ids"
  by (induction c n ids rule: recency_prefix.induct) auto

text \<open>The safety nets of the eviction never fire: it removes the first unobserved entries in the order of recency.\<close>

lemma filter_recency: "filter (evictable c) (recency_prefix c n ids) = take n (filter (evictable c) ids)"
  by (induction c n ids rule: recency_prefix.induct) auto

lemma eviction_is:
  assumes "cache_ok c"
  shows "evictOldestBatch n c = fold (\<lambda>i c. snd (pool_remove i c)) (take n (filter (evictable c) (map fst (ic_accessTimes c)))) c"
proof -
  let ?seen = "recency_prefix c n (map fst (ic_accessTimes c))"
  have stale: "filter (\<lambda>i. map_of (ic_entries c) i = None) ?seen = []"
    unfolding filter_empty_conv using stale_none [OF assms] subsetD [OF recency_in [of c n "map fst (ic_accessTimes c)"]] by blast
  have unstamped: "filter (\<lambda>i. map_of (ic_accessTimes c) i = None \<and> evictable c i) (map fst (ic_entries c)) = []"
    using assms by (auto simp: filter_empty_conv cache_ok_def keys_ok_def map_of_eq_None_iff)
  have "c\<lparr>ic_accessTimes := filter (\<lambda>(i, _). i \<notin> set []) (ic_accessTimes c)\<rparr> = c" by simp
  then show ?thesis unfolding evictOldestBatch_def Let_def stale filter_recency by (simp add: unstamped)
qed

lemma remove_heap_frame:
  assumes "cache_ok c"
  shows "mo_id (ic_heap (snd (pool_remove i c)) r) = mo_id (ic_heap c r)" "mo_modelName (ic_heap (snd (pool_remove i c)) r) = mo_modelName (ic_heap c r)"
    and "row_at c (mo_id (ic_heap c r)) \<noteq> Some r \<Longrightarrow> ic_heap (snd (pool_remove i c)) r = ic_heap c r"
    and "row_at c j = None \<Longrightarrow> row_at (snd (pool_remove i c)) j = None"
proof -
  have *: "mo_id (ic_heap (snd (pool_remove i c)) r) = mo_id (ic_heap c r) \<and> mo_modelName (ic_heap (snd (pool_remove i c)) r) = mo_modelName (ic_heap c r) \<and>
      (row_at c (mo_id (ic_heap c r)) \<noteq> Some r \<longrightarrow> ic_heap (snd (pool_remove i c)) r = ic_heap c r) \<and>
      (row_at c j = None \<longrightarrow> row_at (snd (pool_remove i c)) j = None)"
  proof (cases "map_of (ic_entries c) i")
    case None
    then show ?thesis by (simp add: pool_remove_def)
  next
    case (Some e)
    note f = removed_fields(1,3) [OF assms Some]
    have "row_at c (mo_id (ic_heap c r)) = Some r" if "r = pe_model e" using that remove_row(2) [OF assms Some] Some by (simp add: row_at_def)
    then have "r = pe_model e \<Longrightarrow> row_at c (mo_id (ic_heap c r)) \<noteq> Some r \<Longrightarrow> False" by blast
    then show ?thesis by (auto simp: f row_at_def AList.delete_conv' dispose_model_def)
  qed
  then show "mo_id (ic_heap (snd (pool_remove i c)) r) = mo_id (ic_heap c r)" "mo_modelName (ic_heap (snd (pool_remove i c)) r) = mo_modelName (ic_heap c r)"
    "row_at c (mo_id (ic_heap c r)) \<noteq> Some r \<Longrightarrow> ic_heap (snd (pool_remove i c)) r = ic_heap c r"
    "row_at c j = None \<Longrightarrow> row_at (snd (pool_remove i c)) j = None" by blast+
qed

lemma removes_frame:
  assumes "cache_ok c" "row_at c (mo_id (ic_heap c r)) = None"
  shows "ic_heap (fold (\<lambda>i c. snd (pool_remove i c)) ids c) r = ic_heap c r \<and>
    row_at (fold (\<lambda>i c. snd (pool_remove i c)) ids c) (mo_id (ic_heap c r)) = None"
  using assms
proof (induction ids arbitrary: c)
  case (Cons i ids)
  let ?d = "snd (pool_remove i c)"
  have "ic_heap ?d r = ic_heap c r" "row_at ?d (mo_id (ic_heap c r)) = None"
    using remove_heap_frame(3,4) [OF Cons.prems(1)] Cons.prems(2) by simp_all
  then show ?case using Cons.IH [OF remove_ok [OF Cons.prems(1), of i]] by simp
qed simp

text \<open>
  Two ways a step treats the invariants: it keeps both, or it keeps the exactness of the views as far as
  the rows it leaves can be sorted by them.
\<close>

definition keeps_views :: "instance_cache \<Rightarrow> instance_cache \<Rightarrow> bool" where
  "keeps_views c t \<longleftrightarrow> (cache_ok c \<longrightarrow> cache_ok t \<and> (views_ok c \<longrightarrow> views_ok t))"

definition keeps_cache :: "instance_cache \<Rightarrow> instance_cache \<Rightarrow> bool" where
  "keeps_cache c t \<longleftrightarrow> (cache_ok c \<longrightarrow> cache_ok t \<and> (views_ok c \<longrightarrow> all_views (view_sorts t) t \<longrightarrow> views_ok t))"

lemma keeps_refl: "keeps_views c c"
  by (simp add: keeps_views_def)

lemma keeps_then: "keeps_views c d \<Longrightarrow> keeps_cache d t \<Longrightarrow> keeps_cache c t"
  by (simp add: keeps_views_def keeps_cache_def)

lemma keeps_weak: "keeps_views c t \<Longrightarrow> keeps_cache c t"
  by (simp add: keeps_views_def keeps_cache_def)

lemma keeps_quiet: "cache_core t = cache_core c \<Longrightarrow> keeps_views c t"
  using core_ok [of t c] core_views_ok [of t c] by (simp add: keeps_views_def)

lemma keeps_touch: "row_at c i \<noteq> None \<Longrightarrow> 0 < now \<Longrightarrow> keeps_views c (touchAccess i now c)"
proof -
  assume a: "row_at c i \<noteq> None" "0 < now"
  have "row_at (touchAccess i now c) = row_at c" by (rule ext) (simp add: touchAccess_def row_at_def)
  then show ?thesis using touch_ok [OF _ a] views_same [of c "touchAccess i now c"] by (simp add: keeps_views_def, simp add: touchAccess_def)
qed

lemma keeps_scope:
  assumes "map_of (ic_entries c) i = Some e" "0 < now"
  shows "keeps_views c (set_scope i e scope now c)"
proof -
  have "ic_views (set_scope i e scope now c) = ic_views c" "ic_heap (set_scope i e scope now c) = ic_heap c"
    by (simp_all add: set_scope_def touchAccess_def)
  then show ?thesis using set_scope_ok [OF _ assms] views_same [OF _ _ _ set_scope_row [OF assms(1)]] by (simp add: keeps_views_def)
qed

lemma keeps_ensure: "keeps_views c (ensure_type m c)"
proof -
  have "row_at (ensure_type m c) = row_at c" by (rule ext) (simp add: ensure_type_def row_at_def)
  then show ?thesis using ensure_type_ok [of c m] views_same [of c "ensure_type m c"] by (simp add: keeps_views_def, simp add: ensure_type_def)
qed

lemma keeps_removes: "keeps_views c (fold (\<lambda>i c. snd (pool_remove i c)) ids c)"
  using removes_ok [of c ids] removes_views [of c ids] by (simp add: keeps_views_def)

lemma keeps_evict: "keeps_views c (evictOldestBatch n c)"
  using keeps_removes eviction_is [of c n] by (metis keeps_views_def)

lemma evict_frame:
  assumes "cache_ok c" "row_at c (mo_id (ic_heap c r)) = None"
  shows "ic_heap (evictOldestBatch n c) r = ic_heap c r" "row_at (evictOldestBatch n c) (mo_id (ic_heap c r)) = None"
  using removes_frame [OF assms] eviction_is [OF assms(1)] by simp_all

lemma views_notify_core: "cache_core (notify_views m f c) = (cache_core c)\<lparr>ic_views := map (\<lambda>(t, vs). (t, if t = m then map f vs else vs)) (ic_views c)\<rparr>"
  by (simp add: notify_views_def cache_core_def)

lemma keeps_store:
  assumes "usable c r" "row_at c (mo_id (ic_heap c r)) = None" "0 < now" "m = mo_modelName (ic_heap c r)"
    and core: "cache_core d = cache_core (store_entry r scope now c)"
  shows "keeps_cache c (notifyAdded m r d)"
proof -
  have f: "ic_heap d = ic_heap (store_entry r scope now c)" using core_fields(1) [OF core] .
  have eq: "cache_core (notifyAdded m r d) = cache_core (notifyAdded m r (store_entry r scope now c))"
    by (simp add: notifyAdded_def views_notify_core core f core_fields(5) [OF core])
  show ?thesis
    unfolding keeps_cache_def
  proof (intro impI conjI)
    assume ok: "cache_ok c"
    show "cache_ok (notifyAdded m r d)"
      using store_entry_ok [OF ok assms(1-3)] core_ok [OF eq] by (simp add: notifyAdded_def)
    assume "views_ok c" and sorts: "all_views (view_sorts (notifyAdded m r d)) (notifyAdded m r d)"
    let ?t = "notifyAdded m r (store_entry r scope now c)"
    note g = core_fields [OF eq]
    have "view_sorts (notifyAdded m r d) = view_sorts ?t"
      by (intro ext) (simp add: view_sorts_def rows_of_def row_at_def g(1,2))
    then have "all_views (view_sorts ?t) ?t" using sorts g(5) by (simp add: all_views_def)
    then have "views_ok ?t" using add_views [OF ok \<open>views_ok c\<close> assms(1,2,4)] by blast
    then show "views_ok (notifyAdded m r d)" using core_views_ok [OF eq] by simp
  qed
qed

lemma usable_frame: "ic_heap d r = ic_heap c r \<Longrightarrow> usable d r = usable c r"
  by (simp add: usable_def)

lemma keeps_admit:
  assumes r: "usable c r" "row_at c (mo_id (ic_heap c r)) = None" "0 < now" "m = mo_modelName (ic_heap c r)"
    and d: "d = (if full then evictOldestBatch n c else c)"
  shows "keeps_cache c (notifyAdded m r (store_entry r scope now d))"
proof (cases "cache_ok c")
  case True
  have d': "ic_heap d r = ic_heap c r" "row_at d (mo_id (ic_heap d r)) = None"
    using evict_frame [OF True r(2)] r(2) by (simp_all add: d)
  have "keeps_cache d (notifyAdded m r (store_entry r scope now d))"
    using r d' usable_frame [OF d'(1)] by (intro keeps_store [OF _ _ _ _ refl]) simp_all
  moreover have "keeps_views c d" using keeps_evict keeps_refl by (simp add: d)
  ultimately show ?thesis using keeps_then by blast
qed (simp add: keeps_cache_def)

lemma keeps_existing:
  assumes e: "map_of (ic_entries c) i = Some e" and now: "0 < now"
  shows "keeps_cache c (upsert_existing cfg now r scope i e c)"
proof -
  define x where "x = pe_model e"
  define h where "h = ic_heap (hydrate_existing cfg r x c)"
  define obj where "obj = h x"
  define m where "m = mo_modelName (ic_heap c x)"
  define t where "t = upsert_existing cfg now r scope i e c"
  have h: "h = (ic_heap c)(x := obj)" "mo_id obj = mo_id (ic_heap c x)" "mo_modelName obj = mo_modelName (ic_heap c x)"
    "mo_disposed obj = mo_disposed (ic_heap c x)"
    by (auto simp: obj_def h_def hydrate_existing_def)
  have ent: "map_of (ic_entries (hydrate_existing cfg r x c)) i = Some e" using e by (simp add: hydrate_existing_def)
  let ?s = "set_scope i e scope now (hydrate_existing cfg r x c)"
  have s: "ic_heap ?s = h" "ic_views ?s = ic_views c" "row_at ?s = row_at c"
    using set_scope_row [OF ent] by (simp_all add: h_def set_scope_def touchAccess_def hydrate_existing_def row_at_def fun_eq_iff)
  have t: "t = notifyUpdated m x ?s"
    using s(1) h(3) by (simp add: t_def upsert_existing_def Let_def x_def [symmetric] m_def obj_def [symmetric])
  have f: "ic_heap t = h" "row_at t = row_at c" "ic_views t = map (\<lambda>(k, vs). (k, if k = m then map (handleUpdated h x) vs else vs)) (ic_views c)"
  proof -
    show "ic_heap t = h" "ic_views t = map (\<lambda>(k, vs). (k, if k = m then map (handleUpdated h x) vs else vs)) (ic_views c)"
      by (simp_all add: t notifyUpdated_def notify_views_def s(1,2))
    show "row_at t = row_at c" using s(3) by (simp add: t notifyUpdated_def notify_views_def row_at_def fun_eq_iff)
  qed
  have x: "row_at c i = Some x" using e by (simp add: row_at_def x_def)
  show ?thesis
    unfolding keeps_cache_def t_def [symmetric]
  proof (intro impI conjI)
    assume ok: "cache_ok c"
    show "cache_ok t" using set_scope_ok [OF hydrate_ok [OF ok] ent now] by (simp add: t notifyUpdated_def)
    assume "views_ok c" "all_views (view_sorts t) t"
    then show "views_ok t" using update_views [OF ok _ x m_def h f] by blast
  qed
qed

lemma ensure_frame [simp]: "ic_heap (ensure_type m c) = ic_heap c" "ic_entries (ensure_type m c) = ic_entries c" "row_at (ensure_type m c) = row_at c"
  by (simp_all add: ensure_type_def row_at_def fun_eq_iff)

lemma tracked_frame:
  "cache_core (track_addition key now (note_delta info key now c)) = cache_core c"
  by simp

lemma keeps_add:
  assumes "usable c r" "0 < now"
  shows "keeps_cache c (pool_add cfg now r scope info c)"
proof (cases "cache_ok c")
  case True
  define i where "i = mo_id (ic_heap c r)"
  define m where "m = mo_modelName (ic_heap c r)"
  define d where "d = ensure_type m c"
  have d: "cache_ok d" "keeps_views c d" "ic_heap d = ic_heap c" "row_at d = row_at c" "ic_entries d = ic_entries c"
    using ensure_type_ok [OF True] keeps_ensure by (simp_all add: d_def)
  show ?thesis
  proof (cases "live_entry d i")
    case (Some e)
    then have "map_of (ic_entries d) i = Some e" using live_is_entry [OF d(1)] by simp
    then have "keeps_views d (set_scope i e scope now d)" using keeps_scope assms(2) by blast
    moreover have "pool_add cfg now r scope info c = set_scope i e scope now d"
      using Some by (simp add: pool_add_def Let_def i_def m_def d_def)
    ultimately show ?thesis using keeps_then [OF d(2)] keeps_weak by simp
  next
    case None
    then have none: "row_at c i = None" using live_is_entry [OF d(1)] d(5) by (simp add: row_at_def)
    define b where "b = track_addition (add_key m i) now (note_delta info (add_key m i) now d)"
    note b = core_fields [OF tracked_frame [of "add_key m i" now info d], folded b_def]
    have bd: "keeps_views d b" using keeps_quiet by (simp add: b_def)
    have brow: "row_at b = row_at c" using b(2) d(5) by (simp add: row_at_def fun_eq_iff)
    show ?thesis
    proof (cases "recently_added now (add_key m i) d \<or> delta_seen info (add_key m i) d")
      case True
      then have "pool_add cfg now r scope info c = d" using None by (simp add: pool_add_def Let_def i_def m_def d_def)
      then show ?thesis using keeps_weak [OF d(2)] by simp
    next
      case False
      have e: "pool_add cfg now r scope info c =
          notifyAdded m r (store_entry r scope now (if length (ic_entries b) \<ge> px_maxSize cfg then evictOldestBatch 1 b else b))"
        using None False by (simp add: pool_add_def Let_def evictOldest_def i_def m_def d_def b_def)
      have "keeps_cache b (notifyAdded m r (store_entry r scope now (if length (ic_entries b) \<ge> px_maxSize cfg then evictOldestBatch 1 b else b)))"
        using assms none d(3) b(1) brow usable_frame [of b r c] by (intro keeps_admit [OF _ _ _ _ refl]) (simp_all add: i_def m_def)
      then show ?thesis using e keeps_then [OF d(2) keeps_then [OF bd]] by simp
    qed
  qed
qed (simp add: keeps_cache_def)

lemma keeps_upsert:
  assumes "usable c r" "0 < now"
  shows "keeps_cache c (pool_upsert cfg now r scope c)"
proof (cases "cache_ok c")
  case True
  show ?thesis
    using keeps_existing [OF _ assms(2)] keeps_add [OF assms] live_is_entry [OF True]
    by (simp add: pool_upsert_def Let_def split: option.split)
qed (simp add: keeps_cache_def)

lemma keeps_batch_add:
  assumes "usable c r" "0 < now"
  shows "keeps_cache c (snd (batch_add_one now scope r (k, c)))"
proof (cases "cache_ok c")
  case True
  define i where "i = mo_id (ic_heap c r)"
  define m where "m = mo_modelName (ic_heap c r)"
  define d where "d = ensure_type m c"
  have d: "cache_ok d" "keeps_views c d" "ic_heap d = ic_heap c" "row_at d = row_at c" "ic_entries d = ic_entries c"
    using ensure_type_ok [OF True] keeps_ensure by (simp_all add: d_def)
  show ?thesis
  proof (cases "live_entry d i")
    case (Some e)
    then have "map_of (ic_entries d) i = Some e" using live_is_entry [OF d(1)] by simp
    then have "keeps_views d (set_scope i e scope now d)" using keeps_scope assms(2) by blast
    moreover have "snd (batch_add_one now scope r (k, c)) = set_scope i e scope now d"
      using Some by (simp add: batch_add_one_def Let_def i_def m_def d_def)
    ultimately show ?thesis using keeps_then [OF d(2)] keeps_weak by simp
  next
    case None
    then have none: "row_at d i = None" using live_is_entry [OF d(1)] by (simp add: row_at_def)
    have "snd (batch_add_one now scope r (k, c)) =
        notifyAdded m r (addToForeignKeyIndex i (ic_heap (store_entry r scope now d) r) m (store_entry r scope now d))"
      using None by (simp add: batch_add_one_def Let_def i_def m_def d_def)
    moreover have "keeps_cache d (notifyAdded m r (addToForeignKeyIndex i (ic_heap (store_entry r scope now d) r) m (store_entry r scope now d)))"
      using assms none d(3) usable_frame [of d r c] by (intro keeps_store [where scope = scope and now = now]) (simp_all add: i_def m_def)
    ultimately show ?thesis using keeps_then [OF d(2)] by simp
  qed
qed (simp add: keeps_cache_def)

lemma keeps_batch_upsert:
  assumes "usable c r" "0 < now"
  shows "keeps_cache c (batch_upsert_one cfg now scope r c)"
proof (cases "cache_ok c")
  case True
  define i where "i = mo_id (ic_heap c r)"
  define m where "m = mo_modelName (ic_heap c r)"
  define d where "d = ensure_type m c"
  show ?thesis
  proof (cases "live_entry c i")
    case (Some e)
    then have "batch_upsert_one cfg now scope r c = upsert_existing cfg now r scope i e c"
      by (simp add: batch_upsert_one_def Let_def i_def)
    then show ?thesis using keeps_existing [OF _ assms(2)] Some live_is_entry [OF True] by simp
  next
    case None
    then have none: "row_at d i = None" using live_is_entry [OF True] by (simp add: row_at_def d_def)
    have "batch_upsert_one cfg now scope r c =
        notifyAdded m r (store_entry r scope now (if length (ic_entries d) \<ge> px_maxSize cfg then evictOldestBatch 1 d else d))"
      using None by (simp add: batch_upsert_one_def Let_def evictOldest_def i_def m_def d_def)
    moreover have "keeps_cache d (notifyAdded m r (store_entry r scope now (if length (ic_entries d) \<ge> px_maxSize cfg then evictOldestBatch 1 d else d)))"
      using assms none usable_frame [of d r c] by (intro keeps_admit [OF _ _ _ _ refl]) (simp_all add: i_def m_def d_def)
    ultimately show ?thesis using keeps_then [OF keeps_ensure [of c m]] by (simp add: d_def)
  qed
qed (simp add: keeps_cache_def)

lemma keeps_get: "0 < now \<Longrightarrow> keeps_views c (snd (pool_get now i c))"
  using keeps_touch [of c i now] keeps_refl
  by (auto simp: pool_get_def live_entry_def row_at_def split: option.split)

lemma keeps_sweep: "0 < now \<Longrightarrow> keeps_views c (gc cfg now c)"
proof -
  assume now: "0 < now"
  have touches: "keeps_views c (fold (\<lambda>i. touchAccess i now) ids c)" if "set ids \<subseteq> fst ` set (ic_entries c)" for ids
    using that
  proof (induction ids arbitrary: c)
    case (Cons i ids)
    have e: "ic_entries (touchAccess i now c) = ic_entries c" by (simp add: touchAccess_def)
    have "keeps_views c (touchAccess i now c)" using Cons.prems keeps_touch now by (simp add: row_at_dom)
    then show ?case using Cons.IH [of "touchAccess i now c"] Cons.prems e by (simp add: keeps_views_def)
  qed (simp add: keeps_refl)
  let ?due = "filter (expired cfg now c) (map fst (ic_entries c))"
  let ?c1 = "fold (\<lambda>i. touchAccess i now) (filter (\<lambda>i. \<not> evictable c i) ?due) c"
  let ?c2 = "fold (\<lambda>i c. snd (pool_remove i c)) (filter (evictable c) ?due) ?c1"
  have "keeps_views c ?c1" by (rule touches) auto
  moreover have "keeps_views ?c1 ?c2" by (rule keeps_removes)
  moreover have "keeps_views ?c2 (gc cfg now c)" by (rule keeps_quiet) (simp add: gc_def Let_def)
  ultimately show ?thesis by (simp add: keeps_views_def)
qed

text \<open>An instance that is not pooled may change at any time.\<close>

lemma keeps_outside:
  assumes "\<forall>i. row_at c i \<noteq> Some r"
  shows "keeps_views c (c\<lparr>ic_heap := (ic_heap c)(r := obj)\<rparr>)"
proof -
  let ?d = "c\<lparr>ic_heap := (ic_heap c)(r := obj)\<rparr>"
  have row: "row_at ?d = row_at c" by (rule ext) (simp add: row_at_def)
  have rows: "rows_of ?d t = rows_of c t" for t using assms unfolding rows_of_def row by (auto split: if_splits)
  have out: "\<forall>q \<in> rows_of c t. ic_heap ?d q = ic_heap c q" for t using assms by (auto simp: rows_of_def)
  have "cache_ok ?d" if "cache_ok c" using assms by (intro heap_ok [OF that]) auto
  moreover have "view_current ?d t v" if "view_current c t v" for t v
    using that exact_heap_cong [OF _ out] unfolding view_current_def rows by blast
  moreover have "view_sorts ?d t v = view_sorts c t v" for t v unfolding view_sorts_def rows by (rule sortable_cong [OF out])
  ultimately show ?thesis by (simp add: keeps_views_def views_ok_def all_views_def)
qed

subsection \<open>Clearing\<close>

lemma dispose_fold_frame:
  "ic_entries (fold (\<lambda>(i, e). dispose_at (pe_model e)) xs c) = ic_entries c"
  "ic_foreignKeyIndexes (fold (\<lambda>(i, e). dispose_at (pe_model e)) xs c) = ic_foreignKeyIndexes c"
  "r \<notin> pe_model ` snd ` set xs \<Longrightarrow> ic_heap (fold (\<lambda>(i, e). dispose_at (pe_model e)) xs c) r = ic_heap c r"
  by (induction xs arbitrary: c) (auto simp: dispose_at_def)

lemma kept_index:
  assumes "rows_ok c" "types_ok c" "distinct (map fst (ic_typeIndex c))" "distinct (map fst (ic_entries c @ kept))"
    and "\<forall>(i, e) \<in> set kept. usable c (pe_model e) \<and> mo_id (ic_heap c (pe_model e)) = i"
  defines "d \<equiv> fold (\<lambda>(i, e) c. addToTypeIndex i (mo_modelName (ic_heap c (pe_model e))) (c\<lparr>ic_entries := AList.update i e (ic_entries c)\<rparr>)) kept c"
  shows "rows_ok d \<and> types_ok d \<and> distinct (map fst (ic_typeIndex d)) \<and> ic_entries d = ic_entries c @ kept \<and> ic_accessTimes d = ic_accessTimes c"
  using assms(1-5) unfolding d_def
proof (induction kept arbitrary: c)
  case (Cons p kept)
  obtain i e where p: "p = (i, e)" by fastforce
  define r where "r = pe_model e"
  define m where "m = mo_modelName (ic_heap c r)"
  define b where "b = addToTypeIndex i m (c\<lparr>ic_entries := AList.update i e (ic_entries c)\<rparr>)"
  have r: "usable c r" "mo_id (ic_heap c r) = i" "m \<noteq> []" using Cons.prems(5) p by (auto simp: r_def m_def usable_def)
  have new: "i \<notin> fst ` set (ic_entries c)" using Cons.prems(4) p by auto
  note f = core_fields [OF type_index_core [OF r(3), of i "c\<lparr>ic_entries := AList.update i e (ic_entries c)\<rparr>"], folded b_def]
  have ent: "ic_entries b = ic_entries c @ [(i, e)]" using f(2) alist_update_new [OF new] by simp
  have row: "row_at b j = (if j = i then Some r else row_at c j)" for j using f(2) by (simp add: row_at_def update_conv' r_def)
  have "rows_ok b \<and> types_ok b"
    by (rule indexed_ok [OF Cons.prems(1,2) r(1) _ r(2) [symmetric] m_def])
       (use new f(1,3) row in \<open>simp_all add: row_at_dom type_ids_def lookup_set_update\<close>)
  moreover have "distinct (map fst (ic_typeIndex b))" using f(3) Cons.prems(3) by (simp add: distinct_update)
  moreover have "\<forall>(i, e) \<in> set kept. usable b (pe_model e) \<and> mo_id (ic_heap b (pe_model e)) = i"
    using Cons.prems(5) f(1) by (auto simp: usable_def)
  moreover have "distinct (map fst (ic_entries b @ kept))" using Cons.prems(4) ent p by simp
  ultimately show ?case
    using Cons.IH [of b] ent f(4) by (simp add: p b_def m_def r_def)
qed simp

lemma touch_fold:
  "distinct (map fst (ic_accessTimes x @ ts)) \<Longrightarrow> fold (\<lambda>(i, t). touchAccess i t) ts x = x\<lparr>ic_accessTimes := ic_accessTimes x @ ts\<rparr>"
proof (induction ts arbitrary: x)
  case (Cons p ts)
  obtain i t where p: "p = (i, t)" by fastforce
  have "i \<notin> fst ` set (ic_accessTimes x)" using Cons.prems p by auto
  then have "touchAccess i t x = x\<lparr>ic_accessTimes := ic_accessTimes x @ [p]\<rparr>"
    by (simp add: touchAccess_def p AList.delete_eq) (metis (mono_tags, lifting) case_prod_unfold filter_True image_eqI)
  then show ?case using Cons.IH [of "x\<lparr>ic_accessTimes := ic_accessTimes x @ [p]\<rparr>"] Cons.prems by (simp add: p)
qed simp

definition stamp_of :: "(string \<times> int) list \<Rightarrow> string \<times> pool_entry \<Rightarrow> (string \<times> int) option" where
  "stamp_of stampl = (\<lambda>(i, _). case map_of stampl i of None \<Rightarrow> None | Some t \<Rightarrow> if t = 0 then None else Some (i, t))"

lemma stamps_of_kept:
  assumes "\<forall>p \<in> set ks. fst p \<in> fst ` set stampl" and "\<forall>p \<in> set stampl. 0 < snd p"
  shows "map fst (List.map_filter (stamp_of stampl) ks) = map fst ks \<and> (\<forall>p \<in> set (List.map_filter (stamp_of stampl) ks). 0 < snd p)"
  using assms(1)
proof (induction ks)
  case (Cons k ks)
  obtain i e where k: "k = (i, e)" by fastforce
  have "i \<in> fst ` set stampl" using Cons.prems k by simp
  then obtain t where t: "map_of stampl i = Some t" by (meson map_of_eq_None_iff not_None_eq)
  then have "0 < t" using assms(2) by (force dest: map_of_SomeD)
  then have "stamp_of stampl k = Some (i, t)" using t by (simp add: stamp_of_def k)
  then show ?case using Cons \<open>0 < t\<close> by (simp add: map_filter_simps k)
qed (simp add: map_filter_simps)

text \<open>The rows a clear keeps are untouched by the disposal of the others.\<close>

lemma kept_untouched:
  assumes ok: "cache_ok c" and ie: "(i, e) \<in> set (ic_entries c)" "keep e"
  shows "ic_heap (fold (\<lambda>(_, e). dispose_at (pe_model e)) (filter (\<lambda>(_, e). \<not> keep e) (ic_entries c)) c) (pe_model e) = ic_heap c (pe_model e)"
proof (rule dispose_fold_frame(3))
  have dist: "distinct (map fst (ic_entries c))" using ok by (simp add: cache_ok_def keys_ok_def)
  have e: "row_at c i = Some (pe_model e)" using ie dist by (simp add: row_at_def)
  have "pe_model e \<noteq> pe_model e'" if je: "(j, e') \<in> set (ic_entries c)" "\<not> keep e'" for j e'
  proof
    assume eq: "pe_model e = pe_model e'"
    have "row_at c j = Some (pe_model e')" using je(1) dist by (simp add: row_at_def)
    then have "i = j" using rows_distinct [OF ok e] eq by simp
    then have "e = e'" using ie(1) je(1) dist by (metis map_of_eq_Some_iff option.inject)
    then show False using ie(2) je(2) by simp
  qed
  then show "pe_model e \<notin> pe_model ` snd ` set (filter (\<lambda>(_, e). \<not> keep e) (ic_entries c))" by fastforce
qed

lemma clear_ok:
  assumes ok: "cache_ok c"
  shows "cache_ok (pool_clear preserve c)"
proof -
  define keep where "keep e = (preserve \<and> mo_observed (ic_heap c (pe_model e)))" for e :: pool_entry
  define kept where "kept = filter (\<lambda>(_, e). keep e) (ic_entries c)"
  define c1 where "c1 = fold (\<lambda>(_, e). dispose_at (pe_model e)) (filter (\<lambda>(_, e). \<not> keep e) (ic_entries c)) c"
  define c2 where "c2 = c1\<lparr>ic_entries := [], ic_typeIndex := [], ic_foreignKeyIndexes := map (\<lambda>(key, _). (key, [])) (ic_foreignKeyIndexes c1),
    ic_recentAdditions := [], ic_earliestRecentAddition := None, ic_deltaHistory := [], ic_accessTimes := []\<rparr>"
  define c3 where "c3 = fold (\<lambda>(i, e) c. addToTypeIndex i (mo_modelName (ic_heap c (pe_model e)))
    (c\<lparr>ic_entries := AList.update i e (ic_entries c)\<rparr>)) kept c2"
  define stampl where "stampl = List.map_filter (stamp_of (ic_accessTimes c)) kept"
  have result: "pool_clear preserve c = fold (\<lambda>(i, t). touchAccess i t) stampl c3"
    by (simp add: pool_clear_def Let_def keep_def kept_def c1_def c2_def c3_def stampl_def stamp_of_def)
  have dist: "distinct (map fst (ic_entries c))" and stamps: "fst ` set (ic_accessTimes c) = fst ` set (ic_entries c)" "\<forall>p \<in> set (ic_accessTimes c). 0 < snd p"
    using ok by (auto simp: cache_ok_def keys_ok_def)
  have "usable c2 (pe_model e) \<and> mo_id (ic_heap c2 (pe_model e)) = i" if ie: "(i, e) \<in> set kept" for i e
  proof -
    have e: "(i, e) \<in> set (ic_entries c)" "keep e" using ie by (auto simp: kept_def)
    have "row_at c i = Some (pe_model e)" using e(1) dist by (simp add: row_at_def)
    moreover have "ic_heap c2 (pe_model e) = ic_heap c (pe_model e)" using kept_untouched [where keep = keep, OF ok e] by (simp add: c2_def c1_def)
    ultimately show ?thesis using ok by (simp add: cache_ok_def rows_ok_def usable_def)
  qed
  then have keptrows: "\<forall>(i, e) \<in> set kept. usable c2 (pe_model e) \<and> mo_id (ic_heap c2 (pe_model e)) = i" by blast
  have distk: "distinct (map fst kept)" using dist unfolding kept_def by (rule distinct_map_filter)
  have c2: "rows_ok c2" "types_ok c2" "distinct (map fst (ic_typeIndex c2))" "distinct (map fst (ic_entries c2 @ kept))" "ic_entries c2 = []"
    "ic_accessTimes c2 = []"
    using distk by (simp_all add: c2_def rows_ok_def types_ok_def row_at_def type_ids_def lookup_set_def)
  have c3: "rows_ok c3" "types_ok c3" "distinct (map fst (ic_typeIndex c3))" "ic_entries c3 = kept" "ic_accessTimes c3 = []"
    using kept_index [OF c2(1-4) keptrows] c2(5,6) by (simp_all add: c3_def)
  have tt: "map fst stampl = map fst kept" "\<forall>p \<in> set stampl. 0 < snd p"
    using stamps_of_kept [OF _ stamps(2), of kept] stamps(1) by (force simp: stampl_def kept_def)+
  have final: "pool_clear preserve c = c3\<lparr>ic_accessTimes := stampl\<rparr>"
    using touch_fold [of c3 stampl] c3(5) tt(1) distk by (simp add: result)
  have "fst ` set stampl = fst ` set kept" using tt(1) by (metis set_map)
  then have "keys_ok (c3\<lparr>ic_accessTimes := stampl\<rparr>)" using c3 distk tt by (simp add: keys_ok_def)
  then show ?thesis
    using c3(1,2) unfolding final cache_ok_def rows_ok_def types_ok_def row_at_def type_ids_def by simp
qed

end
