(* ===== verification/InstanceCacheProperties.thy ===== *)
theory InstanceCacheProperties
  imports InstanceCacheInvariants
begin

section \<open>Runs of the instance cache\<close>

text \<open>
  The calls the client makes of \<open>InstanceCache.ts\<close> as a labelled system, the two invariants along its
  runs, the order of eviction, and the runs in which a view or an index goes stale.
\<close>

subsection \<open>Runs of the cache\<close>

text \<open>
  What the rest of the client asks of the cache, one event per call. \<open>PoolObserve\<close> is a reader
  attaching to or leaving an instance, \<open>PoolOutside\<close> a write to an instance the cache does not hold.
\<close>

datatype cache_event =
    PoolAdd nat model_scope "DeltaInfo option"
  | PoolUpsert nat model_scope
  | PoolAddBatch "nat list" model_scope
  | PoolUpsertBatch "nat list" model_scope
  | PoolRemove string
  | PoolRemoveBatch "string list"
  | PoolRemoveArchived string
  | PoolSetScope string model_scope
  | PoolGet string
  | PoolTouch string
  | PoolSweep
  | PoolRegisterKey string string
  | PoolOpenView string view_options
  | PoolCloseView string nat
  | PoolObserve nat bool
  | PoolOutside nat model_obj
  | PoolClear bool

definition observe_at :: "nat \<Rightarrow> bool \<Rightarrow> instance_cache \<Rightarrow> instance_cache" where
  "observe_at r b c = c\<lparr>ic_heap := (ic_heap c)(r := (ic_heap c r)\<lparr>mo_observed := b\<rparr>)\<rparr>"

fun cache_do :: "pool_config \<Rightarrow> int \<Rightarrow> cache_event \<Rightarrow> instance_cache \<Rightarrow> instance_cache" where
  "cache_do cfg now (PoolAdd r scope info) c = pool_add cfg now r scope info c"
| "cache_do cfg now (PoolUpsert r scope) c = pool_upsert cfg now r scope c"
| "cache_do cfg now (PoolAddBatch rs scope) c = snd (addBatch cfg now rs scope c)"
| "cache_do cfg now (PoolUpsertBatch rs scope) c = upsertBatch cfg now rs scope c"
| "cache_do cfg now (PoolRemove i) c = snd (pool_remove i c)"
| "cache_do cfg now (PoolRemoveBatch ids) c = snd (removeBatch ids c)"
| "cache_do cfg now (PoolRemoveArchived i) c = snd (removeFromArchive i c)"
| "cache_do cfg now (PoolSetScope i scope) c = updateScope i scope now c"
| "cache_do cfg now (PoolGet i) c = snd (pool_get now i c)"
| "cache_do cfg now (PoolTouch i) c = snd (pool_touch i now c)"
| "cache_do cfg now PoolSweep c = gc cfg now c"
| "cache_do cfg now (PoolRegisterKey m field) c = registerForeignKey m field c"
| "cache_do cfg now (PoolOpenView m opts) c = snd (createView m opts c)"
| "cache_do cfg now (PoolCloseView m k) c = unregister_view m k c"
| "cache_do cfg now (PoolObserve r b) c = observe_at r b c"
| "cache_do cfg now (PoolOutside r obj) c = c\<lparr>ic_heap := (ic_heap c)(r := obj)\<rparr>"
| "cache_do cfg now (PoolClear preserve) c = pool_clear preserve c"

text \<open>A batch goes well when each instance is usable in its turn and each row leaves a good state.\<close>

fun batch_goes :: "(nat \<Rightarrow> instance_cache \<Rightarrow> instance_cache) \<Rightarrow> (instance_cache \<Rightarrow> bool) \<Rightarrow> nat list \<Rightarrow> instance_cache \<Rightarrow> bool" where
  "batch_goes f good [] c = True"
| "batch_goes f good (r # rs) c = (usable c r \<and> good (f r c) \<and> batch_goes f good rs (f r c))"

definition make_room :: "pool_config \<Rightarrow> nat list \<Rightarrow> instance_cache \<Rightarrow> instance_cache" where
  "make_room cfg models c =
     (let newIds = remdups (filter (\<lambda>i. live_entry c i = None) (map (\<lambda>r. mo_id (ic_heap c r)) models));
          capacityNeeded = length (ic_entries c) + length newIds - px_maxSize cfg
      in if models \<noteq> [] \<and> capacityNeeded > 0 then evictOldestBatch capacityNeeded c else c)"

definition add_row :: "int \<Rightarrow> model_scope \<Rightarrow> nat \<Rightarrow> instance_cache \<Rightarrow> instance_cache" where
  "add_row now scope r c = snd (batch_add_one now scope r (0, c))"

definition good_views :: "instance_cache \<Rightarrow> bool" where
  "good_views c = all_views (view_sorts c) c"

text \<open>The guards of the two kinds of run: instances are usable; and rows can be sorted by the open views.\<close>

definition event_usable :: "pool_config \<Rightarrow> int \<Rightarrow> cache_event \<Rightarrow> instance_cache \<Rightarrow> bool" where
  "event_usable cfg now ev c = (0 < now \<and> (case ev of
      PoolAdd r _ _ \<Rightarrow> usable c r
    | PoolUpsert r _ \<Rightarrow> usable c r
    | PoolAddBatch rs scope \<Rightarrow> batch_goes (add_row now scope) (\<lambda>_. True) rs (make_room cfg rs c)
    | PoolUpsertBatch rs scope \<Rightarrow> batch_goes (batch_upsert_one cfg now scope) (\<lambda>_. True) rs c
    | PoolOutside r _ \<Rightarrow> r \<notin> pe_model ` snd ` set (ic_entries c)
    | _ \<Rightarrow> True))"

definition opens_whole_type :: "string \<Rightarrow> view_options \<Rightarrow> instance_cache \<Rightarrow> bool" where
  "opens_whole_type m opts c = (let v = view_of_options m (hasForeignKeyIndex c m) opts in
     qv_fk v = None \<and> list_all (\<lambda>(_, e). mo_modelName (ic_heap c (pe_model e)) = m \<longrightarrow> matchesScope (pe_scope e) (qv_scope v)) (ic_entries c))"

definition event_sortable :: "pool_config \<Rightarrow> int \<Rightarrow> cache_event \<Rightarrow> instance_cache \<Rightarrow> bool" where
  "event_sortable cfg now ev c = (event_usable cfg now ev c \<and> (case ev of
      PoolAddBatch rs scope \<Rightarrow> batch_goes (add_row now scope) good_views rs (make_room cfg rs c)
    | PoolUpsertBatch rs scope \<Rightarrow> batch_goes (batch_upsert_one cfg now scope) good_views rs c
    | PoolOpenView m opts \<Rightarrow> opens_whole_type m opts c \<and> good_views (cache_do cfg now ev c)
    | PoolObserve r b \<Rightarrow> all_views (\<lambda>_ v. matchesFilter v ((ic_heap c r)\<lparr>mo_observed := b\<rparr>) = matchesFilter v (ic_heap c r)) c
    | PoolClear _ \<Rightarrow> False
    | _ \<Rightarrow> good_views (cache_do cfg now ev c)))"

inductive cache_step :: "pool_config \<Rightarrow> instance_cache \<Rightarrow> cache_event list \<Rightarrow> instance_cache \<Rightarrow> bool" for cfg where
  cache_event: "event_usable cfg now ev c \<Longrightarrow> cache_step cfg c [ev] (cache_do cfg now ev c)"

inductive view_step :: "pool_config \<Rightarrow> instance_cache \<Rightarrow> cache_event list \<Rightarrow> instance_cache \<Rightarrow> bool" for cfg where
  view_event: "event_sortable cfg now ev c \<Longrightarrow> view_step cfg c [ev] (cache_do cfg now ev c)"

inductive_cases cache_stepE: "cache_step cfg c l t"
inductive_cases view_stepE: "view_step cfg c l t"

definition fresh_cache :: "instance_cache \<Rightarrow> bool" where
  "fresh_cache c = (\<exists>h. c = new_cache h)"

lemma keeps_batch:
  assumes step: "\<And>r c. usable c r \<Longrightarrow> keeps_cache c (f r c)" and "batch_goes f good rs c"
    and good: "good = (\<lambda>_. True) \<or> good = good_views"
  shows "cache_ok c \<Longrightarrow> cache_ok (fold f rs c)" and "good = good_views \<Longrightarrow> cache_ok c \<Longrightarrow> views_ok c \<Longrightarrow> views_ok (fold f rs c)"
proof -
  have "(cache_ok c \<longrightarrow> cache_ok (fold f rs c)) \<and> (good = good_views \<longrightarrow> cache_ok c \<longrightarrow> views_ok c \<longrightarrow> views_ok (fold f rs c))"
    using assms(2)
  proof (induction rs arbitrary: c)
    case (Cons r rs)
    have "keeps_cache c (f r c)" using step Cons.prems by simp
    moreover have "good_views (f r c)" if "good = good_views" using Cons.prems that by simp
    ultimately show ?case using Cons.IH [of "f r c"] Cons.prems by (auto simp: keeps_cache_def good_views_def)
  qed simp
  then show "cache_ok c \<Longrightarrow> cache_ok (fold f rs c)" "good = good_views \<Longrightarrow> cache_ok c \<Longrightarrow> views_ok c \<Longrightarrow> views_ok (fold f rs c)"
    by blast+
qed

lemma addBatch_is: "snd (addBatch cfg now rs scope c) = fold (add_row now scope) rs (make_room cfg rs c)"
proof -
  have same: "snd (batch_add_one now scope r (n, c)) = add_row now scope r c" for r n c
    by (simp add: batch_add_one_def add_row_def Let_def split: option.split)
  have "snd (fold (batch_add_one now scope) rs p) = fold (add_row now scope) rs (snd p)" for p
    by (induction rs arbitrary: p) (simp_all, metis same prod.collapse)
  then show ?thesis by (auto simp: addBatch_def make_room_def Let_def)
qed


lemma keeps_room: "keeps_views c (make_room cfg rs c)"
  using keeps_evict keeps_refl by (simp add: make_room_def Let_def)

lemma keeps_add_batch:
  assumes "batch_goes (add_row now scope) good rs (make_room cfg rs c)" "0 < now" "good = (\<lambda>_. True) \<or> good = good_views"
  shows "cache_ok c \<Longrightarrow> cache_ok (snd (addBatch cfg now rs scope c))"
    and "good = good_views \<Longrightarrow> cache_ok c \<Longrightarrow> views_ok c \<Longrightarrow> views_ok (snd (addBatch cfg now rs scope c))"
proof -
  have step: "usable c r \<Longrightarrow> keeps_cache c (add_row now scope r c)" for r c using keeps_batch_add [OF _ assms(2)] by (simp add: add_row_def)
  note fold = keeps_batch [OF step assms(1,3)]
  show "cache_ok c \<Longrightarrow> cache_ok (snd (addBatch cfg now rs scope c))"
    "good = good_views \<Longrightarrow> cache_ok c \<Longrightarrow> views_ok c \<Longrightarrow> views_ok (snd (addBatch cfg now rs scope c))"
    using fold keeps_room [of c cfg rs] by (simp_all add: addBatch_is keeps_views_def)
qed

lemma keeps_remove_one: "keeps_views c (snd (pool_remove i c))"
  using keeps_removes [of c "[i]"] by simp

lemma removeBatch_is: "snd (removeBatch ids c) = fold (\<lambda>i c. snd (pool_remove i c)) ids c"
proof -
  have "snd (fold (\<lambda>i (n, c). case pool_remove i c of (removed, c1) \<Rightarrow> (if removed then Suc n else n, c1)) ids p) =
      fold (\<lambda>i c. snd (pool_remove i c)) ids (snd p)" for p
    by (induction ids arbitrary: p) (simp_all add: split_def)
  then show ?thesis by (simp add: removeBatch_def)
qed

lemma keeps_archive_removal: "keeps_views c (snd (removeFromArchive i c))"
  using keeps_refl keeps_remove_one by (simp add: removeFromArchive_def split: option.split)

lemma keeps_set_scope: "0 < now \<Longrightarrow> keeps_views c (updateScope i scope now c)"
  using keeps_refl keeps_scope by (simp add: updateScope_def split: option.split)

lemma keeps_pool_touch: "0 < now \<Longrightarrow> keeps_views c (snd (pool_touch i now c))"
  using keeps_refl keeps_touch [of c i now] by (simp add: pool_touch_def row_at_def)

lemma observed_ok: "cache_ok c \<Longrightarrow> cache_ok (observe_at r b c)"
  by (auto simp: observe_at_def intro!: heap_ok split: if_splits)

lemma observed_fields: "getField (m\<lparr>mo_observed := b\<rparr>) = getField m" "mo_id (m\<lparr>mo_observed := b\<rparr>) = mo_id m"
  "mo_modelName (m\<lparr>mo_observed := b\<rparr>) = mo_modelName m"
  by (simp_all add: getField_def fun_eq_iff)

text \<open>Views see an instance through its fields and their filters.\<close>

lemma exact_alike:
  assumes "view_exact h R v" and "\<And>q. getField (h' q) = getField (h q)" and "\<And>q. matchesFilter v (h' q) = matchesFilter v (h q)"
  shows "view_exact h' R v"
  using assms by (simp add: view_exact_def view_sorted_def)

lemma keeps_observed:
  assumes "all_views (\<lambda>_ v. matchesFilter v ((ic_heap c r)\<lparr>mo_observed := b\<rparr>) = matchesFilter v (ic_heap c r)) c" "views_ok c"
  shows "views_ok (observe_at r b c)"
proof -
  let ?d = "observe_at r b c"
  have row: "row_at ?d = row_at c" "ic_views ?d = ic_views c" by (simp_all add: observe_at_def row_at_def fun_eq_iff)
  have f: "getField (ic_heap ?d q) = getField (ic_heap c q)" "mo_modelName (ic_heap ?d q) = mo_modelName (ic_heap c q)" for q
    by (simp_all add: observe_at_def observed_fields)
  have rows: "rows_of ?d = rows_of c" by (simp add: rows_of_def row f fun_eq_iff)
  have sorts: "view_sorts ?d = view_sorts c" by (intro ext) (simp add: view_sorts_def rows sortable_def f)
  have "view_current ?d t v" if "view_current c t v" and "matchesFilter v ((ic_heap c r)\<lparr>mo_observed := b\<rparr>) = matchesFilter v (ic_heap c r)" for t v
    using that exact_alike [of "ic_heap c" "rows_of c t" v "ic_heap ?d"] f(1) by (simp add: view_current_def rows, simp add: observe_at_def)
  then show ?thesis using assms by (auto simp: views_ok_def all_views_def row sorts)
qed

text \<open>The rows of a type: the scan of the type index finds each once.\<close>

lemma map_filter_cong_set: "(\<And>x. x \<in> set xs \<Longrightarrow> f x = g x) \<Longrightarrow> List.map_filter f xs = List.map_filter g xs"
  by (induction xs) (simp_all add: map_filter_simps split: option.split)

lemma set_map_filter_eq: "set (List.map_filter f xs) = {y. \<exists>x \<in> set xs. f x = Some y}"
  by (induction xs) (auto simp: map_filter_simps split: option.split)

lemma set_update_subset: "set (AList.update k v al) \<subseteq> insert (k, v) (set al)"
  by (induction al) auto

lemma resolve_whole:
  assumes ok: "cache_ok c" and whole: "\<forall>(i, e) \<in> set (ic_entries c). mo_modelName (ic_heap c (pe_model e)) = m \<longrightarrow> matchesScope (pe_scope e) scope"
  shows "distinct (getByTypeName m scope c) \<and> set (getByTypeName m scope c) = rows_of c m"
proof -
  have t: "distinct (type_ids c m)" "i \<in> set (type_ids c m) \<longleftrightarrow> (\<exists>r. row_at c i = Some r \<and> mo_modelName (ic_heap c r) = m)" for i
    using ok by (auto simp: cache_ok_def types_ok_def)
  have get: "getByTypeName m scope c = List.map_filter (row_at c) (type_ids c m)"
    unfolding getByTypeName_def resolve_ids_def type_ids_def [symmetric]
  proof (rule map_filter_cong_set)
    fix i assume "i \<in> set (type_ids c m)"
    then obtain r where r: "row_at c i = Some r" "mo_modelName (ic_heap c r) = m" using t(2) by blast
    then obtain e where e: "map_of (ic_entries c) i = Some e" "r = pe_model e" by (auto simp: row_at_def)
    have "matchesScope (pe_scope e) scope" using whole map_of_SomeD [OF e(1)] e(2) r(2) by fastforce
    moreover have "\<not> mo_disposed (ic_heap c r)" using ok r(1) by (simp add: cache_ok_def rows_ok_def)
    ultimately show "(case map_of (ic_entries c) i of None \<Rightarrow> None
        | Some e \<Rightarrow> if matchesScope (pe_scope e) scope \<and> \<not> mo_disposed (ic_heap c (pe_model e)) then Some (pe_model e) else None) = row_at c i"
      using e r by simp
  qed
  have "distinct (List.map_filter (row_at c) ids)" if "distinct ids" for ids
    using that
  proof (induction ids)
    case (Cons i ids)
    have "r \<notin> set (List.map_filter (row_at c) ids)" if "row_at c i = Some r" for r
      using rows_distinct [OF ok that] Cons.prems unfolding set_map_filter_eq by auto
    then show ?case using Cons by (simp add: map_filter_simps split: option.split)
  qed (simp add: map_filter_simps)
  then have "distinct (getByTypeName m scope c)" using t(1) by (simp add: get)
  moreover have "set (getByTypeName m scope c) = rows_of c m" unfolding get set_map_filter_eq rows_of_def using t(2) by fastforce
  ultimately show ?thesis by blast
qed


lemma register_members:
  assumes "p \<in> set (ic_views (register_view v c))" "w \<in> set (snd p)"
  shows "(fst p, w) = (qv_typename v, v) \<or> (\<exists>q \<in> set (ic_views c). fst q = fst p \<and> w \<in> set (snd q))"
proof -
  let ?new = "(qv_typename v, lookup_set (qv_typename v) (ic_views c) @ [v])"
  have "p \<in> insert ?new (set (ic_views c))" using assms(1) set_update_subset by (fastforce simp: register_view_def)
  then consider "p = ?new" | "p \<in> set (ic_views c)" by blast
  then show ?thesis
  proof cases
    case 1
    then consider "w = v" | "w \<in> set (lookup_set (qv_typename v) (ic_views c))" using assms(2) by auto
    then show ?thesis
    proof cases
      case 2
      then obtain ws where "map_of (ic_views c) (qv_typename v) = Some ws" "w \<in> set ws"
        by (cases "map_of (ic_views c) (qv_typename v)") (simp_all add: lookup_set_def)
      then show ?thesis using 1 by (force dest: map_of_SomeD)
    qed (use 1 in simp)
  qed (use assms(2) in blast)
qed

lemma opened_views:
  assumes ok: "cache_ok c" "views_ok c" and whole: "opens_whole_type m opts c" and good: "good_views (snd (createView m opts c))"
  shows "views_ok (snd (createView m opts c))"
proof -
  define v where "v = view_of_options m (hasForeignKeyIndex c m) opts"
  define cs where "cs = getByTypeName m (qv_scope v) c"
  define w where "w = initialScan (ic_heap c) cs v"
  have v: "qv_fk v = None" "\<not> qv_disposed v" "qv_typename v = m"
    using whole by (simp_all add: opens_whole_type_def Let_def v_def) (simp_all add: view_of_options_def Let_def)
  have d: "snd (createView m opts c) = register_view w c" using v(1) by (simp add: createView_def Let_def v_def [symmetric] w_def cs_def)
  have cs: "distinct cs" "set cs = rows_of c m"
    using resolve_whole [OF ok(1), of m "qv_scope v"] whole by (auto simp: opens_whole_type_def Let_def v_def cs_def list_all_iff)
  have w: "qv_typename w = m" "same_config w v" using v(3) handlers_config(1) by (simp_all add: w_def initialScan_def Let_def syncWindow_def)
  let ?d = "register_view w c"
  have f: "ic_heap ?d = ic_heap c" "row_at ?d = row_at c" by (simp_all add: register_view_def row_at_def fun_eq_iff)
  then have rows: "rows_of ?d = rows_of c" by (simp add: rows_of_def fun_eq_iff)
  have sorts: "all_views (view_sorts ?d) ?d" using good by (simp add: good_views_def d)
  have "(m, lookup_set m (ic_views c) @ [w]) \<in> set (ic_views ?d)"
    using update_Some_unfold [of m] w(1) by (simp add: register_view_def map_of_SomeD update_conv')
  then have "view_sorts ?d m w" using sorts by (fastforce simp: all_views_def)
  then have "sortable v (ic_heap c) (set cs)" using same_configD(6) [OF w(2)] by (simp add: view_sorts_def rows f cs)
  then have "view_current c m w"
    using initialScan_exact [OF cs(1)] v(2) same_configD(4) [OF w(2)] by (simp add: view_current_def w_def cs(2))
  then have "view_current ?d (fst p) u" if "p \<in> set (ic_views ?d)" "u \<in> set (snd p)" for p u
    using register_members [OF that] ok(2) w(1) by (auto simp: view_current_def rows f views_ok_def all_views_def)
  then show ?thesis using sorts by (simp add: d views_ok_def all_views_def)
qed

lemma keeps_opening: "cache_ok (snd (createView m opts c)) = cache_ok c"
  by (simp add: createView_def Let_def register_view_def cache_ok_def keys_ok_def rows_ok_def types_ok_def row_at_def type_ids_def)

lemma keeps_closing: "keeps_views c (unregister_view m k c)"
proof -
  let ?d = "unregister_view m k c"
  have f: "ic_heap ?d = ic_heap c" "ic_entries ?d = ic_entries c" "ic_typeIndex ?d = ic_typeIndex c" "ic_accessTimes ?d = ic_accessTimes c"
    by (simp_all add: unregister_view_def Let_def)
  have row: "row_at ?d = row_at c" by (simp add: row_at_def f fun_eq_iff)
  have rows: "rows_of ?d = rows_of c" by (simp add: rows_of_def row f fun_eq_iff)
  have sub: "\<exists>q \<in> set (ic_views c). fst q = fst p \<and> set (snd p) \<subseteq> set (snd q)" if p: "p \<in> set (ic_views ?d)" for p
  proof (cases "map_of (ic_views c) m")
    case None
    then show ?thesis using p by (auto simp: unregister_view_def Let_def)
  next
    case (Some ws)
    let ?left = "take k ws @ drop (Suc k) ws"
    have e: "ic_views ?d = (if ?left = [] then AList.delete m (ic_views c) else AList.update m ?left (ic_views c))"
      using Some by (simp add: unregister_view_def Let_def lookup_set_def)
    have left: "set ?left \<subseteq> set ws" using set_take_subset [of k ws] set_drop_subset [of "Suc k" ws] by simp
    have "set (AList.delete m (ic_views c)) \<subseteq> set (ic_views c)" by (auto simp: alist_set_delete)
    then consider "p = (m, ?left)" | "p \<in> set (ic_views c)"
      using p set_update_subset [of m ?left "ic_views c"] unfolding e by (auto split: if_split_asm)
    then show ?thesis
    proof cases
      case 1
      then show ?thesis using map_of_SomeD [OF Some] left by (intro bexI [of _ "(m, ws)"]) simp_all
    qed blast
  qed
  have "cache_ok ?d = cache_ok c" by (simp add: cache_ok_def keys_ok_def rows_ok_def types_ok_def row_at_def type_ids_def f)
  moreover have "all_views P ?d" if all: "all_views P c" for P
    unfolding all_views_def
  proof (intro ballI)
    fix p v assume "p \<in> set (ic_views ?d)" and v: "v \<in> set (snd p)"
    then obtain q where "q \<in> set (ic_views c)" "fst q = fst p" "v \<in> set (snd q)" using sub by blast
    then show "P (fst p) v" using all unfolding all_views_def by metis
  qed
  moreover have "view_current ?d = view_current c" "view_sorts ?d = view_sorts c"
    by (intro ext, simp add: view_current_def rows f(1))+ (intro ext, simp add: view_sorts_def rows f(1))
  ultimately show ?thesis by (simp add: keeps_views_def views_ok_def)
qed


lemma step_keeps_cache:
  assumes ok: "cache_ok c" and ev: "event_usable cfg now ev c"
  shows "cache_ok (cache_do cfg now ev c)"
proof -
  have now: "0 < now" using ev by (simp add: event_usable_def)
  have strong: "cache_ok d" if "keeps_views c d" for d using that ok by (simp add: keeps_views_def)
  have weak: "cache_ok d" if "keeps_cache c d" for d using that ok by (simp add: keeps_cache_def)
  show ?thesis
  proof (cases ev)
    case (PoolUpsertBatch rs scope)
    then have "batch_goes (batch_upsert_one cfg now scope) (\<lambda>_. True) rs c" using ev by (simp add: event_usable_def)
    from keeps_batch(1) [OF keeps_batch_upsert [OF _ now] this] show ?thesis using ok PoolUpsertBatch by (simp add: upsertBatch_def)
  next
    case (PoolOutside r obj)
    have "row_at c i \<noteq> Some r" for i
      using ev PoolOutside by (force simp: event_usable_def row_at_def dest: map_of_SomeD)
    then show ?thesis using strong keeps_outside PoolOutside by simp
  qed (use ev ok now strong weak keeps_add keeps_upsert keeps_add_batch(1) keeps_remove_one keeps_removes keeps_archive_removal keeps_set_scope keeps_get
      keeps_pool_touch keeps_sweep keeps_quiet keeps_opening keeps_closing observed_ok clear_ok in \<open>simp_all add: event_usable_def removeBatch_is\<close>)
qed

lemma step_keeps_views:
  assumes ok: "cache_ok c" "views_ok c" and ev: "event_sortable cfg now ev c"
  shows "views_ok (cache_do cfg now ev c)"
proof -
  have us: "event_usable cfg now ev c" and now: "0 < now" using ev by (simp_all add: event_sortable_def event_usable_def)
  have strong: "views_ok d" if "keeps_views c d" for d using that ok by (simp add: keeps_views_def)
  have weak: "views_ok d" if "keeps_cache c d" "good_views d" for d using that ok by (simp add: keeps_cache_def good_views_def)
  show ?thesis
  proof (cases ev)
    case (PoolAddBatch rs scope)
    then have "batch_goes (add_row now scope) good_views rs (make_room cfg rs c)" using ev by (simp add: event_sortable_def)
    from keeps_add_batch(2) [OF this now _ refl ok] show ?thesis using PoolAddBatch by simp
  next
    case (PoolUpsertBatch rs scope)
    then have "batch_goes (batch_upsert_one cfg now scope) good_views rs c" using ev by (simp add: event_sortable_def)
    from keeps_batch(2) [OF keeps_batch_upsert [OF _ now] this _ refl ok] show ?thesis using PoolUpsertBatch by (simp add: upsertBatch_def)
  next
    case (PoolOutside r obj)
    have "row_at c i \<noteq> Some r" for i
      using us PoolOutside by (force simp: event_usable_def row_at_def dest: map_of_SomeD)
    then show ?thesis using strong keeps_outside PoolOutside by simp
  next
    case (PoolOpenView m opts)
    then show ?thesis using opened_views [OF ok] ev by (simp add: event_sortable_def)
  next
    case (PoolObserve r b)
    then show ?thesis using keeps_observed [OF _ ok(2)] ev by (simp add: event_sortable_def)
  qed (use ev us now strong weak keeps_add keeps_upsert keeps_remove_one keeps_removes keeps_archive_removal keeps_set_scope keeps_get
      keeps_pool_touch keeps_sweep keeps_quiet keeps_closing in \<open>simp_all add: event_usable_def event_sortable_def removeBatch_is\<close>)
qed

lemma fresh_ok: "fresh_cache c \<Longrightarrow> cache_ok c \<and> views_ok c"
  by (auto simp: fresh_cache_def new_cache_def cache_ok_def keys_ok_def rows_ok_def types_ok_def row_at_def type_ids_def lookup_set_def
      views_ok_def all_views_def)

interpretation cache_runs: run_invariant fresh_cache "cache_step cfg" "\<lambda>_ c. cache_ok c" for cfg
  by unfold_locales (auto simp: fresh_ok step_keeps_cache elim!: cache_stepE)

interpretation view_runs: run_invariant fresh_cache "view_step cfg" "\<lambda>_ c. cache_ok c \<and> views_ok c" for cfg
proof unfold_locales
  fix ls c l d assume ok: "cache_ok c \<and> views_ok c" and step: "view_step cfg c l d"
  from step obtain now ev where e: "event_sortable cfg now ev c" "d = cache_do cfg now ev c" by (rule view_stepE)
  have "event_usable cfg now ev c" using e(1) by (simp add: event_sortable_def)
  then show "cache_ok d \<and> views_ok d" using ok step_keeps_cache step_keeps_views [OF _ _ e(1)] e(2) by blast
qed (rule fresh_ok)


subsection \<open>What the runs show\<close>

text \<open>A script of events with their times: its outcome, if every guard holds on the way.\<close>

fun play :: "(int \<Rightarrow> cache_event \<Rightarrow> instance_cache \<Rightarrow> bool) \<Rightarrow> pool_config \<Rightarrow> (int \<times> cache_event) list \<Rightarrow> instance_cache \<Rightarrow> instance_cache option" where
  "play guard cfg [] c = Some c"
| "play guard cfg ((now, ev) # evs) c = (if guard now ev c then play guard cfg evs (cache_do cfg now ev c) else None)"

lemma play_runs:
  "run fresh_cache (cache_step cfg) ls c \<Longrightarrow> play (event_usable cfg) cfg evs c = Some d \<Longrightarrow> run fresh_cache (cache_step cfg) (ls @ map snd evs) d"
  "run fresh_cache (view_step cfg) ls c \<Longrightarrow> play (event_sortable cfg) cfg evs c = Some d \<Longrightarrow> run fresh_cache (view_step cfg) (ls @ map snd evs) d"
proof -
  show "run fresh_cache (cache_step cfg) (ls @ map snd evs) d"
    if "run fresh_cache (cache_step cfg) ls c" "play (event_usable cfg) cfg evs c = Some d"
    using that
  proof (induction evs arbitrary: ls c)
    case (Cons p evs)
    obtain now ev where p: "p = (now, ev)" by fastforce
    have "event_usable cfg now ev c" "play (event_usable cfg) cfg evs (cache_do cfg now ev c) = Some d"
      using Cons.prems(2) p by (simp_all split: if_splits)
    then show ?case using Cons.IH [OF run_step [OF Cons.prems(1) cache_event]] p by simp
  qed simp
  show "run fresh_cache (view_step cfg) (ls @ map snd evs) d"
    if "run fresh_cache (view_step cfg) ls c" "play (event_sortable cfg) cfg evs c = Some d"
    using that
  proof (induction evs arbitrary: ls c)
    case (Cons p evs)
    obtain now ev where p: "p = (now, ev)" by fastforce
    have "event_sortable cfg now ev c" "play (event_sortable cfg) cfg evs (cache_do cfg now ev c) = Some d"
      using Cons.prems(2) p by (simp_all split: if_splits)
    then show ?case using Cons.IH [OF run_step [OF Cons.prems(1) view_event]] p by simp
  qed simp
qed


definition demo_heap :: model_heap where
  "demo_heap r = (if r = 0 then demo_obj ''a'' 3 else if r = 1 then demo_obj ''b'' 2 else demo_obj ''c'' 1)"

definition demo_config :: "nat \<Rightarrow> pool_config" where
  "demo_config n = \<lparr>px_maxSize = n, px_maxAge = None, px_newDate = (\<lambda>v. v), px_serialized = (\<lambda>_. [''pos''])\<rparr>"

definition demo_options :: view_options where
  "demo_options = \<lparr>vo_where = None, vo_filter = None, vo_orderBy = Some ''pos'', vo_desc = False, vo_limit = None, vo_offset = None,
     vo_state = None, vo_coerced = (\<lambda>_ _. False)\<rparr>"

definition demo_script :: "(int \<times> cache_event) list" where
  "demo_script = [(1, PoolAdd 0 ScopeLive None), (2, PoolAdd 1 ScopeLive None), (3, PoolGet ''a''), (4, PoolAdd 2 ScopeLive None)]"

lemma fresh_run: "run fresh_cache step [] (new_cache h)"
  by (rule run_init) (auto simp: fresh_cache_def)



text \<open>An executable guard for a script that sorts by a field which is always a number.\<close>

definition number_at :: "string \<Rightarrow> model_obj \<Rightarrow> bool" where
  "number_at key m = (kind_of_key (getField m key) = Some KNumber)"

definition good_numbers :: "string \<Rightarrow> instance_cache \<Rightarrow> bool" where
  "good_numbers key c = (list_all (\<lambda>(_, e). number_at key (ic_heap c (pe_model e))) (ic_entries c) \<and>
     list_all (\<lambda>(_, vs). list_all (\<lambda>v. qv_sortKey v = Some key \<and> qv_sortDir v \<in> {1, -1}) vs) (ic_views c))"

lemma good_numbers_views: "good_numbers key c \<Longrightarrow> good_views c"
proof -
  assume g: "good_numbers key c"
  have num: "number_at key (ic_heap c r)" if "row_at c i = Some r" for i r
    using g that by (fastforce simp: good_numbers_def row_at_def list_all_iff dest: map_of_SomeD)
  then have "getField (ic_heap c r) key \<in> keys_of_kind KNumber" if "r \<in> rows_of c t" for r t
    using that by (auto simp: rows_of_def number_at_def keys_of_kind_def)
  then have "view_sorts c t v" if "qv_sortKey v = Some key" "qv_sortDir v \<in> {1, -1}" for t v
    using that by (auto simp: view_sorts_def sortable_def intro!: exI [of _ KNumber])
  then show ?thesis using g by (fastforce simp: good_views_def all_views_def good_numbers_def list_all_iff)
qed

definition number_guard :: "string \<Rightarrow> pool_config \<Rightarrow> int \<Rightarrow> cache_event \<Rightarrow> instance_cache \<Rightarrow> bool" where
  "number_guard key cfg now ev c = (event_usable cfg now ev c \<and> good_numbers key (cache_do cfg now ev c) \<and> (case ev of
      PoolAddBatch rs scope \<Rightarrow> False | PoolUpsertBatch rs scope \<Rightarrow> False | PoolObserve r b \<Rightarrow> False | PoolClear p \<Rightarrow> False
    | PoolOpenView m opts \<Rightarrow> opens_whole_type m opts c | _ \<Rightarrow> True))"

lemma number_guard_sortable: "number_guard key cfg now ev c \<Longrightarrow> event_sortable cfg now ev c"
  using good_numbers_views [of key "cache_do cfg now ev c"] by (auto simp: number_guard_def event_sortable_def split: cache_event.splits)

lemma play_mono:
  assumes "\<And>now ev c. guard now ev c \<Longrightarrow> guard' now ev c"
  shows "play guard cfg evs c = Some d \<Longrightarrow> play guard' cfg evs c = Some d"
  using assms by (induction evs arbitrary: c) (auto split: if_splits)

definition demo_view_script :: "(int \<times> cache_event) list" where
  "demo_view_script = [(1, PoolAdd 0 ScopeLive None), (2, PoolOpenView ''Block'' demo_options), (3, PoolAdd 1 ScopeLive None),
     (4, PoolOutside 2 (demo_obj ''b'' 7)), (5, PoolUpsert 2 ScopeLive)]"


definition least_recent :: "nat \<Rightarrow> instance_cache \<Rightarrow> string list" where
  "least_recent n c = take n (filter (evictable c) (map fst (ic_accessTimes c)))"

lemma removes_entries:
  assumes "cache_ok c"
  shows "ic_entries (fold (\<lambda>i c. snd (pool_remove i c)) ids c) = filter (\<lambda>(i, _). i \<notin> set ids) (ic_entries c) \<and>
    ic_accessTimes (fold (\<lambda>i c. snd (pool_remove i c)) ids c) = filter (\<lambda>(i, _). i \<notin> set ids) (ic_accessTimes c)"
  using assms
proof (induction ids arbitrary: c)
  case (Cons i ids)
  let ?d = "snd (pool_remove i c)"
  have "ic_entries ?d = filter (\<lambda>(j, _). j \<noteq> i) (ic_entries c) \<and> ic_accessTimes ?d = filter (\<lambda>(j, _). j \<noteq> i) (ic_accessTimes c)"
  proof (cases "map_of (ic_entries c) i")
    case None
    then have "i \<notin> fst ` set (ic_entries c)" "i \<notin> fst ` set (ic_accessTimes c)"
      using Cons.prems by (simp_all add: map_of_eq_None_iff cache_ok_def keys_ok_def)
    then have "filter (\<lambda>(j, _). j \<noteq> i) (ic_entries c) = ic_entries c" "filter (\<lambda>(j, _). j \<noteq> i) (ic_accessTimes c) = ic_accessTimes c"
      by (force simp: filter_id_conv)+
    then show ?thesis using None by (simp add: pool_remove_def)
  next
    case (Some e)
    then show ?thesis using removed_fields(1,2) [OF Cons.prems Some] by (simp add: AList.delete_eq split_def eq_commute [of i])
  qed
  then show ?case using Cons.IH [OF remove_ok [OF Cons.prems, of i]] by (auto intro: filter_cong)
qed simp

lemma filter_out_length:
  assumes "distinct (map fst al)" "distinct ids" "set ids \<subseteq> fst ` set al"
  shows "length (filter (\<lambda>(i, _). i \<notin> set ids) al) = length al - length ids"
proof -
  have "length (filter (\<lambda>(i, _). i \<in> set ids) al) = card (fst ` set (filter (\<lambda>(i, _). i \<in> set ids) al))"
    using distinct_map_filter [OF assms(1), of "\<lambda>(i, _). i \<in> set ids"] by (metis distinct_card length_map set_map)
  also have "fst ` set (filter (\<lambda>(i, _). i \<in> set ids) al) = set ids" using assms(3) by force
  finally show ?thesis using sum_length_filter_compl [of "\<lambda>(i, _). i \<in> set ids" al] assms(2) by (simp add: distinct_card split_def)
qed

text \<open>
  C30. Eviction takes the rows used longest ago: in every reachable cache, making room for \<open>n\<close> rows removes
  exactly the first \<open>n\<close> rows in the order of recency that no reader observes, or all of those when they are
  fewer; an observed row is never evicted and every other entry stays as it is.
\<close>

theorem eviction_takes_least_recent:
  assumes "run fresh_cache (cache_step cfg) evs c"
  shows "ic_entries (evictOldestBatch n c) = filter (\<lambda>(i, _). i \<notin> set (least_recent n c)) (ic_entries c) \<and>
    ic_accessTimes (evictOldestBatch n c) = filter (\<lambda>(i, _). i \<notin> set (least_recent n c)) (ic_accessTimes c) \<and>
    length (ic_entries (evictOldestBatch n c)) = length (ic_entries c) - length (least_recent n c)"
proof -
  have ok: "cache_ok c" by (rule cache_runs.holds [OF assms])
  have keys: "distinct (map fst (ic_entries c))" "distinct (map fst (ic_accessTimes c))" "fst ` set (ic_accessTimes c) = fst ` set (ic_entries c)"
    using ok by (simp_all add: cache_ok_def keys_ok_def)
  have "distinct (least_recent n c)" "set (least_recent n c) \<subseteq> fst ` set (ic_entries c)"
    using keys(2) by (simp_all add: least_recent_def keys(3) [symmetric]) (auto dest: in_set_takeD)
  then show ?thesis
    using removes_entries [OF ok, of "least_recent n c"] filter_out_length [OF keys(1)] by (simp add: eviction_is [OF ok] least_recent_def)
qed

theorem eviction_takes_least_recent_witness:
  "\<exists>evs c. run fresh_cache (cache_step (demo_config 3)) evs c \<and> map fst (ic_accessTimes c) = [''b'', ''a'', ''c''] \<and>
     map fst (ic_entries (evictOldestBatch 1 c)) = [''a'', ''c'']"
proof -
  let ?play = "play (event_usable (demo_config 3)) (demo_config 3) demo_script (new_cache demo_heap)"
  have "map_option (\<lambda>c. (map fst (ic_accessTimes c), map fst (ic_entries c), least_recent 1 c)) ?play =
      Some ([''b'', ''a'', ''c''], [''a'', ''b'', ''c''], [''b''])" by code_simp
  then obtain c where c: "?play = Some c" "map fst (ic_accessTimes c) = [''b'', ''a'', ''c'']" "map fst (ic_entries c) = [''a'', ''b'', ''c'']"
    "least_recent 1 c = [''b'']" by auto
  have r: "run fresh_cache (cache_step (demo_config 3)) ([] @ map snd demo_script) c" by (rule play_runs(1) [OF fresh_run c(1)])
  have "map fst (filter (\<lambda>(i, _). i \<notin> set [''b'']) al) = filter (\<lambda>i. i \<noteq> ''b'') (map fst al)" for al :: "(string \<times> pool_entry) list"
    by (simp add: filter_map comp_def split_def)
  then have "map fst (ic_entries (evictOldestBatch 1 c)) = [''a'', ''c'']"
    using eviction_takes_least_recent [OF r, of 1] c(3) unfolding c(4) by simp
  then show ?thesis using r c(2) by (intro exI [of _ "map snd demo_script"] exI [of _ c]) simp
qed


subsection \<open>Where views and indexes go stale\<close>

text \<open>
  A clear drops every row and tells no view: the view keeps showing an instance that is disposed and no
  longer pooled.
\<close>

definition shown_rows :: "instance_cache \<Rightarrow> nat list list" where
  "shown_rows c = concat (map (\<lambda>(_, vs). map qv_results vs) (ic_views c))"

theorem clear_leaves_open_view:
  "\<exists>c. play (event_usable (demo_config 2)) (demo_config 2)
      [(1, PoolAdd 0 ScopeLive None), (2, PoolOpenView ''Block'' demo_options), (3, PoolClear False)] (new_cache demo_heap) = Some c \<and>
     ic_entries c = [] \<and> shown_rows c = [[0]] \<and> mo_disposed (ic_heap c 0)"
proof -
  let ?play = "play (event_usable (demo_config 2)) (demo_config 2)
      [(1, PoolAdd 0 ScopeLive None), (2, PoolOpenView ''Block'' demo_options), (3, PoolClear False)] (new_cache demo_heap)"
  have "map_option (\<lambda>c. (map fst (ic_entries c), shown_rows c, mo_disposed (ic_heap c 0))) ?play = Some ([], [[0]], True)" by code_simp
  then show ?thesis by auto
qed

text \<open>Scopes are not notified: a row that is archived stays in a view of live rows, which a new view would not show.\<close>

theorem archived_row_stays_in_live_view:
  "\<exists>c. play (event_usable (demo_config 2)) (demo_config 2)
      [(1, PoolAdd 0 ScopeLive None), (2, PoolOpenView ''Block'' demo_options), (3, PoolSetScope ''a'' ScopeArchived)] (new_cache demo_heap) = Some c \<and>
     shown_rows c = [[0]] \<and> qv_results (fst (createView ''Block'' demo_options c)) = []"
proof -
  let ?play = "play (event_usable (demo_config 2)) (demo_config 2)
      [(1, PoolAdd 0 ScopeLive None), (2, PoolOpenView ''Block'' demo_options), (3, PoolSetScope ''a'' ScopeArchived)] (new_cache demo_heap)"
  have "map_option (\<lambda>c. (shown_rows c, qv_results (fst (createView ''Block'' demo_options c)))) ?play = Some ([[0]], [])" by code_simp
  then show ?thesis by auto
qed

text \<open>
  An update does not move a row in the foreign-key index: a row given a new parent is still found under
  the old one and not under the new one.
\<close>

definition demo_child :: "string \<Rightarrow> model_obj" where
  "demo_child parent = \<lparr>mo_id = ''a'', mo_modelName = ''Block'', mo_fields = [(''sectionId'', VStr parent)], mo_modified = [],
     mo_disposed = False, mo_observed = False\<rparr>"

definition child_config :: pool_config where
  "child_config = \<lparr>px_maxSize = 9, px_maxAge = None, px_newDate = (\<lambda>v. v), px_serialized = (\<lambda>_. [''sectionId''])\<rparr>"

theorem moved_row_stays_under_old_parent:
  "\<exists>c. play (event_usable child_config) child_config
      [(1, PoolRegisterKey ''Block'' ''sectionId''), (2, PoolAdd 0 ScopeLive None), (3, PoolUpsert 1 ScopeLive)]
      (new_cache (\<lambda>r. demo_child (if r = 0 then ''old'' else ''new''))) = Some c \<and>
     getField (ic_heap c 0) ''sectionId'' = VStr ''new'' \<and>
     getByForeignKey ''Block'' ''sectionId'' ''old'' c = [0] \<and> getByForeignKey ''Block'' ''sectionId'' ''new'' c = []"
proof -
  let ?play = "play (event_usable child_config) child_config
      [(1, PoolRegisterKey ''Block'' ''sectionId''), (2, PoolAdd 0 ScopeLive None), (3, PoolUpsert 1 ScopeLive)]
      (new_cache (\<lambda>r. demo_child (if r = 0 then ''old'' else ''new'')))"
  have "map_option (\<lambda>c. (getField (ic_heap c 0) ''sectionId'' = VStr ''new'', getByForeignKey ''Block'' ''sectionId'' ''old'' c,
      getByForeignKey ''Block'' ''sectionId'' ''new'' c)) ?play = Some (True, [0], [])" by code_simp
  then show ?thesis by auto
qed

text \<open>
  A batch can evict an instance that comes later in it; the batch then stores the disposed instance, so
  the row is pooled and yet no lookup returns it.
\<close>

theorem batch_stores_evicted_instance:
  "\<exists>c d. play (event_usable (demo_config 1)) (demo_config 1) [(1, PoolAdd 0 ScopeLive None)] (new_cache demo_heap) = Some c \<and>
     d = upsertBatch (demo_config 1) 2 [1, 0] ScopeLive c \<and> usable c 1 \<and> usable c 0 \<and>
     row_at d ''a'' = Some 0 \<and> mo_disposed (ic_heap d 0) \<and> fst (pool_get 3 ''a'' d) = None"
proof -
  let ?play = "play (event_usable (demo_config 1)) (demo_config 1) [(1, PoolAdd 0 ScopeLive None)] (new_cache demo_heap)"
  let ?d = "upsertBatch (demo_config 1) 2 [1, 0] ScopeLive"
  have "map_option (\<lambda>c. (usable c 1, usable c 0, row_at (?d c) ''a'', mo_disposed (ic_heap (?d c) 0), fst (pool_get 3 ''a'' (?d c)))) ?play =
      Some (True, True, Some 0, True, None)" by code_simp
  then show ?thesis by auto
qed

end
