(* ===== verification/PoolFrames.thy ===== *)
theory PoolFrames
  imports InstanceCacheProperties DeltaConfirmation
begin

section \<open>Frames and snapshots applied to the cache\<close>

text \<open>
  Model of the part of \<open>packages/humans/src/local/SyncClient.ts\<close> that writes what the server said into
  the instance cache: \<open>projectDeltaBatchForPool\<close>, \<open>applyDeltaBatchToPool\<close> with \<open>resolveConflicts\<close>,
  \<open>healModelRecord\<close> and \<open>applyBootstrapDataToPool\<close>; with \<open>projectModelRow\<close> of
  \<open>transactions/operations/rowProjection.ts\<close>, \<open>createFromData\<close> of \<open>InstanceCache.ts\<close>, the constructors of
  \<open>Model.ts\<close> and \<open>client/modelRegistration.ts\<close>, and \<open>sync/bootstrapApply.ts\<close>.

  One reading of the clock stands for those of one synchronous pass. The callback that enriches a record
  with its relations, the queue's outstanding mutations and what the operation contexts answer are
  arguments, as they are for the code. Identifiers are strings; a constructor does not throw; a record of
  a snapshot is a plain object or no object at all. Whether a declared class field without initializer
  exists on an instance depends on the compiler's target and is a flag.
\<close>

subsection \<open>State and environment\<close>

datatype client_note =
    NoteDelete string
  | NoteChanged "string list"
  | NoteReconcile string string

record pool_client =
  pc_cache :: instance_cache
  pc_next :: nat
  pc_watermarks :: "nat watermarks"
  pc_echoes :: UnconfirmedWrites
  pc_pendingDeletes :: "string list"
  pc_notes :: "client_note list"

record autofill_rule =
  af_field :: string
  af_from :: string

record model_class =
  mc_fields :: "string list"
  mc_autoFill :: "autofill_rule list"
  mc_requiredFields :: "string list"

record frame_env =
  fe_config :: pool_config
  fe_now :: int
  fe_classes :: "(string \<times> model_class) list"
  fe_defineFields :: bool
  fe_newId :: "nat \<Rightarrow> string"
  fe_today :: jsval
  fe_enrich :: "string \<Rightarrow> model_data \<Rightarrow> model_data"
  fe_pending :: "QueuedMutation list"
  fe_prepared :: "string \<Rightarrow> string \<Rightarrow> model_data option"
  fe_retained :: "string \<Rightarrow> string \<Rightarrow> string list"
  fe_merges :: "string \<Rightarrow> bool"
  fe_organizationId :: string
  fe_userId :: string

definition data_get :: "model_data \<Rightarrow> string \<Rightarrow> jsval" where
  "data_get data key = (case map_of data key of None \<Rightarrow> VUndefined | Some v \<Rightarrow> v)"

definition with_cache :: "(instance_cache \<Rightarrow> instance_cache) \<Rightarrow> pool_client \<Rightarrow> pool_client" where
  "with_cache f s = s\<lparr>pc_cache := f (pc_cache s)\<rparr>"

definition write_row :: "nat \<Rightarrow> (model_obj \<Rightarrow> model_obj) \<Rightarrow> pool_client \<Rightarrow> pool_client" where
  "write_row r f = with_cache (\<lambda>c. c\<lparr>ic_heap := (ic_heap c)(r := f (ic_heap c r))\<rparr>)"

definition row :: "pool_client \<Rightarrow> nat \<Rightarrow> model_obj" where
  "row s r = ic_heap (pc_cache s) r"

definition emit_note :: "client_note \<Rightarrow> pool_client \<Rightarrow> pool_client" where
  "emit_note n s = s\<lparr>pc_notes := pc_notes s @ [n]\<rparr>"

definition advance_mark :: "nat \<Rightarrow> int option \<Rightarrow> pool_client \<Rightarrow> pool_client" where
  "advance_mark r position s = s\<lparr>pc_watermarks := wm_advance r position (pc_watermarks s)\<rparr>"

subsection \<open>Constructing an instance\<close>

definition to_date :: "pool_config \<Rightarrow> jsval \<Rightarrow> jsval" where
  "to_date cfg v = (case v of VDate _ \<Rightarrow> v | _ \<Rightarrow> px_newDate cfg v)"

definition base_fields :: "frame_env \<Rightarrow> model_data \<Rightarrow> string \<Rightarrow> model_data" where
  "base_fields env data i =
     (let created = (if truthy_at data ''createdAt'' then to_date (fe_config env) (data_get data ''createdAt'') else fe_today env);
          updated = (if truthy_at data ''updatedAt'' then to_date (fe_config env) (data_get data ''updatedAt'')
                     else if truthy_at data ''createdAt'' then created else fe_today env);
          status = data_get data ''syncStatus''
      in [(''clientId'', VStr i), (''createdAt'', created), (''updatedAt'', updated),
          (''syncStatus'', if nullish status then VStr ''pending'' else status)] @
         (if fe_defineFields env then [(''archivedAt'', VUndefined)] else []))"

definition init_field :: "model_data \<Rightarrow> string \<Rightarrow> model_data \<Rightarrow> model_data" where
  "init_field data key fs =
     (if key = ''id'' \<or> map_of fs key \<noteq> None then fs
      else fs @ [(key, if nullish (data_get data key) then VUndefined else data_get data key)])"

definition construct_model :: "frame_env \<Rightarrow> string \<Rightarrow> string list \<Rightarrow> model_data \<Rightarrow> nat \<Rightarrow> model_obj" where
  "construct_model env name schema data k =
     (let i = (case data_get data ''id'' of VStr s \<Rightarrow> s | _ \<Rightarrow> fe_newId env k)
      in \<lparr>mo_id = i, mo_modelName = name, mo_fields = fold (init_field data) schema (base_fields env data i),
          mo_modified = [], mo_disposed = False, mo_observed = False\<rparr>)"

fun first_name :: "jsval list \<Rightarrow> string" where
  "first_name [] = ''Unknown''"
| "first_name (v # vs) = (if nullish v then first_name vs else case v of VStr s \<Rightarrow> s | _ \<Rightarrow> ''Unknown'')"

definition record_name :: "model_data \<Rightarrow> string" where
  "record_name data = first_name [data_get data ''__typename'', data_get data ''__class'', data_get data ''modelName'']"

definition allocate :: "model_obj \<Rightarrow> pool_client \<Rightarrow> nat \<times> pool_client" where
  "allocate m s = (pc_next s, (write_row (pc_next s) (\<lambda>_. m) s)\<lparr>pc_next := Suc (pc_next s)\<rparr>)"

definition createFromData :: "frame_env \<Rightarrow> model_data \<Rightarrow> pool_client \<Rightarrow> nat option \<times> pool_client" where
  "createFromData env data s =
     (let name = record_name data
      in case map_of (fe_classes env) name of
           None \<Rightarrow> (None, s)
         | Some cls \<Rightarrow>
             (let fresh = (\<lambda>s. case allocate (construct_model env name (mc_fields cls) data (pc_next s)) s of (r, s1) \<Rightarrow> (Some r, s1))
              in case data_get data ''id'' of
                   VStr i \<Rightarrow>
                     if i \<noteq> [] \<and> map_of (ic_entries (pc_cache s)) i \<noteq> None
                     then (case pool_get (fe_now env) i (pc_cache s) of
                         (Some r, c1) \<Rightarrow>
                           (let s1 = s\<lparr>pc_cache := c1\<rparr>
                            in if mo_modelName (row s1 r) = name
                               then (Some r, write_row r (updateFromData (px_newDate (fe_config env)) data) s1)
                               else fresh s1)
                       | (None, c1) \<Rightarrow> fresh (s\<lparr>pc_cache := c1\<rparr>))
                     else fresh s
                 | _ \<Rightarrow> fresh s))"

subsection \<open>A server row onto an instance\<close>

definition markAsSynced :: "model_obj \<Rightarrow> model_obj" where
  "markAsSynced m = m\<lparr>mo_fields := AList.update ''syncStatus'' (VStr ''synced'') (mo_fields m)\<rparr>"

definition clearChanges :: "model_obj \<Rightarrow> model_obj" where
  "clearChanges m = m\<lparr>mo_modified := []\<rparr>"

definition consumeModifiedFields :: "string list \<Rightarrow> model_obj \<Rightarrow> model_obj" where
  "consumeModifiedFields keys m = m\<lparr>mo_modified := filter (\<lambda>(k, _). k = ''id'' \<or> k \<notin> set keys) (mo_modified m)\<rparr>"

definition relative_write :: "jsval \<Rightarrow> bool" where
  "relative_write v = (case v of VObj _ _ ps \<Rightarrow> map_of ps ''$text'' \<noteq> None \<or> map_of ps ''$increment'' \<noteq> None | _ \<Rightarrow> False)"

definition overlay_pending :: "model_obj \<Rightarrow> QueuedMutation \<Rightarrow> model_data \<Rightarrow> model_data" where
  "overlay_pending m tx local =
     (if qm_modelId tx \<noteq> mo_id m \<or> qm_modelName tx \<noteq> mo_modelName m \<or> qm_type tx \<noteq> Update then local
      else fold (\<lambda>(field, v). AList.update field (if relative_write v then getField m field else v)) (input_of (qm_data tx)) local)"

definition gone_row :: "model_data \<Rightarrow> bool" where
  "gone_row server = (\<not> nullish (data_get server ''deletedAt'') \<or> \<not> nullish (data_get server ''archivedAt'') \<or>
     data_get server ''isActive'' = VBool False)"

text \<open>The later of two times as \<open>toEpochMs\<close> reads them: a missing one is the epoch, an invalid one is contagious.\<close>

definition epoch_time :: "pool_config \<Rightarrow> jsval \<Rightarrow> string option" where
  "epoch_time cfg v =
     (if \<not> js_truthy v then Some ''1970-01-01T00:00:00.000Z''
      else case v of
        VDate t \<Rightarrow> t
      | VStr _ \<Rightarrow> (case px_newDate cfg v of VDate t \<Rightarrow> t | _ \<Rightarrow> None)
      | VNum _ \<Rightarrow> (case px_newDate cfg v of VDate t \<Rightarrow> t | _ \<Rightarrow> None)
      | _ \<Rightarrow> Some ''1970-01-01T00:00:00.000Z'')"

definition later_time :: "pool_config \<Rightarrow> jsval \<Rightarrow> jsval \<Rightarrow> jsval" where
  "later_time cfg a b = VDate (case (epoch_time cfg a, epoch_time cfg b) of (Some x, Some y) \<Rightarrow> Some (max x y) | _ \<Rightarrow> None)"

definition projectModelRow :: "pool_config \<Rightarrow> QueuedMutation list \<Rightarrow> model_data \<Rightarrow> model_data \<Rightarrow> model_obj \<Rightarrow> model_obj" where
  "projectModelRow cfg pending projection server m =
     (if gone_row server then markAsSynced (clearChanges (updateFromData (px_newDate cfg) server m))
      else let local = fold (overlay_pending m) pending (mo_modified m)
           in if local \<noteq> []
              then let merged = spread (spread server local) projection;
                       merged1 = (if truthy_at server ''updatedAt'' \<or> js_truthy (getField m ''updatedAt'')
                         then AList.update ''updatedAt'' (later_time cfg (getField m ''updatedAt'') (data_get server ''updatedAt'')) merged
                         else merged)
                   in updateFromData (px_newDate cfg) merged1 m
              else markAsSynced (clearChanges (updateFromData (px_newDate cfg) (spread server projection) m)))"

definition resolve_row :: "frame_env \<Rightarrow> model_data \<Rightarrow> model_obj \<Rightarrow> model_obj" where
  "resolve_row env server m = (case fe_prepared env (mo_modelName m) (mo_id m) of
      Some projection \<Rightarrow> projectModelRow (fe_config env) (fe_pending env) projection server m
    | None \<Rightarrow>
        (let materialized = (if gone_row server then server
             else fold (\<lambda>field. AList.update field (getField m field)) (fe_retained env (mo_modelName m) (mo_id m)) server)
         in projectModelRow (fe_config env) (fe_pending env) [] materialized m))"

definition resolveConflicts :: "frame_env \<Rightarrow> nat \<Rightarrow> model_data \<Rightarrow> pool_client \<Rightarrow> pool_client" where
  "resolveConflicts env r server s =
     (let m = row s r; s1 = write_row r (resolve_row env server) s
      in if fe_prepared env (mo_modelName m) (mo_id m) = None \<and> \<not> gone_row server \<and> fe_merges env (mo_modelName m)
         then emit_note (NoteReconcile (mo_modelName m) (mo_id m)) s1 else s1)"

subsection \<open>A frame of changes\<close>

record frame_lists =
  fl_add :: "nat list"
  fl_upsert :: "nat list"
  fl_remove :: "string list"
  fl_archive :: "string list"

definition ids_removed :: "AppliedChange list \<Rightarrow> string list" where
  "ids_removed results = map ac_modelId (filter (\<lambda>r. ac_action r = RemoveRow) results)"

definition client_peek :: "frame_env \<Rightarrow> string \<Rightarrow> pool_client \<Rightarrow> nat option \<times> pool_client" where
  "client_peek env i s = (case pool_peek (fe_now env) i (pc_cache s) of (found, c1) \<Rightarrow> (found, s\<lparr>pc_cache := c1\<rparr>))"

definition acknowledged_fields :: "model_data \<Rightarrow> model_obj \<Rightarrow> string list" where
  "acknowledged_fields data m =
     map fst (filter (\<lambda>(field, v). case map_of data field of None \<Rightarrow> False | Some w \<Rightarrow> deepEqual v w) (mo_modified m))"

text \<open>The fields a change carries to a resident row: the enrichment writes into the record it is given.\<close>

definition push_update :: "frame_env \<Rightarrow> string \<Rightarrow> nat \<Rightarrow> model_data \<Rightarrow> frame_lists \<times> pool_client \<Rightarrow> frame_lists \<times> pool_client" where
  "push_update env name r data ls = (case ls of (fl, s) \<Rightarrow>
     (fl\<lparr>fl_upsert := fl_upsert fl @ [r]\<rparr>, resolveConflicts env r (fe_enrich env name data) s))"

definition own_echo :: "frame_env \<Rightarrow> string list \<Rightarrow> AppliedChange \<Rightarrow> nat option \<Rightarrow> frame_lists \<times> pool_client \<Rightarrow> frame_lists \<times> pool_client" where
  "own_echo env doomed ch resident ls = (case ls of (fl, s0) \<Rightarrow>
     (let s = (if ac_action ch = RemoveRow then s0\<lparr>pc_pendingDeletes := removeAll (ac_modelId ch) (pc_pendingDeletes s0)\<rparr> else s0)
      in case (resident, ac_data ch) of
           (Some r, Some data) \<Rightarrow>
             (let s1 = write_row r (\<lambda>m. consumeModifiedFields (acknowledged_fields data m) m) s;
                  (fl2, s2) = (if ac_action ch = UpdateRow \<and> \<not> mo_disposed (row s1 r) \<and> ac_modelId ch \<notin> set doomed
                    then push_update env (ac_modelName ch) r data (fl, s1) else (fl, s1))
              in (fl2, write_row r markAsSynced s2))
         | _ \<Rightarrow> (fl, s)))"

definition foreign_change :: "frame_env \<Rightarrow> AppliedChange \<Rightarrow> frame_lists \<times> pool_client \<Rightarrow> frame_lists \<times> pool_client" where
  "foreign_change env ch ls = (case ls of (fl, s) \<Rightarrow> (case ac_action ch of
      AddRow \<Rightarrow>
        (case client_peek env (ac_modelId ch) s of
           (Some r, s1) \<Rightarrow> (fl, write_row r markAsSynced s1)
         | (None, s1) \<Rightarrow> (case ac_data ch of
             None \<Rightarrow> (fl, s1)
           | Some data \<Rightarrow>
               (case createFromData env (fe_enrich env (ac_modelName ch) (spread data [(''__typename'', VStr (ac_modelName ch))])) s1 of
                  (Some r, s2) \<Rightarrow> (fl\<lparr>fl_add := fl_add fl @ [r]\<rparr>, advance_mark r (ac_syncId ch) s2)
                | (None, s2) \<Rightarrow> (fl, s2))))
    | UpdateRow \<Rightarrow>
        (case client_peek env (ac_modelId ch) s of
           (Some r, s1) \<Rightarrow> (case ac_data ch of
               Some data \<Rightarrow> if mo_disposed (row s1 r) then (fl, s1) else push_update env (ac_modelName ch) r data (fl, s1)
             | None \<Rightarrow> (fl, s1))
         | (None, s1) \<Rightarrow> (fl, s1))
    | RemoveRow \<Rightarrow> (fl\<lparr>fl_remove := fl_remove fl @ [ac_modelId ch]\<rparr>, s\<lparr>pc_pendingDeletes := removeAll (ac_modelId ch) (pc_pendingDeletes s)\<rparr>)
    | ArchiveRow \<Rightarrow> (fl\<lparr>fl_archive := fl_archive fl @ [ac_modelId ch]\<rparr>, s)
    | VerifyRow \<Rightarrow> (fl, s)))"

definition collect_change :: "frame_env \<Rightarrow> string list \<Rightarrow> AppliedChange \<Rightarrow> frame_lists \<times> pool_client \<Rightarrow> frame_lists \<times> pool_client" where
  "collect_change env doomed ch ls = (case ls of (fl, s0) \<Rightarrow>
     (let s1 = (if ac_action ch = RemoveRow then emit_note (NoteDelete (ac_modelId ch)) s0 else s0);
          (resident, s2) = client_peek env (ac_modelId ch) s1;
          s3 = (case resident of None \<Rightarrow> s2 | Some r \<Rightarrow> advance_mark r (ac_syncId ch) s2);
          (echoes, own) = consumeEcho (ac_transactionId ch) (pc_echoes s3);
          s4 = s3\<lparr>pc_echoes := echoes\<rparr>
      in if own then own_echo env doomed ch resident (fl, s4)
         else if (ac_action ch = AddRow \<or> ac_action ch = UpdateRow) \<and> ac_modelId ch \<in> set doomed then (fl, s4)
         else foreign_change env ch (fl, s4)))"

definition no_lists :: frame_lists where
  "no_lists = \<lparr>fl_add = [], fl_upsert = [], fl_remove = [], fl_archive = []\<rparr>"

text \<open>The batch writes that reveal a frame.\<close>

definition reveal :: "frame_env \<Rightarrow> frame_lists \<Rightarrow> instance_cache \<Rightarrow> instance_cache" where
  "reveal env fl c =
     (let c1 = snd (addBatch (fe_config env) (fe_now env) (fl_add fl) ScopeLive c);
          c2 = upsertBatch (fe_config env) (fe_now env) (fl_upsert fl) ScopeLive c1;
          c3 = snd (removeBatch (fl_remove fl) c2)
      in fold (\<lambda>i. updateScope i ScopeArchived (fe_now env)) (fl_archive fl) c3)"

definition applyDeltaBatchToPoolInAction :: "frame_env \<Rightarrow> AppliedChange list \<Rightarrow> pool_client \<Rightarrow> pool_client" where
  "applyDeltaBatchToPoolInAction env results s =
     (let (fl, s1) = fold (collect_change env (ids_removed results)) results (no_lists, s);
          s2 = with_cache (reveal env fl) s1;
          changed = remdups (map ac_modelName results)
      in if changed = [] then s2 else emit_note (NoteChanged changed) s2)"

definition fresh_add :: "string list \<Rightarrow> instance_cache \<Rightarrow> AppliedChange \<Rightarrow> bool" where
  "fresh_add doomed c ch = (ac_action ch = AddRow \<and> ac_data ch \<noteq> None \<and> ac_modelId ch \<notin> set doomed \<and>
     map_of (ic_entries c) (ac_modelId ch) = None)"

fun drop_fresh :: "('a \<Rightarrow> bool) \<Rightarrow> nat \<Rightarrow> 'a list \<Rightarrow> 'a list" where
  "drop_fresh P n [] = []"
| "drop_fresh P n (x # xs) = (if 0 < n \<and> P x then drop_fresh P (n - 1) xs else x # drop_fresh P n xs)"

definition projectDeltaBatchForPool :: "pool_config \<Rightarrow> AppliedChange list \<Rightarrow> instance_cache \<Rightarrow> AppliedChange list" where
  "projectDeltaBatchForPool cfg results c =
     (let fresh = filter (fresh_add (ids_removed results) c) results
      in case wireAddRetentionLimit cfg (remdups (map ac_modelName fresh)) c of
           None \<Rightarrow> results
         | Some retentionLimit \<Rightarrow> drop_fresh (fresh_add (ids_removed results) c) (length fresh - retentionLimit) results)"

definition applyDeltaBatchToPool :: "frame_env \<Rightarrow> AppliedChange list \<Rightarrow> pool_client \<Rightarrow> pool_client" where
  "applyDeltaBatchToPool env results s =
     applyDeltaBatchToPoolInAction env (projectDeltaBatchForPool (fe_config env) results (pc_cache s)) s"

subsection \<open>A snapshot\<close>

definition autofill_one :: "frame_env \<Rightarrow> autofill_rule \<Rightarrow> model_data \<times> bool \<Rightarrow> model_data \<times> bool" where
  "autofill_one env rule acc = (case acc of (data, healed) \<Rightarrow>
     (let replacement = (if af_from rule = ''organizationId'' then fe_organizationId env else fe_userId env)
      in if truthy_at data (af_field rule) \<or> replacement = [] then (data, healed)
         else (spread data [(af_field rule, VStr replacement)], True)))"

definition healModelRecord :: "frame_env \<Rightarrow> string \<Rightarrow> model_data \<Rightarrow> (model_data \<times> bool) option" where
  "healModelRecord env modelType data = (case map_of (fe_classes env) modelType of
      None \<Rightarrow> Some (data, False)
    | Some cls \<Rightarrow>
        (let (filled, healed) = fold (autofill_one env) (mc_autoFill cls) (data, False)
         in if list_all (truthy_at filled) (mc_requiredFields cls) then Some (filled, healed) else None))"

record BootstrapSnapshot =
  bs_models :: "(string \<times> jsval) list option"
  bs_failedModels :: "string list"
  bs_lastSyncId :: "int option"

record rehydration =
  rh_added :: int
  rh_updated :: int
  rh_removed :: nat
  rh_skipped :: nat
  rh_healed :: nat

record snapshot_acc =
  sa_models :: "nat list"
  sa_ids :: "(string \<times> string list) list"
  sa_skipped :: nat
  sa_healed :: nat

definition skip_record :: "snapshot_acc \<Rightarrow> snapshot_acc" where
  "skip_record a = a\<lparr>sa_skipped := Suc (sa_skipped a)\<rparr>"

definition typed_record :: "string \<Rightarrow> model_data \<Rightarrow> model_data" where
  "typed_record modelType ps = (if truthy_at ps ''__typename'' then ps else spread [(''__typename'', VStr modelType)] ps)"

definition record_id :: "model_data \<Rightarrow> string option" where
  "record_id data = (case data_get data ''id'' of VStr i \<Rightarrow> if i = [] then None else Some i | _ \<Rightarrow> None)"

definition listed_id :: "string \<Rightarrow> string option \<Rightarrow> snapshot_acc \<Rightarrow> snapshot_acc" where
  "listed_id modelType i a = (case i of
      None \<Rightarrow> a
    | Some i \<Rightarrow> a\<lparr>sa_ids := AList.update modelType (set_add i (lookup_set modelType (sa_ids a))) (sa_ids a)\<rparr>)"

text \<open>In a scoped backfill a row that a live delta moved past the snapshot is left alone.\<close>

definition keep_ahead :: "frame_env \<Rightarrow> bool \<Rightarrow> int option \<Rightarrow> string option \<Rightarrow> pool_client \<Rightarrow> bool \<times> pool_client" where
  "keep_ahead env scoped position i s = (case i of
      Some i \<Rightarrow>
        if scoped then (case client_peek env i s of
            (Some r, s1) \<Rightarrow> (isAheadOf (pc_watermarks s1) r position, s1)
          | (None, s1) \<Rightarrow> (False, s1))
        else (False, s)
    | None \<Rightarrow> (False, s))"

definition take_record :: "frame_env \<Rightarrow> bool \<Rightarrow> int option \<Rightarrow> string \<Rightarrow> jsval option \<Rightarrow> snapshot_acc \<times> pool_client \<Rightarrow> snapshot_acc \<times> pool_client" where
  "take_record env scoped position modelType raw acc = (case acc of (a, s) \<Rightarrow> (case raw of
      Some (VObj _ _ ps) \<Rightarrow>
        (case healModelRecord env modelType (typed_record modelType ps) of
           None \<Rightarrow> (skip_record a, s)
         | Some (data, healed) \<Rightarrow>
             (let a1 = (if healed then a\<lparr>sa_healed := Suc (sa_healed a)\<rparr> else a);
                  a2 = listed_id modelType (record_id data) a1;
                  (ahead, s1) = keep_ahead env scoped position (record_id data) s
              in if ahead then (skip_record a2, s1)
                 else (case createFromData env data s1 of
                     (Some r, s2) \<Rightarrow> (a2\<lparr>sa_models := sa_models a2 @ [r]\<rparr>, advance_mark r position s2)
                   | (None, s2) \<Rightarrow> (a2, s2))))
    | _ \<Rightarrow> (skip_record a, s)))"

definition take_type :: "frame_env \<Rightarrow> bool \<Rightarrow> BootstrapSnapshot \<Rightarrow> string \<times> jsval \<Rightarrow> snapshot_acc \<times> pool_client \<Rightarrow> snapshot_acc \<times> pool_client" where
  "take_type env scoped snap entry acc = (case entry of (modelType, records) \<Rightarrow> (case acc of (a, s) \<Rightarrow>
     if modelType \<in> set (bs_failedModels snap) then (a, s)
     else let a1 = a\<lparr>sa_ids := AList.update modelType [] (sa_ids a)\<rparr>
          in case records of
               VArr items \<Rightarrow> fold (take_record env scoped (bs_lastSyncId snap) modelType) items (a1, s)
             | _ \<Rightarrow> (a1, s)))"

definition ghost_ids :: "string list \<Rightarrow> snapshot_acc \<Rightarrow> instance_cache \<Rightarrow> string list" where
  "ghost_ids protectedIds a c = concat (map (\<lambda>(modelType, serverIds).
     filter (\<lambda>i. i \<notin> set serverIds \<and> i \<notin> set protectedIds) (lookup_set modelType (ic_typeIndex c))) (sa_ids a))"

definition no_models :: snapshot_acc where
  "no_models = \<lparr>sa_models = [], sa_ids = [], sa_skipped = 0, sa_healed = 0\<rparr>"

definition no_rehydration :: rehydration where
  "no_rehydration = \<lparr>rh_added = 0, rh_updated = 0, rh_removed = 0, rh_skipped = 0, rh_healed = 0\<rparr>"

definition applyBootstrapDataToPool :: "frame_env \<Rightarrow> bool \<Rightarrow> string list \<Rightarrow> BootstrapSnapshot \<Rightarrow> pool_client \<Rightarrow> rehydration \<times> pool_client" where
  "applyBootstrapDataToPool env scoped protectedIds snap s = (case bs_models snap of
      None \<Rightarrow> (no_rehydration, s)
    | Some models \<Rightarrow>
        (let (a, s1) = fold (take_type env scoped snap) models (no_models, s);
             beforeSize = int (length (ic_entries (pc_cache s1)));
             s2 = with_cache (upsertBatch (fe_config env) (fe_now env) (sa_models a) ScopeLive) s1;
             added = int (length (ic_entries (pc_cache s2))) - beforeSize;
             (removed, s3) = (if scoped then (0, s2)
               else case removeBatch (ghost_ids protectedIds a (pc_cache s2)) (pc_cache s2) of (n, c) \<Rightarrow> (n, s2\<lparr>pc_cache := c\<rparr>));
             changed = remdups (map fst models)
         in (\<lparr>rh_added = added, rh_updated = int (length (sa_models a)) - added, rh_removed = removed,
              rh_skipped = sa_skipped a, rh_healed = sa_healed a\<rparr>,
             if changed = [] then s3 else emit_note (NoteChanged changed) s3)))"

definition applyBootstrapToPool :: "frame_env \<Rightarrow> bool \<Rightarrow> AppliedChange list \<Rightarrow> string list \<Rightarrow> BootstrapSnapshot \<Rightarrow> pool_client \<Rightarrow> rehydration \<times> pool_client" where
  "applyBootstrapToPool env partial deltaResults protectedIds snap s =
     (if partial then (no_rehydration, if deltaResults = [] then s else applyDeltaBatchToPool env deltaResults s)
      else applyBootstrapDataToPool env False protectedIds snap s)"

definition collectDeltaProtectedIds :: "string list \<Rightarrow> store_delta list \<Rightarrow> instance_cache \<Rightarrow> string list" where
  "collectDeltaProtectedIds preBootstrapIds queued c =
     filter (\<lambda>i. i \<notin> set preBootstrapIds) (map fst (ic_entries c)) @
     filter (\<lambda>i. i \<noteq> []) (map sd_modelId (filter (\<lambda>d. sd_actionType d \<noteq> ActD) queued))"

end
