(* ===== verification/PoolFrameProperties.thy ===== *)
theory PoolFrameProperties
  imports PoolFrames
begin

section \<open>What a frame does to the cache\<close>

text \<open>
  The collection of a frame's changes is followed change by change: which rows stay pooled, which
  instances it may write, what it puts on the lists of the reveal. The reveal then neither evicts nor
  writes when there is room, so that the whole frame is a function of each row's own changes.
\<close>

subsection \<open>What a frame may do to the client\<close>

definition client_ok :: "pool_client \<Rightarrow> bool" where
  "client_ok s \<longleftrightarrow> cache_ok (pc_cache s) \<and> (\<forall>i r. row_at (pc_cache s) i = Some r \<longrightarrow> r < pc_next s)"

text \<open>A function on instances that leaves what the indexes speak of.\<close>

definition keeps_identity :: "(model_obj \<Rightarrow> model_obj) \<Rightarrow> bool" where
  "keeps_identity f \<longleftrightarrow> (\<forall>m. mo_id (f m) = mo_id m \<and> mo_modelName (f m) = mo_modelName m \<and> mo_disposed (f m) = mo_disposed m)"

lemma keeps_identityD: "keeps_identity f \<Longrightarrow> mo_id (f m) = mo_id m \<and> mo_modelName (f m) = mo_modelName m \<and> mo_disposed (f m) = mo_disposed m"
  by (simp add: keeps_identity_def)

lemma identity_simple [simp]:
  "keeps_identity markAsSynced" "keeps_identity clearChanges" "keeps_identity (\<lambda>m. consumeModifiedFields (g m) m)"
  "keeps_identity (updateFromData newDate data)"
  by (simp_all add: keeps_identity_def markAsSynced_def clearChanges_def consumeModifiedFields_def)

lemma identity_project [simp]: "keeps_identity (projectModelRow cfg pending projection server)"
  by (simp add: keeps_identity_def projectModelRow_def Let_def markAsSynced_def clearChanges_def)

lemma identity_resolve [simp]: "keeps_identity (resolve_row env server)"
  unfolding keeps_identity_def resolve_row_def
  using keeps_identityD [OF identity_project] by (simp add: Let_def split: option.split)

text \<open>
  One state of the client extends another: the same rows are pooled, and whatever was allocated keeps its
  identity.
\<close>

definition same_identity :: "model_obj \<Rightarrow> model_obj \<Rightarrow> bool" where
  "same_identity m n \<longleftrightarrow> mo_id m = mo_id n \<and> mo_modelName m = mo_modelName n \<and> mo_disposed m = mo_disposed n"

definition extends :: "pool_client \<Rightarrow> pool_client \<Rightarrow> bool" where
  "extends s t \<longleftrightarrow> row_at (pc_cache t) = row_at (pc_cache s) \<and> map fst (ic_entries (pc_cache t)) = map fst (ic_entries (pc_cache s)) \<and>
     pc_next s \<le> pc_next t \<and> (\<forall>q < pc_next s. same_identity (row t q) (row s q))"

lemma extends_refl [simp]: "extends s s"
  by (simp add: extends_def same_identity_def)

lemma extends_trans: "extends s t \<Longrightarrow> extends t u \<Longrightarrow> extends s u"
  by (auto simp: extends_def same_identity_def)

lemma row_at_cong: "ic_entries c = ic_entries d \<Longrightarrow> row_at c = row_at d"
  by (simp add: row_at_def fun_eq_iff)

lemma write_row_frame:
  "row (write_row r f s) q = (if q = r then f (row s r) else row s q)"
  "pc_watermarks (write_row r f s) = pc_watermarks s" "pc_echoes (write_row r f s) = pc_echoes s" "pc_next (write_row r f s) = pc_next s"
  "row_at (pc_cache (write_row r f s)) = row_at (pc_cache s)" "ic_entries (pc_cache (write_row r f s)) = ic_entries (pc_cache s)"
  by (simp_all add: write_row_def with_cache_def row_def row_at_def fun_eq_iff)

lemma write_row_extends: "keeps_identity f \<Longrightarrow> extends s (write_row r f s)"
  by (simp add: extends_def write_row_frame same_identity_def keeps_identity_def)

lemma write_row_ok: "client_ok s \<Longrightarrow> keeps_identity f \<Longrightarrow> client_ok (write_row r f s)"
  using heap_ok [of "pc_cache s" "(ic_heap (pc_cache s))(r := f (ic_heap (pc_cache s) r))"] keeps_identityD [of f "ic_heap (pc_cache s) r"]
  by (simp add: client_ok_def write_row_def with_cache_def) (simp add: row_at_def)

lemma peek_frame:
  assumes "client_ok s" "0 < fe_now env" "client_peek env i s = (found, t)"
  shows "found = row_at (pc_cache s) i" "client_ok t" "extends s t" "row t = row s" "pc_echoes t = pc_echoes s"
    "pc_watermarks t = pc_watermarks s" "pc_next t = pc_next s"
proof -
  have ok: "cache_ok (pc_cache s)" using assms(1) by (simp add: client_ok_def)
  have t: "t = s\<lparr>pc_cache := snd (pool_get (fe_now env) i (pc_cache s))\<rparr>" "found = fst (pool_get (fe_now env) i (pc_cache s))"
    using assms(3) by (auto simp: client_peek_def pool_peek_def pool_get_def split: option.splits)
  show "found = row_at (pc_cache s) i"
    using live_is_entry [OF ok, of i] by (simp add: t(2) pool_get_def row_at_def split: option.split)
  have e: "ic_entries (pc_cache t) = ic_entries (pc_cache s)" "ic_heap (pc_cache t) = ic_heap (pc_cache s)"
    by (simp_all add: t(1) pool_get_def touchAccess_def split: option.split)
  show x: "extends s t" "row t = row s" "pc_echoes t = pc_echoes s" "pc_watermarks t = pc_watermarks s" "pc_next t = pc_next s"
    using e row_at_cong [OF e(1)] by (simp_all add: extends_def row_def fun_eq_iff same_identity_def) (simp_all add: t(1))
  have "cache_ok (pc_cache t)" using keeps_get [OF assms(2)] ok by (simp add: t(1) keeps_views_def)
  then show "client_ok t" using assms(1) x(1,5) by (simp add: client_ok_def extends_def)
qed

definition classes_ok :: "frame_env \<Rightarrow> bool" where
  "classes_ok env \<longleftrightarrow> list_all (\<lambda>(name, _). name \<noteq> []) (fe_classes env) \<and> 0 < fe_now env"

lemma allocate_frame:
  assumes "client_ok s" "allocate m s = (r, t)"
  shows "r = pc_next s" "client_ok t" "extends s t" "row t q = (if q = r then m else row s q)" "pc_echoes t = pc_echoes s"
    "pc_watermarks t = pc_watermarks s" "pc_next t = Suc (pc_next s)"
proof -
  have t: "r = pc_next s" "t = (write_row (pc_next s) (\<lambda>_. m) s)\<lparr>pc_next := Suc (pc_next s)\<rparr>" using assms(2) by (auto simp: allocate_def)
  show "r = pc_next s" by (rule t(1))
  show row: "row t q = (if q = r then m else row s q)" "pc_echoes t = pc_echoes s" "pc_watermarks t = pc_watermarks s"
    "pc_next t = Suc (pc_next s)" for q
    by (simp_all add: t write_row_def with_cache_def row_def)
  have "row_at (pc_cache t) = row_at (pc_cache s)" "ic_entries (pc_cache t) = ic_entries (pc_cache s)" by (simp_all add: t(2) write_row_frame)
  then show "extends s t" using t(1) row(1,4) by (simp add: extends_def same_identity_def)
  have "\<forall>i. row_at (pc_cache s) i \<noteq> Some (pc_next s)" using assms(1) by (fastforce simp: client_ok_def)
  from keeps_outside [OF this, of m] have "cache_ok (pc_cache t)"
    using assms(1) by (simp add: keeps_views_def client_ok_def t write_row_def with_cache_def)
  then show "client_ok t" using assms(1) \<open>extends s t\<close> row(4) by (fastforce simp: client_ok_def extends_def less_Suc_eq)
qed

text \<open>What \<open>createFromData\<close> does: nothing, a fresh instance, or a write to the resident row of that identifier and type.\<close>

lemma create_cases:
  assumes "createFromData env data s = (res, t)"
  obtains (unknown) "res = None" "t = s"
  | (fresh) cls s1 r where "map_of (fe_classes env) (record_name data) = Some cls"
      "s1 = s \<or> (\<exists>i found. client_peek env i s = (found, s1) \<and> data_get data ''id'' = VStr i \<and> map_of (ic_entries (pc_cache s)) i \<noteq> None)"
      "allocate (construct_model env (record_name data) (mc_fields cls) data (pc_next s1)) s1 = (r, t)" "res = Some r"
  | (resident) i r s1 where "data_get data ''id'' = VStr i" "client_peek env i s = (Some r, s1)" "res = Some r"
      "t = write_row r (updateFromData (px_newDate (fe_config env)) data) s1"
proof (cases "map_of (fe_classes env) (record_name data)")
  case None
  then show ?thesis using assms unknown by (simp add: createFromData_def Let_def)
next
  case (Some cls)
  let ?make = "\<lambda>s. case allocate (construct_model env (record_name data) (mc_fields cls) data (pc_next s)) s of (r, s1) \<Rightarrow> (Some r, s1)"
  have made: thesis if "?make s1 = (res, t)"
    "s1 = s \<or> (\<exists>i found. client_peek env i s = (found, s1) \<and> data_get data ''id'' = VStr i \<and> map_of (ic_entries (pc_cache s)) i \<noteq> None)" for s1
    using that fresh [OF Some that(2)] by (auto split: prod.splits)
  show ?thesis
  proof (cases "\<exists>i. data_get data ''id'' = VStr i \<and> i \<noteq> [] \<and> map_of (ic_entries (pc_cache s)) i \<noteq> None")
    case False
    then have "createFromData env data s = ?make s"
      using Some by (auto simp: createFromData_def Let_def split: jsval.split)
    then show ?thesis using made [of s] assms by simp
  next
    case True
    then obtain i where i: "data_get data ''id'' = VStr i" "i \<noteq> []" "map_of (ic_entries (pc_cache s)) i \<noteq> None" by blast
    obtain found s1 where p: "client_peek env i s = (found, s1)" by fastforce
    then have g: "pool_get (fe_now env) i (pc_cache s) = (found, pc_cache s1)" "s1 = s\<lparr>pc_cache := pc_cache s1\<rparr>"
      by (auto simp: client_peek_def pool_peek_def pool_get_def split: option.splits)
    show ?thesis
    proof (cases "\<exists>r. found = Some r \<and> mo_modelName (row s1 r) = record_name data")
      case True
      then obtain r where r: "found = Some r" "mo_modelName (row s1 r) = record_name data" by blast
      have "createFromData env data s = (Some r, write_row r (updateFromData (px_newDate (fe_config env)) data) s1)"
        using Some i r g(1) by (simp add: createFromData_def Let_def g(2) [symmetric])
      then show ?thesis using resident [OF i(1), of r s1] p r assms by simp
    next
      case False
      have "createFromData env data s = ?make s1"
        using Some i g(1) False by (cases found) (simp_all add: createFromData_def Let_def g(2) [symmetric])
      then show ?thesis using made [of s1] assms p i by fastforce
    qed
  qed
qed

lemma construct_usable: "name \<noteq> [] \<Longrightarrow> mo_modelName (construct_model env name fs data k) \<noteq> [] \<and> \<not> mo_disposed (construct_model env name fs data k)"
  by (simp add: construct_model_def Let_def)

lemma create_frame:
  assumes ok: "client_ok s" "classes_ok env" and create: "createFromData env data s = (res, t)"
  shows "client_ok t" "extends s t" "pc_echoes t = pc_echoes s" "pc_watermarks t = pc_watermarks s"
    and "q < pc_next s \<Longrightarrow> (\<And>i. data_get data ''id'' = VStr i \<Longrightarrow> row_at (pc_cache s) i \<noteq> Some q) \<Longrightarrow> row t q = row s q"
    and "res = Some r \<Longrightarrow> usable (pc_cache t) r \<and> r < pc_next t"
    and "res = Some r \<Longrightarrow> \<forall>i. data_get data ''id'' = VStr i \<longrightarrow> row_at (pc_cache s) i = None \<Longrightarrow>
      r = pc_next s \<and> (\<exists>cls. map_of (fe_classes env) (record_name data) = Some cls \<and>
        row t r = construct_model env (record_name data) (mc_fields cls) data (pc_next s))"
proof -
  have now: "0 < fe_now env" using ok(2) by (simp add: classes_ok_def)
  have all: "client_ok t \<and> extends s t \<and> pc_echoes t = pc_echoes s \<and> pc_watermarks t = pc_watermarks s \<and>
    (q < pc_next s \<longrightarrow> (\<forall>i. data_get data ''id'' = VStr i \<longrightarrow> row_at (pc_cache s) i \<noteq> Some q) \<longrightarrow> row t q = row s q) \<and>
    (res = Some r \<longrightarrow> usable (pc_cache t) r \<and> r < pc_next t) \<and>
    (res = Some r \<longrightarrow> (\<forall>i. data_get data ''id'' = VStr i \<longrightarrow> row_at (pc_cache s) i = None) \<longrightarrow>
      r = pc_next s \<and> (\<exists>cls. map_of (fe_classes env) (record_name data) = Some cls \<and>
        row t r = construct_model env (record_name data) (mc_fields cls) data (pc_next s)))"
    using create
  proof (cases rule: create_cases)
    case unknown
    then show ?thesis using ok by simp
  next
    case (fresh cls s1 r')
    have s1: "client_ok s1" "extends s s1" "row s1 = row s" "pc_echoes s1 = pc_echoes s" "pc_watermarks s1 = pc_watermarks s" "pc_next s1 = pc_next s"
      using fresh(2) ok(1) peek_frame [OF ok(1) now] by auto
    note a = allocate_frame [OF s1(1) fresh(3)]
    have "record_name data \<noteq> []" using ok(2) map_of_SomeD [OF fresh(1)] by (auto simp: classes_ok_def list_all_iff)
    then have "usable (pc_cache t) r'" using a(4) [of r'] construct_usable by (simp add: usable_def row_def)
    then show ?thesis using a s1 fresh(1,4) extends_trans [OF s1(2) a(3)] by auto
  next
    case (resident i r' s1)
    note pk = peek_frame [OF ok(1) now resident(2)]
    let ?f = "updateFromData (px_newDate (fe_config env)) data"
    have t: "client_ok t" "extends s t" "pc_echoes t = pc_echoes s" "pc_watermarks t = pc_watermarks s"
      "row t q = (if q = r' then ?f (row s r') else row s q)" "pc_next t = pc_next s" for q
      using write_row_ok [OF pk(2), of ?f r'] extends_trans [OF pk(3) write_row_extends [of ?f s1 r']] pk(4-7)
      by (simp_all add: resident(4) write_row_frame)
    have r: "row_at (pc_cache s) i = Some r'" using pk(1) by simp
    then have "r' < pc_next s" "\<not> mo_disposed (row s r')" "mo_modelName (row s r') \<noteq> []"
      using ok(1) by (auto simp: client_ok_def cache_ok_def rows_ok_def row_def)
    then have "usable (pc_cache t) r' \<and> r' < pc_next t" using t(5) [of r'] t(6) by (simp add: usable_def row_def)
    then show ?thesis using t(1-4) t(5) [of q] r resident(1,3) by auto
  qed
  show "client_ok t" "extends s t" "pc_echoes t = pc_echoes s" "pc_watermarks t = pc_watermarks s" using all by blast+
  show "q < pc_next s \<Longrightarrow> (\<And>i. data_get data ''id'' = VStr i \<Longrightarrow> row_at (pc_cache s) i \<noteq> Some q) \<Longrightarrow> row t q = row s q"
    using all by blast
  show "res = Some r \<Longrightarrow> usable (pc_cache t) r \<and> r < pc_next t" using all by blast
  show "res = Some r \<Longrightarrow> \<forall>i. data_get data ''id'' = VStr i \<longrightarrow> row_at (pc_cache s) i = None \<Longrightarrow>
      r = pc_next s \<and> (\<exists>cls. map_of (fe_classes env) (record_name data) = Some cls \<and>
        row t r = construct_model env (record_name data) (mc_fields cls) data (pc_next s))"
    using all by blast
qed


subsection \<open>Collecting the changes of a frame\<close>

text \<open>The effect of one change on the resident row it names; \<open>own\<close> says that it is the echo of an own write.\<close>

definition change_effect :: "frame_env \<Rightarrow> string list \<Rightarrow> bool \<times> AppliedChange \<Rightarrow> model_obj \<Rightarrow> model_obj" where
  "change_effect env doomed p m = (case p of (own, ch) \<Rightarrow>
     if own then (case ac_data ch of
         None \<Rightarrow> m
       | Some data \<Rightarrow>
           (let m1 = consumeModifiedFields (acknowledged_fields data m) m
            in markAsSynced (if ac_action ch = UpdateRow \<and> \<not> mo_disposed m \<and> ac_modelId ch \<notin> set doomed
                 then resolve_row env (fe_enrich env (ac_modelName ch) data) m1 else m1)))
     else if (ac_action ch = AddRow \<or> ac_action ch = UpdateRow) \<and> ac_modelId ch \<in> set doomed then m
     else (case ac_action ch of
         AddRow \<Rightarrow> markAsSynced m
       | UpdateRow \<Rightarrow> (case ac_data ch of None \<Rightarrow> m | Some data \<Rightarrow> resolve_row env (fe_enrich env (ac_modelName ch) data) m)
       | _ \<Rightarrow> m))"

definition lists_ok :: "frame_lists \<Rightarrow> pool_client \<Rightarrow> bool" where
  "lists_ok fl s \<longleftrightarrow> (\<forall>r \<in> set (fl_add fl). usable (pc_cache s) r \<and> r < pc_next s) \<and>
     (\<forall>r \<in> set (fl_upsert fl). row_at (pc_cache s) (mo_id (row s r)) = Some r)"

lemma lists_extend: "lists_ok fl s \<Longrightarrow> client_ok s \<Longrightarrow> extends s t \<Longrightarrow> lists_ok fl t"
proof -
  assume fl: "lists_ok fl s" and ok: "client_ok s" and x: "extends s t"
  have "usable (pc_cache t) r \<and> r < pc_next t" if "r \<in> set (fl_add fl)" for r
    using that fl x by (auto simp: lists_ok_def extends_def same_identity_def usable_def row_def)
  moreover have "row_at (pc_cache t) (mo_id (row t r)) = Some r" if "r \<in> set (fl_upsert fl)" for r
  proof -
    have r: "row_at (pc_cache s) (mo_id (row s r)) = Some r" using that fl by (simp add: lists_ok_def)
    then have "r < pc_next s" using ok by (auto simp: client_ok_def)
    then show ?thesis using r x by (simp add: extends_def same_identity_def)
  qed
  ultimately show ?thesis by (simp add: lists_ok_def)
qed

lemma resolve_frame:
  assumes "client_ok s" "resolveConflicts env r server s = t"
  shows "client_ok t" "extends s t" "pc_echoes t = pc_echoes s" "row t q = (if q = r then resolve_row env server (row s r) else row s q)"
    "pc_next t = pc_next s" "pc_watermarks t = pc_watermarks s"
proof -
  define w where "w = write_row r (resolve_row env server) s"
  have w: "client_ok w" "extends s w" using write_row_ok [OF assms(1)] write_row_extends by (simp_all add: w_def)
  obtain ns where t: "t = w\<lparr>pc_notes := ns\<rparr>"
  proof (cases "fe_prepared env (mo_modelName (row s r)) (mo_id (row s r)) = None \<and> \<not> gone_row server \<and> fe_merges env (mo_modelName (row s r))")
    case True
    then have "t = w\<lparr>pc_notes := pc_notes w @ [NoteReconcile (mo_modelName (row s r)) (mo_id (row s r))]\<rparr>"
      using assms(2) by (simp add: resolveConflicts_def Let_def emit_note_def w_def)
    then show ?thesis by (rule that)
  next
    case False
    then have "t = w" using assms(2) by (simp only: resolveConflicts_def Let_def w_def if_False)
    then show ?thesis using that [of "pc_notes w"] by simp
  qed
  show "client_ok t" "extends s t" using w by (simp_all add: t client_ok_def extends_def row_def)
  show "row t q = (if q = r then resolve_row env server (row s r) else row s q)"
    using write_row_frame(1) [of r "resolve_row env server" s q] by (simp add: t row_def w_def)
  show "pc_echoes t = pc_echoes s" "pc_next t = pc_next s" "pc_watermarks t = pc_watermarks s" by (simp_all add: t w_def write_row_frame)
qed


text \<open>A change after its echo check: what a step of the collection has to respect.\<close>

definition collects :: "frame_env \<Rightarrow> string list \<Rightarrow> bool \<Rightarrow> AppliedChange \<Rightarrow> frame_lists \<times> pool_client \<Rightarrow> frame_lists \<times> pool_client \<Rightarrow> bool" where
  "collects env doomed own ch ls lt \<longleftrightarrow> client_ok (snd lt) \<and> extends (snd ls) (snd lt) \<and> lists_ok (fst lt) (snd lt) \<and>
     pc_echoes (snd lt) = pc_echoes (snd ls) \<and>
     length (fl_add (fst lt)) \<le> length (fl_add (fst ls)) + (if fresh_add doomed (pc_cache (snd ls)) ch then 1 else 0) \<and>
     fl_remove (fst lt) = fl_remove (fst ls) @ (if \<not> own \<and> ac_action ch = RemoveRow then [ac_modelId ch] else []) \<and>
     (\<forall>r \<in> set (fl_add (fst lt)) - set (fl_add (fst ls)). \<not> own \<and> ac_action ch = AddRow \<and> ac_modelId ch \<notin> set doomed \<and>
        mo_id (row (snd lt) r) = ac_modelId ch)"

definition named :: "frame_env \<Rightarrow> AppliedChange \<Rightarrow> bool" where
  "named env ch \<longleftrightarrow> (ac_action ch = AddRow \<longrightarrow> (case ac_data ch of None \<Rightarrow> True
     | Some data \<Rightarrow> data_get (fe_enrich env (ac_modelName ch) (spread data [(''__typename'', VStr (ac_modelName ch))])) ''id'' = VStr (ac_modelId ch)))"

definition acts :: "frame_env \<Rightarrow> string list \<Rightarrow> bool \<Rightarrow> AppliedChange \<Rightarrow> pool_client \<Rightarrow> pool_client \<Rightarrow> bool" where
  "acts env doomed own ch s t \<longleftrightarrow> (\<forall>i r. row_at (pc_cache s) i = Some r \<longrightarrow>
     row t r = (if ac_modelId ch = i then change_effect env doomed (own, ch) (row s r) else row s r))"

lemma pooled_once: "client_ok s \<Longrightarrow> row_at (pc_cache s) i = Some r \<Longrightarrow> row_at (pc_cache s) j = Some r \<Longrightarrow> i = j"
  by (auto simp: client_ok_def intro: rows_distinct)

lemma acts_one:
  assumes "client_ok s" "row_at (pc_cache s) (ac_modelId ch) = Some r"
    and "\<And>q. row t q = (if q = r then change_effect env doomed (own, ch) (row s r) else row s q)"
  shows "acts env doomed own ch s t"
  using assms pooled_once [OF assms(1)] by (auto simp: acts_def)

lemma acts_none:
  assumes "row_at (pc_cache s) (ac_modelId ch) = None \<or> (\<forall>m. change_effect env doomed (own, ch) m = m)"
    and "\<And>i q. row_at (pc_cache s) i = Some q \<Longrightarrow> row t q = row s q"
  shows "acts env doomed own ch s t"
  using assms by (auto simp: acts_def)

lemma pushed:
  assumes ok: "client_ok s" "lists_ok fl s" and r: "row_at (pc_cache s) i = Some r" and push: "push_update env name r data (fl, s) = (gl, t)"
  shows "client_ok t" "extends s t" "lists_ok gl t" "pc_echoes t = pc_echoes s" "fl_add gl = fl_add fl" "fl_remove gl = fl_remove fl"
    "row t q = (if q = r then resolve_row env (fe_enrich env name data) (row s r) else row s q)" "pc_watermarks t = pc_watermarks s"
proof -
  have g: "gl = fl\<lparr>fl_upsert := fl_upsert fl @ [r]\<rparr>" and t: "resolveConflicts env r (fe_enrich env name data) s = t"
    using push by (simp_all add: push_update_def)
  note f = resolve_frame [OF ok(1) t]
  show "client_ok t" "extends s t" "pc_echoes t = pc_echoes s" "pc_watermarks t = pc_watermarks s"
    "row t q = (if q = r then resolve_row env (fe_enrich env name data) (row s r) else row s q)" by (rule f)+
  have "mo_id (row s r) = i" "r < pc_next s" using ok(1) r by (auto simp: client_ok_def cache_ok_def rows_ok_def row_def)
  then have "row_at (pc_cache t) (mo_id (row t r)) = Some r" using f(2) r by (auto simp: extends_def same_identity_def)
  then show "lists_ok gl t" using lists_extend [OF ok(2,1) f(2)] by (auto simp: g lists_ok_def)
  show "fl_add gl = fl_add fl" "fl_remove gl = fl_remove fl" by (simp_all add: g)
qed

lemma marks_frame: "client_ok (advance_mark r p s) = client_ok s" "extends s (advance_mark r p s)" "row (advance_mark r p s) = row s"
  "pc_echoes (advance_mark r p s) = pc_echoes s" "pc_cache (advance_mark r p s) = pc_cache s" "pc_next (advance_mark r p s) = pc_next s"
  by (simp_all add: advance_mark_def client_ok_def extends_def same_identity_def row_def fun_eq_iff)

lemma fresh_add_rows: "fresh_add doomed c ch \<longleftrightarrow> ac_action ch = AddRow \<and> ac_data ch \<noteq> None \<and> ac_modelId ch \<notin> set doomed \<and>
    row_at c (ac_modelId ch) = None"
  by (simp add: fresh_add_def row_at_def)

lemma foreign_update:
  assumes ok: "client_ok s" "lists_ok fl s" "classes_ok env" and upd: "ac_action ch = UpdateRow" and live: "ac_modelId ch \<notin> set doomed"
    and step: "foreign_change env ch (fl, s) = (gl, t)"
  shows "collects env doomed False ch (fl, s) (gl, t) \<and> acts env doomed False ch s t"
proof -
  obtain found s1 where p: "client_peek env (ac_modelId ch) s = (found, s1)" by fastforce
  have now: "0 < fe_now env" using ok(3) by (simp add: classes_ok_def)
  note pk = peek_frame [OF ok(1) now p]
  have ls: "lists_ok fl s1" by (rule lists_extend [OF ok(2,1) pk(3)])
  show ?thesis
  proof (cases "\<exists>r data. found = Some r \<and> ac_data ch = Some data")
    case True
    then obtain r data where rd: "found = Some r" "ac_data ch = Some data" by blast
    have r: "row_at (pc_cache s) (ac_modelId ch) = Some r" using pk(1) rd by simp
    then have r1: "row_at (pc_cache s1) (ac_modelId ch) = Some r" using pk(3) by (simp add: extends_def)
    have "\<not> mo_disposed (row s1 r)" using ok(1) r pk(4) by (auto simp: client_ok_def cache_ok_def rows_ok_def row_def)
    then have "push_update env (ac_modelName ch) r data (fl, s1) = (gl, t)" using step p rd upd by (simp add: foreign_change_def)
    note f = pushed [OF pk(2) ls r1 this]
    have eff: "row t q = (if q = r then change_effect env doomed (False, ch) (row s r) else row s q)" for q
      using f(7) [of q] pk(4) upd rd live by (simp add: change_effect_def)
    have "acts env doomed False ch s t" by (rule acts_one [OF ok(1) r eff])
    then show ?thesis using f(1-6) extends_trans [OF pk(3) f(2)] pk(5) upd by (simp add: collects_def)
  next
    case False
    then have e: "gl = fl" "t = s1" using step p upd by (auto simp: foreign_change_def split: option.splits)
    have "acts env doomed False ch s t"
      by (rule acts_none) (use False pk(1,4) upd live in \<open>auto simp: change_effect_def e split: option.split\<close>)
    then show ?thesis using pk ls e upd by (simp add: collects_def)
  qed
qed

lemma foreign_add:
  assumes ok: "client_ok s" "lists_ok fl s" "classes_ok env" and add: "ac_action ch = AddRow" and live: "ac_modelId ch \<notin> set doomed"
    and named: "named env ch" and step: "foreign_change env ch (fl, s) = (gl, t)"
  shows "collects env doomed False ch (fl, s) (gl, t) \<and> acts env doomed False ch s t"
proof -
  obtain found s1 where p: "client_peek env (ac_modelId ch) s = (found, s1)" by fastforce
  have now: "0 < fe_now env" using ok(3) by (simp add: classes_ok_def)
  note pk = peek_frame [OF ok(1) now p]
  have ls: "lists_ok fl s1" by (rule lists_extend [OF ok(2,1) pk(3)])
  show ?thesis
  proof (cases found)
    case (Some r)
    then have e: "gl = fl" "t = write_row r markAsSynced s1" using step p add by (simp_all add: foreign_change_def)
    have r: "row_at (pc_cache s) (ac_modelId ch) = Some r" using pk(1) Some by simp
    have x: "extends s1 t" "client_ok t" using write_row_extends write_row_ok [OF pk(2)] by (simp_all add: e)
    have eff: "row t q = (if q = r then change_effect env doomed (False, ch) (row s r) else row s q)" for q
      using add live by (simp add: e write_row_frame pk(4) change_effect_def)
    have "acts env doomed False ch s t" by (rule acts_one [OF ok(1) r eff])
    then show ?thesis
      using x extends_trans [OF pk(3) x(1)] lists_extend [OF ls pk(2) x(1)] pk(5) add by (simp add: collects_def e write_row_frame)
  next
    case None
    then have none: "row_at (pc_cache s) (ac_modelId ch) = None" using pk(1) by simp
    show ?thesis
    proof (cases "ac_data ch")
      case None
      then have e: "gl = fl" "t = s1" using step p add \<open>found = None\<close> by (simp_all add: foreign_change_def)
      have "acts env doomed False ch s t" by (rule acts_none) (use none pk(4) in \<open>simp_all add: e\<close>)
      then show ?thesis using pk ls add by (simp add: collects_def e)
    next
      case (Some data)
      let ?d = "fe_enrich env (ac_modelName ch) (spread data [(''__typename'', VStr (ac_modelName ch))])"
      obtain res s2 where c: "createFromData env ?d s1 = (res, s2)" by fastforce
      have id: "data_get ?d ''id'' = VStr (ac_modelId ch)" using named add Some by (simp add: named_def)
      note f = create_frame [OF pk(2) ok(3) c]
      have rows: "row s2 q = row s q" if "row_at (pc_cache s) i = Some q" for i q
      proof -
        have "q < pc_next s1" using that ok(1) pk(7) by (auto simp: client_ok_def)
        moreover have "row_at (pc_cache s1) (ac_modelId ch) \<noteq> Some q" using none pk(3) by (simp add: extends_def)
        ultimately show ?thesis using f(5) [of q] id pk(4) by simp
      qed
      have t: "row t = row s2" "pc_echoes t = pc_echoes s2" "extends s2 t" "client_ok t"
        using step p add \<open>found = None\<close> Some c f(1) marks_frame by (cases res; simp add: foreign_change_def; force)+
      have "acts env doomed False ch s t" by (rule acts_none) (use none rows t(1) in simp_all)
      moreover have "lists_ok gl t"
      proof -
        have old: "lists_ok fl t" by (rule lists_extend [OF ls pk(2) extends_trans [OF f(2) t(3)]])
        show ?thesis
        proof (cases res)
          case None
          then show ?thesis using step p add \<open>found = None\<close> Some c old by (simp add: foreign_change_def)
        next
          case r: (Some r)
          have e: "gl = fl\<lparr>fl_add := fl_add fl @ [r]\<rparr>" "t = advance_mark r (ac_syncId ch) s2"
            using step p add \<open>found = None\<close> Some c r by (simp_all add: foreign_change_def)
          then show ?thesis using old f(6) [OF r] by (auto simp: lists_ok_def marks_frame)
        qed
      qed
      moreover have "mo_id (row t r) = ac_modelId ch" if "r \<in> set (fl_add gl)" "r \<notin> set (fl_add fl)" for r
      proof -
        have r: "res = Some r" using that step p add \<open>found = None\<close> Some c by (cases res) (auto simp: foreign_change_def)
        have "row_at (pc_cache s1) (ac_modelId ch) = None" using none pk(3) by (simp add: extends_def)
        then have "\<forall>i. data_get ?d ''id'' = VStr i \<longrightarrow> row_at (pc_cache s1) i = None" using id by simp
        from f(7) [OF r this] have "mo_id (row s2 r) = ac_modelId ch" using id by (elim conjE exE) (simp add: construct_model_def Let_def)
        then show ?thesis using t(1) by simp
      qed
      moreover have "fresh_add doomed (pc_cache s) ch" using add live Some none by (simp add: fresh_add_def row_at_def)
      moreover have "length (fl_add gl) \<le> Suc (length (fl_add fl)) \<and> fl_remove gl = fl_remove fl"
        using step p add \<open>found = None\<close> Some c by (cases res) (auto simp: foreign_change_def)
      ultimately show ?thesis
        using t(2-4) f(3) pk(5) extends_trans [OF pk(3) extends_trans [OF f(2) t(3)]] add live by (simp add: collects_def)
    qed
  qed
qed


lemma foreign_step:
  assumes ok: "client_ok s" "lists_ok fl s" "classes_ok env" "named env ch"
    and live: "ac_action ch = AddRow \<or> ac_action ch = UpdateRow \<Longrightarrow> ac_modelId ch \<notin> set doomed"
    and step: "foreign_change env ch (fl, s) = (gl, t)"
  shows "collects env doomed False ch (fl, s) (gl, t) \<and> acts env doomed False ch s t"
proof (cases "ac_action ch")
  case RemoveRow
  then have e: "gl = fl\<lparr>fl_remove := fl_remove fl @ [ac_modelId ch]\<rparr>" "row t = row s" "pc_cache t = pc_cache s" "pc_next t = pc_next s" "pc_echoes t = pc_echoes s"
    using step by (auto simp: foreign_change_def row_def fun_eq_iff)
  have "acts env doomed False ch s t" by (rule acts_none) (use e RemoveRow in \<open>simp_all add: change_effect_def\<close>)
  moreover have "extends s t" "client_ok t" "lists_ok gl t"
    using ok e by (simp_all add: extends_def same_identity_def client_ok_def lists_ok_def)
  ultimately show ?thesis using RemoveRow e by (simp add: collects_def)
next
  case ArchiveRow
  then have e: "gl = fl\<lparr>fl_archive := fl_archive fl @ [ac_modelId ch]\<rparr>" "t = s" using step by (simp_all add: foreign_change_def)
  have "acts env doomed False ch s t" by (rule acts_none) (use e ArchiveRow in \<open>simp_all add: change_effect_def\<close>)
  then show ?thesis using ArchiveRow e ok by (simp add: collects_def lists_ok_def)
next
  case VerifyRow
  then have e: "gl = fl" "t = s" using step by (simp_all add: foreign_change_def)
  have "acts env doomed False ch s t" by (rule acts_none) (use e VerifyRow in \<open>simp_all add: change_effect_def\<close>)
  then show ?thesis using VerifyRow e ok by (simp add: collects_def)
qed (use foreign_add [OF ok(1-3) _ _ ok(4) step] foreign_update [OF ok(1-3) _ _ step] live in simp_all)

lemma pending_frame:
  "client_ok (s\<lparr>pc_pendingDeletes := ps\<rparr>) = client_ok s" "extends s (s\<lparr>pc_pendingDeletes := ps\<rparr>)" "row (s\<lparr>pc_pendingDeletes := ps\<rparr>) = row s"
  "client_ok (emit_note n s) = client_ok s" "extends s (emit_note n s)" "row (emit_note n s) = row s" "pc_cache (emit_note n s) = pc_cache s"
  "pc_echoes (emit_note n s) = pc_echoes s"
  "client_ok (s\<lparr>pc_echoes := u\<rparr>) = client_ok s" "extends s (s\<lparr>pc_echoes := u\<rparr>)" "row (s\<lparr>pc_echoes := u\<rparr>) = row s"
  by (simp_all add: client_ok_def extends_def same_identity_def row_def fun_eq_iff emit_note_def)

lemma echo_step:
  assumes ok: "client_ok s" "lists_ok fl s" "resident = row_at (pc_cache s) (ac_modelId ch)"
    and step: "own_echo env doomed ch resident (fl, s) = (gl, t)"
  shows "collects env doomed True ch (fl, s) (gl, t) \<and> acts env doomed True ch s t"
proof -
  define s0 where "s0 = (if ac_action ch = RemoveRow then s\<lparr>pc_pendingDeletes := removeAll (ac_modelId ch) (pc_pendingDeletes s)\<rparr> else s)"
  have s0: "client_ok s0" "extends s s0" "row s0 = row s" "pc_echoes s0 = pc_echoes s" "row_at (pc_cache s0) = row_at (pc_cache s)"
    using ok(1) by (simp_all add: s0_def pending_frame)
  have ls: "lists_ok fl s0" by (rule lists_extend [OF ok(2,1) s0(2)])
  show ?thesis
  proof (cases "\<exists>r data. resident = Some r \<and> ac_data ch = Some data")
    case False
    then have e: "gl = fl" "t = s0" using step by (auto simp: own_echo_def s0_def Let_def split: option.splits)
    have "acts env doomed True ch s t"
      by (rule acts_none) (use False ok(3) s0(3) in \<open>auto simp: change_effect_def e split: option.split\<close>)
    then show ?thesis using s0 ls by (simp add: collects_def e)
  next
    case True
    then obtain r data where rd: "resident = Some r" "ac_data ch = Some data" by blast
    have r: "row_at (pc_cache s) (ac_modelId ch) = Some r" using ok(3) rd by simp
    define s1 where "s1 = write_row r (\<lambda>m. consumeModifiedFields (acknowledged_fields data m) m) s0"
    have s1: "client_ok s1" "extends s0 s1" "pc_echoes s1 = pc_echoes s" "row_at (pc_cache s1) = row_at (pc_cache s)"
      "row s1 q = (if q = r then consumeModifiedFields (acknowledged_fields data (row s r)) (row s r) else row s q)" for q
      using write_row_ok [OF s0(1)] write_row_extends s0(3,4,5) by (simp_all add: s1_def write_row_frame)
    have ls1: "lists_ok fl s1" by (rule lists_extend [OF ls s0(1) s1(2)])
    define upd where "upd = (ac_action ch = UpdateRow \<and> \<not> mo_disposed (row s1 r) \<and> ac_modelId ch \<notin> set doomed)"
    have disposed: "mo_disposed (row s1 r) = mo_disposed (row s r)" using s1(5) [of r] by (simp add: consumeModifiedFields_def)
    obtain g2 s2 where p2: "(if upd then push_update env (ac_modelName ch) r data (fl, s1) else (fl, s1)) = (g2, s2)" by fastforce
    have r1: "row_at (pc_cache s1) (ac_modelId ch) = Some r" using r s1(4) by simp
    have s2: "client_ok s2" "extends s1 s2" "lists_ok g2 s2" "pc_echoes s2 = pc_echoes s1" "fl_add g2 = fl_add fl" "fl_remove g2 = fl_remove fl"
      "row s2 q = (if q = r \<and> upd then resolve_row env (fe_enrich env (ac_modelName ch) data) (row s1 r) else row s1 q)" for q
      using pushed [OF s1(1) ls1 r1, of env "ac_modelName ch" data g2 s2] p2 s1(1) ls1 by (cases upd; simp)+
    have "own_echo env doomed ch resident (fl, s) = (case (if upd then push_update env (ac_modelName ch) r data (fl, s1) else (fl, s1)) of
        (g, u) \<Rightarrow> (g, write_row r markAsSynced u))"
      unfolding own_echo_def upd_def s1_def s0_def Let_def by (simp add: rd)
    then have e: "gl = g2" "t = write_row r markAsSynced s2" using step p2 by simp_all
    have x: "extends s2 t" "client_ok t" using write_row_extends write_row_ok [OF s2(1)] by (simp_all add: e)
    have eff: "row t q = (if q = r then change_effect env doomed (True, ch) (row s r) else row s q)" for q
      using s2(7) [of q] s1(5) [of q] rd disposed
      by (cases "q = r") (simp_all add: e write_row_frame change_effect_def upd_def Let_def)
    have "acts env doomed True ch s t" by (rule acts_one [OF ok(1) r eff])
    then show ?thesis
      using x s2 s1(3) extends_trans [OF s0(2) extends_trans [OF s1(2) extends_trans [OF s2(2) x(1)]]] lists_extend [OF s2(3,1) x(1)]
      by (simp add: collects_def e write_row_frame)
  qed
qed


lemma collect_step:
  assumes ok: "client_ok s" "lists_ok fl s" "classes_ok env" "named env ch"
    and step: "collect_change env doomed ch (fl, s) = (gl, t)" and echo: "consumeEcho (ac_transactionId ch) (pc_echoes s) = (u, own)"
  shows "client_ok t" "extends s t" "lists_ok gl t" "pc_echoes t = u"
    and "length (fl_add gl) \<le> length (fl_add fl) + (if fresh_add doomed (pc_cache s) ch then 1 else 0)"
    and "fl_remove gl = fl_remove fl @ (if \<not> own \<and> ac_action ch = RemoveRow then [ac_modelId ch] else [])"
    and "acts env doomed own ch s t"
    and "r \<in> set (fl_add gl) \<Longrightarrow> r \<notin> set (fl_add fl) \<Longrightarrow> \<not> own \<and> ac_action ch = AddRow \<and> ac_modelId ch \<notin> set doomed \<and> mo_id (row t r) = ac_modelId ch"
proof -
  define s1 where "s1 = (if ac_action ch = RemoveRow then emit_note (NoteDelete (ac_modelId ch)) s else s)"
  have s1: "client_ok s1" "extends s s1" "row s1 = row s" "pc_echoes s1 = pc_echoes s" "pc_cache s1 = pc_cache s"
    using ok(1) by (simp_all add: s1_def pending_frame)
  obtain resident s2 where p: "client_peek env (ac_modelId ch) s1 = (resident, s2)" by fastforce
  have now: "0 < fe_now env" using ok(3) by (simp add: classes_ok_def)
  note pk = peek_frame [OF s1(1) now p]
  define s3 where "s3 = (case resident of None \<Rightarrow> s2 | Some r \<Rightarrow> advance_mark r (ac_syncId ch) s2)"
  have s3: "client_ok s3" "extends s2 s3" "row s3 = row s" "pc_echoes s3 = pc_echoes s" "pc_cache s3 = pc_cache s2"
    using pk(2,4,5) s1(3,4) by (simp_all add: s3_def marks_frame split: option.split)
  define s4 where "s4 = s3\<lparr>pc_echoes := u\<rparr>"
  have s4: "client_ok s4" "extends s s4" "row s4 = row s" "pc_echoes s4 = u" "row_at (pc_cache s4) = row_at (pc_cache s)"
    using s3 extends_trans [OF extends_trans [OF s1(2) extends_trans [OF pk(3) s3(2)]] pending_frame(10)] s1(5) pk(3)
    by (simp_all add: s4_def pending_frame(9,11)) (simp add: extends_def)
  have ls: "lists_ok fl s4" by (rule lists_extend [OF ok(2,1) s4(2)])
  have res: "resident = row_at (pc_cache s4) (ac_modelId ch)" using pk(1) s1(5) s4(5) by simp
  have step4: "collect_change env doomed ch (fl, s) = (if own then own_echo env doomed ch resident (fl, s4)
      else if (ac_action ch = AddRow \<or> ac_action ch = UpdateRow) \<and> ac_modelId ch \<in> set doomed then (fl, s4)
      else foreign_change env ch (fl, s4))"
    by (simp only: collect_change_def prod.case Let_def s1_def [symmetric] p s3_def [symmetric] s3(4) echo s4_def)
  have all: "collects env doomed own ch (fl, s4) (gl, t) \<and> acts env doomed own ch s4 t"
  proof (cases own)
    case True
    then show ?thesis using echo_step [OF s4(1) ls res] step step4 by simp
  next
    case False
    show ?thesis
    proof (cases "(ac_action ch = AddRow \<or> ac_action ch = UpdateRow) \<and> ac_modelId ch \<in> set doomed")
      case skip: True
      then have e: "gl = fl" "t = s4" using step step4 False by simp_all
      have "acts env doomed own ch s4 t" by (rule acts_none) (use skip False e in \<open>simp_all add: change_effect_def\<close>)
      then show ?thesis using s4(1) ls skip by (auto simp: collects_def e)
    next
      case live: False
      then show ?thesis using foreign_step [OF s4(1) ls ok(3,4), of doomed gl t] step step4 False by auto
    qed
  qed
  then show "client_ok t" "lists_ok gl t" "pc_echoes t = u"
    "length (fl_add gl) \<le> length (fl_add fl) + (if fresh_add doomed (pc_cache s) ch then 1 else 0)"
    "fl_remove gl = fl_remove fl @ (if \<not> own \<and> ac_action ch = RemoveRow then [ac_modelId ch] else [])"
    using s4(4,5) by (simp_all add: collects_def fresh_add_rows)
  show "r \<in> set (fl_add gl) \<Longrightarrow> r \<notin> set (fl_add fl) \<Longrightarrow> \<not> own \<and> ac_action ch = AddRow \<and> ac_modelId ch \<notin> set doomed \<and> mo_id (row t r) = ac_modelId ch"
    using all by (simp add: collects_def)
  show "extends s t" using all extends_trans [OF s4(2)] by (simp add: collects_def)
  show "acts env doomed own ch s t" using all s4(3,5) by (simp add: acts_def)
qed

text \<open>The changes of a frame, each with the verdict of the echo check in its turn.\<close>

fun flag_own :: "UnconfirmedWrites \<Rightarrow> AppliedChange list \<Rightarrow> (bool \<times> AppliedChange) list" where
  "flag_own u [] = []"
| "flag_own u (ch # chs) = (case consumeEcho (ac_transactionId ch) u of (u1, own) \<Rightarrow> (own, ch) # flag_own u1 chs)"

definition foreign_removals :: "UnconfirmedWrites \<Rightarrow> AppliedChange list \<Rightarrow> string list" where
  "foreign_removals u results = map (ac_modelId \<circ> snd) (filter (\<lambda>(own, ch). \<not> own \<and> ac_action ch = RemoveRow) (flag_own u results))"

definition added_ids :: "UnconfirmedWrites \<Rightarrow> string list \<Rightarrow> AppliedChange list \<Rightarrow> string list" where
  "added_ids u doomed results = map (ac_modelId \<circ> snd)
     (filter (\<lambda>(own, ch). \<not> own \<and> ac_action ch = AddRow \<and> ac_modelId ch \<notin> set doomed) (flag_own u results))"

definition fresh_adds :: "AppliedChange list \<Rightarrow> instance_cache \<Rightarrow> nat" where
  "fresh_adds results c = length (filter (fresh_add (ids_removed results) c) results)"

lemma collect_frame:
  assumes "client_ok s" "lists_ok fl s" "classes_ok env" "list_all (named env) results"
    and "fold (collect_change env doomed) results (fl, s) = (gl, t)"
  shows "client_ok t \<and> extends s t \<and> lists_ok gl t \<and> length (fl_add gl) \<le> length (fl_add fl) + length (filter (fresh_add doomed (pc_cache s)) results) \<and>
    fl_remove gl = fl_remove fl @ foreign_removals (pc_echoes s) results \<and>
    (\<forall>r \<in> set (fl_add gl) - set (fl_add fl). mo_id (row t r) \<in> set (added_ids (pc_echoes s) doomed results)) \<and>
    (\<forall>i r. row_at (pc_cache s) i = Some r \<longrightarrow>
       row t r = fold (change_effect env doomed) (filter (\<lambda>p. ac_modelId (snd p) = i) (flag_own (pc_echoes s) results)) (row s r))"
  using assms
proof (induction results arbitrary: fl s)
  case Nil
  then show ?case by (simp add: foreign_removals_def)
next
  case (Cons ch results)
  obtain fl1 s1 where 1: "collect_change env doomed ch (fl, s) = (fl1, s1)" by fastforce
  obtain u own where e: "consumeEcho (ac_transactionId ch) (pc_echoes s) = (u, own)" by fastforce
  note st = collect_step [OF Cons.prems(1-3) _ 1 e]
  have named: "named env ch" "list_all (named env) results" using Cons.prems(4) by simp_all
  note st = st [OF named(1)]
  have IH: "client_ok t \<and> extends s1 t \<and> lists_ok gl t \<and> length (fl_add gl) \<le> length (fl_add fl1) + length (filter (fresh_add doomed (pc_cache s1)) results) \<and>
    fl_remove gl = fl_remove fl1 @ foreign_removals (pc_echoes s1) results \<and>
    (\<forall>r \<in> set (fl_add gl) - set (fl_add fl1). mo_id (row t r) \<in> set (added_ids (pc_echoes s1) doomed results)) \<and>
    (\<forall>i r. row_at (pc_cache s1) i = Some r \<longrightarrow>
       row t r = fold (change_effect env doomed) (filter (\<lambda>p. ac_modelId (snd p) = i) (flag_own (pc_echoes s1) results)) (row s1 r))"
    by (rule Cons.IH [OF st(1,3) Cons.prems(3) named(2)]) (use Cons.prems(5) 1 in simp)
  have "row t r = fold (change_effect env doomed) (filter (\<lambda>p. ac_modelId (snd p) = i) (flag_own (pc_echoes s) (ch # results))) (row s r)"
    if r: "row_at (pc_cache s) i = Some r" for i r
  proof -
    have "row_at (pc_cache s1) i = Some r" using r st(2) by (simp add: extends_def)
    then show ?thesis using IH st(4,7) r e by (auto simp: acts_def)
  qed
  moreover have "mo_id (row t r) \<in> set (added_ids (pc_echoes s) doomed (ch # results))" if "r \<in> set (fl_add gl)" "r \<notin> set (fl_add fl)" for r
  proof (cases "r \<in> set (fl_add fl1)")
    case True
    have "r < pc_next s1" using st(3) True by (simp add: lists_ok_def)
    then have "mo_id (row t r) = mo_id (row s1 r)" using IH by (simp add: extends_def same_identity_def)
    then show ?thesis using st(8) [OF True that(2)] e by (simp add: added_ids_def)
  next
    case False
    then have "mo_id (row t r) \<in> set (added_ids (pc_echoes s1) doomed results)" using IH that(1) by blast
    then show ?thesis using st(4) e by (auto simp: added_ids_def)
  qed
  moreover have "fresh_add doomed (pc_cache s1) = fresh_add doomed (pc_cache s)"
    using st(2) by (intro ext) (simp add: fresh_add_rows extends_def)
  ultimately show ?case using IH st(2,4,5,6) extends_trans [OF st(2)] e by (auto simp: foreign_removals_def)
qed


subsection \<open>Revealing a frame\<close>

text \<open>With room for the rows a frame adds, nothing is evicted and no instance is written on the way.\<close>

lemma no_eviction:
  assumes "length (ic_entries c) + length rs \<le> px_maxSize cfg"
  shows "make_room cfg rs c = c"
proof -
  have "length (remdups (filter P (map f rs))) \<le> length rs" for P and f :: "nat \<Rightarrow> string"
    using le_trans [OF length_remdups_leq length_filter_le] by (metis length_map)
  from this [of "\<lambda>i. live_entry c i = None" "\<lambda>r. mo_id (ic_heap c r)"] show ?thesis
    using assms by (simp add: make_room_def Let_def)
qed

lemma add_row_frame:
  assumes "usable c r"
  shows "ic_heap (add_row now scope r c) = ic_heap c"
    "row_at (add_row now scope r c) j = (if j = mo_id (ic_heap c r) \<and> live_entry c j = None then Some r else row_at c j)"
proof -
  define i where "i = mo_id (ic_heap c r)"
  define m where "m = mo_modelName (ic_heap c r)"
  define d where "d = ensure_type m c"
  have d: "ic_heap d = ic_heap c" "row_at d = row_at c" "ic_entries d = ic_entries c" by (simp_all add: d_def)
  then have live: "live_entry d i = live_entry c i" by (simp add: live_entry_def cong: option.case_cong)
  have us: "usable d r" using assms d by (simp add: usable_def)
  have "ic_heap (add_row now scope r c) = ic_heap c \<and>
    row_at (add_row now scope r c) j = (if j = i \<and> live_entry c j = None then Some r else row_at c j)"
  proof (cases "live_entry c i")
    case None
    define e where "e = addToForeignKeyIndex i (ic_heap (store_entry r scope now d) r) m (store_entry r scope now d)"
    have "cache_core e = cache_core (store_entry r scope now d)" by (simp add: e_def)
    note f = core_fields [OF this]
    have st: "ic_heap (store_entry r scope now d) = ic_heap d" "row_at (store_entry r scope now d) j = (if j = i then Some r else row_at d j)"
      using stored_fields [OF us, of scope now] d(1) by (simp_all add: i_def)
    have "add_row now scope r c = notifyAdded m r e"
      using None live by (simp add: add_row_def batch_add_one_def Let_def i_def m_def d_def e_def)
    then show ?thesis
      using f(1,2) st d None by (auto simp: notifyAdded_def notify_views_def row_at_def)
  next
    case (Some e)
    have ent: "map_of (ic_entries d) i = Some e" using Some live by (auto simp: live_entry_def split: option.splits if_splits)
    have "add_row now scope r c = set_scope i e scope now d"
      using Some live by (simp add: add_row_def batch_add_one_def Let_def i_def m_def d_def)
    then show ?thesis
      using set_scope_row [OF ent] d Some by (auto simp: set_scope_def touchAccess_def)
  qed
  then show "ic_heap (add_row now scope r c) = ic_heap c"
    "row_at (add_row now scope r c) j = (if j = mo_id (ic_heap c r) \<and> live_entry c j = None then Some r else row_at c j)"
    by (simp_all add: i_def)
qed


lemma added_rows:
  fixes scope :: model_scope
  assumes "cache_ok c" "\<forall>r \<in> set rs. usable c r" "0 < now"
  defines "d \<equiv> fold (add_row now scope) rs c"
  shows "cache_ok d \<and> ic_heap d = ic_heap c \<and> (\<forall>i r. row_at c i = Some r \<longrightarrow> row_at d i = Some r) \<and>
    (\<forall>i r. row_at d i = Some r \<longrightarrow> row_at c i = Some r \<or> r \<in> set rs)"
  using assms(1,2) unfolding d_def
proof (induction rs arbitrary: c)
  case (Cons r rs)
  let ?c = "add_row now scope r c"
  have us: "usable c r" using Cons.prems(2) by simp
  note f = add_row_frame [OF us, of now scope]
  have "keeps_cache c ?c" using keeps_batch_add [OF us assms(3)] by (simp add: add_row_def)
  then have ok: "cache_ok ?c" using Cons.prems(1) by (simp add: keeps_cache_def)
  have "\<forall>q \<in> set rs. usable ?c q" using Cons.prems(2) f(1) by (simp add: usable_def)
  note IH = Cons.IH [OF ok this]
  have "row_at ?c i = Some q" if "row_at c i = Some q" for i q
    using that f(2) [of i] live_is_entry [OF Cons.prems(1), of i] by (auto simp: row_at_def)
  moreover have "row_at c i = Some q \<or> q = r" if "row_at ?c i = Some q" for i q using that f(2) [of i] by (auto split: if_splits)
  moreover have "row_at c i = Some q \<or> q \<in> set (r # rs)" if "row_at (fold (add_row now scope) rs ?c) i = Some q" for i q
    using that IH calculation(2) [of i q] by auto
  ultimately show ?case using IH f(1) by simp
qed simp

lemma upserted_rows:
  fixes scope :: model_scope and cfg :: pool_config
  assumes "cache_ok c" "\<forall>r \<in> set rs. row_at c (mo_id (ic_heap c r)) = Some r" "0 < now"
  defines "d \<equiv> fold (batch_upsert_one cfg now scope) rs c"
  shows "cache_ok d \<and> ic_heap d = ic_heap c \<and> row_at d = row_at c"
  using assms(1,2) unfolding d_def
proof (induction rs arbitrary: c)
  case (Cons r rs)
  let ?c = "batch_upsert_one cfg now scope r c"
  define i where "i = mo_id (ic_heap c r)"
  obtain e where e: "map_of (ic_entries c) i = Some e" "pe_model e = r" using Cons.prems(2) by (auto simp: row_at_def i_def)
  have up: "?c = upsert_existing cfg now r scope i e c"
    using e live_is_entry [OF Cons.prems(1), of i] by (simp add: batch_upsert_one_def Let_def i_def)
  have "hydrate_existing cfg r (pe_model e) c = c" by (simp add: hydrate_existing_def e(2))
  then have eq: "?c = notifyUpdated (mo_modelName (ic_heap (set_scope i e scope now c) r)) r (set_scope i e scope now c)"
    by (simp add: up upsert_existing_def e(2) Let_def)
  have heap: "ic_heap ?c = ic_heap c" unfolding eq by (simp add: notifyUpdated_def notify_views_def set_scope_def touchAccess_def)
  have "row_at ?c = row_at (set_scope i e scope now c)" unfolding eq by (rule row_at_cong) (simp add: notifyUpdated_def notify_views_def)
  then have rows: "row_at ?c = row_at c" using set_scope_row [OF e(1)] by simp
  have ok: "cache_ok ?c" using keeps_existing [OF e(1) assms(3), of cfg r scope] Cons.prems(1) by (simp add: up keeps_cache_def)
  show ?case using Cons.IH [OF ok] Cons.prems(2) heap rows by simp
qed simp

lemma removed_rows:
  fixes ids :: "string list"
  assumes "cache_ok c"
  defines "d \<equiv> fold (\<lambda>i c. snd (pool_remove i c)) ids c"
  shows "cache_ok d" "row_at d i = (if i \<in> set ids then None else row_at c i)"
    and "row_at c i = Some r \<Longrightarrow> i \<notin> set ids \<Longrightarrow> ic_heap d r = ic_heap c r" and "mo_id (ic_heap d q) = mo_id (ic_heap c q)"
proof -
  show "mo_id (ic_heap d q) = mo_id (ic_heap c q)"
    using assms(1) unfolding d_def by (induction ids arbitrary: c) (simp_all add: remove_ok remove_heap_frame(1))
  show "cache_ok d" unfolding d_def by (rule removes_ok [OF assms(1)])
  have "map_of (filter (\<lambda>(i, _). i \<notin> set ids) al) i = (if i \<in> set ids then None else map_of al i)" for al :: "(string \<times> pool_entry) list"
    by (induction al) auto
  then show "row_at d i = (if i \<in> set ids then None else row_at c i)"
    using removes_entries [OF assms(1), of ids] by (simp add: d_def row_at_def)
  show "row_at c i = Some r \<Longrightarrow> i \<notin> set ids \<Longrightarrow> ic_heap d r = ic_heap c r"
    using assms(1) unfolding d_def
  proof (induction ids arbitrary: c)
    case (Cons j ids)
    let ?c = "snd (pool_remove j c)"
    have keep: "ic_heap ?c r = ic_heap c r \<and> row_at ?c i = Some r"
    proof (cases "map_of (ic_entries c) j")
      case None
      then show ?thesis using Cons.prems by (simp add: pool_remove_def)
    next
      case (Some e)
      note f = removed_fields(1,3) [OF Cons.prems(3) Some]
      have "r \<noteq> pe_model e" using rows_distinct [OF Cons.prems(3) Cons.prems(1), of j] Some Cons.prems(2) by (auto simp: row_at_def)
      then show ?thesis using f Cons.prems(1,2) by (simp add: row_at_def AList.delete_conv')
    qed
    then show ?case using Cons.IH [of ?c] Cons.prems remove_ok [OF Cons.prems(3), of j] by simp
  qed simp
qed

lemma rescoped_rows:
  fixes scope :: model_scope and ids :: "string list"
  assumes "cache_ok c" "0 < now"
  defines "d \<equiv> fold (\<lambda>i. updateScope i scope now) ids c"
  shows "cache_ok d \<and> ic_heap d = ic_heap c \<and> row_at d = row_at c"
  using assms(1) unfolding d_def
proof (induction ids arbitrary: c)
  case (Cons i ids)
  let ?c = "updateScope i scope now c"
  have "cache_ok ?c" using keeps_set_scope [OF assms(2)] Cons.prems by (simp add: keeps_views_def)
  moreover have "ic_heap ?c = ic_heap c" by (simp add: updateScope_def set_scope_def touchAccess_def split: option.split)
  moreover have "row_at ?c = row_at c" using set_scope_row by (simp add: updateScope_def split: option.split)
  ultimately show ?case using Cons.IH [of ?c] by simp
qed simp

lemma reveal_frame:
  assumes ok: "client_ok s" "lists_ok fl s" "0 < fe_now env" and room: "length (ic_entries (pc_cache s)) + length (fl_add fl) \<le> px_maxSize (fe_config env)"
  defines "c \<equiv> pc_cache s" and "d \<equiv> reveal env fl (pc_cache s)"
  shows "cache_ok d" "i \<in> set (fl_remove fl) \<Longrightarrow> row_at d i = None"
    and "row_at c i = Some r \<Longrightarrow> i \<notin> set (fl_remove fl) \<Longrightarrow> row_at d i = Some r \<and> ic_heap d r = ic_heap c r"
    and "row_at d i = Some r \<Longrightarrow> row_at c i = Some r \<or> r \<in> set (fl_add fl)" and "mo_id (ic_heap d q) = mo_id (ic_heap c q)"
proof -
  define c1 where "c1 = fold (add_row (fe_now env) ScopeLive) (fl_add fl) c"
  define c2 where "c2 = fold (batch_upsert_one (fe_config env) (fe_now env) ScopeLive) (fl_upsert fl) c1"
  define c3 where "c3 = fold (\<lambda>i c. snd (pool_remove i c)) (fl_remove fl) c2"
  have d: "d = fold (\<lambda>i. updateScope i ScopeArchived (fe_now env)) (fl_archive fl) c3"
    using no_eviction [OF room] by (simp add: d_def reveal_def Let_def addBatch_is upsertBatch_def removeBatch_is c1_def c2_def c3_def c_def)
  have cok: "cache_ok c" using ok(1) by (simp add: client_ok_def c_def)
  have "\<forall>r \<in> set (fl_add fl). usable c r" using ok(2) by (simp add: lists_ok_def c_def)
  then have c1: "cache_ok c1 \<and> ic_heap c1 = ic_heap c \<and> (\<forall>i r. row_at c i = Some r \<longrightarrow> row_at c1 i = Some r) \<and>
      (\<forall>i r. row_at c1 i = Some r \<longrightarrow> row_at c i = Some r \<or> r \<in> set (fl_add fl))"
    using added_rows [OF cok _ ok(3)] by (simp add: c1_def)
  have "\<forall>r \<in> set (fl_upsert fl). row_at c1 (mo_id (ic_heap c1 r)) = Some r" using ok(2) c1 by (simp add: lists_ok_def c_def row_def)
  then have c2: "cache_ok c2 \<and> ic_heap c2 = ic_heap c1 \<and> row_at c2 = row_at c1"
    using upserted_rows [OF _ _ ok(3)] c1 by (simp add: c2_def)
  note c3 = removed_rows [of c2, where ids = "fl_remove fl", folded c3_def]
  have fin: "cache_ok d \<and> ic_heap d = ic_heap c3 \<and> row_at d = row_at c3"
    using rescoped_rows [OF _ ok(3)] c3(1) c2 by (simp add: d)
  show "mo_id (ic_heap d q) = mo_id (ic_heap c q)" using fin c3(4) [of q] c2 c1 by simp
  show "cache_ok d" using fin by simp
  show "i \<in> set (fl_remove fl) \<Longrightarrow> row_at d i = None" using fin c3(2) c2 by simp
  show "row_at c i = Some r \<Longrightarrow> i \<notin> set (fl_remove fl) \<Longrightarrow> row_at d i = Some r \<and> ic_heap d r = ic_heap c r"
    using fin c3(2,3) [of i] c2 c1 by simp
  show "row_at d i = Some r \<Longrightarrow> row_at c i = Some r \<or> r \<in> set (fl_add fl)"
    using fin c3(2) [of i] c2 c1 by (simp split: if_splits)
qed


subsection \<open>What a frame does\<close>

lemma finite_rows: "finite (dom (row_at c))"
proof -
  have "dom (row_at c) = dom (map_of (ic_entries c))" by (auto simp: row_at_def)
  then show ?thesis by (simp add: finite_dom_map_of)
qed

lemma entries_count: "cache_ok c \<Longrightarrow> length (ic_entries c) = card (dom (row_at c))"
proof -
  assume "cache_ok c"
  then have "distinct (map fst (ic_entries c))" by (simp add: cache_ok_def keys_ok_def)
  then have "length (ic_entries c) = card (fst ` set (ic_entries c))" by (metis distinct_card length_map set_map)
  moreover have "dom (row_at c) = fst ` set (ic_entries c)" by (simp add: dom_def row_at_dom)
  ultimately show ?thesis by simp
qed

lemma frame_rows:
  assumes ok: "client_ok s" "classes_ok env" "list_all (named env) results"
    and room: "length (ic_entries (pc_cache s)) + fresh_adds results (pc_cache s) \<le> px_maxSize (fe_config env)"
    and t: "t = applyDeltaBatchToPoolInAction env results s"
  shows "client_ok t \<and> length (ic_entries (pc_cache t)) \<le> length (ic_entries (pc_cache s)) + fresh_adds results (pc_cache s) \<and>
    (\<forall>i \<in> set (foreign_removals (pc_echoes s) results). row_at (pc_cache t) i = None) \<and>
    (\<forall>i r. row_at (pc_cache s) i = None \<and> row_at (pc_cache t) i = Some r \<longrightarrow> i \<in> set (added_ids (pc_echoes s) (ids_removed results) results)) \<and>
    (\<forall>i r. row_at (pc_cache s) i = Some r \<and> i \<notin> set (foreign_removals (pc_echoes s) results) \<longrightarrow>
       row_at (pc_cache t) i = Some r \<and>
       row t r = fold (change_effect env (ids_removed results)) (filter (\<lambda>p. ac_modelId (snd p) = i) (flag_own (pc_echoes s) results)) (row s r))"
proof -
  obtain fl s1 where f: "fold (collect_change env (ids_removed results)) results (no_lists, s) = (fl, s1)" by fastforce
  have now: "0 < fe_now env" using ok(2) by (simp add: classes_ok_def)
  have none: "lists_ok no_lists s" by (simp add: lists_ok_def no_lists_def)
  note c = collect_frame [OF ok(1) none ok(2,3) f]
  define d where "d = reveal env fl (pc_cache s1)"
  have t1: "pc_cache t = d" "pc_next t = pc_next s1" "row t = ic_heap d"
    using f by (simp_all add: t applyDeltaBatchToPoolInAction_def with_cache_def Let_def d_def emit_note_def row_def fun_eq_iff)
  have len: "length (ic_entries (pc_cache s1)) = length (ic_entries (pc_cache s))" using c by (metis extends_def length_map)
  have "length (ic_entries (pc_cache s1)) + length (fl_add fl) \<le> px_maxSize (fe_config env)"
    using room c len by (simp add: no_lists_def fresh_adds_def)
  note rv = reveal_frame [OF _ _ now this, folded d_def]
  have ok1: "client_ok s1" "lists_ok fl s1" "row_at (pc_cache s1) = row_at (pc_cache s)" using c by (simp_all add: extends_def)
  note rv = rv [OF ok1(1,2)]
  have rem: "fl_remove fl = foreign_removals (pc_echoes s) results" using c by (simp add: no_lists_def)
  have "r < pc_next t" if "row_at d i = Some r" for i r
    using rv(4) [OF that] ok1 t1(2) by (auto simp: lists_ok_def client_ok_def)
  then have "client_ok t" using rv(1) by (simp add: client_ok_def t1)
  moreover have "i \<in> set (added_ids (pc_echoes s) (ids_removed results) results)"
    if i: "row_at (pc_cache s) i = None" "row_at (pc_cache t) i = Some r" for i r
  proof -
    have r: "r \<in> set (fl_add fl)" using rv(4) [of i r] i ok1(3) t1(1) by simp
    then have "mo_id (row s1 r) \<in> set (added_ids (pc_echoes s) (ids_removed results) results)" using c by (simp add: no_lists_def)
    moreover have "mo_id (ic_heap d r) = i" using i(2) rv(1) t1(1) by (simp add: cache_ok_def rows_ok_def)
    then have "mo_id (row s1 r) = i" using rv(5) by (simp add: row_def)
    ultimately show ?thesis by simp
  qed
  moreover have "row_at (pc_cache t) i = Some r \<and>
       row t r = fold (change_effect env (ids_removed results)) (filter (\<lambda>p. ac_modelId (snd p) = i) (flag_own (pc_echoes s) results)) (row s r)"
    if "row_at (pc_cache s) i = Some r" "i \<notin> set (foreign_removals (pc_echoes s) results)" for i r
    using rv(3) [of i r] that rem ok1(3) c t1 by (simp add: row_def)
  moreover have "length (ic_entries (pc_cache t)) \<le> length (ic_entries (pc_cache s)) + fresh_adds results (pc_cache s)"
  proof -
    have keys: "dom (row_at d) \<subseteq> dom (row_at (pc_cache s)) \<union> (\<lambda>r. mo_id (ic_heap d r)) ` set (fl_add fl)"
    proof
      fix i assume "i \<in> dom (row_at d)"
      then obtain r where r: "row_at d i = Some r" by blast
      have "mo_id (ic_heap d r) = i" using rv(1) r by (simp add: cache_ok_def rows_ok_def)
      then show "i \<in> dom (row_at (pc_cache s)) \<union> (\<lambda>r. mo_id (ic_heap d r)) ` set (fl_add fl)" using rv(4) [OF r] ok1(3) by auto
    qed
    have ok0: "cache_ok (pc_cache s)" using ok(1) by (simp add: client_ok_def)
    have "card (dom (row_at d)) \<le> card (dom (row_at (pc_cache s)) \<union> (\<lambda>r. mo_id (ic_heap d r)) ` set (fl_add fl))"
      by (rule card_mono [OF _ keys]) (simp add: finite_rows)
    also have "\<dots> \<le> card (dom (row_at (pc_cache s))) + card ((\<lambda>r. mo_id (ic_heap d r)) ` set (fl_add fl))" by (rule card_Un_le)
    also have "\<dots> \<le> card (dom (row_at (pc_cache s))) + length (fl_add fl)"
      using card_image_le [of "set (fl_add fl)" "\<lambda>r. mo_id (ic_heap d r)"] card_length [of "fl_add fl"] by simp
    finally show ?thesis using entries_count [OF rv(1)] entries_count [OF ok0] c t1(1) by (simp add: no_lists_def fresh_adds_def)
  qed
  moreover have "row_at (pc_cache t) i = None" if "i \<in> set (foreign_removals (pc_echoes s) results)" for i
    using rv(2) that rem t1(1) by simp
  ultimately show ?thesis by blast
qed

text \<open>
  C4. A frame acts row by row: with room for the rows it adds, applying a frame of changes keeps the
  cache consistent; every row that another client removed is gone; a row that was not pooled appears only
  through an add of another client's that no removal in the frame names, so neither an own echo nor an
  update brings a deleted row back; and every other resident row stays, with exactly the frame's changes
  for that row applied to it in the order of the log and nothing else.
\<close>

theorem frame_acts_row_by_row:
  assumes ok: "client_ok s" "classes_ok env" "list_all (named env) results"
    and room: "length (ic_entries (pc_cache s)) + fresh_adds results (pc_cache s) \<le> px_maxSize (fe_config env)"
    and t: "t = applyDeltaBatchToPoolInAction env results s"
  shows "client_ok t \<and>
    (\<forall>i \<in> set (foreign_removals (pc_echoes s) results). row_at (pc_cache t) i = None) \<and>
    (\<forall>i r. row_at (pc_cache s) i = None \<and> row_at (pc_cache t) i = Some r \<longrightarrow> i \<in> set (added_ids (pc_echoes s) (ids_removed results) results)) \<and>
    (\<forall>i r. row_at (pc_cache s) i = Some r \<and> i \<notin> set (foreign_removals (pc_echoes s) results) \<longrightarrow>
       row_at (pc_cache t) i = Some r \<and>
       row t r = fold (change_effect env (ids_removed results)) (filter (\<lambda>p. ac_modelId (snd p) = i) (flag_own (pc_echoes s) results)) (row s r))"
  using frame_rows [OF ok room t] by blast


text \<open>A client over a cache that a script of calls has filled.\<close>

definition demo_frame_env :: "nat \<Rightarrow> frame_env" where
  "demo_frame_env n = \<lparr>fe_config = demo_config n, fe_now = 9, fe_classes = [(''Block'', \<lparr>mc_fields = [''pos''], mc_autoFill = [], mc_requiredFields = []\<rparr>)],
     fe_defineFields = True, fe_newId = (\<lambda>_. ''fresh''), fe_today = VDate None, fe_enrich = (\<lambda>_ data. data), fe_pending = [],
     fe_prepared = (\<lambda>_ _. None), fe_retained = (\<lambda>_ _. []), fe_merges = (\<lambda>_. False), fe_organizationId = ''org'', fe_userId = ''user''\<rparr>"

definition demo_client :: "instance_cache \<Rightarrow> pool_client" where
  "demo_client c = \<lparr>pc_cache = c, pc_next = 9, pc_watermarks = (\<lambda>_. None), pc_echoes = new_UnconfirmedWrites None, pc_pendingDeletes = [], pc_notes = []\<rparr>"

definition demo_record :: "string \<Rightarrow> int \<Rightarrow> model_data" where
  "demo_record i n = [(''id'', VStr i), (''pos'', VNum (Finite (of_int n)))]"

definition demo_row_change :: "applied_action \<Rightarrow> string \<Rightarrow> int \<Rightarrow> AppliedChange" where
  "demo_row_change a i n = \<lparr>ac_action = a, ac_modelName = ''Block'', ac_modelId = i,
     ac_data = (if a = RemoveRow then None else Some (demo_record i n)), ac_transactionId = None, ac_syncId = None\<rparr>"

lemma played_client:
  assumes "play (event_usable (demo_config n)) (demo_config n) evs (new_cache h) = Some c" and "list_all (\<lambda>(_, e). pe_model e < 9) (ic_entries c)"
  shows "client_ok (demo_client c)"
proof -
  have "cache_ok c" using cache_runs.holds [OF play_runs(1) [OF fresh_run assms(1)]] .
  moreover have "r < 9" if "row_at c i = Some r" for i r
    using that assms(2) by (auto simp: row_at_def list_all_iff dest!: map_of_SomeD)
  ultimately show ?thesis by (simp add: client_ok_def demo_client_def)
qed

theorem frame_acts_row_by_row_witness:
  "\<exists>s t. client_ok s \<and> t = applyDeltaBatchToPoolInAction (demo_frame_env 9) [demo_row_change UpdateRow ''a'' 7, demo_row_change RemoveRow ''b'' 0] s \<and>
     row_at (pc_cache s) ''b'' \<noteq> None \<and> row_at (pc_cache t) ''b'' = None \<and> row_at (pc_cache t) ''a'' = Some 0 \<and> getField (row t 0) ''pos'' = VNum (Finite 7)"
proof -
  let ?play = "play (event_usable (demo_config 9)) (demo_config 9) demo_script (new_cache demo_heap)"
  let ?frame = "[demo_row_change UpdateRow ''a'' 7, demo_row_change RemoveRow ''b'' 0]"
  let ?ok = "\<lambda>c. list_all (\<lambda>(_, e). pe_model e < 9) (ic_entries c) \<and> length (ic_entries c) + fresh_adds ?frame c \<le> 9"
  let ?row = "\<lambda>c. fold (change_effect (demo_frame_env 9) (ids_removed ?frame)) (filter (\<lambda>p. ac_modelId (snd p) = ''a'')
    (flag_own (new_UnconfirmedWrites None) ?frame)) (ic_heap c 0)"
  have "map_option (\<lambda>c. (?ok c, row_at c ''a'', row_at c ''b'', getField (?row c) ''pos'' = VNum (Finite 7))) ?play = Some (True, Some 0, Some 1, True)"
    by code_simp
  then obtain c where c: "?play = Some c" "?ok c" "row_at c ''a'' = Some 0" "row_at c ''b'' = Some 1" "getField (?row c) ''pos'' = VNum (Finite 7)" by auto
  let ?s = "demo_client c" and ?t = "applyDeltaBatchToPoolInAction (demo_frame_env 9) ?frame (demo_client c)"
  have ok: "client_ok ?s" using played_client [OF c(1)] c(2) by simp
  have env: "classes_ok (demo_frame_env 9)" "list_all (named (demo_frame_env 9)) ?frame" "px_maxSize (fe_config (demo_frame_env 9)) = 9"
    by (simp_all add: classes_ok_def demo_frame_env_def named_def demo_row_change_def demo_config_def)
  have rem: "foreign_removals (new_UnconfirmedWrites None) ?frame = [''b'']"
    by (simp add: foreign_removals_def demo_row_change_def consumeEcho_def)
  have "length (ic_entries (pc_cache ?s)) + fresh_adds ?frame (pc_cache ?s) \<le> px_maxSize (fe_config (demo_frame_env 9))"
    unfolding env(3) using c(2) by (simp add: demo_client_def)
  note f = frame_acts_row_by_row [OF ok env(1,2) this refl]
  have s: "pc_cache ?s = c" "pc_echoes ?s = new_UnconfirmedWrites None" "row ?s q = ic_heap c q" for q by (simp_all add: demo_client_def row_def)
  have "row_at (pc_cache ?t) ''b'' = None" using f unfolding s rem by simp
  moreover have "row_at (pc_cache ?t) ''a'' = Some 0 \<and> row ?t 0 = ?row c" using f c(3) unfolding s rem by simp
  ultimately show ?thesis using ok c(3-5) s(1) by (intro exI [of _ ?s] exI [of _ ?t]) simp
qed


text \<open>Admission to a cache nobody watches: what the projection keeps_cache.\<close>

lemma drop_fresh_filter: "filter P (drop_fresh P n xs) = drop n (filter P xs)"
  by (induction P n xs rule: drop_fresh.induct) (auto simp: drop_Cons split: nat.split)

lemma drop_fresh_rest: "(\<And>x. Q x \<Longrightarrow> \<not> P x) \<Longrightarrow> filter Q (drop_fresh P n xs) = filter Q xs"
  by (induction P n xs rule: drop_fresh.induct) auto

lemma drop_fresh_set: "set (drop_fresh P n xs) \<subseteq> set xs"
  by (induction P n xs rule: drop_fresh.induct) auto

definition unwatched :: "AppliedChange list \<Rightarrow> instance_cache \<Rightarrow> bool" where
  "unwatched results c = list_all (\<lambda>ch. ac_modelName ch \<notin> set (ic_subscriptions c) \<and> \<not> hasViews c (ac_modelName ch)) results"

lemma projected:
  fixes results :: "AppliedChange list"
  defines "kept cfg c \<equiv> projectDeltaBatchForPool cfg results c"
  shows "filter (\<lambda>ch. ac_action ch \<noteq> AddRow) (kept cfg c) = filter (\<lambda>ch. ac_action ch \<noteq> AddRow) results" "set (kept cfg c) \<subseteq> set results"
    "ids_removed (kept cfg c) = ids_removed results"
    and "unwatched results c \<Longrightarrow> fresh_adds (kept cfg c) c \<le> px_maxSize cfg - length (ic_entries c)"
proof -
  have rest: "filter Q (kept cfg c) = filter Q results" if "\<And>ch. Q ch \<Longrightarrow> ac_action ch \<noteq> AddRow" for Q cfg c
    using that by (auto simp: kept_def projectDeltaBatchForPool_def Let_def fresh_add_def intro!: drop_fresh_rest split: option.split)
  show "filter (\<lambda>ch. ac_action ch \<noteq> AddRow) (kept cfg c) = filter (\<lambda>ch. ac_action ch \<noteq> AddRow) results" by (rule rest)
  show "set (kept cfg c) \<subseteq> set results"
    by (auto simp: kept_def projectDeltaBatchForPool_def Let_def dest: subsetD [OF drop_fresh_set] split: option.splits)
  show ids: "ids_removed (kept cfg c) = ids_removed results" using rest [of "\<lambda>r. ac_action r = RemoveRow"] by (simp add: ids_removed_def)
  assume u: "unwatched results c"
  let ?fresh = "filter (fresh_add (ids_removed results) c) results"
  have "\<not> list_ex (\<lambda>m. m \<in> set (ic_subscriptions c) \<or> hasViews c m) (remdups (map ac_modelName ?fresh))"
    using u by (auto simp: unwatched_def list_ex_iff list_all_iff)
  then have "wireAddRetentionLimit cfg (remdups (map ac_modelName ?fresh)) c = Some (px_maxSize cfg - length (ic_entries c))"
    by (simp add: wireAddRetentionLimit_def)
  then have "filter (fresh_add (ids_removed results) c) (kept cfg c) = drop (length ?fresh - (px_maxSize cfg - length (ic_entries c))) ?fresh"
    by (simp add: kept_def projectDeltaBatchForPool_def drop_fresh_filter)
  then show "fresh_adds (kept cfg c) c \<le> px_maxSize cfg - length (ic_entries c)" by (simp add: fresh_adds_def ids)
qed



end
