(* ===== verification/PoolSnapshots.thy ===== *)
theory PoolSnapshots
  imports PoolFrameProperties
begin

section \<open>What a snapshot does to the cache\<close>

text \<open>
  Full bootstrap snapshots and scoped backfills: the records are followed one by one, then the upsert of
  their instances and the sweep of the rows the server no longer lists; and the frames and snapshots in
  which something a user sees is lost.
\<close>

subsection \<open>What a snapshot does\<close>

text \<open>An upsert of a batch of usable instances into a cache with room for all of them.\<close>

lemma upsert_one_room:
  fixes scope :: model_scope
  assumes ok: "cache_ok c" and r: "usable c r" and room: "length (ic_entries c) < px_maxSize cfg" and now: "0 < now"
  defines "d \<equiv> batch_upsert_one cfg now scope r c"
  shows "cache_ok d" "same_identity (ic_heap d q) (ic_heap c q)" "length (ic_entries d) \<le> Suc (length (ic_entries c))"
    "row_at c i = Some q \<Longrightarrow> row_at d i = Some q" "row_at d i = Some q \<Longrightarrow> row_at c i = Some q \<or> q = r"
    "row_at c i = Some q \<Longrightarrow> i \<noteq> mo_id (ic_heap c r) \<Longrightarrow> ic_heap d q = ic_heap c q"
proof -
  define i0 where "i0 = mo_id (ic_heap c r)"
  define m where "m = mo_modelName (ic_heap c r)"
  show dok: "cache_ok d" using keeps_batch_upsert [OF r now] ok by (simp add: keeps_cache_def d_def)
  have all: "same_identity (ic_heap d q) (ic_heap c q) \<and> (\<forall>j. row_at d j = (if j = i0 \<and> row_at c i0 = None then Some r else row_at c j)) \<and>
    (row_at c i0 \<noteq> Some q \<longrightarrow> ic_heap d q = ic_heap c q)" for q
  proof (cases "live_entry c i0")
    case (Some e)
    then have e: "map_of (ic_entries c) i0 = Some e" using live_is_entry [OF ok] by simp
    define h where "h = hydrate_existing cfg r (pe_model e) c"
    have he: "map_of (ic_entries h) i0 = Some e" "row_at h = row_at c" using e by (simp_all add: h_def hydrate_existing_def row_at_def fun_eq_iff)
    have eq: "d = notifyUpdated (mo_modelName (ic_heap (set_scope i0 e scope now h) (pe_model e))) (pe_model e) (set_scope i0 e scope now h)"
      using Some by (simp add: d_def batch_upsert_one_def Let_def i0_def upsert_existing_def h_def)
    have "ic_heap d = ic_heap h" unfolding eq by (simp add: notifyUpdated_def notify_views_def set_scope_def touchAccess_def)
    moreover have "row_at d = row_at (set_scope i0 e scope now h)" unfolding eq by (rule row_at_cong) (simp add: notifyUpdated_def notify_views_def)
    moreover have "same_identity (ic_heap h q) (ic_heap c q)" by (simp add: h_def hydrate_existing_def same_identity_def)
    moreover have "q \<noteq> pe_model e \<longrightarrow> ic_heap h q = ic_heap c q" by (simp add: h_def hydrate_existing_def)
    ultimately show ?thesis using set_scope_row [OF he(1)] he(2) e by (auto simp: row_at_def)
  next
    case None
    then have none: "row_at c i0 = None" using live_is_entry [OF ok] by (simp add: row_at_def)
    define k where "k = ensure_type m c"
    have k: "usable k r" "ic_heap k = ic_heap c" "row_at k = row_at c" "ic_entries k = ic_entries c"
      using r by (simp_all add: k_def usable_def)
    have eq: "d = notifyAdded m r (store_entry r scope now k)"
      using None room by (simp add: d_def batch_upsert_one_def Let_def i0_def m_def k_def)
    note st = stored_fields [OF k(1), of scope now]
    have "ic_heap d = ic_heap c" unfolding eq using st(1) k(2) by (simp add: notifyAdded_def notify_views_def)
    moreover have "row_at d = row_at (store_entry r scope now k)" unfolding eq by (rule row_at_cong) (simp add: notifyAdded_def notify_views_def)
    ultimately show ?thesis using st(3) k(2,3) none by (simp add: same_identity_def i0_def)
  qed
  then show "same_identity (ic_heap d q) (ic_heap c q)" "row_at c i = Some q \<Longrightarrow> row_at d i = Some q"
    "row_at d i = Some q \<Longrightarrow> row_at c i = Some q \<or> q = r" by (auto split: if_splits)
  show "ic_heap d q = ic_heap c q" if "row_at c i = Some q" "i \<noteq> mo_id (ic_heap c r)"
    using all [of q] rows_distinct [OF ok that(1), of i0] that(2) by (auto simp: i0_def)
  have "dom (row_at d) \<subseteq> insert i0 (dom (row_at c))" using all by auto
  then have "card (dom (row_at d)) \<le> card (insert i0 (dom (row_at c)))" by (rule card_mono [rotated]) (simp add: finite_rows)
  then show "length (ic_entries d) \<le> Suc (length (ic_entries c))"
    using entries_count [OF ok] entries_count [OF dok] finite_rows [of c]
    by (simp add: card_insert_if split: if_splits)
qed

lemma upsert_room:
  assumes "cache_ok c" "\<forall>r \<in> set rs. usable c r" "length (ic_entries c) + length rs \<le> px_maxSize cfg" "0 < now"
  shows "cache_ok (upsertBatch cfg now rs scope c) \<and> (\<forall>q. same_identity (ic_heap (upsertBatch cfg now rs scope c) q) (ic_heap c q)) \<and>
    (\<forall>i q. row_at c i = Some q \<longrightarrow> row_at (upsertBatch cfg now rs scope c) i = Some q) \<and>
    (\<forall>i q. row_at (upsertBatch cfg now rs scope c) i = Some q \<longrightarrow> row_at c i = Some q \<or> q \<in> set rs) \<and>
    (\<forall>i q. row_at c i = Some q \<and> i \<notin> (\<lambda>r. mo_id (ic_heap c r)) ` set rs \<longrightarrow> ic_heap (upsertBatch cfg now rs scope c) q = ic_heap c q)"
  using assms(1-3) unfolding upsertBatch_def
proof (induction rs arbitrary: c)
  case (Cons r rs)
  let ?c = "batch_upsert_one cfg now scope r c"
  have us: "usable c r" "length (ic_entries c) < px_maxSize cfg" using Cons.prems by simp_all
  note f = upsert_one_room [OF Cons.prems(1) us assms(4), where scope = scope]
  have use: "\<forall>q \<in> set rs. usable ?c q" using Cons.prems(2) f(2) by (simp add: usable_def same_identity_def)
  have len: "length (ic_entries ?c) + length rs \<le> px_maxSize cfg" using f(3) Cons.prems(3) by simp
  note IH = Cons.IH [OF f(1) use len]
  have ids: "mo_id (ic_heap ?c q) = mo_id (ic_heap c q)" for q using f(2) by (simp add: same_identity_def)
  have 1: "same_identity (ic_heap (fold (batch_upsert_one cfg now scope) rs ?c) q) (ic_heap c q)" for q
    using IH f(2) [of q] by (simp add: same_identity_def)
  have 2: "row_at (fold (batch_upsert_one cfg now scope) rs ?c) i = Some q" if "row_at c i = Some q" for i q using IH f(4) [OF that] by blast
  have 3: "row_at c i = Some q \<or> q \<in> set (r # rs)" if "row_at (fold (batch_upsert_one cfg now scope) rs ?c) i = Some q" for i q
  proof -
    have "row_at ?c i = Some q \<or> q \<in> set rs" using IH that by blast
    then show ?thesis using f(5) [of i q] by auto
  qed
  have 4: "ic_heap (fold (batch_upsert_one cfg now scope) rs ?c) q = ic_heap c q"
    if q: "row_at c i = Some q" "i \<notin> (\<lambda>r. mo_id (ic_heap c r)) ` set (r # rs)" for i q
  proof -
    have "i \<notin> (\<lambda>r. mo_id (ic_heap ?c r)) ` set rs" using q(2) ids by auto
    then have "ic_heap (fold (batch_upsert_one cfg now scope) rs ?c) q = ic_heap ?c q" using IH f(4) [OF q(1)] by blast
    moreover have "ic_heap ?c q = ic_heap c q" using f(6) [OF q(1)] q(2) by simp
    ultimately show ?thesis by simp
  qed
  have e: "fold (batch_upsert_one cfg now scope) (r # rs) c = fold (batch_upsert_one cfg now scope) rs ?c" by simp
  show ?case unfolding e using IH 1 2 3 4 by blast
qed (simp add: same_identity_def)


text \<open>Reading a record: the client afterwards, the instance it gives, and the identifier it lists.\<close>

definition reading_ok :: "pool_client \<Rightarrow> snapshot_acc \<times> pool_client \<Rightarrow> bool" where
  "reading_ok s0 p \<longleftrightarrow> client_ok (snd p) \<and> extends s0 (snd p) \<and> (\<forall>r \<in> set (sa_models (fst p)). usable (pc_cache (snd p)) r \<and> r < pc_next (snd p))"

definition listed :: "frame_env \<Rightarrow> string \<Rightarrow> jsval option \<Rightarrow> string option" where
  "listed env modelType raw = (case raw of
      Some (VObj _ _ ps) \<Rightarrow> (case healModelRecord env modelType (typed_record modelType ps) of None \<Rightarrow> None | Some (data, _) \<Rightarrow> record_id data)
    | _ \<Rightarrow> None)"

lemma listed_frame: "sa_models (listed_id m x a) = sa_models a" "sa_ids (listed_id m None a) = sa_ids a"
  "lookup_set k (sa_ids (listed_id m (Some i) a)) = (if k = m then set_add i (lookup_set m (sa_ids a)) else lookup_set k (sa_ids a))"
  by (simp_all add: listed_id_def lookup_set_update split: option.split)

lemma keep_ahead_frame:
  assumes ok: "client_ok s" "classes_ok env" and k: "keep_ahead env scoped position i s = (ahead, t)"
  shows "client_ok t" "extends s t" "row t = row s" "pc_watermarks t = pc_watermarks s" "pc_next t = pc_next s"
    "ahead \<longleftrightarrow> scoped \<and> (\<exists>j r. i = Some j \<and> row_at (pc_cache s) j = Some r \<and> isAheadOf (pc_watermarks s) r position)"
proof -
  have now: "0 < fe_now env" using ok(2) by (simp add: classes_ok_def)
  have all: "client_ok t \<and> extends s t \<and> row t = row s \<and> pc_watermarks t = pc_watermarks s \<and> pc_next t = pc_next s \<and>
    (ahead \<longleftrightarrow> scoped \<and> (\<exists>j r. i = Some j \<and> row_at (pc_cache s) j = Some r \<and> isAheadOf (pc_watermarks s) r position))"
  proof (cases "scoped \<and> i \<noteq> None")
    case True
    then obtain j where j: "i = Some j" by blast
    obtain found s1 where p: "client_peek env j s = (found, s1)" by fastforce
    note pk = peek_frame [OF ok(1) now p]
    have e: "t = s1" "ahead = (case found of None \<Rightarrow> False | Some r \<Rightarrow> isAheadOf (pc_watermarks s1) r position)"
      using k True p j by (auto simp: keep_ahead_def split: option.splits)
    have "ahead \<longleftrightarrow> (\<exists>r. row_at (pc_cache s) j = Some r \<and> isAheadOf (pc_watermarks s) r position)"
      using e(2) pk(1,6) by (auto split: option.splits)
    then show ?thesis using e(1) pk j True by simp
  next
    case False
    then have "t = s" "ahead = False" using k by (auto simp: keep_ahead_def split: option.splits if_splits)
    then show ?thesis using ok(1) False by auto
  qed
  then show "client_ok t" "extends s t" "row t = row s" "pc_watermarks t = pc_watermarks s" "pc_next t = pc_next s"
    "ahead \<longleftrightarrow> scoped \<and> (\<exists>j r. i = Some j \<and> row_at (pc_cache s) j = Some r \<and> isAheadOf (pc_watermarks s) r position)" by blast+
qed

text \<open>What a record may not touch in a scoped backfill: a row that is ahead.\<close>

definition spared :: "string \<Rightarrow> nat \<Rightarrow> pool_client \<Rightarrow> snapshot_acc \<times> pool_client \<Rightarrow> bool" where
  "spared i r s0 p \<longleftrightarrow> row (snd p) r = row s0 r \<and> pc_watermarks (snd p) r = pc_watermarks s0 r \<and>
     (\<forall>q \<in> set (sa_models (fst p)). mo_id (row (snd p) q) \<noteq> i)"

lemma created_id:
  assumes ok: "client_ok s" "classes_ok env" and c: "createFromData env data s = (Some r, t)"
  shows "mo_id (row t r) = (case data_get data ''id'' of VStr i \<Rightarrow> i | _ \<Rightarrow> fe_newId env (pc_next s))"
  using c
proof (cases rule: create_cases)
  case (fresh cls s1 r')
  have now: "0 < fe_now env" using ok(2) by (simp add: classes_ok_def)
  have s1: "client_ok s1" "pc_next s1 = pc_next s" using fresh(2) ok(1) peek_frame(2,7) [OF ok(1) now] by auto
  show ?thesis using allocate_frame(1,4) [OF s1(1) fresh(3)] fresh(4) s1(2) by (simp add: construct_model_def Let_def)
next
  case (resident i r' s1)
  have now: "0 < fe_now env" using ok(2) by (simp add: classes_ok_def)
  note pk = peek_frame [OF ok(1) now resident(2)]
  have "mo_id (row s r') = i" using ok(1) pk(1) by (auto simp: client_ok_def cache_ok_def rows_ok_def row_def)
  then show ?thesis using resident pk(4) by (simp add: write_row_frame)
qed simp


lemma create_spares:
  assumes ok: "client_ok s" "classes_ok env" and c: "createFromData env data s = (res, t)" and r: "row_at (pc_cache s) i = Some r"
    and other: "data_get data ''id'' \<noteq> VStr i" "\<forall>k. fe_newId env k \<noteq> i"
  shows "row t r = row s r \<and> (\<forall>q. res = Some q \<longrightarrow> mo_id (row t q) \<noteq> i \<and> q \<noteq> r)"
proof -
  have rn: "r < pc_next s" using r ok(1) by (simp add: client_ok_def)
  have keep: "row t r = row s r"
    using create_frame(5) [OF ok c rn] other(1) pooled_once [OF ok(1) r] by blast
  have "mo_id (row t q) \<noteq> i \<and> q \<noteq> r" if "res = Some q" for q
  proof -
    have "mo_id (row t q) = (case data_get data ''id'' of VStr i \<Rightarrow> i | _ \<Rightarrow> fe_newId env (pc_next s))"
      using created_id [OF ok] c that by simp
    then have ne: "mo_id (row t q) \<noteq> i" using other by (auto split: jsval.splits)
    moreover have "mo_id (row s r) = i" using r ok(1) by (simp add: client_ok_def cache_ok_def rows_ok_def row_def)
    ultimately show ?thesis using keep by auto
  qed
  then show ?thesis using keep by blast
qed

lemma take_record_frame:
  assumes ok: "reading_ok s0 (a, s)" "classes_ok env" and step: "take_record env scoped position m raw (a, s) = (b, t)"
  shows "reading_ok s0 (b, t)" "length (sa_models b) \<le> Suc (length (sa_models a))" "sa_ids b = sa_ids (listed_id m (listed env m raw) a)"
    and "scoped \<Longrightarrow> i \<noteq> [] \<Longrightarrow> \<forall>k. fe_newId env k \<noteq> i \<Longrightarrow> row_at (pc_cache s0) i = Some r \<Longrightarrow> isAheadOf (pc_watermarks s0) r position \<Longrightarrow>
      client_ok s0 \<Longrightarrow> spared i r s0 (a, s) \<Longrightarrow> spared i r s0 (b, t)"
proof -
  have cok: "client_ok s" "extends s0 s" and models: "\<forall>r \<in> set (sa_models a). usable (pc_cache s) r \<and> r < pc_next s"
    using ok(1) by (simp_all add: reading_ok_def)
  let ?spare = "scoped \<longrightarrow> i \<noteq> [] \<longrightarrow> (\<forall>k. fe_newId env k \<noteq> i) \<longrightarrow> row_at (pc_cache s0) i = Some r \<longrightarrow> isAheadOf (pc_watermarks s0) r position \<longrightarrow>
      client_ok s0 \<longrightarrow> spared i r s0 (a, s) \<longrightarrow> spared i r s0 (b, t)"
  have "reading_ok s0 (b, t) \<and> length (sa_models b) \<le> Suc (length (sa_models a)) \<and> sa_ids b = sa_ids (listed_id m (listed env m raw) a) \<and> ?spare"
  proof (cases "\<exists>x y ps data healed. raw = Some (VObj x y ps) \<and> healModelRecord env m (typed_record m ps) = Some (data, healed)")
    case False
    then have e: "b = skip_record a" "t = s" "listed env m raw = None"
      using step by (auto simp: take_record_def listed_def split: option.splits jsval.splits)
    then show ?thesis using ok(1) by (simp add: reading_ok_def skip_record_def listed_frame spared_def)
  next
    case True
    then obtain x y ps data healed where raw: "raw = Some (VObj x y ps)" "healModelRecord env m (typed_record m ps) = Some (data, healed)" by blast
    have li: "listed env m raw = record_id data" by (simp add: listed_def raw)
    define a2 where "a2 = listed_id m (record_id data) (if healed then a\<lparr>sa_healed := Suc (sa_healed a)\<rparr> else a)"
    have a2: "sa_models a2 = sa_models a" "sa_ids a2 = sa_ids (listed_id m (record_id data) a)"
      by (simp_all add: a2_def listed_frame) (simp add: listed_id_def split: option.split)
    obtain ahead s1 where k: "keep_ahead env scoped position (record_id data) s = (ahead, s1)" by fastforce
    note kf = keep_ahead_frame [OF cok(1) ok(2) k]
    have m1: "\<forall>r \<in> set (sa_models a). usable (pc_cache s1) r \<and> r < pc_next s1"
      using models kf(3,5) by (auto simp: usable_def row_def fun_eq_iff)
    have sp1: "spared i r s0 (a2, s1)" if "spared i r s0 (a, s)" using that kf(3,4) by (simp add: spared_def a2)
    show ?thesis
    proof (cases ahead)
      case True
      then have e: "b = skip_record a2" "t = s1" using step raw k by (simp_all add: take_record_def Let_def a2_def)
      then show ?thesis
        using kf(1) extends_trans [OF cok(2) kf(2)] m1 sp1 by (simp add: reading_ok_def skip_record_def a2 li spared_def)
    next
      case False
      obtain res s2 where c: "createFromData env data s1 = (res, s2)" by fastforce
      note cf = create_frame [OF kf(1) ok(2) c]
      have m2: "\<forall>r \<in> set (sa_models a). usable (pc_cache s2) r \<and> r < pc_next s2"
        using m1 cf(2) by (auto simp: extends_def same_identity_def usable_def row_def)
      have x2: "extends s0 s2" using extends_trans [OF cok(2) extends_trans [OF kf(2) cf(2)]] .
      have t: "pc_cache t = pc_cache s2" "pc_next t = pc_next s2"
        "b = (case res of None \<Rightarrow> a2 | Some r \<Rightarrow> a2\<lparr>sa_models := sa_models a2 @ [r]\<rparr>)"
        "pc_watermarks t = (case res of None \<Rightarrow> pc_watermarks s2 | Some r \<Rightarrow> wm_advance r position (pc_watermarks s2))"
        using step raw k c False by (auto simp: take_record_def Let_def a2_def advance_mark_def split: option.splits)
      then have rt: "row t = row s2" by (simp add: row_def fun_eq_iff)
      have x: "extends s0 t" "client_ok t" using x2 cf(1) t(1,2) rt by (simp_all add: extends_def client_ok_def)
      have "reading_ok s0 (b, t)" using x m2 cf(6) t a2 by (cases res) (auto simp: reading_ok_def)
      moreover have ?spare
      proof (intro impI)
        assume sc: scoped "i \<noteq> []" "\<forall>k. fe_newId env k \<noteq> i" and r: "row_at (pc_cache s0) i = Some r" "isAheadOf (pc_watermarks s0) r position"
          "client_ok s0" and sp: "spared i r s0 (a, s)"
        have rs: "row_at (pc_cache s) i = Some r" "row_at (pc_cache s1) i = Some r" using r(1) cok(2) kf(2) by (simp_all add: extends_def)
        have "isAheadOf (pc_watermarks s) r position" using r(2) sp by (auto simp: spared_def isAheadOf_def split: option.splits)
        then have other: "data_get data ''id'' \<noteq> VStr i" using False kf(6) sc(1,2) rs(1) by (auto simp: record_id_def)
        have keep: "row s2 r = row s1 r" and new: "\<And>q. res = Some q \<Longrightarrow> mo_id (row s2 q) \<noteq> i \<and> q \<noteq> r"
          using create_spares [OF kf(1) ok(2) c rs(2) other sc(3)] by auto
        have "mo_id (row s2 q) \<noteq> i" if "q \<in> set (sa_models a)" for q
        proof -
          have "mo_id (row s1 q) \<noteq> i" using sp1 [OF sp] that a2 by (simp add: spared_def)
          moreover have "q < pc_next s1" using m1 that by blast
          ultimately show ?thesis using cf(2) by (simp add: extends_def same_identity_def)
        qed
        moreover have "pc_watermarks t r = pc_watermarks s0 r"
          using t(4) cf(4) new sp1 [OF sp] by (cases res) (auto simp: spared_def wm_advance_def split: option.split)
        moreover have "row t r = row s0 r" using rt keep sp1 [OF sp] by (simp add: spared_def)
        ultimately show "spared i r s0 (b, t)" using new rt t(3) a2(1) by (cases res) (auto simp: spared_def)
      qed
      ultimately show ?thesis using t(3) a2 li by (cases res) simp_all
    qed
  qed
  then show "reading_ok s0 (b, t)" "length (sa_models b) \<le> Suc (length (sa_models a))" "sa_ids b = sa_ids (listed_id m (listed env m raw) a)"
    "scoped \<Longrightarrow> i \<noteq> [] \<Longrightarrow> \<forall>k. fe_newId env k \<noteq> i \<Longrightarrow> row_at (pc_cache s0) i = Some r \<Longrightarrow> isAheadOf (pc_watermarks s0) r position \<Longrightarrow>
      client_ok s0 \<Longrightarrow> spared i r s0 (a, s) \<Longrightarrow> spared i r s0 (b, t)" by blast+
qed


text \<open>A row that is ahead of the snapshot a scoped backfill brings.\<close>

definition ahead_row :: "frame_env \<Rightarrow> int option \<Rightarrow> string \<Rightarrow> nat \<Rightarrow> pool_client \<Rightarrow> bool" where
  "ahead_row env position i r s \<longleftrightarrow> i \<noteq> [] \<and> (\<forall>k. fe_newId env k \<noteq> i) \<and> row_at (pc_cache s) i = Some r \<and> isAheadOf (pc_watermarks s) r position"

lemma take_records_frame:
  assumes "reading_ok s0 (a, s)" "classes_ok env" "client_ok s0" "fold (take_record env scoped position m) items (a, s) = (b, t)"
  shows "reading_ok s0 (b, t) \<and> length (sa_models b) \<le> length (sa_models a) + length items \<and>
    (map_of (sa_ids a) k \<noteq> None \<longrightarrow> map_of (sa_ids b) k \<noteq> None) \<and>
    (k \<noteq> m \<longrightarrow> map_of (sa_ids b) k = map_of (sa_ids a) k) \<and>
    set (lookup_set m (sa_ids b)) = set (lookup_set m (sa_ids a)) \<union> set (List.map_filter (listed env m) items) \<and>
    (scoped \<and> ahead_row env position i r s0 \<and> spared i r s0 (a, s) \<longrightarrow> spared i r s0 (b, t))"
  using assms(1,4)
proof (induction items arbitrary: a s)
  case Nil
  then show ?case by (simp add: map_filter_simps)
next
  case (Cons raw items)
  obtain a1 s1 where 1: "take_record env scoped position m raw (a, s) = (a1, s1)" by fastforce
  note f = take_record_frame [OF Cons.prems(1) assms(2) 1]
  note IH = Cons.IH [OF f(1)]
  have ids: "map_of (sa_ids a1) k = (if k = m \<and> listed env m raw \<noteq> None then Some (lookup_set m (sa_ids a1)) else map_of (sa_ids a) k)" for k
    unfolding f(3) by (auto simp: listed_id_def update_conv' lookup_set_update lookup_set_def split: option.split)
  have set: "set (lookup_set m (sa_ids a1)) = set (lookup_set m (sa_ids a)) \<union> set_option (listed env m raw)"
    unfolding f(3) by (cases "listed env m raw") (auto simp: listed_frame set_add_def)
  have filter: "set (List.map_filter (listed env m) (raw # items)) = set_option (listed env m raw) \<union> set (List.map_filter (listed env m) items)"
    by (cases "listed env m raw") (simp_all add: map_filter_simps)
  have "spared i r s0 (a1, s1)" if "scoped \<and> ahead_row env position i r s0 \<and> spared i r s0 (a, s)"
    using that f(4) [of i r] assms(3) by (simp add: ahead_row_def)
  then show ?case using IH Cons.prems(2) 1 f(2) ids [of k] set filter by auto
qed

definition snapshot_ids :: "frame_env \<Rightarrow> string \<Rightarrow> jsval \<Rightarrow> string list" where
  "snapshot_ids env m records = (case records of VArr items \<Rightarrow> List.map_filter (listed env m) items | _ \<Rightarrow> [])"

definition record_count :: "jsval \<Rightarrow> nat" where
  "record_count records = (case records of VArr items \<Rightarrow> length items | _ \<Rightarrow> 0)"

lemma take_type_frame:
  assumes ok: "reading_ok s0 (a, s)" "classes_ok env" "client_ok s0" and step: "take_type env scoped snap (m, records) (a, s) = (b, t)"
  shows "reading_ok s0 (b, t) \<and> length (sa_models b) \<le> length (sa_models a) + record_count records \<and>
    (k \<noteq> m \<longrightarrow> map_of (sa_ids b) k = map_of (sa_ids a) k) \<and>
    (m \<notin> set (bs_failedModels snap) \<longrightarrow> map_of (sa_ids b) m \<noteq> None \<and> set (lookup_set m (sa_ids b)) = set (snapshot_ids env m records)) \<and>
    (m \<in> set (bs_failedModels snap) \<longrightarrow> map_of (sa_ids b) m = map_of (sa_ids a) m) \<and>
    (scoped \<and> ahead_row env (bs_lastSyncId snap) i r s0 \<and> spared i r s0 (a, s) \<longrightarrow> spared i r s0 (b, t))"
proof (cases "m \<in> set (bs_failedModels snap)")
  case True
  then have "b = a" "t = s" using step by (simp_all add: take_type_def)
  then show ?thesis using ok True by simp
next
  case False
  let ?a = "a\<lparr>sa_ids := AList.update m [] (sa_ids a)\<rparr>"
  have ok': "reading_ok s0 (?a, s)" using ok(1) by (simp add: reading_ok_def)
  have sp: "spared i r s0 (?a, s) = spared i r s0 (a, s)" by (simp add: spared_def)
  have ids: "map_of (sa_ids ?a) j = (if j = m then Some [] else map_of (sa_ids a) j)" "lookup_set m (sa_ids ?a) = []" for j
    by (simp_all add: update_conv' lookup_set_update)
  show ?thesis
  proof (cases "\<exists>items. records = VArr items")
    case True
    then obtain items where items: "records = VArr items" by blast
    have f: "fold (take_record env scoped (bs_lastSyncId snap) m) items (?a, s) = (b, t)" using step False items by (simp add: take_type_def Let_def)
    show ?thesis
      using take_records_frame [OF ok' ok(2,3) f, where k = k and i = i and r = r] take_records_frame [OF ok' ok(2,3) f, where k = m and i = i and r = r] ids sp False
      by (simp add: items snapshot_ids_def record_count_def)
  next
    case nope: False
    then have "(b, t) = (?a, s)" using step False by (cases records) (simp_all add: take_type_def Let_def)
    moreover have "snapshot_ids env m records = []" using nope by (cases records) (simp_all add: snapshot_ids_def)
    ultimately show ?thesis using ok' ids sp False by simp
  qed
qed

lemma take_types_frame:
  assumes "reading_ok s0 (a, s)" "classes_ok env" "client_ok s0" "distinct (map fst models)" "fold (take_type env scoped snap) models (a, s) = (b, t)"
  shows "reading_ok s0 (b, t) \<and> length (sa_models b) \<le> length (sa_models a) + sum_list (map (record_count \<circ> snd) models) \<and>
    (\<forall>k. k \<notin> fst ` set models - set (bs_failedModels snap) \<longrightarrow> map_of (sa_ids b) k = map_of (sa_ids a) k) \<and>
    (\<forall>(m, records) \<in> set models. m \<notin> set (bs_failedModels snap) \<longrightarrow>
       map_of (sa_ids b) m \<noteq> None \<and> set (lookup_set m (sa_ids b)) = set (snapshot_ids env m records)) \<and>
    (scoped \<and> ahead_row env (bs_lastSyncId snap) i r s0 \<and> spared i r s0 (a, s) \<longrightarrow> spared i r s0 (b, t))"
  using assms(1,4,5)
proof (induction models arbitrary: a s)
  case (Cons p models)
  obtain m records where p: "p = (m, records)" by fastforce
  obtain a1 s1 where 1: "take_type env scoped snap (m, records) (a, s) = (a1, s1)" by fastforce
  have f: "reading_ok s0 (a1, s1) \<and> length (sa_models a1) \<le> length (sa_models a) + record_count records \<and>
    (\<forall>k. k \<noteq> m \<longrightarrow> map_of (sa_ids a1) k = map_of (sa_ids a) k) \<and>
    (m \<notin> set (bs_failedModels snap) \<longrightarrow> map_of (sa_ids a1) m \<noteq> None \<and> set (lookup_set m (sa_ids a1)) = set (snapshot_ids env m records)) \<and>
    (m \<in> set (bs_failedModels snap) \<longrightarrow> map_of (sa_ids a1) m = map_of (sa_ids a) m) \<and>
    (scoped \<and> ahead_row env (bs_lastSyncId snap) i r s0 \<and> spared i r s0 (a, s) \<longrightarrow> spared i r s0 (a1, s1))"
    using take_type_frame [OF Cons.prems(1) assms(2,3) 1] by blast
  have d: "distinct (map fst models)" "m \<notin> fst ` set models" "fold (take_type env scoped snap) models (a1, s1) = (b, t)"
    using Cons.prems(2,3) 1 by (auto simp: p)
  have ok1: "reading_ok s0 (a1, s1)" using f by blast
  note IH = Cons.IH [OF ok1 d(1,3)]
  have m: "map_of (sa_ids b) m = map_of (sa_ids a1) m" using IH d(2) by blast
  then have "lookup_set m (sa_ids b) = lookup_set m (sa_ids a1)" by (simp add: lookup_set_def)
  moreover have "map_of (sa_ids b) k = map_of (sa_ids a) k" if "k \<notin> fst ` set (p # models) - set (bs_failedModels snap)" for k
    using that IH f m by (cases "k = m") (auto simp: p)
  ultimately show ?case using IH f m by (auto simp: p)
qed simp


definition snapshot_room :: "frame_env \<Rightarrow> (string \<times> jsval) list \<Rightarrow> pool_client \<Rightarrow> bool" where
  "snapshot_room env models s \<longleftrightarrow>
     length (ic_entries (pc_cache s)) + sum_list (map (record_count \<circ> snd) models) \<le> px_maxSize (fe_config env)"

text \<open>The cache between the upsert of a snapshot and the sweep of the ghosts.\<close>

lemma snapshot_upserted:
  assumes ok: "client_ok s" "classes_ok env" "distinct (map fst models)" "snapshot_room env models s"
    and f: "fold (take_type env scoped snap) models (no_models, s) = (a, s1)"
    and c: "c = upsertBatch (fe_config env) (fe_now env) (sa_models a) ScopeLive (pc_cache s1)"
  shows "cache_ok c" "row_at (pc_cache s) i = Some r \<Longrightarrow> row_at c i = Some r"
    "r < pc_next s \<Longrightarrow> same_identity (ic_heap c r) (row s r)" "row_at c i = Some r \<Longrightarrow> r < pc_next s1"
    and "scoped \<Longrightarrow> ahead_row env (bs_lastSyncId snap) i r s \<Longrightarrow> ic_heap c r = row s r"
proof -
  have start: "reading_ok s (no_models, s)" using ok(1) by (simp add: reading_ok_def no_models_def)
  note tt = take_types_frame [OF start ok(2,1,3) f]
  have s1: "client_ok s1" "extends s s1" "\<forall>r \<in> set (sa_models a). usable (pc_cache s1) r \<and> r < pc_next s1"
    using tt by (simp_all add: reading_ok_def)
  have now: "0 < fe_now env" using ok(2) by (simp add: classes_ok_def)
  have len: "length (ic_entries (pc_cache s1)) = length (ic_entries (pc_cache s))" using s1(2) by (metis extends_def length_map)
  have "length (sa_models a) \<le> sum_list (map (record_count \<circ> snd) models)" using tt by (simp add: no_models_def)
  then have "length (ic_entries (pc_cache s1)) + length (sa_models a) \<le> px_maxSize (fe_config env)"
    using ok(4) len by (simp add: snapshot_room_def)
  note up = upsert_room [OF _ _ this now, of ScopeLive, folded c]
  have "cache_ok (pc_cache s1)" "\<forall>r \<in> set (sa_models a). usable (pc_cache s1) r" using s1(1,3) by (simp_all add: client_ok_def)
  note up = up [OF this]
  show "cache_ok c" using up by blast
  show "row_at (pc_cache s) i = Some r \<Longrightarrow> row_at c i = Some r" using up s1(2) by (simp add: extends_def)
  show "r < pc_next s \<Longrightarrow> same_identity (ic_heap c r) (row s r)"
    using up s1(2) by (simp add: extends_def same_identity_def row_def)
  show "row_at c i = Some r \<Longrightarrow> r < pc_next s1" using up s1(1,3) unfolding client_ok_def by blast
  assume sc: scoped and ahead: "ahead_row env (bs_lastSyncId snap) i r s"
  have "spared i r s (no_models, s)" by (simp add: spared_def no_models_def)
  then have sp: "spared i r s (a, s1)" using tt [of i r] sc ahead by blast
  have "row_at (pc_cache s1) i = Some r" using ahead s1(2) by (simp add: ahead_row_def extends_def)
  moreover have "i \<notin> (\<lambda>r. mo_id (ic_heap (pc_cache s1) r)) ` set (sa_models a)" using sp by (auto simp: spared_def row_def)
  ultimately have "ic_heap c r = row s1 r" using up by (simp add: row_def)
  then show "ic_heap c r = row s r" using sp by (simp add: spared_def)
qed

lemma in_ghosts: "i \<in> set (ghost_ids protectedIds a c) \<longleftrightarrow>
    (\<exists>(m, ids) \<in> set (sa_ids a). i \<in> set (type_ids c m) \<and> i \<notin> set ids \<and> i \<notin> set protectedIds)"
  by (auto simp: ghost_ids_def type_ids_def)

lemma removed_name: "cache_ok c \<Longrightarrow> mo_modelName (ic_heap (fold (\<lambda>i c. snd (pool_remove i c)) ids c) q) = mo_modelName (ic_heap c q)"
  by (induction ids arbitrary: c) (simp_all add: remove_ok remove_heap_frame(2))


definition demo_snapshot :: "string list \<Rightarrow> (string \<times> int) list \<Rightarrow> BootstrapSnapshot" where
  "demo_snapshot failed rows = \<lparr>bs_models = Some [(''Block'', VArr (map (\<lambda>(i, n). Some (VObj True True (demo_record i n))) rows))],
     bs_failedModels = failed, bs_lastSyncId = Some 10\<rparr>"

lemma demo_classes: "classes_ok (demo_frame_env n)" "px_maxSize (fe_config (demo_frame_env n)) = n"
  by (simp_all add: classes_ok_def demo_frame_env_def demo_config_def)





subsection \<open>Frames and snapshots that lose something\<close>

text \<open>
  A row becomes resident only when the frame is revealed, so an update that follows the add of its row in
  the same frame finds no row and is dropped.
\<close>

theorem update_after_add_is_dropped:
  "let t = applyDeltaBatchToPoolInAction (demo_frame_env 9) [demo_row_change AddRow ''n'' 1, demo_row_change UpdateRow ''n'' 2] (demo_client (new_cache demo_heap))
   in row_at (pc_cache t) ''n'' = Some 9 \<and> getField (row t 9) ''pos'' = VNum (Finite 1)"
  by code_simp

text \<open>The removals of a frame are looked up without regard to order: a row added again after its removal is not pooled.\<close>

theorem readded_row_is_dropped:
  "let t = applyDeltaBatchToPoolInAction (demo_frame_env 9) [demo_row_change RemoveRow ''n'' 0, demo_row_change AddRow ''n'' 1] (demo_client (new_cache demo_heap))
   in row_at (pc_cache t) ''n'' = None"
  by code_simp

text \<open>
  All rows of a frame are written before any view hears of them. A view that moves the first of two
  updated rows searches a list in which the second is already out of place, and stays unsorted.
\<close>

definition shelf_heap :: "int \<Rightarrow> int \<Rightarrow> model_heap" where
  "shelf_heap x y r = (if r = 0 then demo_obj ''x'' x else if r = 1 then demo_obj ''a'' 10 else if r = 2 then demo_obj ''b'' 20
     else if r = 3 then demo_obj ''y'' y else demo_obj ''z'' 30)"

theorem two_updates_leave_view_unsorted:
  "\<exists>v. v = initialScan (shelf_heap 5 25) [0, 1, 2, 3, 4] (view_of_options ''Block'' (\<lambda>_. False) demo_options) \<and>
     qv_internal (handleUpdated (shelf_heap 35 100) 3 (handleUpdated (shelf_heap 35 100) 0 v)) = [1, 2, 0, 4, 3]"
  by (simp add: shelf_heap_def demo_options_def demo_view_defs view_eval)

text \<open>
  A full snapshot knows nothing of the writes that have not been sent: it overwrites an edited field with
  the server's value although the edit is still pending, and it removes a row that was created here.
\<close>

definition edited_heap :: model_heap where
  "edited_heap r = (demo_obj ''a'' 3)\<lparr>mo_modified := [(''pos'', VNum (Finite 3))]\<rparr>"

theorem full_snapshot_overwrites_unsent_edit:
  "let s = demo_client (cache_do (demo_config 9) 1 (PoolAdd 0 ScopeLive None) (new_cache edited_heap));
       t = snd (applyBootstrapDataToPool (demo_frame_env 9) False [] (demo_snapshot [] [(''a'', 1)]) s)
   in getField (row t 0) ''pos'' = VNum (Finite 1) \<and> mo_modified (row t 0) = [(''pos'', VNum (Finite 3))]"
  by code_simp

theorem full_snapshot_removes_unsent_row:
  "let s = demo_client (cache_do (demo_config 9) 1 (PoolAdd 0 ScopeLive None) (new_cache demo_heap));
       t = snd (applyBootstrapDataToPool (demo_frame_env 9) False [] (demo_snapshot [] []) s)
   in row_at (pc_cache s) ''a'' = Some 0 \<and> row_at (pc_cache t) ''a'' = None"
  by code_simp

end
