(* ===== verification/Spec2Isabelle.thy ===== *)
theory Spec2Isabelle
  imports Prelude ConnectionManager OperationProperties Positions BatchProcessing Batching ClaimStreamProperties ClaimGrant UndoScope DeltaPipeline PoolSnapshots
begin

text \<open>
  \<^bold>\<open>A verification library of Ablo\<close>

  Ablo is a sync engine for applications in which people and agents edit the same rows. The package
  \<open>packages/transaction\<close> is the headless core (commits, claims, versioned fields, transport) and
  \<open>packages/humans\<close> the reactive client that keeps a local copy of the rows; the other packages are the
  command line, a facade and wrappers of third-party services. This library models the client-side logic
  that decides whether edits are lost, repeated, reordered or shown wrongly. File names below are relative
  to \<open>src/packages/transaction/src\<close> (written \<open>T/\<close>) and \<open>src/packages/humans/src/local\<close> (written
  \<open>H/\<close>).

  \<^bold>\<open>How the program works.\<close>
  An edit of a row becomes a mutation of the mutation queue; an edit of a text or counter field becomes an
  operation of an operation session. Mutations wait in the execution queue, are taken in batches, sorted so
  that parents are created before children, bound to an envelope with an idempotency key, and sent; atomic
  commits go through a lane of their own. The answer completes a mutation, leaves it waiting for its echo,
  schedules a retry, or fails it and rolls the row back. The server's log comes back as deltas: the delta
  pipeline deduplicates and queues them, lands each batch in the local store, reveals the stored changes to
  the instance cache in slices that keep transactions whole, and acknowledges what is durable. The cache
  keeps the instances with its indexes and tells the open query views about every change. Snapshots
  (bootstrap) fill or refresh the cache. Claims announce that a participant works on a part of a row;
  a commit carries the evidence of its claim. Undo replays the inverse of recorded operations through the
  same queue. The connection manager carries the session across dropouts.

  \<^bold>\<open>Conventions of the model.\<close>
  \<^item> A class or closure with state is a \<open>record\<close>; a method is a function to the new state and, where it has
    them, its result and its list of effects (frames sent, callbacks, timers, reports).
  \<^item> A throw or a rejected promise is the left side of a sum (\<open>bindR\<close>, \<open>foldR\<close>, \<open>mapR\<close> of \<open>Prelude\<close>),
    an absent value is \<open>None\<close>.
  \<^item> The clock, random numbers, the server's answers, the model registry and third-party functions
    are arguments. Where a property needs something of them it is a hypothesis, and its witness
    instantiates the argument by a concrete function.
  \<^item> Asynchronous code is a labelled step relation: each callback, timer or completion of the host is a step
    of its own, so that every interleaving is a run (\<open>run\<close> of \<open>Prelude\<close>). Invariants are proved through
    the locale \<open>run_invariant\<close>, interpreted once per component.
  \<^item> A JavaScript \<open>Map\<close> whose order of insertion matters is an association list in that order, otherwise a
    partial function. Instances shared between the cache and its views live in an explicit heap.
  \<^item> JavaScript numbers are \<open>int\<close> or \<open>nat\<close> where the code only uses integers; where the code
    itself guards the safe-integer range (counters) the guard is written out.

  \<^bold>\<open>Theories and sources.\<close>

  \<^item> \<open>Prelude\<close>: results, list searches, association lists, lower-casing, runs.

  \<^item> \<open>ConnectionManager\<close> models \<open>T/transport/connection/manager.ts\<close>: transition table, entry actions,
    backoff, watchdog, listeners, completions. Over every run the counters stay in their bounds, a
    connected machine carries nothing of the last dropout, and a disposed one holds neither callbacks nor
    timers.

  \<^item> \<open>Operations\<close>, \<open>OperationSession\<close>, \<open>OperationContext\<close>, \<open>OperationField\<close>, \<open>CounterDomain\<close>,
    \<open>TextDomain\<close> model \<open>T/commit/operations/*\<close>, \<open>T/commit/counter/index.ts\<close> and \<open>T/commit/text/*\<close>. The
    locales \<open>operation_domain\<close>, \<open>convergent_domain\<close> and \<open>invertible_domain\<close> state what a session needs of
    a kind of field; the counter domain interprets all three. The functions of the text transformation
    library are arguments. \<open>OperationProperties\<close> shows that accepted edits extend the history by one version, that
    the session's own acknowledged edit is invisible to the reader, that remote edits move the optimistic
    value by the transformed operation, and that a flush delivers every pending edit.

  \<^item> \<open>JsonValues\<close> (\<open>T/utils/json.ts\<close>), \<open>CommitPayload\<close> (\<open>H/transactions/mutations/commitPayload.ts\<close>,
    \<open>modelBatch.ts\<close>), \<open>ExecutionQueue\<close> (\<open>executionQueue.ts\<close>), \<open>MutationStore\<close> (\<open>MutationStore.ts\<close>,
    \<open>coalesceRules.ts\<close>), \<open>DeltaConfirmation\<close> (\<open>UnconfirmedWrites.ts\<close>, \<open>deltaConfirmation.ts\<close>),
    \<open>FailureHandling\<close> (\<open>failurePolicy.ts\<close>, \<open>failureHandling.ts\<close>, \<open>processingScheduler.ts\<close>),
    \<open>CommitLane\<close> (\<open>commitLane.ts\<close>, \<open>commitTransport.ts\<close>), \<open>ForeignKeys\<close>
    (\<open>H/client/schemaConfig.ts\<close>) and \<open>BatchProcessing\<close> (\<open>batchProcessing.ts\<close>, with parts of
    \<open>MutationQueue.ts\<close>) are the way of a mutation to the server. Batches keep the order of each row, a
    retry replays its envelope unchanged, merging updates does not change their effect (locale
    \<open>row_effects\<close>), and whatever the server answers every member of a batch ends in a state from which
    something still happens to it or of which its caller was told (locale \<open>member_steps\<close>).

  \<^item> \<open>Batching\<close> models the scheduler of \<open>T/batching/index.ts\<close>: every promise is settled once or still
    tracked, and the limits on size and flights hold.

  \<^item> \<open>ClaimTargets\<close> (\<open>T/claims/targetConflict.ts\<close>, \<open>locator.ts\<close>, \<open>conflict.ts\<close>, \<open>admission.ts\<close>,
    \<open>T/commit/httpRequest.ts\<close>), \<open>ClaimStream\<close> with \<open>ClaimStreamProperties\<close>
    (\<open>H/sync/createClaimStream.ts\<close>, \<open>T/claims/lifetime.ts\<close>, \<open>T/utils/duration.ts\<close>) and \<open>ClaimGrant\<close>
    (\<open>T/claims/awaitGrant.ts\<close>, \<open>T/claims/heartbeat.ts\<close>, \<open>T/transport/http/claimWait.ts\<close>): when two claims
    conflict, whose evidence a commit carries, the life of a handle, of a heartbeat and of a wait.

  \<^item> \<open>UndoReplay\<close> (\<open>H/mutators/undoApply.ts\<close>, \<open>inverseOp.ts\<close>, \<open>H/transactions/operations/undo.ts\<close>) and
    \<open>UndoScope\<close> (\<open>H/mutators/UndoManager.ts\<close>): an undo is a three-way merge that leaves the collaborators'
    values, and its accepted steps are never submitted again.

  \<^item> \<open>Positions\<close> (\<open>H/logPosition.ts\<close>, \<open>H/rowWatermarks.ts\<close>, \<open>H/sync/persistedPrefix.ts\<close>,
    \<open>H/sync/syncCursor.ts\<close>): cursors that only move forward; the locale \<open>absorbing_calls\<close> gives once that
    order and repetition of the calls do not matter.

  \<^item> \<open>DeltaStore\<close> (the delta path of \<open>H/Database.ts\<close>) and \<open>DeltaPipeline\<close> (\<open>H/sync/deltaPipeline.ts\<close>):
    a batch lands like its deltas one by one, the reported position covers exactly the durable prefix, and
    the pipeline keeps the delivery protocol without losing a delta (locale \<open>pipeline_relation\<close>).

  \<^item> \<open>QueryView\<close> (\<open>H/views/incrementalView.ts\<close>, \<open>H/views/QueryView.ts\<close>): the incremental handlers keep
    a view equal to a fresh scan; the order on sort keys is the interpretation of the locale \<open>sort_order\<close>.

  \<^item> \<open>InstanceCache\<close> (\<open>H/InstanceCache.ts\<close>, \<open>H/views/ViewRegistry.ts\<close>, parts of \<open>H/Model.ts\<close>),
    \<open>InstanceCacheInvariants\<close> (the invariants \<open>cache_ok\<close> and \<open>views_ok\<close>, operation by operation) and
    \<open>InstanceCacheProperties\<close> (runs of calls: indexes agree, open views are exact, eviction takes the
    least recently used unobserved rows). The last also has the runs in which an index or a view goes
    stale: a clear, an archived row, a moved child, an instance stored after its own eviction.

  \<^item> \<open>PoolFrames\<close> (of \<open>H/SyncClient.ts\<close> the application of frames and snapshots, with the row projection,
    the construction of instances and \<open>bootstrapApply.ts\<close>), \<open>PoolFrameProperties\<close> (a frame acts on each
    row as a small specification says; a frame nobody watches fits the capacity) and \<open>PoolSnapshots\<close> (a full
    snapshot leaves no ghost rows; a scoped one does not set newer rows back). The theorems on
    frames and snapshots assume room for what is added, or show the cut that makes it: when a batch has to evict, an instance of the same batch may be
    disposed and then stored, which \<open>batch_stores_evicted_instance\<close> shows.

  \<^bold>\<open>Loops, fuel and bounds.\<close>
  The loops are structural or have a termination proof (\<open>send\<close>, \<open>slice_loop\<close>, \<open>binary_loop\<close>,
  \<open>replayValue\<close>). The recursion of Tarjan's algorithm in \<open>ForeignKeys\<close> has the depth of nested calls as
  fuel, and the number of models is shown to be enough on every schema. The waits and
  the retries are driven by lists of answers, and every property that something happens is stated as such,
  not under the condition that the code returns.

  \<^bold>\<open>Not modelled.\<close>
  The HTTP and WebSocket transports are request plumbing and socket I/O around the state machines modelled
  here. The rest of \<open>SyncClient.ts\<close> and \<open>BaseSyncedStore.ts\<close> wires the modelled parts together with MobX
  observables and timers. The IndexedDB layer is calls of the browser's store; what it answers is the
  environment of the delta store. Bootstrap fetching and on-demand loading are streaming network reads
  whose results enter through the modelled snapshots. The error registry is a table of texts; the codes
  that decide behaviour appear where they are tested. The schema language builds Zod objects and prints SQL
  and OpenAPI text; of it the relation graph is used. The model registry is metadata and MobX classes.
  React bindings, authentication and keys, sources and adapters, the command line, error reporting and
  analytics are user interface, cryptography or bindings to third-party code.
\<close>

end
